(* ===== verification/Prelude.thy ===== *)
theory Prelude
  imports Main "HOL-Library.Word"
begin

text \<open>
  Shared ground of the development: the machine integers of \<^verbatim>\<open>include/types.h\<close>, the ways
  in which kernel code can go wrong (a failed \<^verbatim>\<open>assert\<close>, a NULL dereference, an access
  outside an object, a division by zero, a shift by the width or more, a deadlock, an
  exhausted stack), the result type
  every fallible operation returns, and the generic lemmas on lists and words that the
  component theories use.
\<close>

unbundle bit_operations_syntax

type_synonym u8 = "8 word"
type_synonym u16 = "16 word"
type_synonym u32 = "32 word"
type_synonym u64 = "64 word"

text \<open>
  The faults. Each stands for a behaviour the C++ text has but no value describes: the
  assertion handler never returns, a wild access is undefined, a lock that is already held
  spins for ever, an unbounded recursion runs off the kernel stack.
\<close>

datatype fault =
    Assert_fail
  | Null_deref
  | Out_of_bounds
  | Div_by_zero
  | Signed_overflow
  | Bad_shift
  | Uninit_read
  | Deadlock
  | Stack_overflow
  | Hang

type_synonym 'a res = "fault + 'a"

definition rbind :: "'a res \<Rightarrow> ('a \<Rightarrow> 'b res) \<Rightarrow> 'b res" where
  "rbind m k = (case m of Inl e \<Rightarrow> Inl e | Inr x \<Rightarrow> k x)"

text \<open>\<^verbatim>\<open>assert(e)\<close> of \<^verbatim>\<open>stdlib/assert.h\<close>: nothing when the condition holds, else no return.\<close>

definition kassert :: "bool \<Rightarrow> unit res" where
  "kassert b = (if b then Inr () else Inl Assert_fail)"

named_theorems res_simps "unfolding of the result type"

lemma rbind_Inl [simp]: "rbind (Inl e) k = Inl e"
  by (simp add: rbind_def)

lemma rbind_Inr [simp]: "rbind (Inr x) k = k x"
  by (simp add: rbind_def)

lemma rbind_eq_Inr [res_simps]: "rbind m k = Inr y \<longleftrightarrow> (\<exists>x. m = Inr x \<and> k x = Inr y)"
  by (cases m) auto

lemma rbind_eq_InrE:
  assumes "rbind m k = Inr y"
  obtains x where "m = Inr x" and "k x = Inr y"
  using assms by (auto simp: rbind_eq_Inr)

lemma rbind_eq_Inl [res_simps]:
  "rbind m k = Inl e \<longleftrightarrow> m = Inl e \<or> (\<exists>x. m = Inr x \<and> k x = Inl e)"
  by (cases m) auto

lemma rbind_assoc: "rbind (rbind m f) g = rbind m (\<lambda>x. rbind (f x) g)"
  by (cases m) auto

lemma rbind_cong [fundef_cong]:
  "m = m' \<Longrightarrow> (\<And>x. m' = Inr x \<Longrightarrow> k x = k' x) \<Longrightarrow> rbind m k = rbind m' k'"
  by (cases m') auto

lemma kassert_simps [simp]:
  "kassert True = Inr ()" "kassert False = Inl Assert_fail"
  by (simp_all add: kassert_def)

lemma kassert_eq_Inr [simp]: "kassert b = Inr u \<longleftrightarrow> b"
  by (auto simp: kassert_def)

lemma kassert_eq_Inl [simp]: "kassert b = Inl e \<longleftrightarrow> \<not> b \<and> e = Assert_fail"
  by (auto simp: kassert_def)

text \<open>\<open>all_res Q m\<close>: when \<open>m\<close> returns, its result satisfies \<open>Q\<close>; the rules follow the code.\<close>

definition all_res :: "('a \<Rightarrow> bool) \<Rightarrow> 'a res \<Rightarrow> bool" where
  "all_res Q m \<longleftrightarrow> (\<forall>x. m = Inr x \<longrightarrow> Q x)"

named_theorems all_res_intros "one rule for each construct of the code"

lemma all_resD: "all_res Q m \<Longrightarrow> m = Inr x \<Longrightarrow> Q x"
  by (simp add: all_res_def)

lemma all_res_Inl [all_res_intros]: "all_res Q (Inl e)"
  by (simp add: all_res_def)

lemma all_res_Inr [all_res_intros]: "Q x \<Longrightarrow> all_res Q (Inr x)"
  by (simp add: all_res_def)

lemma all_res_rbind [all_res_intros]: "(\<And>x. m = Inr x \<Longrightarrow> all_res Q (k x)) \<Longrightarrow> all_res Q (rbind m k)"
  by (auto simp: all_res_def rbind_eq_Inr)

lemma all_res_if [all_res_intros]:
  "(b \<Longrightarrow> all_res Q m) \<Longrightarrow> (\<not> b \<Longrightarrow> all_res Q n) \<Longrightarrow> all_res Q (if b then m else n)"
  by simp

lemma all_res_prod [all_res_intros]:
  "(\<And>a b. p = (a, b) \<Longrightarrow> all_res Q (f a b)) \<Longrightarrow> all_res Q (case p of (a, b) \<Rightarrow> f a b)"
  by (cases p) simp

lemma all_res_option [all_res_intros]:
  "(x = None \<Longrightarrow> all_res Q m) \<Longrightarrow> (\<And>a. x = Some a \<Longrightarrow> all_res Q (f a)) \<Longrightarrow>
   all_res Q (case x of None \<Rightarrow> m | Some a \<Rightarrow> f a)"
  by (cases x) simp_all

subsection \<open>Loops\<close>

text \<open>A \<^verbatim>\<open>for\<close> loop over the values of its counter, with the state the body changes.\<close>

primrec for_each :: "('a \<Rightarrow> 's \<Rightarrow> 's res) \<Rightarrow> 'a list \<Rightarrow> 's \<Rightarrow> 's res" where
  "for_each f [] s = Inr s"
| "for_each f (x # xs) s = rbind (f x s) (for_each f xs)"

lemma for_each_append: "for_each f (xs @ ys) s = rbind (for_each f xs s) (for_each f ys)"
  by (induction xs arbitrary: s) (simp_all add: rbind_assoc cong: rbind_cong)

lemma for_each_cong [fundef_cong]:
  "xs = ys \<Longrightarrow> s = t \<Longrightarrow> (\<And>x s. x \<in> set ys \<Longrightarrow> f x s = g x s) \<Longrightarrow> for_each f xs s = for_each g ys t"
  by (induction ys arbitrary: xs s t) (auto intro: rbind_cong)

lemma for_each_map: "for_each f (map g xs) s = for_each (\<lambda>x. f (g x)) xs s"
  by (induction xs arbitrary: s) (simp_all cong: rbind_cong)

lemma for_each_keeps:
  assumes "for_each f xs s = Inr s'" and "P s"
    and "\<And>x s s'. x \<in> set xs \<Longrightarrow> P s \<Longrightarrow> f x s = Inr s' \<Longrightarrow> P s'"
  shows "P s'"
  using assms
proof (induction xs arbitrary: s)
  case (Cons x xs)
  from Cons.prems(1) obtain t where t: "f x s = Inr t" "for_each f xs t = Inr s'"
    by (auto simp: rbind_eq_Inr)
  have "P t" using Cons.prems(3) [OF _ Cons.prems(2) t(1)] by simp
  then show ?case using Cons.IH [OF t(2)] Cons.prems(3) by auto
qed simp

lemma for_each_upt_rule:
  assumes "P 0 s" and "\<And>k s. k < n \<Longrightarrow> P k s \<Longrightarrow> \<exists>s'. f k s = Inr s' \<and> P (Suc k) s'"
  shows "\<exists>s'. for_each f [0..<n] s = Inr s' \<and> P n s'"
  using assms(2)
proof (induction n)
  case 0
  then show ?case using assms(1) by simp
next
  case (Suc n)
  then obtain t where "for_each f [0..<n] s = Inr t" "P n t" by (metis less_SucI)
  moreover obtain s' where "f n t = Inr s'" "P (Suc n) s'" using Suc.prems [of n t] \<open>P n t\<close> by auto
  ultimately show ?case by (simp add: for_each_append)
qed

subsection \<open>Lists updated by index\<close>

lemma nth_list_update_neq': "i \<noteq> j \<Longrightarrow> xs[i := x] ! j = xs ! j"
  by simp

lemma take_Suc_update: "i < length xs \<Longrightarrow> take (Suc i) (xs[i := x]) = take i xs @ [x]"
  by (simp add: take_Suc_conv_app_nth)

lemma list_eq_nthI:
  "length xs = length ys \<Longrightarrow> (\<And>i. i < length xs \<Longrightarrow> xs ! i = ys ! i) \<Longrightarrow> xs = ys"
  by (rule nth_equalityI)

subsection \<open>Words\<close>

lemma unat_of_nat_u64: "n < 2 ^ 64 \<Longrightarrow> unat (of_nat n :: u64) = n"
  by (simp add: unat_of_nat take_bit_nat_eq_self)

lemma of_nat_u64_inj: "(of_nat m :: u64) = of_nat n \<Longrightarrow> m < 2 ^ 64 \<Longrightarrow> n < 2 ^ 64 \<Longrightarrow> m = n"
  by (metis unat_of_nat_u64)

lemma of_nat_unat_id: "of_nat (unat w) = (w :: 'a::len word)"
  by simp

lemma unat_of_nat_u32: "n < 2 ^ 32 \<Longrightarrow> unat (of_nat n :: u32) = n"
  by (simp add: unat_of_nat take_bit_nat_eq_self)

lemma sint_of_nat_u32: "n < 2 ^ 31 \<Longrightarrow> sint (of_nat n :: u32) = int n"
  by (simp add: sint_uint uint_nat unat_of_nat_u32 signed_take_bit_int_eq_self)

lemma unat_u64_lt: "unat (w :: u64) < 2 ^ 64"
  using unsigned_less [of w] by simp

lemma unat_ucast_widen:
  "LENGTH('a) \<le> LENGTH('b) \<Longrightarrow> unat (ucast (w :: 'a::len word) :: 'b::len word) = unat w"
proof -
  assume le: "LENGTH('a) \<le> LENGTH('b)"
  have "unat w < 2 ^ LENGTH('a)" by (rule unsigned_less)
  also have "(2::nat) ^ LENGTH('a) \<le> 2 ^ LENGTH('b)" using le by (intro power_increasing) auto
  finally show ?thesis by (simp add: unsigned_ucast_eq take_bit_nat_eq_self)
qed

lemma unat_ucast_8_64 [simp]: "unat (ucast (w :: u8) :: u64) = unat w"
  by (rule unat_ucast_widen) simp

lemma unat_ucast_16_64 [simp]: "unat (ucast (w :: u16) :: u64) = unat w"
  by (rule unat_ucast_widen) simp

lemma unat_ucast_32_64 [simp]: "unat (ucast (w :: u32) :: u64) = unat w"
  by (rule unat_ucast_widen) simp

lemma unat_ucast_8_32 [simp]: "unat (ucast (w :: u8) :: u32) = unat w"
  by (rule unat_ucast_widen) simp

lemma unat_ucast_16_32 [simp]: "unat (ucast (w :: u16) :: u32) = unat w"
  by (rule unat_ucast_widen) simp

lemma ucast_32_64_32 [simp]: "ucast (ucast (w :: u32) :: u64) = w"
  by (rule bit_word_eqI) (auto simp: bit_simps dest: bit_imp_le_length)

text \<open>Arithmetic that does not wrap reads as arithmetic on the naturals.\<close>

lemma unat_add_no: "unat a + unat b < 2 ^ 64 \<Longrightarrow> unat (a + b :: u64) = unat a + unat b"
  by (simp add: unat_word_ariths)

lemma unat_mul_no: "unat a * unat b < 2 ^ 64 \<Longrightarrow> unat (a * b :: u64) = unat a * unat b"
  by (simp add: unat_word_ariths)

lemma unat_sub_no: "unat b \<le> unat a \<Longrightarrow> unat (a - b :: u64) = unat a - unat b"
  by (simp add: unat_sub word_le_nat_alt)

lemma unat_add_no32: "unat a + unat b < 2 ^ 32 \<Longrightarrow> unat (a + b :: u32) = unat a + unat b"
  by (simp add: unat_word_ariths)

lemma unat_mul_no32: "unat a * unat b < 2 ^ 32 \<Longrightarrow> unat (a * b :: u32) = unat a * unat b"
  by (simp add: unat_word_ariths)

lemma unat_sub_no32: "unat b \<le> unat a \<Longrightarrow> unat (a - b :: u32) = unat a - unat b"
  by (simp add: unat_sub word_le_nat_alt)

subsection \<open>Division by the constants of the kernel\<close>

lemma div_256_up: "(n + 255) div 256 = (if n mod 256 = 0 then n div 256 else Suc (n div 256))"
  for n :: nat
proof -
  define q r where "q = n div 256" and "r = n mod 256"
  have n: "n = r + q * 256" and r: "r < 256" unfolding q_def r_def by simp_all
  have "(n + 255) div 256 = ((r + 255) + q * 256) div 256" using n by simp
  also have "\<dots> = q + (r + 255) div 256" by simp
  also have "(r + 255) div 256 = (if r = 0 then 0 else 1)"
    using r by (auto intro: div_nat_eqI)
  finally show ?thesis by (simp add: q_def r_def)
qed

lemma mod_256_near_top: "2 ^ 64 - 256 < n \<Longrightarrow> n < 2 ^ 64 \<Longrightarrow> n div 256 = 2 ^ 56 - 1 \<and> n mod 256 \<noteq> 0"
  for n :: nat
proof -
  assume n: "2 ^ 64 - 256 < n" "n < 2 ^ 64"
  define k where "k = n - (2 ^ 64 - 256)"
  with n have "n = k + (2 ^ 56 - 1) * 256" "0 < k" "k < 256" by auto
  then show ?thesis by (simp only: div_mult_self1 mod_mult_self1) simp
qed

lemma mod_sum_prod: "(x mod M + y mod M * h) mod M = (x + y * h) mod M" for x y h M :: nat
proof -
  have "(y mod M * h) mod M = (y * h) mod M" by (rule mod_mult_left_eq)
  then show ?thesis by (metis mod_add_left_eq mod_add_right_eq)
qed

end
