(* ===== verification/Spinlock.thy ===== *)
theory Spinlock
  imports Prelude
begin

text \<open>
  The spin lock of \<^verbatim>\<open>include/stdlib/lock.h\<close>. Two models. The first is the one the other
  components use: on the only CPU that runs kernel code (\<^verbatim>\<open>mt_begin\<close> parks the others in
  \<^verbatim>\<open>hlt\<close>), taking a lock that is already held spins for ever, which is the fault
  \<open>Deadlock\<close>. The second is a step relation for any number of CPUs, in which the test of
  the lock byte and the store that takes it are two steps, as they are two accesses of the
  source. It shows why the first model may say \<open>Deadlock\<close>, that the lock does exclude when
  no CPU interleaves between the test and the store, and that it does not otherwise.
\<close>

type_synonym spinlock_t = u8

definition SPIN_LOCKED :: spinlock_t where
  "SPIN_LOCKED = 1"

definition SPIN_UNLOCKED :: spinlock_t where
  "SPIN_UNLOCKED = 0"

definition acquire_spinlock :: "spinlock_t \<Rightarrow> spinlock_t res" where
  "acquire_spinlock l = (if l = SPIN_LOCKED then Inl Deadlock else Inr SPIN_LOCKED)"

definition release_spinlock :: "spinlock_t \<Rightarrow> spinlock_t" where
  "release_spinlock l = SPIN_UNLOCKED"

lemma acquire_unlocked [simp]: "acquire_spinlock SPIN_UNLOCKED = Inr SPIN_LOCKED"
  by (simp add: acquire_spinlock_def SPIN_LOCKED_def SPIN_UNLOCKED_def)

lemma acquire_locked [simp]: "acquire_spinlock SPIN_LOCKED = Inl Deadlock"
  by (simp add: acquire_spinlock_def)

lemma acquire_InrD: "acquire_spinlock l = Inr l' \<Longrightarrow> l \<noteq> SPIN_LOCKED \<and> l' = SPIN_LOCKED"
  by (simp add: acquire_spinlock_def split: if_splits)

subsection \<open>Several CPUs\<close>

text \<open>
  The position of a CPU in the code: outside the lock, at the test of the loop, past a test
  that found the lock free (the store not yet done), inside the critical section.
\<close>

datatype lock_pc = Outside | At_test | At_store | In_critical

record lock_sys =
  lock_byte :: spinlock_t
  cpu_pc :: "nat \<Rightarrow> lock_pc"

definition lock_init :: lock_sys where
  "lock_init = \<lparr>lock_byte = SPIN_UNLOCKED, cpu_pc = (\<lambda>_. Outside)\<rparr>"

definition goto_pc :: "nat \<Rightarrow> lock_pc \<Rightarrow> lock_sys \<Rightarrow> lock_sys" where
  "goto_pc i p s = s\<lparr>cpu_pc := (cpu_pc s)(i := p)\<rparr>"

lemma goto_pc_simps [simp]:
  "lock_byte (goto_pc i p s) = lock_byte s"
  "cpu_pc (goto_pc i p s) = (cpu_pc s)(i := p)"
  by (simp_all add: goto_pc_def)

inductive lock_step :: "nat \<Rightarrow> lock_sys \<Rightarrow> lock_sys \<Rightarrow> bool" where
  call: "cpu_pc s i = Outside \<Longrightarrow> lock_step i s (goto_pc i At_test s)"
| spin: "cpu_pc s i = At_test \<Longrightarrow> lock_byte s = SPIN_LOCKED \<Longrightarrow> lock_step i s s"
| seen_free: "cpu_pc s i = At_test \<Longrightarrow> lock_byte s \<noteq> SPIN_LOCKED \<Longrightarrow>
    lock_step i s (goto_pc i At_store s)"
| store: "cpu_pc s i = At_store \<Longrightarrow>
    lock_step i s ((goto_pc i In_critical s)\<lparr>lock_byte := SPIN_LOCKED\<rparr>)"
| release: "cpu_pc s i = In_critical \<Longrightarrow>
    lock_step i s ((goto_pc i Outside s)\<lparr>lock_byte := release_spinlock (lock_byte s)\<rparr>)"

inductive_cases lock_step_testE: "lock_step i s t"

inductive lock_reachable :: "lock_sys \<Rightarrow> bool" where
  start: "lock_reachable lock_init"
| move: "lock_reachable s \<Longrightarrow> lock_step i s t \<Longrightarrow> lock_reachable t"

text \<open>A CPU that waits for a lock nobody else will release stays where it is.\<close>

inductive alone_steps :: "nat \<Rightarrow> lock_sys \<Rightarrow> lock_sys \<Rightarrow> bool" for i where
  alone_refl: "alone_steps i s s"
| alone_step: "alone_steps i s t \<Longrightarrow> lock_step i t u \<Longrightarrow> alone_steps i s u"

lemma alone_spins_for_ever:
  assumes "alone_steps i s t" and "cpu_pc s i = At_test" and "lock_byte s = SPIN_LOCKED"
  shows "t = s"
  using assms by (induction rule: alone_steps.induct) (auto elim: lock_step.cases)

text \<open>
  The store of one CPU follows its test at once: no other CPU moves between the two. Then a
  CPU is inside exactly when the lock byte is taken.
\<close>

inductive lock_serial :: "lock_sys \<Rightarrow> bool" where
  serial_start: "lock_serial lock_init"
| serial_call: "lock_serial s \<Longrightarrow> cpu_pc s i = Outside \<Longrightarrow> lock_serial (goto_pc i At_test s)"
| serial_take: "lock_serial s \<Longrightarrow> cpu_pc s i = At_test \<Longrightarrow>
    lock_step i s t \<Longrightarrow> lock_step i t u \<Longrightarrow> cpu_pc t i = At_store \<Longrightarrow> lock_serial u"
| serial_release: "lock_serial s \<Longrightarrow> cpu_pc s i = In_critical \<Longrightarrow> lock_step i s t \<Longrightarrow>
    lock_serial t"

definition waits :: "lock_pc \<Rightarrow> bool" where
  "waits p \<longleftrightarrow> p = Outside \<or> p = At_test"

lemma waits_simps [simp]:
  "waits Outside" "waits At_test" "\<not> waits At_store" "\<not> waits In_critical"
  by (simp_all add: waits_def)

definition lock_inv :: "lock_sys \<Rightarrow> bool" where
  "lock_inv s \<longleftrightarrow>
     (lock_byte s = SPIN_UNLOCKED \<and> (\<forall>i. waits (cpu_pc s i))) \<or>
     (lock_byte s = SPIN_LOCKED \<and>
       (\<exists>i. cpu_pc s i = In_critical \<and> (\<forall>j. j \<noteq> i \<longrightarrow> waits (cpu_pc s j))))"

lemma lock_inv_cases:
  assumes "lock_inv s"
  obtains (free) "lock_byte s = SPIN_UNLOCKED" "\<And>i. waits (cpu_pc s i)"
  | (held) i where "lock_byte s = SPIN_LOCKED" "cpu_pc s i = In_critical"
      "\<And>j. j \<noteq> i \<Longrightarrow> waits (cpu_pc s j)"
  using assms unfolding lock_inv_def by blast

lemma lock_inv_freeI:
  "lock_byte s = SPIN_UNLOCKED \<Longrightarrow> (\<And>i. waits (cpu_pc s i)) \<Longrightarrow> lock_inv s"
  by (simp add: lock_inv_def)

lemma lock_inv_heldI:
  "lock_byte s = SPIN_LOCKED \<Longrightarrow> cpu_pc s i = In_critical \<Longrightarrow>
   (\<And>j. j \<noteq> i \<Longrightarrow> waits (cpu_pc s j)) \<Longrightarrow> lock_inv s"
  unfolding lock_inv_def by blast

lemma spin_values [simp]: "SPIN_LOCKED \<noteq> SPIN_UNLOCKED" "SPIN_UNLOCKED \<noteq> SPIN_LOCKED"
  by (simp_all add: SPIN_LOCKED_def SPIN_UNLOCKED_def)

lemma lock_inv_call:
  assumes "lock_inv s" and "cpu_pc s i = Outside"
  shows "lock_inv (goto_pc i At_test s)"
  using assms(1)
proof (cases rule: lock_inv_cases)
  case free
  then show ?thesis by (auto intro!: lock_inv_freeI)
next
  case (held j)
  with assms(2) have "i \<noteq> j" by auto
  with held show ?thesis by (auto intro!: lock_inv_heldI [where i = j])
qed

lemma lock_inv_take:
  assumes inv: "lock_inv s" and pc: "cpu_pc s i = At_test"
    and st: "lock_step i s t" "lock_step i t u" "cpu_pc t i = At_store"
  shows "lock_inv u"
proof -
  from st(1) pc st(3) have t: "t = goto_pc i At_store s" and free: "lock_byte s \<noteq> SPIN_LOCKED"
    by (auto elim: lock_step.cases)
  from st(2) st(3) have u: "u = (goto_pc i In_critical t)\<lparr>lock_byte := SPIN_LOCKED\<rparr>"
    by (auto elim: lock_step.cases)
  from inv show ?thesis
  proof (cases rule: lock_inv_cases)
    case free
    then show ?thesis unfolding t u by (intro lock_inv_heldI [where i = i]) auto
  next
    case held
    with free show ?thesis by simp
  qed
qed

lemma lock_inv_release:
  assumes inv: "lock_inv s" and pc: "cpu_pc s i = In_critical" and st: "lock_step i s t"
  shows "lock_inv t"
proof -
  from st pc have t: "t = (goto_pc i Outside s)\<lparr>lock_byte := release_spinlock (lock_byte s)\<rparr>"
    by (auto elim: lock_step.cases)
  from inv show ?thesis
  proof (cases rule: lock_inv_cases)
    case free
    from free(2) [of i] pc show ?thesis by simp
  next
    case (held j)
    with pc have "i = j" by force
    with held show ?thesis unfolding t release_spinlock_def by (intro lock_inv_freeI) auto
  qed
qed

lemma lock_serial_inv: "lock_serial s \<Longrightarrow> lock_inv s"
proof (induction rule: lock_serial.induct)
  case serial_start
  show ?case by (rule lock_inv_freeI) (simp_all add: lock_init_def)
next
  case serial_call
  then show ?case by (blast intro: lock_inv_call)
next
  case serial_take
  then show ?case by (blast intro: lock_inv_take)
next
  case serial_release
  then show ?case by (blast intro: lock_inv_release)
qed

lemma lock_serial_exclusive:
  assumes "lock_serial s" and "cpu_pc s i = In_critical" and "cpu_pc s j = In_critical"
  shows "i = j"
  using lock_serial_inv [OF assms(1)]
proof (cases rule: lock_inv_cases)
  case free
  from free(2) [of i] assms(2) show ?thesis by simp
next
  case (held k)
  with assms(2,3) show ?thesis by (metis waits_simps(4))
qed

subsection \<open>Properties of the lock\<close>

text \<open>The lock excludes only by luck. \<^verbatim>\<open>acquire_spinlock\<close> tests the byte and stores it
  in two accesses, so two CPUs can both see it free and both enter: a state in which CPUs 0
  and 1 are inside together is reachable.\<close>

lemma lock_does_not_exclude:
  "\<exists>s. lock_reachable s \<and> cpu_pc s 0 = In_critical \<and> cpu_pc s 1 = In_critical"
proof -
  define s1 where "s1 = goto_pc 0 At_test lock_init"
  define s2 where "s2 = goto_pc 1 At_test s1"
  define s3 where "s3 = goto_pc 0 At_store s2"
  define s4 where "s4 = goto_pc 1 At_store s3"
  define s5 where "s5 = (goto_pc 0 In_critical s4)\<lparr>lock_byte := SPIN_LOCKED\<rparr>"
  define s6 where "s6 = (goto_pc 1 In_critical s5)\<lparr>lock_byte := SPIN_LOCKED\<rparr>"
  have "lock_reachable s1" unfolding s1_def
    by (rule move [OF start lock_step.call]) (simp add: lock_init_def)
  then have "lock_reachable s2" unfolding s2_def
    by (rule move) (rule lock_step.call, simp add: s1_def lock_init_def)
  then have "lock_reachable s3" unfolding s3_def
    by (rule move) (rule lock_step.seen_free, simp_all add: s2_def s1_def lock_init_def)
  then have "lock_reachable s4" unfolding s4_def
    by (rule move) (rule lock_step.seen_free, simp_all add: s3_def s2_def s1_def lock_init_def)
  then have "lock_reachable s5" unfolding s5_def
    by (rule move) (rule lock_step.store, simp add: s4_def s3_def)
  then have "lock_reachable s6" unfolding s6_def
    by (rule move) (rule lock_step.store, simp add: s5_def s4_def)
  moreover have "cpu_pc s6 0 = In_critical" "cpu_pc s6 1 = In_critical"
    by (simp_all add: s6_def s5_def)
  ultimately show ?thesis by blast
qed

text \<open>C33: If no other CPU moves between the test and the store, at most one CPU is inside,
  and a CPU that asks for a lock that is held, with nobody else to release it, stays at the
  test for ever, however many steps it takes.\<close>

theorem lock_excludes_if_atomic:
  assumes "lock_serial s"
  shows "(\<forall>i j. cpu_pc s i = In_critical \<and> cpu_pc s j = In_critical \<longrightarrow> i = j) \<and>
    (\<forall>i j t. cpu_pc s i = In_critical \<and> cpu_pc s j = At_test \<and> alone_steps j s t \<longrightarrow> t = s)"
proof -
  have "t = s" if pc: "cpu_pc s i = In_critical" "cpu_pc s j = At_test" and al: "alone_steps j s t"
    for i j t
    using lock_serial_inv [OF assms]
  proof (cases rule: lock_inv_cases)
    case free
    from free(2) [of i] pc show ?thesis by simp
  next
    case held
    show ?thesis by (rule alone_spins_for_ever [OF al pc(2) held(1)])
  qed
  with lock_serial_exclusive [OF assms] show ?thesis by blast
qed

lemma cpu0_enters: "\<exists>s. lock_serial s \<and> cpu_pc s 0 = In_critical \<and> cpu_pc s 1 = At_test"
proof -
  define s1 where "s1 = goto_pc 1 At_test lock_init"
  define s2 where "s2 = goto_pc 0 At_test s1"
  define s3 where "s3 = goto_pc 0 At_store s2"
  define s4 where "s4 = (goto_pc 0 In_critical s3)\<lparr>lock_byte := SPIN_LOCKED\<rparr>"
  have "lock_serial s1" unfolding s1_def
    by (rule serial_call [OF serial_start]) (simp add: lock_init_def)
  then have "lock_serial s2" unfolding s2_def
    by (rule serial_call) (simp add: s1_def lock_init_def)
  moreover have "lock_step 0 s2 s3" unfolding s3_def
    by (rule lock_step.seen_free) (simp_all add: s2_def s1_def lock_init_def)
  moreover have "lock_step 0 s3 s4" unfolding s4_def
    by (rule lock_step.store) (simp add: s3_def)
  ultimately have "lock_serial s4"
    by (intro serial_take [of s2 0 s3 s4]) (simp_all add: s2_def s3_def)
  then show ?thesis by (intro exI [of _ s4]) (simp add: s4_def s3_def s2_def s1_def)
qed

theorem lock_excludes_if_atomic_witness:
  "\<exists>s. lock_serial s \<and> cpu_pc s 0 = In_critical \<and> (\<forall>t. alone_steps 1 s t \<longrightarrow> t = s) \<and>
     (\<forall>j. cpu_pc s j = In_critical \<longrightarrow> j = 0)"
proof -
  from cpu0_enters obtain s where s: "lock_serial s" "cpu_pc s 0 = In_critical" "cpu_pc s 1 = At_test"
    by blast
  with lock_excludes_if_atomic [OF s(1)] show ?thesis by blast
qed

end
