(* ===== verification/Allocators.thy ===== *)
theory Allocators
  imports Prelude
begin

text \<open>
  The contract of an allocator, stated once for the two the kernel has: the block heap
  (\<^verbatim>\<open>kmalloc\<close>/\<^verbatim>\<open>kfree\<close>) and the page allocator (\<^verbatim>\<open>allocate_pages\<close>). A client takes
  regions and gives them back in any order; the contract is that a region in use is never
  handed out again. \<open>alloc h n\<close> is \<open>None\<close> when the call does not return, and
  \<open>Some (None, h')\<close> when it returns NULL.
\<close>

inductive alloc_trace ::
  "('h \<Rightarrow> nat \<Rightarrow> ('p option \<times> 'h) option) \<Rightarrow> ('p \<Rightarrow> 'h \<Rightarrow> 'h option) \<Rightarrow> 'h \<Rightarrow> 'h \<Rightarrow> ('p \<times> nat) list \<Rightarrow> bool"
  for al fr h0 where
  trace_start: "alloc_trace al fr h0 h0 []"
| trace_take: "alloc_trace al fr h0 h live \<Longrightarrow> al h n = Some (Some p, h') \<Longrightarrow>
    alloc_trace al fr h0 h' ((p, n) # live)"
| trace_refused: "alloc_trace al fr h0 h live \<Longrightarrow> al h n = Some (None, h') \<Longrightarrow>
    alloc_trace al fr h0 h' live"
| trace_give: "alloc_trace al fr h0 h live \<Longrightarrow> (p, n) \<in> set live \<Longrightarrow> fr p h = Some h' \<Longrightarrow>
    alloc_trace al fr h0 h' (remove1 (p, n) live)"

text \<open>No two of the regions of a list share a cell.\<close>

definition apart :: "('p \<Rightarrow> nat \<Rightarrow> nat set) \<Rightarrow> ('p \<times> nat) list \<Rightarrow> bool" where
  "apart cells live \<longleftrightarrow>
     sorted_wrt (\<lambda>x y. cells (fst x) (snd x) \<inter> cells (fst y) (snd y) = {}) live"

lemma apart_Nil [simp]: "apart cells []"
  by (simp add: apart_def)

lemma apart_Cons:
  "apart cells ((p, n) # live) \<longleftrightarrow>
     (\<forall>x \<in> set live. cells p n \<inter> cells (fst x) (snd x) = {}) \<and> apart cells live"
  by (simp add: apart_def)

lemma apart_nth:
  "apart cells live \<Longrightarrow> i < j \<Longrightarrow> j < length live \<Longrightarrow>
   cells (fst (live ! i)) (snd (live ! i)) \<inter> cells (fst (live ! j)) (snd (live ! j)) = {}"
  unfolding apart_def sorted_wrt_iff_nth_less by blast

lemma apart_remove1: "apart cells live \<Longrightarrow> apart cells (remove1 x live)"
proof (induction live)
  case (Cons y ys)
  obtain p n where y: "y = (p, n)" by (cases y)
  have "set (remove1 x ys) \<subseteq> set ys" by (rule set_remove1_subset)
  with Cons y show ?case by (auto simp: apart_Cons)
qed simp

lemma apart_others:
  assumes "apart cells live" and "(p, n) \<in> set live" and "(q, m) \<in> set (remove1 (p, n) live)"
  shows "cells p n \<inter> cells q m = {}"
  using assms
proof (induction live)
  case (Cons y ys)
  show ?case
  proof (cases "y = (p, n)")
    case True
    with Cons.prems have "apart cells ((p, n) # ys)" "(q, m) \<in> set ys" by simp_all
    then show ?thesis by (fastforce simp only: apart_Cons fst_conv snd_conv)
  next
    case False
    obtain r k where y: "y = (r, k)" by (cases y)
    from Cons.prems False y have ap: "apart cells ys"
      and yd: "\<And>x. x \<in> set ys \<Longrightarrow> cells r k \<inter> cells (fst x) (snd x) = {}"
      and pn: "(p, n) \<in> set ys" by (auto simp: apart_Cons)
    from Cons.prems(3) False consider "(q, m) = y" | "(q, m) \<in> set (remove1 (p, n) ys)"
      by auto
    then show ?thesis
    proof cases
      case 1
      with y yd [OF pn] show ?thesis by (simp add: Int_commute)
    next
      case 2
      show ?thesis by (rule Cons.IH [OF ap pn 2])
    qed
  qed
qed simp

locale region_allocator =
  fixes inv :: "'h \<Rightarrow> bool"
    and owned :: "'h \<Rightarrow> 'p \<Rightarrow> nat \<Rightarrow> bool"
    and cells :: "'p \<Rightarrow> nat \<Rightarrow> nat set"
    and alloc :: "'h \<Rightarrow> nat \<Rightarrow> ('p option \<times> 'h) option"
  assumes alloc_inv: "inv h \<Longrightarrow> alloc h n = Some (r, h') \<Longrightarrow> inv h'"
    and alloc_owned: "inv h \<Longrightarrow> alloc h n = Some (Some p, h') \<Longrightarrow> owned h' p n"
    and alloc_keeps: "inv h \<Longrightarrow> alloc h n = Some (r, h') \<Longrightarrow> owned h q m \<Longrightarrow> owned h' q m"
    and alloc_fresh:
      "inv h \<Longrightarrow> alloc h n = Some (Some p, h') \<Longrightarrow> owned h q m \<Longrightarrow> cells p n \<inter> cells q m = {}"

locale freeing_allocator = region_allocator inv owned cells alloc
  for inv :: "'h \<Rightarrow> bool"
    and owned :: "'h \<Rightarrow> 'p \<Rightarrow> nat \<Rightarrow> bool"
    and cells :: "'p \<Rightarrow> nat \<Rightarrow> nat set"
    and alloc :: "'h \<Rightarrow> nat \<Rightarrow> ('p option \<times> 'h) option" +
  fixes free :: "'p \<Rightarrow> 'h \<Rightarrow> 'h option"
  assumes free_inv: "inv h \<Longrightarrow> free p h = Some h' \<Longrightarrow> inv h'"
    and free_keeps:
      "inv h \<Longrightarrow> owned h p n \<Longrightarrow> free p h = Some h' \<Longrightarrow> owned h q m \<Longrightarrow>
       cells p n \<inter> cells q m = {} \<Longrightarrow> owned h' q m"
    and free_returns: "inv h \<Longrightarrow> owned h p n \<Longrightarrow> \<exists>h'. free p h = Some h'"
begin

lemma trace_safe:
  assumes "alloc_trace alloc free h0 h live" and "inv h0"
  shows "inv h \<and> (\<forall>(p, n) \<in> set live. owned h p n) \<and> apart cells live"
  using assms
proof (induction rule: alloc_trace.induct)
  case trace_start
  then show ?case by simp
next
  case (trace_take h live n p h')
  then have ih: "inv h" "apart cells live" "\<And>q m. (q, m) \<in> set live \<Longrightarrow> owned h q m" by auto
  note al = trace_take.hyps(2)
  have "cells p n \<inter> cells (fst x) (snd x) = {}" if "x \<in> set live" for x
    using ih(3) [of "fst x" "snd x"] that by (intro alloc_fresh [OF ih(1) al]) simp
  with ih al show ?case
    by (auto simp: apart_Cons intro: alloc_inv alloc_owned alloc_keeps)
next
  case (trace_refused h live n h')
  then show ?case by (auto intro: alloc_inv alloc_keeps)
next
  case (trace_give h live p n h')
  then have ih: "inv h" "apart cells live" "\<And>q m. (q, m) \<in> set live \<Longrightarrow> owned h q m" by auto
  have "owned h' q m" if "(q, m) \<in> set (remove1 (p, n) live)" for q m
    using free_keeps [OF ih(1) ih(3) [OF trace_give.hyps(2)] trace_give.hyps(3)]
      apart_others [OF ih(2) trace_give.hyps(2) that] ih(3) that
    by (blast dest: set_remove1_subset [THEN subsetD])
  with ih trace_give.hyps(3) show ?case by (auto intro: free_inv apart_remove1)
qed

text \<open>Whatever was taken can be given back.\<close>

lemma trace_give_returns:
  assumes "alloc_trace alloc free h0 h live" and "inv h0" and "(p, n) \<in> set live"
  shows "\<exists>h'. free p h = Some h'"
  using trace_safe [OF assms(1,2)] assms(3) by (auto intro: free_returns)

end

end
