(* ===== verification/Kernel_Heap.thy ===== *)
theory Kernel_Heap
  imports Spinlock Allocators
begin

text \<open>
  The kernel heap: \<^verbatim>\<open>src/kernel/mem/heap/kernel_heap.cpp\<close> and the byte loops of
  \<^verbatim>\<open>src/kernel/mem/mem.cpp\<close>. The heap is a row of 256-byte blocks with one type byte per
  block; an allocation of \<open>n\<close> blocks is \<open>n - 1\<close> \<open>USED\<close> blocks closed by a \<open>BORDER\<close>
  block, and a pointer is valid when the block before it is a \<open>BORDER\<close>.

  Every log call of the kernel renders the time stamp with \<^verbatim>\<open>dtoa\<close>, which allocates 64
  bytes; so a failing \<^verbatim>\<open>kmalloc\<close> calls itself through \<^verbatim>\<open>log.e\<close>. The argument \<open>depth\<close>
  is the number of nested \<^verbatim>\<open>kmalloc\<close> frames the kernel stack holds, and running out of
  it is the fault \<open>Stack_overflow\<close>. The argument \<open>stamp\<close> is the text \<^verbatim>\<open>dtoa\<close>
  renders (\<open>dtoa\<close> itself is in \<open>Decimal\<close>).
\<close>

subsection \<open>Memory: \<^verbatim>\<open>memset\<close> and \<^verbatim>\<open>memcpy\<close>\<close>

type_synonym memory = "u64 \<Rightarrow> u8"

fun memset_loop :: "memory \<Rightarrow> u64 \<Rightarrow> nat \<Rightarrow> nat \<Rightarrow> u8 \<Rightarrow> memory" where
  "memset_loop m addr i 0 v = m"
| "memset_loop m addr i (Suc k) v =
     memset_loop (m(addr + of_nat i := v)) addr (Suc i) k v"

text \<open>The counter is an \<^verbatim>\<open>int\<close>: it overflows when 2 to the 31 bytes or more are written.\<close>

definition memset :: "memory \<Rightarrow> u64 \<Rightarrow> u64 \<Rightarrow> u8 \<Rightarrow> memory res" where
  "memset m addr num v =
     (if 2 ^ 31 \<le> unat num then Inl Signed_overflow
      else Inr (memset_loop m addr 0 (unat num) v))"

fun memcpy_loop :: "memory \<Rightarrow> u64 \<Rightarrow> u64 \<Rightarrow> nat \<Rightarrow> nat \<Rightarrow> memory" where
  "memcpy_loop m dst src i 0 = m"
| "memcpy_loop m dst src i (Suc k) =
     memcpy_loop (m(dst + of_nat i := m (src + of_nat i))) dst src (Suc i) k"

definition memcpy :: "memory \<Rightarrow> u64 \<Rightarrow> u64 \<Rightarrow> u64 \<Rightarrow> memory res" where
  "memcpy m dst src num =
     (if 2 ^ 31 \<le> unat num then Inl Signed_overflow
      else Inr (memcpy_loop m dst src 0 (unat num)))"

subsection \<open>State\<close>

datatype heap_type = H_FREE | H_USED | H_BORDER | H_OTHER u8

definition heap_type_of :: "u8 \<Rightarrow> heap_type" where
  "heap_type_of b =
     (if b = 0 then H_FREE else if b = 1 then H_USED else if b = 2 then H_BORDER else H_OTHER b)"

record heap =
  heapOffset :: u64
  heapBlkcount :: nat
  memoryBitmap :: "heap_type list"
  heap_lock :: spinlock_t
  hmem :: memory

definition heapBlksize :: u64 where
  "heapBlksize = 256"

definition heapInit :: "u64 \<Rightarrow> nat \<Rightarrow> memory \<Rightarrow> heap" where
  "heapInit hhdm blkcount m =
     (let base = hhdm + 0x10000;
          raw = map (\<lambda>i. heap_type_of (m (base + of_nat i))) [0..<blkcount]
      in \<lparr>heapOffset = base + of_nat blkcount, heapBlkcount = blkcount,
          memoryBitmap = raw[0 := H_BORDER], heap_lock = SPIN_UNLOCKED, hmem = m\<rparr>)"

text \<open>The count of \<^verbatim>\<open>heapBlkcount\<close> in the source.\<close>

definition boot_blkcount :: nat where
  "boot_blkcount = 16 * 1000"

subsection \<open>Allocation\<close>

definition heap_round :: "u64 \<Rightarrow> u64" where
  "heap_round sz =
     (let remainder = ucast (sz mod heapBlksize) :: u16;
          sz' = sz - ucast remainder
      in if remainder \<noteq> 0 then sz' + heapBlksize else sz')"

definition heap_blocks :: "u64 \<Rightarrow> u64" where
  "heap_blocks sz = heap_round sz div heapBlksize"

text \<open>
  The scan. \<open>found\<close> is \<^verbatim>\<open>freeBlocksFound\<close>, \<open>i\<close> is \<^verbatim>\<open>currentIndex\<close>; the result is
  the index at which the label \<^verbatim>\<open>blockFound\<close> is reached.
\<close>

fun find_run :: "nat \<Rightarrow> nat \<Rightarrow> nat \<Rightarrow> heap_type list \<Rightarrow> nat option" where
  "find_run sz i found [] = None"
| "find_run sz i found (b # bs) =
     (case b of
        H_BORDER \<Rightarrow> find_run sz (Suc i) 0 bs
      | H_FREE \<Rightarrow>
          (if Suc found = sz then Some i else find_run sz (Suc i) (Suc found) bs)
      | H_USED \<Rightarrow> find_run sz (Suc i) 0 bs
      | H_OTHER _ \<Rightarrow> find_run sz (Suc i) 0 bs)"

function mark_used :: "nat \<Rightarrow> nat \<Rightarrow> heap_type list \<Rightarrow> heap_type list" where
  "mark_used i border bm =
     (if i < border then mark_used (Suc i) border (bm[i := H_USED]) else bm)"
  by pat_completeness auto
termination by (relation "measure (\<lambda>(i, border, _). border - i)") auto

definition heap_claim :: "nat \<Rightarrow> nat \<Rightarrow> heap_type list \<Rightarrow> heap_type list" where
  "heap_claim n border bm = (mark_used (border - (n - 1)) border bm)[border := H_BORDER]"

definition blk_addr :: "heap \<Rightarrow> nat \<Rightarrow> u64" where
  "blk_addr h i = heapOffset h + of_nat i * heapBlksize"

subsection \<open>Release\<close>

function free_used :: "nat \<Rightarrow> nat \<Rightarrow> heap_type list \<Rightarrow> nat \<times> heap_type list" where
  "free_used cnt i bm =
     (if i < cnt \<and> bm ! i \<noteq> H_BORDER \<and> bm ! i = H_USED
      then free_used cnt (Suc i) (bm[i := H_FREE]) else (i, bm))"
  by pat_completeness auto
termination by (relation "measure (\<lambda>(cnt, i, _). cnt - i)") auto

definition heap_release :: "nat \<Rightarrow> nat \<Rightarrow> heap_type list \<Rightarrow> heap_type list" where
  "heap_release cnt i bm =
     (let (j, bm1) = free_used cnt i bm
      in if j < cnt \<and> bm1 ! j = H_BORDER \<and> Suc j < cnt \<and> bm1 ! Suc j = H_FREE
         then bm1[j := H_FREE] else bm1)"

text \<open>
  The label \<^verbatim>\<open>ERROR\<close> of \<^verbatim>\<open>kfree\<close> logs before it releases \<^verbatim>\<open>heap_lock\<close>, and the
  logger allocates: \<open>log_under_lock\<close> below shows that this call does not return.
\<close>

definition kfree :: "u64 \<Rightarrow> heap \<Rightarrow> heap res" where
  "kfree ptr h =
     (if ptr = 0 then Inr h
      else rbind (acquire_spinlock (heap_lock h)) (\<lambda>l.
        let off = ptr - heapOffset h
        in if off mod heapBlksize \<noteq> 0 \<or>
              ptr > heapOffset h + of_nat (heapBlkcount h) * heapBlksize \<or> ptr < heapOffset h
           then Inl Deadlock
           else let idx = off div heapBlksize - 1
                in if length (memoryBitmap h) \<le> unat idx then Inl Out_of_bounds
                   else if memoryBitmap h ! unat idx \<noteq> H_BORDER then Inl Deadlock
                   else Inr (h\<lparr>memoryBitmap :=
                                 heap_release (heapBlkcount h) (Suc (unat idx)) (memoryBitmap h),
                               heap_lock := release_spinlock l\<rparr>)))"

fun put_bytes :: "memory \<Rightarrow> u64 \<Rightarrow> u8 list \<Rightarrow> memory" where
  "put_bytes m addr [] = m"
| "put_bytes m addr (b # bs) = put_bytes (m(addr := b)) (addr + 1) bs"

fun kmalloc :: "nat \<Rightarrow> u8 list \<Rightarrow> u64 \<Rightarrow> heap \<Rightarrow> (u64 \<times> heap) res" where
  "kmalloc 0 stamp sz h = Inl Stack_overflow"
| "kmalloc (Suc depth) stamp sz h =
     (if sz = 0 then Inr (0, h)
      else rbind (acquire_spinlock (heap_lock h)) (\<lambda>l.
        let n = unat (heap_blocks sz)
        in case find_run n 0 0 (memoryBitmap h) of
             Some border \<Rightarrow>
               Inr (blk_addr h (border - (n - 1)),
                    h\<lparr>memoryBitmap := heap_claim n border (memoryBitmap h),
                      heap_lock := release_spinlock l\<rparr>)
           | None \<Rightarrow>
               rbind (kmalloc depth stamp 64 (h\<lparr>heap_lock := release_spinlock l\<rparr>)) (\<lambda>(p, h1).
                 if p = 0 then Inl Null_deref
                 else rbind (memset (hmem h1) p 64 0) (\<lambda>m.
                   rbind (kfree p (h1\<lparr>hmem := put_bytes m p stamp\<rparr>)) (\<lambda>h2. Inr (0, h2))))))"

definition kcalloc :: "nat \<Rightarrow> u8 list \<Rightarrow> u64 \<Rightarrow> u64 \<Rightarrow> heap \<Rightarrow> (u64 \<times> heap) res" where
  "kcalloc depth stamp count sz h =
     (if count \<noteq> 0 \<and> sz > (- 1) div count then Inr (0, h)
      else rbind (kmalloc depth stamp (count * sz) h) (\<lambda>(p, h1).
        if p = 0 then Inr (0, h1)
        else rbind (memset (hmem h1) p (count * sz) 0) (\<lambda>m. Inr (p, h1\<lparr>hmem := m\<rparr>))))"

function used_run :: "nat \<Rightarrow> nat \<Rightarrow> heap_type list \<Rightarrow> nat" where
  "used_run cnt i bm =
     (if i < cnt \<and> bm ! i \<noteq> H_BORDER \<and> bm ! i = H_USED then Suc (used_run cnt (Suc i) bm) else 0)"
  by pat_completeness auto
termination by (relation "measure (\<lambda>(cnt, i, _). cnt - i)") auto

definition krealloc :: "nat \<Rightarrow> u8 list \<Rightarrow> u64 \<Rightarrow> u64 \<Rightarrow> heap \<Rightarrow> (u64 \<times> heap) res" where
  "krealloc depth stamp old_ptr sz h =
     (if old_ptr = 0 then kmalloc depth stamp sz h
      else let idx = (old_ptr - heapOffset h) div heapBlksize - 1;
               old_size = of_nat (used_run (heapBlkcount h) (unat (idx + 1)) (memoryBitmap h))
                            * heapBlksize;
               sz' = heap_round sz
           in if sz' \<le> old_size then Inr (old_ptr, h)
              else rbind (kmalloc depth stamp sz' h) (\<lambda>(p, h1).
                if p = 0 then Inr (0, h1)
                else rbind (memcpy (hmem h1) p old_ptr old_size) (\<lambda>m.
                  rbind (kfree old_ptr (h1\<lparr>hmem := m\<rparr>)) (\<lambda>h2. Inr (p, h2)))))"

text \<open>\<^verbatim>\<open>operator new\<close>, \<^verbatim>\<open>operator new[]\<close> and the four \<^verbatim>\<open>operator delete\<close>.\<close>

definition operator_new :: "nat \<Rightarrow> u8 list \<Rightarrow> u64 \<Rightarrow> heap \<Rightarrow> (u64 \<times> heap) res" where
  "operator_new depth stamp sz h = kcalloc depth stamp 1 sz h"

definition operator_delete :: "u64 \<Rightarrow> heap \<Rightarrow> heap res" where
  "operator_delete addr h = kfree addr h"

declare mark_used.simps [simp del] free_used.simps [simp del] used_run.simps [simp del]


subsection \<open>The scan finds the first run of free blocks\<close>

definition all_type :: "heap_type \<Rightarrow> heap_type list \<Rightarrow> nat \<Rightarrow> nat \<Rightarrow> bool" where
  "all_type t bm i n \<longleftrightarrow> (\<forall>k. i \<le> k \<and> k < i + n \<longrightarrow> bm ! k = t)"

lemma find_run_Some:
  assumes "find_run n i found (drop i bm) = Some j" and "found \<le> i" and "found < n"
    and "\<And>k. i - found \<le> k \<Longrightarrow> k < i \<Longrightarrow> bm ! k = H_FREE"
    and "0 < i - found \<Longrightarrow> bm ! (i - found - 1) \<noteq> H_FREE"
  shows "i \<le> j \<and> j < length bm \<and> n \<le> Suc j \<and>
    (\<forall>k. Suc j - n \<le> k \<and> k \<le> j \<longrightarrow> bm ! k = H_FREE) \<and>
    (0 < Suc j - n \<longrightarrow> bm ! (Suc j - n - 1) \<noteq> H_FREE)"
  using assms
proof (induction "length bm - i" arbitrary: i found)
  case 0
  then show ?case by simp
next
  case (Suc d)
  from Suc.hyps(2) have i: "i < length bm" and d: "d = length bm - Suc i" by simp_all
  then have dr: "drop i bm = bm ! i # drop (Suc i) bm" by (simp add: Cons_nth_drop_Suc)
  show ?case
  proof (cases "bm ! i = H_FREE")
    case True
    show ?thesis
    proof (cases "Suc found = n")
      case last: True
      with Suc.prems dr True have "j = i" by simp
      with Suc.prems True last i show ?thesis by (auto simp: le_less)
    next
      case False
      with Suc.prems dr True have r: "find_run n (Suc i) (Suc found) (drop (Suc i) bm) = Some j"
        by simp
      have pre: "bm ! l = H_FREE" if "Suc i - Suc found \<le> l" "l < Suc i" for l
        using that Suc.prems(4) [of l] True by (auto simp: less_Suc_eq)
      from False Suc.prems(2,3,5) have bnds: "Suc found \<le> Suc i" "Suc found < n"
        "0 < Suc i - Suc found \<Longrightarrow> bm ! (Suc i - Suc found - 1) \<noteq> H_FREE" by auto
      have "Suc i \<le> j \<and> j < length bm \<and> n \<le> Suc j \<and>
        (\<forall>k. Suc j - n \<le> k \<and> k \<le> j \<longrightarrow> bm ! k = H_FREE) \<and>
        (0 < Suc j - n \<longrightarrow> bm ! (Suc j - n - 1) \<noteq> H_FREE)"
        by (rule Suc.hyps(1) [OF d r bnds(1,2) pre bnds(3)])
      then show ?thesis by (blast dest: Suc_leD)
    qed
  next
    case False
    with Suc.prems(1) dr have "find_run n (Suc i) 0 (drop (Suc i) bm) = Some j"
      by (cases "bm ! i") auto
    from Suc.hyps(1) [OF d this] Suc.prems(3) False show ?thesis by auto
  qed
qed

lemma find_run_None:
  assumes "find_run n i found (drop i bm) = None" and "found \<le> i" and "found < n"
    and "i - found \<le> k" and "k + n \<le> length bm"
    and "\<And>l. i - found \<le> l \<Longrightarrow> l < i \<Longrightarrow> bm ! l = H_FREE"
  shows "\<exists>l<n. bm ! (k + l) \<noteq> H_FREE"
  using assms
proof (induction "length bm - i" arbitrary: i found)
  case 0
  then show ?case by simp
next
  case (Suc d)
  from Suc.hyps(2) have i: "i < length bm" and d: "d = length bm - Suc i" by simp_all
  then have dr: "drop i bm = bm ! i # drop (Suc i) bm" by (simp add: Cons_nth_drop_Suc)
  show ?case
  proof (cases "bm ! i = H_FREE")
    case True
    with Suc.prems dr have ne: "Suc found \<noteq> n"
      and r: "find_run n (Suc i) (Suc found) (drop (Suc i) bm) = None"
      by (auto split: if_splits)
    have pre: "bm ! l = H_FREE" if "Suc i - Suc found \<le> l" "l < Suc i" for l
      using that Suc.prems(6) [of l] True by (auto simp: less_Suc_eq)
    from ne Suc.prems(2-5) show ?thesis
      by (intro Suc.hyps(1) [OF d r _ _ _ _ pre]) auto
  next
    case False
    with Suc.prems(1) dr have r: "find_run n (Suc i) 0 (drop (Suc i) bm) = None"
      by (cases "bm ! i") auto
    show ?thesis
    proof (cases "i < k")
      case True
      with Suc.prems(3,5) show ?thesis by (intro Suc.hyps(1) [OF d r]) auto
    next
      case le: False
      with Suc.prems(2-4) have "i - k < n" "k + (i - k) = i" by auto
      with False show ?thesis by (intro exI [of _ "i - k"]) simp
    qed
  qed
qed

lemma find_run_zero: "find_run 0 i found bs = None"
  by (induction bs arbitrary: i found) (auto split: heap_type.splits)

lemma find_run_first:
  assumes "find_run n 0 0 bm = Some j"
  shows "0 < n" and "j < length bm" and "n \<le> Suc j"
    and "all_type H_FREE bm (Suc j - n) n"
    and "0 < Suc j - n \<Longrightarrow> bm ! (Suc j - n - 1) \<noteq> H_FREE"
proof -
  show n: "0 < n" using assms find_run_zero [of 0 0 bm] by (cases n) auto
  have "find_run n 0 0 (drop 0 bm) = Some j" using assms by simp
  from find_run_Some [OF this _ n]
  show "j < length bm" and "n \<le> Suc j"
    and "0 < Suc j - n \<Longrightarrow> bm ! (Suc j - n - 1) \<noteq> H_FREE"
    and "all_type H_FREE bm (Suc j - n) n"
    by (auto simp: all_type_def)
qed

lemma find_run_bounds: "find_run n i found bs = Some b \<Longrightarrow> i \<le> b"
  by (induction bs arbitrary: i found)
    (fastforce split: heap_type.splits if_splits simp: Suc_le_eq)+

lemma find_run_prefix:
  "find_run n i found bs = Some b \<Longrightarrow> find_run n i found (take (b - i) bs) = None"
proof (induction bs arbitrary: i found)
  case (Cons x xs)
  show ?case
  proof (cases "x = H_FREE \<and> Suc found = n")
    case True
    with Cons.prems show ?thesis by simp
  next
    case False
    define f' where "f' = (if x = H_FREE then Suc found else 0)"
    from False Cons.prems have r: "find_run n (Suc i) f' xs = Some b"
      by (cases x) (auto simp: f'_def)
    from find_run_bounds [OF r] obtain d where d: "b - i = Suc d" "b - Suc i = d"
      by (metis Suc_diff_Suc Suc_le_eq)
    from Cons.IH [OF r] False d show ?thesis by (cases x) (auto simp: f'_def)
  qed
qed simp

lemma find_run_least:
  assumes f: "find_run n 0 0 bm = Some b" and t: "t < Suc b - n"
  shows "\<not> all_type H_FREE bm t n"
proof
  assume all: "all_type H_FREE bm t n"
  note fr = find_run_first [OF f]
  show False
  proof (cases "t + n \<le> b")
    case True
    have "find_run n 0 0 (drop 0 (take b bm)) = None" using find_run_prefix [OF f] by simp
    from find_run_None [OF this _ fr(1), of t] True fr(2)
    obtain l where "l < n" "take b bm ! (t + l) \<noteq> H_FREE" by auto
    with all True show False by (auto simp: all_type_def)
  next
    case False
    with t fr(1,3) have "t \<le> Suc b - n - 1" "Suc b - n - 1 < t + n" by linarith+
    with all have "bm ! (Suc b - n - 1) = H_FREE" unfolding all_type_def by blast
    moreover from t have "0 < Suc b - n" by simp
    ultimately show False using fr(5) by blast
  qed
qed

lemma find_run_one_None: "find_run 1 0 0 bm = None \<longleftrightarrow> H_FREE \<notin> set bm"
proof
  assume none: "find_run 1 0 0 bm = None"
  show "H_FREE \<notin> set bm"
  proof
    assume "H_FREE \<in> set bm"
    then obtain k where k: "k < length bm" "bm ! k = H_FREE" by (auto simp: in_set_conv_nth)
    from find_run_None [of 1 0 0 bm k] none k show False by auto
  qed
next
  assume no: "H_FREE \<notin> set bm"
  show "find_run 1 0 0 bm = None"
  proof (cases "find_run 1 0 0 bm")
    case (Some j)
    from find_run_first [OF Some] have "j < length bm" "bm ! j = H_FREE"
      by (auto simp: all_type_def)
    with no show ?thesis by (metis nth_mem)
  qed simp
qed

subsection \<open>Marking and releasing blocks\<close>

lemma length_mark_used [simp]: "length (mark_used i border bm) = length bm"
  by (induction i border bm rule: mark_used.induct) (subst mark_used.simps, simp)

lemma nth_mark_used:
  "k < length bm \<Longrightarrow>
   mark_used i border bm ! k = (if i \<le> k \<and> k < border then H_USED else bm ! k)"
proof (induction i border bm rule: mark_used.induct)
  case (1 i border bm)
  then show ?case by (subst mark_used.simps) (auto simp: nth_list_update)
qed

lemma length_heap_claim [simp]: "length (heap_claim n border bm) = length bm"
  by (simp add: heap_claim_def)

lemma nth_heap_claim:
  "k < length bm \<Longrightarrow>
   heap_claim n border bm ! k =
     (if k = border then H_BORDER
      else if border - (n - 1) \<le> k \<and> k < border then H_USED else bm ! k)"
  by (auto simp: heap_claim_def nth_mark_used nth_list_update)

lemma free_used_spec:
  assumes "free_used cnt i bm = (j, bm')" and "cnt \<le> length bm"
  shows "i \<le> j \<and> (i \<le> cnt \<longrightarrow> j \<le> cnt) \<and> all_type H_USED bm i (j - i) \<and> (j < cnt \<longrightarrow> bm ! j \<noteq> H_USED) \<and>
    length bm' = length bm \<and>
    (\<forall>k < length bm. bm' ! k = (if i \<le> k \<and> k < j then H_FREE else bm ! k))"
  using assms
proof (induction cnt i bm arbitrary: j bm' rule: free_used.induct)
  case (1 cnt i bm)
  show ?case
  proof (cases "i < cnt \<and> bm ! i = H_USED")
    case True
    with "1.prems"(1) have r: "free_used cnt (Suc i) (bm[i := H_FREE]) = (j, bm')"
      by (subst (asm) free_used.simps) simp
    from "1.IH" [OF _ r] True "1.prems"(2)
    have ih: "Suc i \<le> j" "j \<le> cnt" "all_type H_USED (bm[i := H_FREE]) (Suc i) (j - Suc i)"
      "j < cnt \<longrightarrow> bm[i := H_FREE] ! j \<noteq> H_USED" "length bm' = length bm"
      "\<forall>k < length bm. bm' ! k = (if Suc i \<le> k \<and> k < j then H_FREE else bm[i := H_FREE] ! k)"
      by auto
    have "bm ! k = H_USED" if "i \<le> k" "k < i + (j - i)" for k
      using that ih(1,3) True by (cases "k = i") (auto simp: all_type_def)
    then have "all_type H_USED bm i (j - i)" by (simp add: all_type_def)
    with ih True "1.prems"(2) show ?thesis by (auto simp: nth_list_update)
  next
    case False
    with "1.prems" show ?thesis
      by (subst (asm) free_used.simps) (auto simp: all_type_def split: if_splits)
  qed
qed

lemma length_heap_release [simp]: "cnt \<le> length bm \<Longrightarrow> length (heap_release cnt i bm) = length bm"
  by (cases "free_used cnt i bm") (auto simp: heap_release_def dest: free_used_spec)

text \<open>Every block other than the run and its border is left alone.\<close>

lemma heap_release_nth:
  assumes "cnt \<le> length bm" and "k < length bm"
  shows "heap_release cnt i bm ! k = bm ! k \<or>
    (heap_release cnt i bm ! k = H_FREE \<and> i \<le> k \<and>
      (bm ! k = H_USED \<or> (bm ! k = H_BORDER \<and> Suc k < cnt \<and> bm ! Suc k = H_FREE)))"
proof -
  obtain j bm1 where fu: "free_used cnt i bm = (j, bm1)" by (cases "free_used cnt i bm")
  note sp = free_used_spec [OF fu assms(1)]
  show ?thesis
  proof (cases "j < cnt \<and> bm1 ! j = H_BORDER \<and> Suc j < cnt \<and> bm1 ! Suc j = H_FREE")
    case True
    then have rel: "heap_release cnt i bm = bm1[j := H_FREE]"
      by (simp add: heap_release_def fu)
    from sp True assms have "bm ! j = H_BORDER" "bm ! Suc j = H_FREE" by auto
    with rel sp True assms show ?thesis
      by (auto simp: nth_list_update all_type_def)
  next
    case False
    then have rel: "heap_release cnt i bm = bm1" by (auto simp: heap_release_def fu)
    from rel sp assms show ?thesis by (auto simp: all_type_def)
  qed
qed


subsection \<open>Rounding to blocks, block addresses\<close>

lemma unat_heapBlksize [simp]: "unat heapBlksize = 256"
  by (simp add: heapBlksize_def)

lemma unat_remainder: "unat (ucast (ucast (sz mod heapBlksize) :: u16) :: u64) = unat sz mod 256"
  by (simp add: unsigned_ucast_eq unat_mod take_bit_nat_def unsigned_take_bit_eq heapBlksize_def)

lemma remainder_zero: "(ucast (sz mod heapBlksize) :: u16) = 0 \<longleftrightarrow> unat sz mod 256 = 0"
proof -
  have "unat (ucast (sz mod heapBlksize) :: u16) = unat sz mod 256"
    by (simp add: unsigned_ucast_eq unat_mod take_bit_nat_def heapBlksize_def)
  then show ?thesis by (metis unat_0 unat_eq_zero)
qed

lemma unat_heap_round:
  assumes "unat sz \<le> 2 ^ 64 - 256"
  shows "unat (heap_round sz) = (unat sz + 255) div 256 * 256"
proof -
  let ?r = "unat sz mod 256"
  have le: "?r \<le> unat sz" by simp
  have base: "unat (sz - ucast (ucast (sz mod heapBlksize) :: u16)) = unat sz - ?r"
    using le by (simp add: unat_sub_no unat_remainder del: unat_ucast_16_64)
  have dv: "unat sz - ?r = unat sz div 256 * 256" by (simp add: minus_mod_eq_div_mult)
  show ?thesis
  proof (cases "?r = 0")
    case True
    then have "(unat sz + 255) div 256 = unat sz div 256" by (simp add: div_256_up)
    with True base dv show ?thesis by (simp add: heap_round_def Let_def remainder_zero)
  next
    case False
    then have up: "(unat sz + 255) div 256 = Suc (unat sz div 256)"
      by (simp add: div_256_up)
    have "unat sz - ?r + 256 < 2 ^ 64" using assms False by linarith
    with False base dv up show ?thesis
      by (simp add: heap_round_def Let_def remainder_zero unat_add_no)
  qed
qed

lemma unat_heap_blocks:
  "unat sz \<le> 2 ^ 64 - 256 \<Longrightarrow> unat (heap_blocks sz) = (unat sz + 255) div 256"
  by (simp add: heap_blocks_def unat_div unat_heap_round)

text \<open>A request within 255 bytes of 2 to the 64 wraps to no blocks at all.\<close>

lemma heap_blocks_wrap:
  assumes "2 ^ 64 - 256 < unat sz"
  shows "heap_blocks sz = 0"
proof -
  let ?r = "unat sz mod 256"
  from mod_256_near_top [OF assms unat_u64_lt]
  have q: "unat sz div 256 = 2 ^ 56 - 1" and r: "?r \<noteq> 0" by auto
  have base: "unat (sz - ucast (ucast (sz mod heapBlksize) :: u16)) = unat sz - ?r"
    by (simp add: unat_sub_no unat_remainder del: unat_ucast_16_64)
  also have "\<dots> = 2 ^ 64 - 256" using q by (simp add: minus_mod_eq_div_mult)
  finally have "unat (sz - ucast (ucast (sz mod heapBlksize) :: u16) + heapBlksize) = 0"
    by (simp add: unat_word_ariths)
  with r have "heap_round sz = 0"
    by (simp add: heap_round_def Let_def remainder_zero unat_eq_zero)
  then show ?thesis by (simp add: heap_blocks_def)
qed


subsection \<open>Well-formed bitmaps and the blocks an allocation owns\<close>

text \<open>
  Block 0 is the first border; only the three known types occur; a used block is followed by
  a used block or by the border that closes its allocation.
\<close>

definition bitmap_wf :: "heap_type list \<Rightarrow> bool" where
  "bitmap_wf bm \<longleftrightarrow>
     0 < length bm \<and> bm ! 0 = H_BORDER \<and> set bm \<subseteq> {H_FREE, H_USED, H_BORDER} \<and>
     (\<forall>i < length bm. bm ! i = H_USED \<longrightarrow> Suc i < length bm \<and> bm ! Suc i \<noteq> H_FREE)"

definition owns :: "heap_type list \<Rightarrow> nat \<Rightarrow> nat \<Rightarrow> bool" where
  "owns bm s n \<longleftrightarrow>
     0 < n \<and> 0 < s \<and> s + n \<le> length bm \<and> bm ! (s - 1) = H_BORDER \<and>
     all_type H_USED bm s (n - 1) \<and> bm ! (s + n - 1) = H_BORDER"

lemma bitmap_wfI:
  assumes "0 < length bm" and "bm ! 0 = H_BORDER"
    and "\<And>i. i < length bm \<Longrightarrow> bm ! i \<in> {H_FREE, H_USED, H_BORDER}"
    and "\<And>i. i < length bm \<Longrightarrow> bm ! i = H_USED \<Longrightarrow> Suc i < length bm \<and> bm ! Suc i \<noteq> H_FREE"
  shows "bitmap_wf bm"
  using assms unfolding bitmap_wf_def by (auto simp: in_set_conv_nth subset_iff)

lemma bitmap_wfD:
  assumes "bitmap_wf bm"
  shows "0 < length bm" and "bm ! 0 = H_BORDER"
    and "i < length bm \<Longrightarrow> bm ! i \<in> {H_FREE, H_USED, H_BORDER}"
    and "i < length bm \<Longrightarrow> bm ! i = H_USED \<Longrightarrow> Suc i < length bm \<and> bm ! Suc i \<noteq> H_FREE"
  using assms unfolding bitmap_wf_def by (auto simp: subset_iff)

lemma owns_not_free: "owns bm s n \<Longrightarrow> s \<le> k \<Longrightarrow> k < s + n \<Longrightarrow> bm ! k \<noteq> H_FREE"
  unfolding owns_def all_type_def by (cases "k = s + n - 1") auto

text \<open>The block before the run the scan finds is a border.\<close>

lemma find_run_wf:
  assumes "bitmap_wf bm" and f: "find_run n 0 0 bm = Some b"
  shows "0 < Suc b - n" and "bm ! (Suc b - n - 1) = H_BORDER"
proof -
  note fr = find_run_first [OF f]
  have fst: "bm ! (Suc b - n) = H_FREE" using fr by (simp add: all_type_def)
  show pos: "0 < Suc b - n"
    by (rule gr0I) (use fst bitmap_wfD(2) [OF assms(1)] in simp)
  from fr have lt: "Suc b - n - 1 < length bm" and su: "Suc (Suc b - n - 1) = Suc b - n"
    using pos by auto
  from fr(5) [OF pos] bitmap_wfD(3,4) [OF assms(1) lt] su fst
  show "bm ! (Suc b - n - 1) = H_BORDER" by auto
qed

lemma heap_claim_nth':
  assumes f: "find_run n 0 0 bm = Some b" and k: "k < length bm"
  shows "heap_claim n b bm ! k =
    (if k = b then H_BORDER else if Suc b - n \<le> k \<and> k < b then H_USED else bm ! k)"
proof -
  from find_run_first [OF f] have "b - (n - 1) = Suc b - n" by auto
  with k show ?thesis by (simp add: nth_heap_claim)
qed

lemma heap_claim_wf:
  assumes wf: "bitmap_wf bm" and f: "find_run n 0 0 bm = Some b"
  shows "bitmap_wf (heap_claim n b bm)"
proof (rule bitmap_wfI)
  note fr = find_run_first [OF f] and fw = find_run_wf [OF wf f]
  note nth = heap_claim_nth' [OF f]
  show "0 < length (heap_claim n b bm)" using bitmap_wfD(1) [OF wf] by simp
  show "heap_claim n b bm ! 0 = H_BORDER"
    using nth [of 0] bitmap_wfD(1,2) [OF wf] fw(1) by simp
  fix i assume i: "i < length (heap_claim n b bm)"
  with nth [of i] bitmap_wfD(3) [OF wf, of i]
  show "heap_claim n b bm ! i \<in> {H_FREE, H_USED, H_BORDER}" by simp
  assume u: "heap_claim n b bm ! i = H_USED"
  show "Suc i < length (heap_claim n b bm) \<and> heap_claim n b bm ! Suc i \<noteq> H_FREE"
  proof (cases "Suc b - n \<le> i \<and> i < b")
    case True
    with fr(2) nth [of "Suc i"] show ?thesis by simp
  next
    case False
    with u nth [of i] i have "bm ! i = H_USED" by (auto split: if_splits)
    with bitmap_wfD(4) [OF wf, of i] i nth [of "Suc i"] show ?thesis by simp
  qed
qed

lemma heap_claim_owns:
  assumes wf: "bitmap_wf bm" and f: "find_run n 0 0 bm = Some b"
  shows "owns (heap_claim n b bm) (Suc b - n) n"
  using find_run_first(1-3) [OF f] find_run_wf [OF wf f] heap_claim_nth' [OF f]
  unfolding owns_def all_type_def by auto

lemma heap_claim_keeps:
  assumes f: "find_run n 0 0 bm = Some b" and o: "owns bm s m"
  shows "owns (heap_claim n b bm) s m" and "{s..<s + m} \<inter> {Suc b - n..<Suc b} = {}"
proof -
  note fr = find_run_first [OF f]
  have free: "bm ! k = H_FREE" if "Suc b - n \<le> k" "k \<le> b" for k
    using fr(3,4) that by (auto simp: all_type_def)
  have "Suc b - n \<le> b" using fr(1) by linarith
  with free have bf: "bm ! b = H_FREE" by simp
  have keep: "heap_claim n b bm ! k = bm ! k" if "k < length bm" "bm ! k \<noteq> H_FREE" for k
    using that heap_claim_nth' [OF f that(1)] free [of k] bf by (auto split: if_splits)
  show "{s..<s + m} \<inter> {Suc b - n..<Suc b} = {}"
    using owns_not_free [OF o] free by fastforce
  from o show "owns (heap_claim n b bm) s m"
    unfolding owns_def all_type_def by (auto simp: keep)
qed

lemma heap_release_wf:
  assumes wf: "bitmap_wf bm" and s: "0 < s" and border: "bm ! (s - 1) = H_BORDER"
  shows "bitmap_wf (heap_release (length bm) s bm)"
proof (rule bitmap_wfI)
  let ?r = "heap_release (length bm) s bm"
  note nth = heap_release_nth [of "length bm" bm _ s, OF le_refl]
  show "0 < length ?r" using bitmap_wfD(1) [OF wf] by simp
  show "?r ! 0 = H_BORDER" using nth [of 0] bitmap_wfD(1,2) [OF wf] s by auto
  fix i assume i: "i < length ?r"
  with nth [of i] bitmap_wfD(3) [OF wf, of i] show "?r ! i \<in> {H_FREE, H_USED, H_BORDER}" by auto
  assume u: "?r ! i = H_USED"
  with nth [of i] i have ui: "bm ! i = H_USED" by auto
  with bitmap_wfD(4) [OF wf, of i] i have su: "Suc i < length bm" "bm ! Suc i \<noteq> H_FREE" by auto
  obtain j bm1 where fu: "free_used (length bm) s bm = (j, bm1)"
    by (cases "free_used (length bm) s bm")
  note sp = free_used_spec [OF fu le_refl]
  have "?r ! Suc i \<noteq> H_FREE"
  proof
    assume fr: "?r ! Suc i = H_FREE"
    with su nth [of "Suc i"] have si: "s \<le> Suc i" by auto
    from u fu sp i ui have ni: "\<not> (s \<le> i \<and> i < j)"
      by (auto simp: heap_release_def nth_list_update split: if_splits)
    have "Suc i = s \<or> j \<le> i" using si ni by auto
    then show False
    proof
      assume "j \<le> i"
      with fr fu sp su show False
        by (auto simp: heap_release_def nth_list_update split: if_splits)
    next
      assume "Suc i = s"
      with border ui show False by auto
    qed
  qed
  with su show "Suc i < length ?r \<and> ?r ! Suc i \<noteq> H_FREE" by simp
qed


text \<open>Releasing an allocation frees its blocks; its border goes when a free block follows.\<close>

lemma heap_release_owned:
  assumes o: "owns bm s n" and k: "k < length bm"
  shows "heap_release (length bm) s bm ! k =
    (if s \<le> k \<and> k < s + n - 1 then H_FREE
     else if k = s + n - 1 \<and> s + n < length bm \<and> bm ! (s + n) = H_FREE then H_FREE
     else bm ! k)"
proof -
  obtain j bm1 where fu: "free_used (length bm) s bm = (j, bm1)"
    by (cases "free_used (length bm) s bm")
  note sp = free_used_spec [OF fu le_refl]
  from o have used: "\<And>k. s \<le> k \<Longrightarrow> k < s + n - 1 \<Longrightarrow> bm ! k = H_USED"
    and last: "bm ! (s + n - 1) = H_BORDER" "0 < n" "0 < s" "s + n \<le> length bm"
    by (auto simp: owns_def all_type_def)
  have j: "j = s + n - 1"
  proof (rule ccontr)
    assume "j \<noteq> s + n - 1"
    then consider "j < s + n - 1" | "s + n - 1 < j" by linarith
    then show False
    proof cases
      case 1
      with sp used [of j] last show False by auto
    next
      case 2
      with sp last have "bm ! (s + n - 1) = H_USED" by (auto simp: all_type_def)
      with last show False by simp
    qed
  qed
  with last have sj: "Suc j = s + n" by simp
  have bmj: "bm1 ! j = H_BORDER" using sp last j by auto
  have bms: "bm1 ! Suc j = bm ! (s + n)" if "s + n < length bm" using sp that sj by auto
  show ?thesis
  proof (cases "s + n < length bm \<and> bm ! (s + n) = H_FREE")
    case True
    with fu bmj bms sj have "heap_release (length bm) s bm = bm1[j := H_FREE]"
      by (simp add: heap_release_def)
    with True sp k j show ?thesis by (auto simp: nth_list_update)
  next
    case False
    with fu bms sj have "heap_release (length bm) s bm = bm1"
      by (auto simp: heap_release_def)
    with False sp k j show ?thesis by auto
  qed
qed

lemma heap_release_keeps:
  assumes o: "owns bm s n" and o': "owns bm t m" and dis: "{s..<s + n} \<inter> {t..<t + m} = {}"
  shows "owns (heap_release (length bm) s bm) t m"
proof -
  note nth = heap_release_owned [OF o]
  from o o' have sz: "0 < n" "0 < m" "0 < t" "t + m \<le> length bm" "s + n \<le> length bm"
    by (auto simp: owns_def)
  have out: "\<not> (s \<le> k \<and> k < s + n)" if "t \<le> k" "k < t + m" for k
    using dis that by (metis IntI atLeastLessThan_iff empty_iff)
  have keep: "heap_release (length bm) s bm ! k = bm ! k" if "t \<le> k" "k < t + m" for k
    using nth [of k] out [OF that] that sz by (auto split: if_splits)
  have "heap_release (length bm) s bm ! (t - 1) = bm ! (t - 1)"
  proof -
    from o have used: "\<And>k. s \<le> k \<Longrightarrow> k < s + n - 1 \<Longrightarrow> bm ! k = H_USED"
      by (auto simp: owns_def all_type_def)
    have b: "bm ! (t - 1) = H_BORDER" using o' by (simp add: owns_def)
    have "\<not> (s \<le> t - 1 \<and> t - 1 < s + n - 1)" using used [of "t - 1"] b by auto
    moreover have "t = s + n" if "t - 1 = s + n - 1" using that sz by linarith
    then have "\<not> (t - 1 = s + n - 1 \<and> bm ! (s + n) = H_FREE)"
      using owns_not_free [OF o', of t] sz by auto
    ultimately show ?thesis using nth [of "t - 1"] sz by (auto split: if_splits)
  qed
  with o' keep sz show ?thesis unfolding owns_def all_type_def by auto
qed

text \<open>A claim that is released while a free block follows leaves the bitmap as it was.\<close>

lemma heap_claim_release:
  assumes wf: "bitmap_wf bm" and f: "find_run n 0 0 bm = Some b"
    and nxt: "Suc b < length bm" "bm ! Suc b = H_FREE"
  shows "heap_release (length bm) (Suc b - n) (heap_claim n b bm) = bm"
proof -
  let ?c = "heap_claim n b bm"
  note fr = find_run_first [OF f] and cn = heap_claim_nth' [OF f]
  note rel = heap_release_owned [OF heap_claim_owns [OF wf f]]
  have nn: "Suc b - n + n = Suc b" using fr by simp
  show ?thesis
  proof (rule list_eq_nthI)
    show "length (heap_release (length bm) (Suc b - n) ?c) = length bm" by simp
    fix k assume "k < length (heap_release (length bm) (Suc b - n) ?c)"
    then have k: "k < length ?c" "k < length bm" by simp_all
    have free: "bm ! l = H_FREE" if "Suc b - n \<le> l" "l \<le> b" for l
      using fr(3,4) that by (auto simp: all_type_def)
    show "heap_release (length bm) (Suc b - n) ?c ! k = bm ! k"
      using rel [OF k(1)] cn [OF k(2)] cn [OF nxt(1)] nxt free [of k] nn k fr(1)
      by (auto split: if_splits)
  qed
qed


subsection \<open>The heap\<close>

definition heap_wf :: "heap \<Rightarrow> bool" where
  "heap_wf h \<longleftrightarrow>
     length (memoryBitmap h) = heapBlkcount h \<and> bitmap_wf (memoryBitmap h) \<and>
     heap_lock h = SPIN_UNLOCKED \<and>
     0 < unat (heapOffset h) \<and> unat (heapOffset h) + 256 * heapBlkcount h < 2 ^ 64"

lemma heap_wfD:
  assumes "heap_wf h"
  shows "length (memoryBitmap h) = heapBlkcount h" and "bitmap_wf (memoryBitmap h)"
    and "heap_lock h = SPIN_UNLOCKED" and "0 < unat (heapOffset h)"
    and "unat (heapOffset h) + 256 * heapBlkcount h < 2 ^ 64"
  using assms by (auto simp: heap_wf_def)

lemma heap_wf_update:
  "heap_wf h \<Longrightarrow> bitmap_wf bm \<Longrightarrow> length bm = length (memoryBitmap h) \<Longrightarrow>
   heap_wf (h\<lparr>memoryBitmap := bm\<rparr>)"
  by (simp add: heap_wf_def)

lemma heap_wf_hmem [simp]: "heap_wf (h\<lparr>hmem := m\<rparr>) \<longleftrightarrow> heap_wf h"
  by (simp add: heap_wf_def)

lemma heap_lock_same: "heap_lock h = l \<Longrightarrow> h\<lparr>heap_lock := l\<rparr> = h"
  by (cases h) simp

lemma unat_blk_addr:
  assumes wf: "heap_wf h" and s: "s \<le> heapBlkcount h"
  shows "unat (blk_addr h s) = unat (heapOffset h) + 256 * s"
proof -
  note b = heap_wfD(5) [OF wf]
  from b s have lt: "unat (heapOffset h) + 256 * s < 2 ^ 64" by linarith
  then have us: "unat (of_nat s :: u64) = s" by (intro unat_of_nat_u64) linarith
  from lt have mul: "unat (of_nat s * heapBlksize) = s * 256"
    by (subst unat_mul_no) (simp_all add: us)
  from lt show ?thesis unfolding blk_addr_def
    by (subst unat_add_no) (simp_all add: mul)
qed

lemma blk_addr_nonzero: "heap_wf h \<Longrightarrow> s \<le> heapBlkcount h \<Longrightarrow> blk_addr h s \<noteq> 0"
  using unat_blk_addr [of h s] heap_wfD(4) [of h] by (metis add_is_0 less_numeral_extra(3) unat_0)

lemma blk_addr_bitmap [simp]: "blk_addr (h\<lparr>memoryBitmap := bm\<rparr>) s = blk_addr h s"
  by (simp add: blk_addr_def)

lemma blk_addr_hmem [simp]: "blk_addr (h\<lparr>hmem := m\<rparr>) s = blk_addr h s"
  by (simp add: blk_addr_def)

text \<open>\<^verbatim>\<open>kmalloc\<close> on the branch that finds a run.\<close>

lemma kmalloc_found:
  assumes wf: "heap_wf h" and sz: "sz \<noteq> 0"
    and f: "find_run (unat (heap_blocks sz)) 0 0 (memoryBitmap h) = Some b"
  defines "n \<equiv> unat (heap_blocks sz)"
  shows "kmalloc (Suc d) stamp sz h =
    Inr (blk_addr h (Suc b - n), h\<lparr>memoryBitmap := heap_claim n b (memoryBitmap h)\<rparr>)"
proof -
  have "b - (n - 1) = Suc b - n" using find_run_first(1,3) [OF f] n_def by auto
  then show ?thesis
    using sz f heap_wfD(3) [OF wf] n_def
    by (simp add: Let_def release_spinlock_def heap_lock_same)
qed

lemma kmalloc_found_wf:
  assumes wf: "heap_wf h"
    and f: "find_run n 0 0 (memoryBitmap h) = Some b"
  shows "heap_wf (h\<lparr>memoryBitmap := heap_claim n b (memoryBitmap h)\<rparr>)"
  using wf heap_claim_wf [OF heap_wfD(2) [OF wf] f] by (intro heap_wf_update) simp_all

text \<open>\<^verbatim>\<open>kfree\<close> of the address of a block that follows a border.\<close>

lemma kfree_block:
  assumes wf: "heap_wf h" and s: "0 < s" "s \<le> heapBlkcount h"
    and border: "memoryBitmap h ! (s - 1) = H_BORDER"
  shows "kfree (blk_addr h s) h =
    Inr (h\<lparr>memoryBitmap := heap_release (heapBlkcount h) s (memoryBitmap h)\<rparr>)"
proof -
  note b = heap_wfD(5) [OF wf] and ua = unat_blk_addr [OF wf s(2)]
  have off: "unat (blk_addr h s - heapOffset h) = 256 * s"
    using ua by (simp add: unat_sub_no)
  have md: "(blk_addr h s - heapOffset h) mod heapBlksize = 0"
    using off by (simp add: unat_mod flip: unat_eq_zero)
  have dv: "unat ((blk_addr h s - heapOffset h) div heapBlksize) = s"
    using off by (simp add: unat_div)
  have idx: "unat ((blk_addr h s - heapOffset h) div heapBlksize - 1) = s - 1"
    using s dv by (subst unat_sub_no) simp_all
  have hi: "\<not> blk_addr h s > heapOffset h + of_nat (heapBlkcount h) * heapBlksize"
    using unat_blk_addr [OF wf le_refl] ua s
    by (simp add: word_less_nat_alt blk_addr_def)
  have lo: "\<not> blk_addr h s < heapOffset h" using ua by (simp add: word_less_nat_alt)
  show ?thesis
    unfolding kfree_def
    using blk_addr_nonzero [OF wf s(2)] md hi lo border s heap_wfD(1,3) [OF wf] idx
    by (simp add: Let_def release_spinlock_def heap_lock_same)
qed

lemma kfree_wf:
  assumes wf: "heap_wf h" and r: "kfree p h = Inr h'"
  shows "heap_wf h'"
proof (cases "p = 0")
  case True
  with r wf show ?thesis by (simp add: kfree_def)
next
  case False
  define idx where "idx = unat ((p - heapOffset h) div heapBlksize - 1)"
  from r False heap_wfD(1,3) [OF wf] have
    border: "memoryBitmap h ! idx = H_BORDER" and idx: "idx < heapBlkcount h" and
    h': "h' = h\<lparr>memoryBitmap := heap_release (heapBlkcount h) (Suc idx) (memoryBitmap h),
                heap_lock := SPIN_UNLOCKED\<rparr>"
    by (auto simp: kfree_def Let_def idx_def release_spinlock_def split: if_splits)
  have "bitmap_wf (heap_release (heapBlkcount h) (Suc idx) (memoryBitmap h))"
    using heap_release_wf [OF heap_wfD(2) [OF wf], of "Suc idx"] border heap_wfD(1) [OF wf]
    by simp
  with h' wf heap_wfD(1) [OF wf] show ?thesis by (simp add: heap_wf_def)
qed


subsection \<open>Every operation keeps the heap well-formed\<close>

lemma kmalloc_wf:
  "kmalloc d stamp sz h = Inr (p, h') \<Longrightarrow> heap_wf h \<Longrightarrow> heap_wf h'"
proof (induction d arbitrary: sz h p h')
  case 0
  then show ?case by simp
next
  case (Suc depth)
  note wf = Suc.prems(2) and lk = heap_wfD(3) [OF Suc.prems(2)]
  show ?case
  proof (cases "sz = 0")
    case True
    with Suc.prems show ?thesis by simp
  next
    case False
    have same: "h\<lparr>heap_lock := SPIN_UNLOCKED\<rparr> = h" using lk by (simp add: heap_lock_same)
    show ?thesis
    proof (cases "find_run (unat (heap_blocks sz)) 0 0 (memoryBitmap h)")
      case (Some b)
      with kmalloc_found [OF wf False] kmalloc_found_wf [OF wf] Suc.prems(1)
      show ?thesis by auto
    next
      case None
      from Suc.prems(1) False None lk obtain q h1 m where
        a: "kmalloc depth stamp 64 h = Inr (q, h1)" and
        f: "kfree q (h1\<lparr>hmem := m\<rparr>) = Inr h'"
        by (auto simp: Let_def rbind_eq_Inr release_spinlock_def same split: prod.splits if_splits)
      from Suc.IH [OF a wf] have "heap_wf (h1\<lparr>hmem := m\<rparr>)" by simp
      then show ?thesis using f by (rule kfree_wf)
    qed
  qed
qed

lemma kcalloc_wf:
  "kcalloc d stamp c sz h = Inr (p, h') \<Longrightarrow> heap_wf h \<Longrightarrow> heap_wf h'"
  by (auto simp: kcalloc_def rbind_eq_Inr split: if_splits prod.splits dest: kmalloc_wf)

lemma kfree_wf_hmem: "kfree p (h\<lparr>hmem := m\<rparr>) = Inr h' \<Longrightarrow> heap_wf h \<Longrightarrow> heap_wf h'"
  by (rule kfree_wf [of "h\<lparr>hmem := m\<rparr>"]) simp_all

lemma krealloc_wf:
  assumes r: "krealloc d stamp q sz h = Inr (p, h')" and wf: "heap_wf h"
  shows "heap_wf h'"
proof (cases "q = 0")
  case True
  with r wf show ?thesis by (auto simp: krealloc_def dest: kmalloc_wf)
next
  case False
  with r wf show ?thesis
    by (auto simp: krealloc_def Let_def rbind_eq_Inr split: if_splits prod.splits
        dest: kmalloc_wf kfree_wf_hmem)
qed


subsection \<open>The branches of \<open>kmalloc\<close>\<close>

lemma heap_blocks_64: "unat (heap_blocks 64) = 1"
  by (subst unat_heap_blocks) simp_all

lemma heap_record_frame [simp]:
  "heapOffset (h\<lparr>memoryBitmap := bm\<rparr>) = heapOffset h"
  "heapBlkcount (h\<lparr>memoryBitmap := bm\<rparr>) = heapBlkcount h"
  by simp_all

text \<open>A call that returns has found a run, or has logged and returned NULL.\<close>

lemma kmalloc_cases:
  assumes r: "kmalloc d stamp sz h = Inr (p, h')" and wf: "heap_wf h" and sz: "sz \<noteq> 0"
  obtains (found) b where "find_run (unat (heap_blocks sz)) 0 0 (memoryBitmap h) = Some b"
      and "p = blk_addr h (Suc b - unat (heap_blocks sz))" and "p \<noteq> 0"
      and "h' = h\<lparr>memoryBitmap := heap_claim (unat (heap_blocks sz)) b (memoryBitmap h)\<rparr>"
  | (null) b m where "find_run (unat (heap_blocks sz)) 0 0 (memoryBitmap h) = None"
      and "p = 0" and "find_run 1 0 0 (memoryBitmap h) = Some b"
      and "h' = h\<lparr>memoryBitmap :=
        heap_release (heapBlkcount h) b (heap_claim 1 b (memoryBitmap h)), hmem := m\<rparr>"
proof -
  let ?n = "unat (heap_blocks sz)"
  note lk = heap_wfD(3) [OF wf]
  have same: "h\<lparr>heap_lock := SPIN_UNLOCKED\<rparr> = h" using lk by (simp add: heap_lock_same)
  from r obtain d' where d: "d = Suc d'" by (cases d) auto
  show thesis
  proof (cases "find_run ?n 0 0 (memoryBitmap h)")
    case (Some b)
    have "Suc b - ?n \<le> heapBlkcount h"
      using find_run_first(2) [OF Some] heap_wfD(1) [OF wf] by linarith
    from blk_addr_nonzero [OF wf this] kmalloc_found [OF wf sz Some, of d' stamp] r d Some
    show thesis by (intro found) auto
  next
    case None
    with r d sz lk obtain q h1 m where
      a: "kmalloc d' stamp 64 h = Inr (q, h1)" "q \<noteq> 0" "p = 0" and
      f: "kfree q (h1\<lparr>hmem := put_bytes m q stamp\<rparr>) = Inr h'"
      by (auto simp: Let_def rbind_eq_Inr release_spinlock_def same split: prod.splits if_splits)
    from a(1) obtain d'' where d': "d' = Suc d''" by (cases d') auto
    show thesis
    proof (cases "find_run 1 0 0 (memoryBitmap h)")
      case (Some b)
      let ?c = "heap_claim 1 b (memoryBitmap h)"
      from Some have S: "find_run (unat (heap_blocks 64)) 0 0 (memoryBitmap h) = Some b"
        by (simp add: heap_blocks_64)
      have q: "q = blk_addr h b" and h1: "h1 = h\<lparr>memoryBitmap := ?c\<rparr>"
        using kmalloc_found [OF wf _ S, of d'' stamp] a(1) d' by (simp_all add: heap_blocks_64)
      let ?h2 = "h1\<lparr>hmem := put_bytes m q stamp\<rparr>"
      have wf2: "heap_wf ?h2" using kmalloc_found_wf [OF wf Some] h1 by simp
      have ow: "owns ?c b 1" using heap_claim_owns [OF heap_wfD(2) [OF wf] Some] by simp
      then have "0 < b" "b \<le> heapBlkcount ?h2" "memoryBitmap ?h2 ! (b - 1) = H_BORDER"
        using heap_wfD(1) [OF wf2] h1 by (auto simp: owns_def)
      from kfree_block [OF wf2 this] f q h1
      have "h' = ?h2\<lparr>memoryBitmap := heap_release (heapBlkcount h) b ?c\<rparr>"
        by (simp add: blk_addr_def)
      with h1 have "h' = h\<lparr>memoryBitmap := heap_release (heapBlkcount h) b ?c,
        hmem := put_bytes m q stamp\<rparr>" by simp
      with None a(3) Some show thesis by (intro null) auto
    next
      case no: None
      then have "find_run (unat (heap_blocks 64)) 0 0 (memoryBitmap h) = None"
        by (simp add: heap_blocks_64)
      with a d' lk have "q = 0"
        by (auto simp: Let_def rbind_eq_Inr release_spinlock_def same split: prod.splits if_splits)
      with a show thesis by simp
    qed
  qed
qed

text \<open>With a free block left two frames are enough; with none, no stack is.\<close>

lemma kmalloc_returns:
  assumes wf: "heap_wf h" and free: "H_FREE \<in> set (memoryBitmap h)"
  shows "\<exists>p h'. kmalloc (Suc (Suc d)) stamp sz h = Inr (p, h')"
proof (cases "sz = 0")
  case False
  note lk = heap_wfD(3) [OF wf]
  have same: "h\<lparr>heap_lock := SPIN_UNLOCKED\<rparr> = h" using lk by (simp add: heap_lock_same)
  show ?thesis
  proof (cases "find_run (unat (heap_blocks sz)) 0 0 (memoryBitmap h)")
    case (Some b)
    with kmalloc_found [OF wf False, of b "Suc d" stamp] show ?thesis by blast
  next
    case None
    from free obtain b where b: "find_run 1 0 0 (memoryBitmap h) = Some b"
      using find_run_one_None [of "memoryBitmap h"] by auto
    let ?c = "heap_claim 1 b (memoryBitmap h)"
    let ?h1 = "h\<lparr>memoryBitmap := ?c\<rparr>"
    from b have S: "find_run (unat (heap_blocks 64)) 0 0 (memoryBitmap h) = Some b"
      by (simp add: heap_blocks_64)
    have k: "kmalloc (Suc d) stamp 64 h = Inr (blk_addr h b, ?h1)"
      using kmalloc_found [OF wf _ S, of d stamp] by (simp add: heap_blocks_64)
    have wf1: "heap_wf ?h1" by (rule kmalloc_found_wf [OF wf b])
    have ow: "owns ?c b 1" using heap_claim_owns [OF heap_wfD(2) [OF wf] b] by simp
    obtain m where m: "memset (hmem ?h1) (blk_addr h b) 64 0 = Inr m"
      by (auto simp: memset_def)
    let ?h2 = "?h1\<lparr>hmem := put_bytes m (blk_addr h b) stamp\<rparr>"
    from wf1 have wf2: "heap_wf ?h2" by simp
    have bb: "0 < b" "b \<le> heapBlkcount ?h2" "memoryBitmap ?h2 ! (b - 1) = H_BORDER"
      using ow heap_wfD(1) [OF wf2] by (auto simp: owns_def)
    from kfree_block [OF wf2 bb] have "\<exists>h3. kfree (blk_addr h b) ?h2 = Inr h3"
      by (simp add: blk_addr_def)
    moreover have "blk_addr h b \<noteq> 0" using blk_addr_nonzero [OF wf, of b] bb by simp
    ultimately show ?thesis
      using False None lk k m
      by (auto simp: Let_def release_spinlock_def same simp del: kmalloc.simps(2)
          simp: kmalloc.simps(2) [of "Suc d"])
  qed
qed simp

lemma kmalloc_exhausted:
  assumes wf: "heap_wf h" and full: "H_FREE \<notin> set (memoryBitmap h)" and "sz \<noteq> 0"
  shows "kmalloc d stamp sz h = Inl Stack_overflow"
  using \<open>sz \<noteq> 0\<close>
proof (induction d arbitrary: sz)
  case (Suc d)
  note lk = heap_wfD(3) [OF wf]
  have same: "h\<lparr>heap_lock := SPIN_UNLOCKED\<rparr> = h" using lk by (simp add: heap_lock_same)
  have "find_run (unat (heap_blocks sz)) 0 0 (memoryBitmap h) = None"
  proof (cases "find_run (unat (heap_blocks sz)) 0 0 (memoryBitmap h)")
    case (Some b)
    from find_run_first [OF Some] have "memoryBitmap h ! b = H_FREE" "b < length (memoryBitmap h)"
      by (auto simp: all_type_def)
    with full show ?thesis by (metis nth_mem)
  qed
  with Suc.prems Suc.IH [of 64] lk show ?case
    by (simp add: Let_def release_spinlock_def same)
qed simp


subsection \<open>The heap keeps the contract of an allocator\<close>

definition heap_alloc :: "nat \<Rightarrow> u8 list \<Rightarrow> heap \<Rightarrow> nat \<Rightarrow> (u64 option \<times> heap) option" where
  "heap_alloc d stamp h n =
     (if 2 ^ 64 \<le> n then None
      else case kmalloc d stamp (of_nat n) h of
             Inl _ \<Rightarrow> None
           | Inr (p, h') \<Rightarrow> Some (if p = 0 then None else Some p, h'))"

definition heap_free :: "u64 \<Rightarrow> heap \<Rightarrow> heap option" where
  "heap_free p h = (case kfree p h of Inl _ \<Rightarrow> None | Inr h' \<Rightarrow> Some h')"

definition bytes_blocks :: "nat \<Rightarrow> nat" where
  "bytes_blocks n = (n + 255) div 256"

definition heap_owned :: "heap \<Rightarrow> u64 \<Rightarrow> nat \<Rightarrow> bool" where
  "heap_owned h p n \<longleftrightarrow> (\<exists>s. p = blk_addr h s \<and> owns (memoryBitmap h) s (bytes_blocks n))"

definition heap_cells :: "u64 \<Rightarrow> nat \<Rightarrow> nat set" where
  "heap_cells p n = {unat p..<unat p + n}"

lemma bytes_blocks_bounds: "n \<le> 256 * bytes_blocks n \<and> 256 * bytes_blocks n < n + 256"
proof -
  have "256 * ((n + 255) div 256) + (n + 255) mod 256 = n + 255" by (rule mult_div_mod_eq)
  moreover have "(n + 255) mod 256 < 256" by simp
  ultimately show ?thesis unfolding bytes_blocks_def by linarith
qed

lemmas bytes_blocks_le = bytes_blocks_bounds [THEN conjunct1]

lemma heap_cells_apart:
  assumes wf: "heap_wf h" and o: "owns bm s k" "owns bm t l" "length bm = heapBlkcount h"
    and nm: "n \<le> 256 * k" "m \<le> 256 * l" and dis: "{s..<s + k} \<inter> {t..<t + l} = {}"
  shows "heap_cells (blk_addr h s) n \<inter> heap_cells (blk_addr h t) m = {}"
proof -
  from o have "0 < k" "0 < l" "s + k \<le> heapBlkcount h" "t + l \<le> heapBlkcount h"
    by (auto simp: owns_def)
  moreover from dis \<open>0 < k\<close> \<open>0 < l\<close> have "s + k \<le> t \<or> t + l \<le> s"
    by (metis Int_iff atLeastLessThan_iff empty_iff le_add1 linorder_not_le nat_le_linear
        not_less_iff_gr_or_eq less_add_same_cancel1)
  ultimately show ?thesis
    using nm unat_blk_addr [OF wf, of s] unat_blk_addr [OF wf, of t]
    by (auto simp: heap_cells_def)
qed

text \<open>Disjoint bytes come from disjoint blocks, since an allocation uses each of its blocks.\<close>

lemma heap_cells_blocks:
  assumes wf: "heap_wf h" and o: "owns bm s (bytes_blocks n)" "owns bm t (bytes_blocks m)"
      "length bm = heapBlkcount h"
    and dis: "heap_cells (blk_addr h s) n \<inter> heap_cells (blk_addr h t) m = {}"
  shows "{s..<s + bytes_blocks n} \<inter> {t..<t + bytes_blocks m} = {}"
proof -
  let ?k = "bytes_blocks n" and ?l = "bytes_blocks m"
  from o have k: "0 < ?k" "0 < ?l" "s + ?k \<le> heapBlkcount h" "t + ?l \<le> heapBlkcount h"
    by (auto simp: owns_def)
  then have us: "unat (blk_addr h s) = unat (heapOffset h) + 256 * s"
    and ut: "unat (blk_addr h t) = unat (heapOffset h) + 256 * t"
    using unat_blk_addr [OF wf] by auto
  have nm: "256 * ?k < n + 256" "256 * ?l < m + 256" using bytes_blocks_bounds by auto
  have "s + ?k \<le> t \<or> t + ?l \<le> s"
  proof (rule ccontr)
    assume "\<not> (s + ?k \<le> t \<or> t + ?l \<le> s)"
    then have "t + 1 \<le> s + ?k" "s + 1 \<le> t + ?l" by linarith+
    with nm have "256 * t < 256 * s + n" "256 * s < 256 * t + m" by linarith+
    moreover have "x \<in> heap_cells (blk_addr h s) n \<longleftrightarrow>
        unat (heapOffset h) + 256 * s \<le> x \<and> x < unat (heapOffset h) + 256 * s + n"
      "x \<in> heap_cells (blk_addr h t) m \<longleftrightarrow>
        unat (heapOffset h) + 256 * t \<le> x \<and> x < unat (heapOffset h) + 256 * t + m" for x
      by (auto simp: heap_cells_def us ut)
    ultimately have "unat (heapOffset h) + 256 * max s t \<in>
        heap_cells (blk_addr h s) n \<inter> heap_cells (blk_addr h t) m"
      using nm k by (auto simp: max_def)
    with dis show False by simp
  qed
  then show ?thesis by auto
qed

lemma heap_alloc_cases:
  assumes al: "heap_alloc d stamp h n = Some (r, h')" and wf: "heap_wf h"
  obtains (zero) "r = None" and "h' = h"
  | (found) b where "find_run (bytes_blocks n) 0 0 (memoryBitmap h) = Some b"
      and "r = Some (blk_addr h (Suc b - bytes_blocks n))"
      and "h' = h\<lparr>memoryBitmap := heap_claim (bytes_blocks n) b (memoryBitmap h)\<rparr>"
  | (null) b m where "r = None" and "find_run 1 0 0 (memoryBitmap h) = Some b"
      and "h' = h\<lparr>memoryBitmap :=
        heap_release (heapBlkcount h) b (heap_claim 1 b (memoryBitmap h)), hmem := m\<rparr>"
proof -
  from al obtain p where n: "n < 2 ^ 64" and k: "kmalloc d stamp (of_nat n) h = Inr (p, h')"
    and r: "r = (if p = 0 then None else Some p)"
    by (auto simp: heap_alloc_def split: if_splits sum.splits prod.splits)
  have un: "unat (of_nat n :: u64) = n" by (rule unat_of_nat_u64 [OF n])
  show thesis
  proof (cases "n = 0")
    case True
    with k r show thesis by (intro zero) (cases d; simp)+
  next
    case False
    then have sz: "(of_nat n :: u64) \<noteq> 0" using un by (metis unat_0)
    show thesis
    proof (rule kmalloc_cases [OF k wf sz])
      fix b
      assume f: "find_run (unat (heap_blocks (of_nat n))) 0 0 (memoryBitmap h) = Some b"
        and p: "p = blk_addr h (Suc b - unat (heap_blocks (of_nat n)))" "p \<noteq> 0"
        and h': "h' = h\<lparr>memoryBitmap :=
          heap_claim (unat (heap_blocks (of_nat n))) b (memoryBitmap h)\<rparr>"
      have "unat (heap_blocks (of_nat n)) = bytes_blocks n"
      proof (cases "n \<le> 2 ^ 64 - 256")
        case True
        then show ?thesis using unat_heap_blocks [of "of_nat n"] un by (simp add: bytes_blocks_def)
      next
        case big: False
        then have "heap_blocks (of_nat n) = 0" by (intro heap_blocks_wrap) (simp add: un)
        with f find_run_zero [of 0 0] show ?thesis by simp
      qed
      with f p h' r show thesis by (intro found) auto
    next
      fix b m
      assume "p = 0" "find_run 1 0 0 (memoryBitmap h) = Some b"
        and "h' = h\<lparr>memoryBitmap :=
          heap_release (heapBlkcount h) b (heap_claim 1 b (memoryBitmap h)), hmem := m\<rparr>"
      with r show thesis by (intro null) auto
    qed
  qed
qed

lemma heap_alloc_wf: "heap_wf h \<Longrightarrow> heap_alloc d stamp h n = Some (r, h') \<Longrightarrow> heap_wf h'"
  by (auto simp: heap_alloc_def split: if_splits sum.splits prod.splits dest: kmalloc_wf)

lemma heap_alloc_owns:
  assumes wf: "heap_wf h" and al: "heap_alloc d stamp h n = Some (r, h')"
    and o: "owns (memoryBitmap h) s k"
  shows "owns (memoryBitmap h') s k \<and> heapOffset h' = heapOffset h \<and>
    (\<forall>p. r = Some p \<longrightarrow> (\<exists>t. p = blk_addr h t \<and> owns (memoryBitmap h') t (bytes_blocks n) \<and>
       {t..<t + bytes_blocks n} \<inter> {s..<s + k} = {}))"
  using al wf
proof (cases rule: heap_alloc_cases)
  case zero
  with o show ?thesis by simp
next
  case (found b)
  let ?n = "bytes_blocks n"
  have "Suc b - ?n + ?n = Suc b" using find_run_first(3) [OF found(1)] by simp
  with heap_claim_keeps [OF found(1) o] heap_claim_owns [OF heap_wfD(2) [OF wf] found(1)] found
  show ?thesis by (auto simp: Int_commute)
next
  case (null b m)
  let ?c = "heap_claim 1 b (memoryBitmap h)"
  note ck = heap_claim_keeps [OF null(2) o]
  have "owns ?c b 1" using heap_claim_owns [OF heap_wfD(2) [OF wf] null(2)] by simp
  from heap_release_keeps [OF this ck(1)] ck(2) null heap_wfD(1) [OF wf]
  show ?thesis by (simp add: Int_commute)
qed

lemma heap_ownedI:
  "p = blk_addr h t \<Longrightarrow> heapOffset h' = heapOffset h \<Longrightarrow>
   owns (memoryBitmap h') t (bytes_blocks n) \<Longrightarrow> heap_owned h' p n"
  by (auto simp: heap_owned_def blk_addr_def)

lemma heap_ownedE:
  assumes "heap_owned h p n"
  obtains s where "p = blk_addr h s" and "owns (memoryBitmap h) s (bytes_blocks n)"
  using assms by (auto simp: heap_owned_def)

lemma heap_alloc_new:
  assumes wf: "heap_wf h" and al: "heap_alloc d stamp h n = Some (Some p, h')"
  shows "\<exists>t. p = blk_addr h t \<and> owns (memoryBitmap h') t (bytes_blocks n) \<and>
    heapOffset h' = heapOffset h \<and> heapBlkcount h' = heapBlkcount h"
  using al wf
proof (cases rule: heap_alloc_cases)
  case (found b)
  with heap_claim_owns [OF heap_wfD(2) [OF wf] found(1)] show ?thesis by auto
qed simp_all

lemma heap_free_owned:
  assumes wf: "heap_wf h" and o: "owns (memoryBitmap h) s k"
  shows "heap_free (blk_addr h s) h =
    Some (h\<lparr>memoryBitmap := heap_release (heapBlkcount h) s (memoryBitmap h)\<rparr>)"
proof -
  from o heap_wfD(1) [OF wf] have "0 < s" "s \<le> heapBlkcount h" "memoryBitmap h ! (s - 1) = H_BORDER"
    by (auto simp: owns_def)
  from kfree_block [OF wf this] show ?thesis by (simp add: heap_free_def)
qed

interpretation heap_contract: freeing_allocator heap_wf heap_owned heap_cells
    "heap_alloc d stamp" heap_free for d stamp
proof
  fix h h' :: heap and r n and p q :: u64 and m
  assume wf: "heap_wf h"
  show "heap_wf h'" if "heap_alloc d stamp h n = Some (r, h')"
    using heap_alloc_wf [OF wf that] .
  show "heap_owned h' p n" if "heap_alloc d stamp h n = Some (Some p, h')"
    using heap_alloc_new [OF wf that] by (blast intro: heap_ownedI)
  show "heap_owned h' q m" if "heap_alloc d stamp h n = Some (r, h')" "heap_owned h q m"
    using that(2) heap_alloc_owns [OF wf that(1)] by (blast elim: heap_ownedE intro: heap_ownedI)
  show "heap_cells p n \<inter> heap_cells q m = {}"
    if al: "heap_alloc d stamp h n = Some (Some p, h')" and ow: "heap_owned h q m"
  proof -
    from ow obtain s where s: "q = blk_addr h s" "owns (memoryBitmap h) s (bytes_blocks m)"
      by (auto simp: heap_owned_def)
    from heap_alloc_owns [OF wf al s(2)] obtain t where t: "p = blk_addr h t"
      "owns (memoryBitmap h') t (bytes_blocks n)" "owns (memoryBitmap h') s (bytes_blocks m)"
      "{t..<t + bytes_blocks n} \<inter> {s..<s + bytes_blocks m} = {}" by auto
    from heap_alloc_new [OF wf al] heap_wfD(1) [OF heap_alloc_wf [OF wf al]]
    have "length (memoryBitmap h') = heapBlkcount h" by auto
    from heap_cells_apart [OF wf t(2,3) this bytes_blocks_le bytes_blocks_le t(4)] t s
    show ?thesis by simp
  qed
  show "heap_wf h'" if "heap_free p h = Some h'"
    using that kfree_wf [OF wf] by (simp add: heap_free_def split: sum.splits)
  show "\<exists>h'. heap_free p h = Some h'" if "heap_owned h p n"
    using that heap_free_owned [OF wf] unfolding heap_owned_def by blast
  show "heap_owned h' q m" if ow: "heap_owned h p n" and fr: "heap_free p h = Some h'"
    and oq: "heap_owned h q m" and dis: "heap_cells p n \<inter> heap_cells q m = {}"
  proof -
    from ow oq obtain s t where
      s: "p = blk_addr h s" "owns (memoryBitmap h) s (bytes_blocks n)" and
      t: "q = blk_addr h t" "owns (memoryBitmap h) t (bytes_blocks m)"
      by (auto simp: heap_owned_def)
    note len = heap_wfD(1) [OF wf]
    from heap_cells_blocks [OF wf s(2) t(2) len] dis s(1) t(1)
    have "{s..<s + bytes_blocks n} \<inter> {t..<t + bytes_blocks m} = {}" by simp
    from heap_release_keeps [OF s(2) t(2) this] fr heap_free_owned [OF wf s(2)] s(1) len
    have "owns (memoryBitmap h') t (bytes_blocks m)" "heapOffset h' = heapOffset h" by auto
    with t(1) show ?thesis by (blast intro: heap_ownedI)
  qed
qed


subsection \<open>Memory contents\<close>

lemma memset_loop_eq:
  "memset_loop m addr i k v a = (if \<exists>j \<in> {i..<i + k}. a = addr + of_nat j then v else m a)"
proof (induction k arbitrary: m i)
  case 0
  then show ?case by simp
next
  case (Suc k)
  have "{i..<i + Suc k} = insert i {Suc i..<Suc i + k}" by auto
  then have "(\<exists>j \<in> {i..<i + Suc k}. a = addr + of_nat j) \<longleftrightarrow>
    a = addr + of_nat i \<or> (\<exists>j \<in> {Suc i..<Suc i + k}. a = addr + of_nat j)" by simp
  with Suc show ?case by simp
qed

lemma unat_max_u64: "unat (- 1 :: u64) = 2 ^ 64 - 1"
  by (simp add: unsigned_minus_1_eq_mask mask_eq_exp_minus_1)

lemma kcalloc_guard:
  assumes "\<not> (c \<noteq> 0 \<and> sz > (- 1) div c)"
  shows "unat (c * sz) = unat (c :: u64) * unat (sz :: u64)"
proof (cases "c = 0")
  case False
  with assms have "unat sz \<le> (2 ^ 64 - 1) div unat c"
    by (simp add: word_less_nat_alt not_less unat_div unat_max_u64)
  then have "unat c * unat sz \<le> unat c * ((2 ^ 64 - 1) div unat c)" by simp
  also have "\<dots> \<le> 2 ^ 64 - 1" by simp
  finally show ?thesis by (intro unat_mul_no) simp
qed simp

lemma kmalloc_nonnull:
  assumes r: "kmalloc d stamp sz h = Inr (p, h')" and wf: "heap_wf h" and p: "p \<noteq> 0"
  obtains b where "sz \<noteq> 0" and "find_run (unat (heap_blocks sz)) 0 0 (memoryBitmap h) = Some b"
    and "p = blk_addr h (Suc b - unat (heap_blocks sz))"
    and "h' = h\<lparr>memoryBitmap := heap_claim (unat (heap_blocks sz)) b (memoryBitmap h)\<rparr>"
proof -
  have sz: "sz \<noteq> 0" using r p by (cases d) auto
  from r wf sz show thesis by (cases rule: kmalloc_cases) (use p that sz in auto)
qed

text \<open>A request that is granted is no larger than the heap.\<close>

lemma kmalloc_size_bound:
  assumes "find_run (unat (heap_blocks sz)) 0 0 (memoryBitmap h) = Some b" and "heap_wf h"
  shows "unat sz \<le> 256 * heapBlkcount h"
proof -
  note fr = find_run_first [OF assms(1)]
  have "\<not> 2 ^ 64 - 256 < unat sz"
  proof
    assume "2 ^ 64 - 256 < unat sz"
    then have "heap_blocks sz = 0" by (rule heap_blocks_wrap)
    with fr(1) show False by simp
  qed
  then have "unat (heap_blocks sz) = bytes_blocks (unat sz)"
    by (simp add: unat_heap_blocks bytes_blocks_def)
  with fr(2,3) heap_wfD(1) [OF assms(2)] bytes_blocks_le [of "unat sz"] show ?thesis by simp
qed

lemma used_run_all:
  "all_type H_USED bm i k \<Longrightarrow> i + k < cnt \<Longrightarrow> bm ! (i + k) \<noteq> H_USED \<Longrightarrow> used_run cnt i bm = k"
proof (induction k arbitrary: i)
  case 0
  then show ?case by (subst used_run.simps) simp
next
  case (Suc k)
  then have "bm ! i = H_USED" "all_type H_USED bm (Suc i) k" by (auto simp: all_type_def)
  with Suc show ?case by (subst used_run.simps) simp
qed

lemma used_run_owned: "owns bm s k \<Longrightarrow> used_run (length bm) s bm = k - 1"
  by (rule used_run_all) (auto simp: owns_def)

lemma log_under_lock:
  "kmalloc (Suc d) stamp 64 (h\<lparr>heap_lock := SPIN_LOCKED\<rparr>) = Inl Deadlock"
  by simp

subsection \<open>Properties of the heap\<close>

text \<open>C1: Memory safety of the heap. From any well-formed heap, whatever sequence of
  \<^verbatim>\<open>kmalloc\<close> and \<^verbatim>\<open>kfree\<close> calls a client makes (in any order, freeing only what it
  holds, refused requests and their log messages included), each region it holds can still be freed, and
  its byte range is disjoint from that of every other region it holds.\<close>

theorem heap_regions_disjoint:
  assumes "alloc_trace (heap_alloc d stamp) heap_free h0 h live" and "heap_wf h0" and i: "i < length live"
  shows "(\<exists>h'. kfree (fst (live ! i)) h = Inr h') \<and>
    (\<forall>j < length live. j \<noteq> i \<longrightarrow>
       heap_cells (fst (live ! i)) (snd (live ! i)) \<inter> heap_cells (fst (live ! j)) (snd (live ! j)) = {})"
proof -
  have ap: "apart heap_cells live" using heap_contract.trace_safe [OF assms(1,2)] by simp
  have "(fst (live ! i), snd (live ! i)) \<in> set live" using i by simp
  then have "\<exists>h'. heap_free (fst (live ! i)) h = Some h'"
    by (rule heap_contract.trace_give_returns [OF assms(1,2)])
  moreover have "heap_cells (fst (live ! i)) (snd (live ! i)) \<inter> heap_cells (fst (live ! j)) (snd (live ! j)) = {}"
    if "j < length live" "j \<noteq> i" for j
    using apart_nth [OF ap, of i j] apart_nth [OF ap, of j i] i that by (cases "i < j") auto
  ultimately show ?thesis by (auto simp: heap_free_def split: sum.splits)
qed

text \<open>A small heap for the witnesses.\<close>

definition small_heap :: "heap_type list \<Rightarrow> heap" where
  "small_heap bm =
     \<lparr>heapOffset = 0x1000, heapBlkcount = length bm, memoryBitmap = bm,
      heap_lock = SPIN_UNLOCKED, hmem = (\<lambda>_. 0)\<rparr>"

lemmas heap_eval = small_heap_def heap_alloc_def kmalloc.simps heap_blocks_def
  heap_round_def heapBlksize_def Let_def acquire_spinlock_def release_spinlock_def SPIN_LOCKED_def
  SPIN_UNLOCKED_def heap_claim_def mark_used.simps blk_addr_def

lemma small_heap_wf: "heap_wf (small_heap [H_BORDER, H_FREE, H_FREE, H_FREE])"
  by (simp add: heap_wf_def small_heap_def bitmap_wf_def All_less_Suc2)

lemma small_alloc_300:
  "heap_alloc (Suc 0) [] (small_heap [H_BORDER, H_FREE, H_FREE, H_FREE]) 300 =
     Some (Some 0x1100, small_heap [H_BORDER, H_USED, H_BORDER, H_FREE])"
  by (simp add: heap_eval)

lemma small_alloc_10:
  "heap_alloc (Suc 0) [] (small_heap [H_BORDER, H_USED, H_BORDER, H_FREE]) 10 =
     Some (Some 0x1300, small_heap [H_BORDER, H_USED, H_BORDER, H_BORDER])"
  by (simp add: heap_eval)

theorem heap_regions_disjoint_witness:
  "heap_cells 0x1100 300 \<inter> heap_cells 0x1300 10 = {} \<and>
   (\<exists>h'. kfree 0x1100 (small_heap [H_BORDER, H_USED, H_BORDER, H_BORDER]) = Inr h')"
proof -
  have "alloc_trace (heap_alloc (Suc 0) []) heap_free (small_heap [H_BORDER, H_FREE, H_FREE, H_FREE])
    (small_heap [H_BORDER, H_USED, H_BORDER, H_BORDER]) [(0x1300, 10), (0x1100, 300)]"
    by (intro trace_take [where al = "heap_alloc (Suc 0) []", OF _ small_alloc_10]
        trace_take [where al = "heap_alloc (Suc 0) []", OF _ small_alloc_300] trace_start)
  note t = heap_regions_disjoint [OF this small_heap_wf, of 1]
  from t t [THEN conjunct2, rule_format, of 0] show ?thesis by simp
qed

text \<open>C8: First fit. On a well-formed heap, when the request does not wrap around and some run of free
  blocks is long enough, \<^verbatim>\<open>kmalloc\<close> returns the address of the first such run, marks its blocks used
  and closes it with a border, and changes nothing else, no byte of memory either. Without such a run
  it returns NULL as long as one block is free and the stack holds two frames of it; with no free
  block it never returns: it calls itself for the log message until the stack overflows.\<close>

theorem kmalloc_first_fit:
  assumes wf: "heap_wf h" and sz: "sz \<noteq> 0" and n: "n = (unat sz + 255) div 256"
    and fits: "fits \<longleftrightarrow> unat sz \<le> 2 ^ 64 - 256 \<and> (\<exists>s. s + n \<le> heapBlkcount h \<and> all_type H_FREE (memoryBitmap h) s n)"
  shows "(fits \<longrightarrow> (\<exists>s bm. kmalloc (Suc d) stamp sz h = Inr (heapOffset h + of_nat s * 256, h\<lparr>memoryBitmap := bm\<rparr>) \<and>
      heapOffset h + of_nat s * 256 \<noteq> 0 \<and> s + n \<le> heapBlkcount h \<and> all_type H_FREE (memoryBitmap h) s n \<and>
      (\<forall>t < s. \<not> all_type H_FREE (memoryBitmap h) t n) \<and> length bm = heapBlkcount h \<and>
      (\<forall>k < heapBlkcount h. bm ! k =
         (if s \<le> k \<and> k < s + n - 1 then H_USED
          else if k = s + n - 1 then H_BORDER else memoryBitmap h ! k)))) \<and>
    (\<not> fits \<and> H_FREE \<in> set (memoryBitmap h) \<longrightarrow> (\<exists>h'. kmalloc (Suc (Suc d)) stamp sz h = Inr (0, h'))) \<and>
    (H_FREE \<notin> set (memoryBitmap h) \<longrightarrow> kmalloc d stamp sz h = Inl Stack_overflow)"
proof -
  note len = heap_wfD(1) [OF wf]
  have run: "fits \<longleftrightarrow> (\<exists>b. find_run (unat (heap_blocks sz)) 0 0 (memoryBitmap h) = Some b)"
  proof (cases "unat sz \<le> 2 ^ 64 - 256")
    case False
    then have "heap_blocks sz = 0" by (intro heap_blocks_wrap) simp
    with False fits find_run_zero show ?thesis by simp
  next
    case True
    then have hb: "unat (heap_blocks sz) = n" by (simp add: n unat_heap_blocks)
    show ?thesis
    proof
      assume "fits"
      then obtain s where s: "s + n \<le> heapBlkcount h" "all_type H_FREE (memoryBitmap h) s n" using fits by blast
      have "\<not> find_run n 0 0 (memoryBitmap h) = None"
      proof
        assume "find_run n 0 0 (memoryBitmap h) = None"
        moreover have "0 < n" using sz by (simp add: n unat_gt_0 div_greater_zero_iff Suc_le_eq)
        ultimately obtain l where "l < n" "memoryBitmap h ! (s + l) \<noteq> H_FREE"
          using find_run_None [of n 0 0 "memoryBitmap h" s] s(1) len by auto
        with s(2) show False unfolding all_type_def by (metis le_add1 nat_add_left_cancel_less)
      qed
      then show "\<exists>b. find_run (unat (heap_blocks sz)) 0 0 (memoryBitmap h) = Some b" by (auto simp: hb)
    next
      assume "\<exists>b. find_run (unat (heap_blocks sz)) 0 0 (memoryBitmap h) = Some b"
      then obtain b where b: "find_run n 0 0 (memoryBitmap h) = Some b" by (auto simp: hb)
      note fr = find_run_first [OF b]
      have "Suc b - n + n \<le> heapBlkcount h" using fr(2,3) len by simp
      with fr(4) True show "fits" unfolding fits by blast
    qed
  qed
  have granted: "\<exists>s bm. kmalloc (Suc d) stamp sz h = Inr (heapOffset h + of_nat s * 256, h\<lparr>memoryBitmap := bm\<rparr>) \<and>
      heapOffset h + of_nat s * 256 \<noteq> 0 \<and> s + n \<le> heapBlkcount h \<and> all_type H_FREE (memoryBitmap h) s n \<and>
      (\<forall>t < s. \<not> all_type H_FREE (memoryBitmap h) t n) \<and> length bm = heapBlkcount h \<and>
      (\<forall>k < heapBlkcount h. bm ! k =
         (if s \<le> k \<and> k < s + n - 1 then H_USED
          else if k = s + n - 1 then H_BORDER else memoryBitmap h ! k))" if "fits"
  proof -
    have hb: "unat (heap_blocks sz) = n" using that by (simp add: fits n unat_heap_blocks)
    from that run obtain b where b: "find_run (unat (heap_blocks sz)) 0 0 (memoryBitmap h) = Some b" by blast
    then have f: "find_run n 0 0 (memoryBitmap h) = Some b" by (simp add: hb)
    note fr = find_run_first [OF f]
    have sn: "Suc b - n + n - 1 = b" "Suc b - n + n = Suc b" using fr by simp_all
    have k: "kmalloc (Suc d) stamp sz h =
        Inr (heapOffset h + of_nat (Suc b - n) * 256, h\<lparr>memoryBitmap := heap_claim n b (memoryBitmap h)\<rparr>)"
      using kmalloc_found [OF wf sz b, of d stamp] by (simp add: hb blk_addr_def heapBlksize_def)
    have le: "Suc b - n + n \<le> heapBlkcount h" using sn fr(2) len by simp
    then have "blk_addr h (Suc b - n) \<noteq> 0" by (intro blk_addr_nonzero [OF wf]) simp
    then have nz: "heapOffset h + of_nat (Suc b - n) * 256 \<noteq> 0" by (simp add: blk_addr_def heapBlksize_def)
    have nth: "\<forall>k < heapBlkcount h. heap_claim n b (memoryBitmap h) ! k =
      (if Suc b - n \<le> k \<and> k < Suc b - n + n - 1 then H_USED
       else if k = Suc b - n + n - 1 then H_BORDER else memoryBitmap h ! k)"
      using heap_claim_nth' [OF f] len sn by auto
    have "length (heap_claim n b (memoryBitmap h)) = heapBlkcount h" using len by simp
    with k nz le fr(4) find_run_least [OF f] nth show ?thesis by blast
  qed
  have refused: "\<exists>h'. kmalloc (Suc (Suc d)) stamp sz h = Inr (0, h')"
    if "\<not> fits" "H_FREE \<in> set (memoryBitmap h)"
  proof -
    from kmalloc_returns [OF wf that(2)] obtain p h' where k: "kmalloc (Suc (Suc d)) stamp sz h = Inr (p, h')" by blast
    from k wf sz have "p = 0"
      by (cases rule: kmalloc_cases) (use that(1) run in auto)
    with k show ?thesis by blast
  qed
  show ?thesis using granted refused kmalloc_exhausted [OF wf _ sz] by blast
qed

lemma small_kmalloc_300:
  "kmalloc 1 [] 300 (small_heap [H_BORDER, H_FREE, H_FREE, H_FREE]) =
     Inr (0x1100, small_heap [H_BORDER, H_USED, H_BORDER, H_FREE])"
  by (simp add: heap_eval One_nat_def)

theorem kmalloc_first_fit_witness:
  "\<exists>h'. kmalloc 1 [] 300 (small_heap [H_BORDER, H_FREE, H_FREE, H_FREE]) = Inr (0x1100, h')"
proof -
  let ?h = "small_heap [H_BORDER, H_FREE, H_FREE, H_FREE]"
  have n: "2 = (unat (300 :: u64) + 255) div 256" and z: "(300 :: u64) \<noteq> 0" by simp_all
  have a: "all_type H_FREE (memoryBitmap ?h) 1 2" "\<not> all_type H_FREE (memoryBitmap ?h) 0 2"
    by (auto simp: all_type_def small_heap_def less_Suc_eq numeral_eq_Suc)
  have c: "heapBlkcount ?h = 4" "heapOffset ?h = 0x1000" by (simp_all add: small_heap_def)
  have f: "True \<longleftrightarrow> unat (300 :: u64) \<le> 2 ^ 64 - 256 \<and> (\<exists>s. s + 2 \<le> heapBlkcount ?h \<and> all_type H_FREE (memoryBitmap ?h) s 2)"
    using a(1) c(1) by (auto intro!: exI [of _ 1])
  from kmalloc_first_fit [OF small_heap_wf z n f, of 0 "[]"] obtain s bm where
    s: "kmalloc (Suc 0) [] 300 ?h = Inr (heapOffset ?h + of_nat s * 256, ?h\<lparr>memoryBitmap := bm\<rparr>)"
      "all_type H_FREE (memoryBitmap ?h) s 2" "\<forall>t < s. \<not> all_type H_FREE (memoryBitmap ?h) t 2" by blast
  have "s = 1"
    using s(2,3) a by (metis less_one nat_neq_iff)
  with s(1) c show ?thesis by (auto simp: One_nat_def)
qed

text \<open>C27: Releasing what was just allocated. \<^verbatim>\<open>kfree\<close> of the pointer \<^verbatim>\<open>kmalloc\<close>
  returned always succeeds; it restores the heap exactly when the block behind the
  allocation is free, and otherwise keeps the closing border, so that one block of the
  allocation stays lost.\<close>

theorem kfree_kmalloc_roundtrip:
  assumes wf: "heap_wf h" and r: "kmalloc d stamp sz h = Inr (p, h')" and p: "p \<noteq> 0"
  shows "\<exists>e. e < heapBlkcount h \<and>
    unat p + 256 * ((unat sz + 255) div 256) = unat (heapOffset h) + 256 * Suc e \<and>
    kfree p h' =
      Inr (if Suc e < heapBlkcount h \<and> memoryBitmap h ! Suc e = H_FREE then h
           else h\<lparr>memoryBitmap := (memoryBitmap h)[e := H_BORDER]\<rparr>)"
proof -
  let ?bm = "memoryBitmap h" and ?n = "unat (heap_blocks sz)"
  note len = heap_wfD(1) [OF wf] and bwf = heap_wfD(2) [OF wf]
  from r wf p obtain b where f: "find_run ?n 0 0 ?bm = Some b"
    and pa: "p = blk_addr h (Suc b - ?n)"
    and h': "h' = h\<lparr>memoryBitmap := heap_claim ?n b ?bm\<rparr>"
    by (rule kmalloc_nonnull) auto
  note fr = find_run_first [OF f]
  let ?s = "Suc b - ?n" and ?c = "heap_claim ?n b ?bm"
  have sn: "?s + ?n = Suc b" using fr(3) by simp
  have nn: "?n = (unat sz + 255) div 256"
  proof -
    have "\<not> 2 ^ 64 - 256 < unat sz" using heap_blocks_wrap [of sz] fr(1) by auto
    then show ?thesis by (simp add: unat_heap_blocks)
  qed
  have ow: "owns ?c ?s ?n" by (rule heap_claim_owns [OF bwf f])
  have wf': "heap_wf h'" unfolding h' by (rule kmalloc_found_wf [OF wf f])
  have pre: "0 < ?s" "?s \<le> heapBlkcount h'" "memoryBitmap h' ! (?s - 1) = H_BORDER"
    using ow len h' fr(2) by (auto simp: owns_def)
  have kf: "kfree p h' = Inr (h\<lparr>memoryBitmap := heap_release (length ?bm) ?s ?c\<rparr>)"
    using kfree_block [OF wf' pre] pa h' len by (simp add: blk_addr_def)
  have "heap_release (length ?bm) ?s ?c =
    (if Suc b < length ?bm \<and> ?bm ! Suc b = H_FREE then ?bm else ?bm[b := H_BORDER])"
  proof (cases "Suc b < length ?bm \<and> ?bm ! Suc b = H_FREE")
    case True
    with heap_claim_release [OF bwf f] show ?thesis by simp
  next
    case False
    have nxt: "?c ! Suc b = ?bm ! Suc b" if "Suc b < length ?bm"
      using heap_claim_nth' [OF f that] by simp
    have "heap_release (length ?bm) ?s ?c ! k = ?bm[b := H_BORDER] ! k" if k: "k < length ?bm" for k
    proof -
      have free: "?bm ! k = H_FREE" if "?s \<le> k" "k < b"
        using fr(4) that by (auto simp: all_type_def)
      show ?thesis
        using heap_release_owned [OF ow, of k] heap_claim_nth' [OF f k] k sn False free nxt fr(2)
        by (auto simp: nth_list_update)
    qed
    with False show ?thesis by (auto intro: list_eq_nthI)
  qed
  moreover have "h\<lparr>memoryBitmap := ?bm\<rparr> = h" by simp
  moreover have "unat p + 256 * ((unat sz + 255) div 256) = unat (heapOffset h) + 256 * Suc b"
  proof -
    have "unat p = unat (heapOffset h) + 256 * ?s"
      unfolding pa using fr(2) len by (intro unat_blk_addr [OF wf]) simp
    then have "unat p + 256 * ?n = unat (heapOffset h) + 256 * (?s + ?n)" by simp
    then show ?thesis using sn nn by simp
  qed
  ultimately show ?thesis
    using kf fr(2) len by (intro exI [of _ b]) auto
qed

theorem kfree_kmalloc_roundtrip_witness:
  "kfree 0x1100 (small_heap [H_BORDER, H_USED, H_BORDER, H_FREE]) =
     Inr (small_heap [H_BORDER, H_FREE, H_FREE, H_FREE])"
proof -
  from kfree_kmalloc_roundtrip [OF small_heap_wf small_kmalloc_300]
  obtain e where "e < 4" "0x1100 + 256 * 2 = 0x1000 + 256 * Suc e"
    "kfree 0x1100 (small_heap [H_BORDER, H_USED, H_BORDER, H_FREE]) =
      Inr (if Suc e < 4 \<and> [H_BORDER, H_FREE, H_FREE, H_FREE] ! Suc e = H_FREE
           then small_heap [H_BORDER, H_FREE, H_FREE, H_FREE]
           else small_heap [H_BORDER, H_FREE, H_FREE, H_FREE]
             \<lparr>memoryBitmap := [H_BORDER, H_FREE, H_FREE, H_FREE][e := H_BORDER]\<rparr>)"
    by (auto simp: small_heap_def)
  moreover from this have "e = 2" by simp
  ultimately show ?thesis by simp
qed

text \<open>A pointer the heap did not hand out stops the kernel. \<^verbatim>\<open>kfree\<close> of a non-NULL
  pointer that is not the address of a block behind a border never returns: its error path
  logs while it holds the heap lock, and the logger allocates from the same heap. The first
  address of the heap passes the range check and reads the type byte before the bitmap.\<close>

lemma kfree_invalid_never_returns:
  assumes wf: "heap_wf h" and p: "p \<noteq> 0"
    and bad: "\<And>s. 0 < s \<Longrightarrow> s \<le> heapBlkcount h \<Longrightarrow> p = blk_addr h s \<Longrightarrow>
      memoryBitmap h ! (s - 1) \<noteq> H_BORDER"
  shows "kfree p h = Inl (if p = heapOffset h then Out_of_bounds else Deadlock) \<and>
    kmalloc (Suc d) stamp 64 (h\<lparr>heap_lock := SPIN_LOCKED\<rparr>) = Inl Deadlock"
proof -
  define off where "off = p - heapOffset h"
  let ?top = "heapOffset h + of_nat (heapBlkcount h) * heapBlksize"
  note len = heap_wfD(1) [OF wf] and lk = heap_wfD(3) [OF wf] and bd = heap_wfD(5) [OF wf]
  have top: "unat ?top = unat (heapOffset h) + 256 * heapBlkcount h"
    using unat_blk_addr [OF wf le_refl] by (simp add: blk_addr_def)
  have "kfree p h = Inl (if p = heapOffset h then Out_of_bounds else Deadlock)"
  proof (cases "off mod heapBlksize \<noteq> 0 \<or> p > ?top \<or> p < heapOffset h")
    case True
    moreover from True have "p \<noteq> heapOffset h"
      using top by (auto simp: off_def word_less_nat_alt)
    ultimately show ?thesis using p lk by (simp add: kfree_def Let_def off_def)
  next
    case False
    then have lo: "unat (heapOffset h) \<le> unat p" and hi: "unat p \<le> unat ?top"
      by (auto simp: word_less_nat_alt)
    have uo: "unat off = unat p - unat (heapOffset h)" unfolding off_def using lo by (rule unat_sub_no)
    from False have "unat off mod 256 = 0" by (simp add: unat_mod flip: unat_eq_zero)
    then obtain s where s: "unat off = 256 * s" by (auto simp: mod_eq_0_iff_dvd)
    with uo hi top lo have sle: "s \<le> heapBlkcount h" by linarith
    have ps: "p = blk_addr h s"
      using s uo lo unat_blk_addr [OF wf sle] by (simp add: word_unat_eq_iff)
    have dv: "unat (off div heapBlksize) = s" by (simp add: unat_div s)
    show ?thesis
    proof (cases "s = 0")
      case True
      then have "p = heapOffset h" using ps by (simp add: blk_addr_def)
      moreover have "off div heapBlksize - 1 = - 1" using dv True by (simp add: unat_eq_zero)
      moreover have "length (memoryBitmap h) \<le> unat (- 1 :: u64)"
        using len bd by (simp add: unat_max_u64)
      ultimately show ?thesis using p lk False by (simp add: kfree_def Let_def off_def)
    next
      case s0: False
      then have idx: "unat (off div heapBlksize - 1) = s - 1"
        using dv by (subst unat_sub_no) simp_all
      have "memoryBitmap h ! (s - 1) \<noteq> H_BORDER" using bad [of s] s0 sle ps by simp
      moreover have "p \<noteq> heapOffset h" using s uo s0 by auto
      moreover have "s - 1 < length (memoryBitmap h)" using s0 sle len by simp
      ultimately show ?thesis using p lk False idx by (simp add: kfree_def Let_def off_def)
    qed
  qed
  then show ?thesis by simp
qed

text \<open>Running out of memory. With no block left a request overruns the kernel stack,
  however deep it is: the failing call logs, and the logger allocates. While one block is
  left, two nested calls are enough and every request returns.\<close>

lemma kmalloc_out_of_memory:
  assumes "heap_wf h" and "sz \<noteq> 0"
  shows "if H_FREE \<in> set (memoryBitmap h)
    then \<exists>p h'. kmalloc (Suc (Suc d)) stamp sz h = Inr (p, h')
    else kmalloc d stamp sz h = Inl Stack_overflow"
  using kmalloc_returns [OF assms(1)] kmalloc_exhausted [OF assms(1) _ assms(2)] by simp

lemma full_heap_wf: "heap_wf (small_heap [H_BORDER, H_USED, H_BORDER])"
  by (simp add: heap_wf_def bitmap_wf_def small_heap_def All_less_Suc)

text \<open>\<^verbatim>\<open>kcalloc\<close>. A product that does not fit 64 bits is refused before anything is
  allocated; a product that fits is never truncated, and a granted request is zero on its
  whole length and leaves every other byte of memory alone.\<close>

lemma kcalloc_zeroes:
  assumes wf: "heap_wf h" and r: "kcalloc d stamp c sz h = Inr (p, h')"
  shows "(2 ^ 64 \<le> unat c * unat sz \<longrightarrow> p = 0 \<and> h' = h) \<and>
    (p \<noteq> 0 \<longrightarrow> (\<forall>i < unat c * unat sz. hmem h' (p + of_nat i) = 0) \<and>
      (\<forall>a. (\<forall>i < unat c * unat sz. a \<noteq> p + of_nat i) \<longrightarrow> hmem h' a = hmem h a))"
proof (cases "c \<noteq> 0 \<and> sz > (- 1) div c")
  case True
  with r show ?thesis by (simp add: kcalloc_def)
next
  case False
  note g = kcalloc_guard [OF False]
  have lt: "unat c * unat sz < 2 ^ 64" unfolding g [symmetric] by (rule unat_u64_lt)
  have "(\<forall>i < unat c * unat sz. hmem h' (p + of_nat i) = 0) \<and>
    (\<forall>a. (\<forall>i < unat c * unat sz. a \<noteq> p + of_nat i) \<longrightarrow> hmem h' a = hmem h a)" if p: "p \<noteq> 0"
  proof -
    from r False p obtain h1 m where k: "kmalloc d stamp (c * sz) h = Inr (p, h1)"
      and ms: "memset (hmem h1) p (c * sz) 0 = Inr m" and h': "h' = h1\<lparr>hmem := m\<rparr>"
      by (auto simp: kcalloc_def rbind_eq_Inr split: if_splits)
    from k wf p have "hmem h1 = hmem h" by (rule kmalloc_nonnull) simp
    with ms have "m = memset_loop (hmem h) p 0 (unat c * unat sz) 0"
      by (simp add: memset_def g split: if_splits)
    with h' have "hmem h' a =
      (if \<exists>j \<in> {0..<unat c * unat sz}. a = p + of_nat j then 0 else hmem h a)" for a
      by (simp add: memset_loop_eq)
    then show ?thesis by auto
  qed
  with lt show ?thesis by simp
qed

lemma small_kcalloc:
  "\<exists>h'. kcalloc 1 [] 2 3 (small_heap [H_BORDER, H_FREE, H_FREE, H_FREE]) = Inr (0x1100, h')"
  by (simp add: kcalloc_def heap_eval memset_def One_nat_def)

subsection \<open>Growing an allocation\<close>

lemma memcpy_loop_eq:
  assumes "\<And>i j. i < n \<Longrightarrow> j < n \<Longrightarrow> dst + of_nat i \<noteq> src + of_nat j"
    and "b + k = n"
    and "\<And>a. m' a = (if \<exists>j < b. a = dst + of_nat j then m (src + (a - dst)) else m a)"
  shows "memcpy_loop m' dst src b k a =
    (if \<exists>j < n. a = dst + of_nat j then m (src + (a - dst)) else m a)"
  using assms(2,3)
proof (induction k arbitrary: m' b)
  case 0
  then show ?case by simp
next
  case (Suc k)
  have "src + of_nat b \<noteq> dst + of_nat j" if "j < b" for j
  proof -
    from that Suc.prems(1) have "j < n" "b < n" by simp_all
    from assms(1) [OF this] show ?thesis by (rule not_sym)
  qed
  then have src: "m' (src + of_nat b) = m (src + of_nat b)" using Suc.prems(2) by auto
  define m1 where "m1 = m'(dst + of_nat b := m' (src + of_nat b))"
  have m1: "m1 a = (if \<exists>j < Suc b. a = dst + of_nat j then m (src + (a - dst)) else m a)" for a
    using src Suc.prems(2) [of a] by (auto simp: less_Suc_eq m1_def)
  from Suc.prems(1) have "Suc b + k = n" by simp
  from Suc.IH [OF this m1] show ?case by (simp only: memcpy_loop.simps m1_def)
qed

lemma memcpy_apart:
  assumes "memcpy m dst src num = Inr m'"
    and "\<And>i j. i < unat num \<Longrightarrow> j < unat num \<Longrightarrow> dst + of_nat i \<noteq> src + of_nat j"
  shows "m' a = (if \<exists>j < unat num. a = dst + of_nat j then m (src + (a - dst)) else m a)"
proof -
  have "memcpy_loop m dst src 0 (unat num) a =
    (if \<exists>j < unat num. a = dst + of_nat j then m (src + (a - dst)) else m a)"
    by (rule memcpy_loop_eq [OF assms(2)]) simp_all
  moreover have "memcpy_loop m dst src 0 (unat num) = m'"
    using assms(1) by (simp add: memcpy_def split: if_splits)
  ultimately show ?thesis by simp
qed

lemma kfree_hmem: "kfree p h = Inr h' \<Longrightarrow> hmem h' = hmem h"
  by (auto simp: kfree_def rbind_eq_Inr Let_def split: if_splits)

lemma blk_bytes_apart:
  assumes wf: "heap_wf h" and "s + k \<le> heapBlkcount h" and "t + n \<le> heapBlkcount h"
    and dis: "{s..<s + k} \<inter> {t..<t + n} = {}" and "i < 256 * k" and "j < 256 * n"
  shows "blk_addr h t + of_nat j \<noteq> blk_addr h s + of_nat i"
proof
  assume eq: "blk_addr h t + of_nat j = blk_addr h s + of_nat i"
  note bd = heap_wfD(5) [OF wf]
  have u: "unat (blk_addr h x + of_nat y) = unat (heapOffset h) + 256 * x + y"
    if "x + z \<le> heapBlkcount h" "y < 256 * z" for x y z
  proof -
    from that bd have "unat (heapOffset h) + 256 * x + y < 2 ^ 64" by linarith
    moreover from this have "unat (of_nat y :: u64) = y" by (intro unat_of_nat_u64) linarith
    moreover have "unat (blk_addr h x) = unat (heapOffset h) + 256 * x"
      using that by (intro unat_blk_addr [OF wf]) simp
    ultimately show ?thesis by (simp add: unat_add_no)
  qed
  have "256 * t + j = 256 * s + i"
    using u [OF assms(2,5)] u [OF assms(3,6)] arg_cong [OF eq, of unat] by simp
  then have "(256 * t + j) div 256 = (256 * s + i) div 256" by simp
  then have "t + j div 256 = s + i div 256" by simp
  moreover have "j div 256 < n" "i div 256 < k" using assms(5,6) by (auto intro: less_mult_imp_div_less simp: mult.commute)
  ultimately have "s + i div 256 \<in> {s..<s + k} \<inter> {t..<t + n}" by auto
  with dis show False by simp
qed

text \<open>\<^verbatim>\<open>krealloc\<close> loses data. It counts the used blocks up to the closing border and
  copies as many, so growing an allocation of \<open>k\<close> blocks copies the first \<open>k - 1\<close> of them
  and leaves the last one behind; growing an allocation of one block copies nothing.\<close>

lemma krealloc_drops_last_block:
  assumes wf: "heap_wf h" and ow: "owns (memoryBitmap h) s k"
    and r: "krealloc d stamp (blk_addr h s) sz h = Inr (p, h')" and p: "p \<noteq> 0"
    and grow: "256 * (k - 1) < unat sz" and big: "unat sz \<le> 2 ^ 64 - 256" and i: "i < unat sz"
  shows "hmem h' (p + of_nat i) =
    (if i < 256 * (k - 1) then hmem h (blk_addr h s + of_nat i) else hmem h (p + of_nat i))"
proof -
  let ?old = "blk_addr h s" and ?bm = "memoryBitmap h" and ?sz = "heap_round sz"
  note len = heap_wfD(1) [OF wf] and bd = heap_wfD(5) [OF wf]
  from ow len have s: "0 < k" "0 < s" "s + k \<le> heapBlkcount h"
    "\<And>x. s \<le> x \<Longrightarrow> x < s + k \<Longrightarrow> ?bm ! x \<noteq> H_FREE"
    by (auto simp: owns_def all_type_def less_Suc_eq dest: owns_not_free [OF ow])
  have uold: "unat ?old = unat (heapOffset h) + 256 * s" using s by (intro unat_blk_addr [OF wf]) simp
  have idx: "unat ((?old - heapOffset h) div heapBlksize - 1 + 1) = s"
    using uold by (simp add: unat_div unat_sub_no heapBlksize_def)
  define osz where "osz = (of_nat (k - 1) * heapBlksize :: u64)"
  have k64: "256 * (k - 1) < 2 ^ 64" using s(3) bd by linarith
  then have "unat (of_nat (k - 1) :: u64) = k - 1" by (intro unat_of_nat_u64) linarith
  then have uo: "unat osz = 256 * (k - 1)"
    unfolding osz_def using k64 by (subst unat_mul_no) (simp_all add: heapBlksize_def)
  have rnd: "unat ?sz = 256 * bytes_blocks (unat sz)"
    using unat_heap_round [OF big] by (simp add: bytes_blocks_def)
  with bytes_blocks_le [of "unat sz"] grow uo have "osz < ?sz" by (simp add: word_less_nat_alt)
  moreover have "used_run (heapBlkcount h) s ?bm = k - 1" using used_run_owned [OF ow] len by simp
  ultimately obtain h1 m h2 where km: "kmalloc d stamp ?sz h = Inr (p, h1)"
    and mc: "memcpy (hmem h1) p ?old osz = Inr m" and kf: "kfree ?old (h1\<lparr>hmem := m\<rparr>) = Inr h2"
    and h': "h' = h2"
    using r p blk_addr_nonzero [OF wf, of s] s(3) idx
    by (auto simp: krealloc_def Let_def osz_def rbind_eq_Inr split: if_splits)
  from km wf p obtain b where f: "find_run (unat (heap_blocks ?sz)) 0 0 ?bm = Some b"
    and pa: "p = blk_addr h (Suc b - unat (heap_blocks ?sz))" and mem: "hmem h1 = hmem h"
    by (rule kmalloc_nonnull) auto
  define n t where "n = unat (heap_blocks ?sz)" and "t = Suc b - n"
  note fr = find_run_first [OF f, folded n_def, folded t_def]
  have tn: "t + n \<le> heapBlkcount h" using fr(2,3) len by (simp add: t_def)
  have "\<not> 2 ^ 64 - 256 < unat ?sz" using fr(1) heap_blocks_wrap [of ?sz] by (auto simp: n_def)
  then have cov: "unat ?sz \<le> 256 * n"
    using bytes_blocks_le [of "unat ?sz"] by (simp add: n_def unat_heap_blocks bytes_blocks_def)
  have free: "?bm ! x = H_FREE" if "t \<le> x" "x < t + n" for x
    using fr(4) that by (auto simp: all_type_def)
  have "{s..<s + k} \<inter> {t..<t + n} = {}" using free s(4) by fastforce
  from blk_bytes_apart [OF wf s(3) tn this] have dis: "p + of_nat x \<noteq> ?old + of_nat y"
    if "x < unat osz" "y < unat osz" for x y
    using that cov uo \<open>osz < ?sz\<close> pa by (simp add: word_less_nat_alt n_def t_def)
  have i64: "i < 2 ^ 64" using i unat_u64_lt [of sz] by linarith
  have "(\<exists>j < unat osz. p + of_nat i = p + of_nat j) \<longleftrightarrow> i < unat osz"
    using of_nat_u64_inj [OF _ i64] unat_u64_lt [of osz] by (auto dest: less_trans)
  with memcpy_apart [OF mc dis, of "p + of_nat i"] show ?thesis
    using kfree_hmem [OF kf] h' mem uo by simp
qed


definition one_block_heap :: heap where
  "one_block_heap = (small_heap [H_BORDER, H_BORDER, H_FREE, H_FREE])
    \<lparr>hmem := (\<lambda>a. if a < 0x1200 then 7 else 0)\<rparr>"

lemma one_block_grows:
  "\<exists>h'. krealloc 1 [] (blk_addr one_block_heap 1) 300 one_block_heap = Inr (0x1200, h')"
  by (simp add: krealloc_def heap_eval one_block_heap_def used_run.simps memcpy_def kfree_def
      blk_addr_def heap_release_def free_used.simps One_nat_def)

end
