(* ===== verification/CString.thy ===== *)
theory CString
  imports Prelude
begin

text \<open>
  The C strings of \<^verbatim>\<open>src/stdlib/structures/string.cpp\<close>. A buffer is the list of its bytes,
  a string in it ends at the first zero byte, and running past the end of the buffer is the
  fault \<open>Out_of_bounds\<close>. \<^verbatim>\<open>char\<close> is signed, as the compiler of the kernel has it.
\<close>

subsection \<open>Length and comparison\<close>

fun strlen :: "u8 list \<Rightarrow> nat res" where
  "strlen [] = Inl Out_of_bounds"
| "strlen (c # cs) = (if c = 0 then Inr 0 else rbind (strlen cs) (\<lambda>n. Inr (Suc n)))"

fun strclen :: "u8 list \<Rightarrow> u8 \<Rightarrow> nat res" where
  "strclen [] term = Inl Out_of_bounds"
| "strclen (c # cs) term =
     (if c \<noteq> 0 \<and> c \<noteq> term then rbind (strclen cs term) (\<lambda>n. Inr (Suc n)) else Inr 0)"

definition toUpper :: "u8 \<Rightarrow> u8" where
  "toUpper c = (if 97 \<le> sint c \<and> sint c \<le> 122 then c - 32 else c)"

fun strcmp_count :: "u8 list \<Rightarrow> u8 list \<Rightarrow> nat \<Rightarrow> bool res" where
  "strcmp_count a b 0 = Inr True"
| "strcmp_count (x # a) (y # b) (Suc n) = (if x \<noteq> y then Inr False else strcmp_count a b n)"
| "strcmp_count a b (Suc n) = Inl Out_of_bounds"

text \<open>The length is passed as an \<^verbatim>\<open>int\<close>: from 2 to the 31 on it is negative and the loop
  does not run.\<close>

definition strcmp :: "u8 list \<Rightarrow> u8 list \<Rightarrow> bool res" where
  "strcmp a b =
     rbind (strlen a) (\<lambda>n.
     rbind (strlen b) (\<lambda>m.
       if n \<noteq> m then Inr False
       else strcmp_count a b (nat (sint (of_nat n :: u32)))))"

fun strcasecmp :: "u8 list \<Rightarrow> u8 list \<Rightarrow> int res" where
  "strcasecmp (x # a) (y # b) =
     (if x \<noteq> 0 \<and> y \<noteq> 0 \<and> toUpper x = toUpper y then strcasecmp a b
      else Inr (sint (toUpper x) - sint (toUpper y)))"
| "strcasecmp a b = Inl Out_of_bounds"

fun strncasecmp :: "u8 list \<Rightarrow> u8 list \<Rightarrow> nat \<Rightarrow> int res" where
  "strncasecmp (x # a) (y # b) n =
     (if x \<noteq> 0 \<and> y \<noteq> 0 \<and> n \<noteq> 0 \<and> toUpper x = toUpper y then strncasecmp a b (n - 1)
      else if n = 0 then Inr 0
      else Inr (sint (toUpper x) - sint (toUpper y)))"
| "strncasecmp a b n = Inl Out_of_bounds"

subsection \<open>Copying\<close>

text \<open>The copy stops at the terminator of the source and does not write one.\<close>

fun strcpy :: "u8 list \<Rightarrow> u8 list \<Rightarrow> u8 list res" where
  "strcpy dst [] = Inl Out_of_bounds"
| "strcpy dst (c # cs) =
     (if c = 0 then Inr dst
      else case dst of
             [] \<Rightarrow> Inl Out_of_bounds
           | d # ds \<Rightarrow> rbind (strcpy ds cs) (\<lambda>r. Inr (c # r)))"

definition strcat :: "u8 list \<Rightarrow> u8 list \<Rightarrow> u8 list res" where
  "strcat dst src =
     rbind (strlen dst) (\<lambda>n. rbind (strcpy (drop n dst) src) (\<lambda>r. Inr (take n dst @ r)))"

subsection \<open>Numbers\<close>

definition g_HexChars :: "u8 list" where
  "g_HexChars = [48, 49, 50, 51, 52, 53, 54, 55, 56, 57, 65, 66, 67, 68, 69, 70, 0]"

definition hex_char :: "u64 \<Rightarrow> u8 res" where
  "hex_char r =
     (if unat r < length g_HexChars then Inr (g_HexChars ! unat r) else Inl Out_of_bounds)"

text \<open>The first loop of \<^verbatim>\<open>utoa\<close>: \<open>buf\<close> is the part of \<^verbatim>\<open>buffer[64]\<close> filled so far.\<close>

function utoa_loop :: "u64 \<Rightarrow> u64 \<Rightarrow> u8 list \<Rightarrow> u8 list res" where
  "utoa_loop radix val buf =
     (if radix = 0 then Inl Div_by_zero
      else rbind (hex_char (val mod radix)) (\<lambda>c.
        if 64 \<le> length buf then Inl Out_of_bounds
        else if 0 < val div radix then utoa_loop radix (val div radix) (buf @ [c])
        else Inr (buf @ [c])))"
  by pat_completeness auto
termination by (relation "measure (\<lambda>(radix, val, buf). 64 - length buf)") auto

declare utoa_loop.simps [simp del]

text \<open>The static buffer \<^verbatim>\<open>itoaOutput\<close> is cleared, then filled with the digits reversed.\<close>

definition fill_itoa :: "u8 list \<Rightarrow> u8 list" where
  "fill_itoa out = out @ replicate (64 - length out) 0"

definition utoa :: "u64 \<Rightarrow> u8 \<Rightarrow> u8 list res" where
  "utoa val radix = rbind (utoa_loop (ucast radix) val []) (\<lambda>buf. Inr (fill_itoa (rev buf)))"

definition itoa :: "u64 \<Rightarrow> u8 \<Rightarrow> u8 list res" where
  "itoa val radix =
     (if sint val < 0
      then if sint val = - (2 ^ 63) then Inl Signed_overflow
           else rbind (utoa_loop (ucast radix) (- val) [])
                  (\<lambda>buf. if 64 \<le> length buf then Inl Out_of_bounds
                         else Inr (fill_itoa (45 # rev buf)))
      else rbind (utoa_loop (ucast radix) val []) (\<lambda>buf. Inr (fill_itoa (rev buf))))"

fun atou_loop :: "u8 list \<Rightarrow> nat \<Rightarrow> u64 \<Rightarrow> u64 res" where
  "atou_loop str 0 num = Inr num"
| "atou_loop [] (Suc n) num = Inl Out_of_bounds"
| "atou_loop (c # cs) (Suc n) num = atou_loop cs n (num * 10 + (scast c - 48))"

definition atou :: "u8 list \<Rightarrow> nat \<Rightarrow> u64 res" where
  "atou str len = atou_loop str len 0"

subsection \<open>Formatting\<close>

datatype fmt_arg = Arg_int u32 | Arg_str "u8 list"

definition c_text :: "u8 list \<Rightarrow> u8 list res" where
  "c_text s = rbind (strlen s) (\<lambda>n. Inr (take n s))"

fun sprintf_text :: "u8 list \<Rightarrow> fmt_arg list \<Rightarrow> u8 list res" where
  "sprintf_text [] args = Inl Out_of_bounds"
| "sprintf_text [c] args =
     (if c = 0 then Inr [] else Inl Out_of_bounds)"
| "sprintf_text (c # f # fs) args =
     (if c = 0 then Inr []
      else if c = 37 then
        if f = 100 then
          (case args of
             Arg_int v # rest \<Rightarrow>
               rbind (itoa (scast v) 10) (\<lambda>s. rbind (c_text s) (\<lambda>t.
                 rbind (sprintf_text fs rest) (\<lambda>out. Inr (t @ out))))
           | _ \<Rightarrow> Inl Uninit_read)
        else if f = 115 then
          (case args of
             Arg_str s # rest \<Rightarrow>
               rbind (c_text s) (\<lambda>t. rbind (sprintf_text fs rest) (\<lambda>out. Inr (t @ out)))
           | _ \<Rightarrow> Inl Uninit_read)
        else rbind (sprintf_text fs args) (\<lambda>out. Inr (f # out))
      else rbind (sprintf_text (f # fs) args) (\<lambda>out. Inr (c # out)))"

definition sprintf :: "u8 list \<Rightarrow> u8 list \<Rightarrow> fmt_arg list \<Rightarrow> u8 list res" where
  "sprintf buffer fmt args =
     rbind (sprintf_text fmt args) (\<lambda>out.
       if length out < length buffer then Inr (out @ 0 # drop (Suc (length out)) buffer)
       else Inl Out_of_bounds)"

subsection \<open>\<^verbatim>\<open>math.cpp\<close>\<close>

definition min_u64 :: "u64 \<Rightarrow> u64 \<Rightarrow> u64" where
  "min_u64 a b = (if a > b then b else a)"

definition max_u64 :: "u64 \<Rightarrow> u64 \<Rightarrow> u64" where
  "max_u64 a b = (if a > b then a else b)"

subsection \<open>Strings and the buffers that hold them\<close>

text \<open>\<open>holds s t\<close>: the buffer \<open>s\<close> holds the text \<open>t\<close>.\<close>

definition holds :: "u8 list \<Rightarrow> u8 list \<Rightarrow> bool" where
  "holds s t \<longleftrightarrow> 0 \<notin> set t \<and> (\<exists>r. s = t @ 0 # r)"

lemma holds_Nil [simp]: "holds s [] \<longleftrightarrow> (\<exists>r. s = 0 # r)"
  by (simp add: holds_def)

lemma holds_Cons [simp]: "holds (c # s) (d # t) \<longleftrightarrow> c = d \<and> d \<noteq> 0 \<and> holds s t"
  by (auto simp: holds_def)

lemma not_holds_Nil [simp]: "\<not> holds [] t"
  by (simp add: holds_def)

lemma strlen_holds: "strlen s = Inr n \<longleftrightarrow> n \<le> length s \<and> holds s (take n s)"
proof (induction s arbitrary: n)
  case (Cons c s)
  show ?case
  proof (cases "c = 0")
    case True
    then show ?thesis by (cases n) auto
  next
    case False
    then have "strlen (c # s) = Inr n \<longleftrightarrow> (\<exists>k. strlen s = Inr k \<and> n = Suc k)"
      by (auto simp: rbind_eq_Inr)
    with False Cons.IH show ?thesis by (cases n) simp_all
  qed
qed simp

lemma strlen_of_holds: "holds s t \<Longrightarrow> strlen s = Inr (length t)"
  by (auto simp: strlen_holds holds_def)

lemma c_text_holds: "c_text s = Inr t \<longleftrightarrow> holds s t"
proof
  assume "c_text s = Inr t"
  then show "holds s t" by (auto simp: c_text_def rbind_eq_Inr strlen_holds)
next
  assume h: "holds s t"
  then show "c_text s = Inr t"
    using strlen_of_holds [OF h] by (auto simp: c_text_def holds_def)
qed

lemma strlen_none: "0 \<notin> set s \<Longrightarrow> strlen s = Inl Out_of_bounds"
  by (induction s) auto

lemma strcmp_count_eq:
  "holds a s \<Longrightarrow> holds b t \<Longrightarrow> length s = length t \<Longrightarrow> strcmp_count a b (length s) = Inr (s = t)"
proof (induction s arbitrary: a b t)
  case (Cons c s)
  then obtain a' where a: "a = c # a'" "holds a' s" by (cases a) auto
  from Cons.prems obtain d t' b' where "b = d # b'" "t = d # t'" "holds b' t'"
    by (cases t; cases b) auto
  with a Cons show ?case by simp
qed simp

lemma strcmp_eq:
  assumes "holds a s" "holds b t" "length s < 2 ^ 31"
  shows "strcmp a b = Inr (s = t)"
  using assms strcmp_count_eq [OF assms(1,2)]
  by (auto simp: strcmp_def strlen_of_holds sint_of_nat_u32)

lemma strcpy_holds:
  "holds src t \<Longrightarrow>
   strcpy dst src = (if length t \<le> length dst then Inr (t @ drop (length t) dst) else Inl Out_of_bounds)"
proof (induction t arbitrary: src dst)
  case (Cons c t)
  then obtain s where "src = c # s" "c \<noteq> 0" "holds s t" by (cases src) auto
  with Cons.IH [of s] show ?case by (cases dst) auto
qed auto

lemma strcat_holds:
  assumes d: "holds dst u" and s: "holds src t" and fit: "length u + length t \<le> length dst"
  shows "strcat dst src = Inr (u @ t @ drop (length u + length t) dst)"
proof -
  from d have "take (length u) dst = u" by (auto simp: holds_def)
  with fit show ?thesis
    by (simp add: strcat_def strlen_of_holds [OF d] strcpy_holds [OF s] add.commute)
qed

subsection \<open>Comparison without case\<close>

lemma sint_eq_iff_u8: "sint (x :: u8) - sint y = 0 \<longleftrightarrow> x = y"
  by (auto intro: signed_word_eqI)

lemma toUpper_0 [simp]: "toUpper 0 = 0"
  by (simp add: toUpper_def)

lemma toUpper_eq_0 [simp]: "toUpper c = 0 \<longleftrightarrow> c = 0"
proof -
  have "c \<noteq> 32" if "97 \<le> sint c" using that by auto
  then show ?thesis by (auto simp: toUpper_def)
qed

lemma strcasecmp_holds:
  "holds a s \<Longrightarrow> holds b t \<Longrightarrow>
   \<exists>r. strcasecmp a b = Inr r \<and> (r = 0 \<longleftrightarrow> map toUpper s = map toUpper t)"
proof (induction a b arbitrary: s t rule: strcasecmp.induct)
  case (1 x a y b)
  show ?case
  proof (cases "x \<noteq> 0 \<and> y \<noteq> 0 \<and> toUpper x = toUpper y")
    case True
    with "1.prems" obtain s' t' where "s = x # s'" "t = y # t'" "holds a s'" "holds b t'"
      by (cases s; cases t) auto
    with True "1.IH" show ?thesis by auto
  next
    case False
    with "1.prems" have "toUpper x = toUpper y \<longleftrightarrow> map toUpper s = map toUpper t"
      by (cases s; cases t) auto
    with False sint_eq_iff_u8 [of "toUpper x" "toUpper y"] show ?thesis by fastforce
  qed
qed auto

lemma strncasecmp_holds:
  "holds a s \<Longrightarrow> holds b t \<Longrightarrow>
   \<exists>r. strncasecmp a b n = Inr r \<and>
     (r = 0 \<longleftrightarrow> map toUpper (take n s) = map toUpper (take n t))"
proof (induction a b n arbitrary: s t rule: strncasecmp.induct)
  case (1 x a y b n)
  show ?case
  proof (cases "x \<noteq> 0 \<and> y \<noteq> 0 \<and> n \<noteq> 0 \<and> toUpper x = toUpper y")
    case True
    with "1.prems" obtain s' t' where "s = x # s'" "t = y # t'" "holds a s'" "holds b t'"
      by (cases s; cases t) auto
    with True "1.IH" show ?thesis by (cases n) auto
  next
    case False
    with "1.prems" have "toUpper x = toUpper y \<longleftrightarrow> map toUpper (take n s) = map toUpper (take n t)"
      if "n \<noteq> 0" using that by (cases s; cases t; cases n) auto
    with False sint_eq_iff_u8 [of "toUpper x" "toUpper y"] show ?thesis by fastforce
  qed
qed auto

subsection \<open>Digits\<close>

text \<open>The digits of a number, the lowest first, as the first loop of \<^verbatim>\<open>utoa\<close> finds them.\<close>

function ndigits :: "nat \<Rightarrow> nat \<Rightarrow> nat list" where
  "ndigits r n = n mod r # (if 0 < n div r \<and> 2 \<le> r then ndigits r (n div r) else [])"
  by pat_completeness auto
termination
proof (relation "measure snd")
  fix r n :: nat assume a: "0 < n div r \<and> 2 \<le> r"
  then have "0 < n" by (cases n) auto
  with a show "((r, n div r), (r, n)) \<in> measure snd" by simp
qed simp

declare ndigits.simps [simp del]

definition digits_val :: "nat \<Rightarrow> nat list \<Rightarrow> nat" where
  "digits_val r ds = foldr (\<lambda>d v. d + r * v) ds 0"

lemma digits_val_simps [simp]:
  "digits_val r [] = 0" "digits_val r (d # ds) = d + r * digits_val r ds"
  by (simp_all add: digits_val_def)

lemma ndigits_val: "2 \<le> r \<Longrightarrow> digits_val r (ndigits r n) = n"
proof (induction r n rule: ndigits.induct)
  case (1 r n)
  show ?case
  proof (cases "n div r = 0")
    case True
    then have "n < r" using "1.prems" by (simp add: div_eq_0_iff)
    then show ?thesis using True by (subst ndigits.simps) simp
  next
    case False
    with 1 have "digits_val r (ndigits r n) = n mod r + r * (n div r)"
      by (subst ndigits.simps) simp
    then show ?thesis by simp
  qed
qed

lemma ndigits_lt: "0 < r \<Longrightarrow> d \<in> set (ndigits r n) \<Longrightarrow> d < r"
proof (induction r n rule: ndigits.induct)
  case (1 r n)
  then show ?case by (subst (asm) (2) ndigits.simps) (auto split: if_splits)
qed

lemma ndigits_not_Nil [simp]: "ndigits r n \<noteq> []"
  by (subst ndigits.simps) simp

lemma ndigits_length: "2 \<le> r \<Longrightarrow> 0 < k \<Longrightarrow> length (ndigits r n) \<le> k \<longleftrightarrow> n < r ^ k"
proof (induction r n arbitrary: k rule: ndigits.induct)
  case (1 r n)
  show ?case
  proof (cases "0 < n div r")
    case True
    have "r \<le> n" using True div_greater_zero_iff by blast
    show ?thesis
    proof (cases "k = 1")
      case one: True
      have "\<not> length (ndigits r n) \<le> 1" using True "1.prems"
        by (subst ndigits.simps) (simp add: Suc_le_eq)
      with one \<open>r \<le> n\<close> show ?thesis by simp
    next
      case False
      then obtain j where k: "k = Suc j" "0 < j" using "1.prems" by (cases k) auto
      have "length (ndigits r n) \<le> k \<longleftrightarrow> length (ndigits r (n div r)) \<le> j"
        using True "1.prems" k by (subst ndigits.simps) simp
      also have "\<dots> \<longleftrightarrow> n div r < r ^ j" using "1.IH" True "1.prems" k by simp
      also have "\<dots> \<longleftrightarrow> n < r ^ k"
        using "1.prems" k by (simp add: div_less_iff_less_mult mult.commute)
      finally show ?thesis .
    qed
  next
    case False
    have "n < r" using False "1.prems" by (simp add: div_eq_0_iff)
    moreover have "r ^ 1 \<le> r ^ k" using "1.prems" by (intro power_increasing) auto
    moreover have "length (ndigits r n) = 1" using False by (subst ndigits.simps) simp
    ultimately show ?thesis using "1.prems" by simp
  qed
qed

definition digit_chars :: "nat list \<Rightarrow> u8 list" where
  "digit_chars ds = map (\<lambda>d. g_HexChars ! d) ds"

lemma length_digit_chars [simp]: "length (digit_chars ds) = length ds"
  by (simp add: digit_chars_def)

lemma utoa_loop_digits:
  assumes "2 \<le> unat radix" "unat radix \<le> 16"
    and "length buf + length (ndigits (unat radix) (unat val)) \<le> 64"
  shows "utoa_loop radix val buf = Inr (buf @ digit_chars (ndigits (unat radix) (unat val)))"
  using assms
proof (induction radix val buf rule: utoa_loop.induct)
  case (1 radix val buf)
  let ?r = "unat radix" and ?v = "unat val"
  have "?v mod ?r < ?r" using "1.prems"(1) by simp
  then have lt: "?v mod ?r < 16" using "1.prems"(2) by linarith
  have hc: "hex_char (val mod radix) = Inr (g_HexChars ! (?v mod ?r))"
    using lt by (simp add: hex_char_def unat_mod g_HexChars_def)
  have nz: "radix \<noteq> 0" using "1.prems"(1) by auto
  have dv: "0 < val div radix \<longleftrightarrow> 0 < ?v div ?r"
    by (simp add: unat_div word_less_nat_alt)
  have len: "length buf < 64" using "1.prems"(3) by (subst (asm) ndigits.simps) auto
  show ?case
  proof (cases "0 < ?v div ?r")
    case True
    then have nd: "ndigits ?r ?v = ?v mod ?r # ndigits ?r (?v div ?r)"
      using "1.prems"(1) by (subst ndigits.simps) simp
    have "utoa_loop radix (val div radix) (buf @ [g_HexChars ! (?v mod ?r)]) =
      Inr ((buf @ [g_HexChars ! (?v mod ?r)]) @ digit_chars (ndigits ?r (unat (val div radix))))"
      using "1.prems" nd len True dv nz hc by (intro "1.IH") (simp_all add: unat_div)
    then show ?thesis using nz hc dv True len nd
      by (subst utoa_loop.simps) (simp add: unat_div digit_chars_def)
  next
    case False
    then have "ndigits ?r ?v = [?v mod ?r]" by (subst ndigits.simps) simp
    with False nz hc dv len show ?thesis
      by (subst utoa_loop.simps) (simp add: digit_chars_def)
  qed
qed

lemma ndigits_64: "2 \<le> r \<Longrightarrow> length (ndigits r (unat (v :: u64))) \<le> 64"
proof -
  assume r: "2 \<le> r"
  then have "(2 :: nat) ^ 64 \<le> r ^ 64" by (intro power_mono) auto
  with unat_u64_lt [of v] have "unat v < r ^ 64" by linarith
  with r show ?thesis by (simp add: ndigits_length)
qed

lemma utoa_digits:
  assumes "2 \<le> unat radix" "unat radix \<le> 16"
  shows "utoa val radix = Inr (fill_itoa (digit_chars (rev (ndigits (unat radix) (unat val)))))"
  using utoa_loop_digits [of "ucast radix" "[]" val] ndigits_64 [of "unat radix" val] assms
  by (simp add: utoa_def digit_chars_def rev_map)

lemma atou_loop_digits:
  "\<forall>d \<in> set ds. d < 10 \<Longrightarrow>
   atou_loop (digit_chars ds @ r) (length ds) num =
     Inr (num * 10 ^ length ds + of_nat (digits_val 10 (rev ds)))"
proof (induction ds arbitrary: num)
  case Nil
  then show ?case by (simp add: digit_chars_def)
next
  case (Cons d ds)
  have "d < 10" using Cons.prems by simp
  then have "d = 0 \<or> d = 1 \<or> d = 2 \<or> d = 3 \<or> d = 4 \<or> d = 5 \<or> d = 6 \<or> d = 7 \<or> d = 8 \<or> d = 9"
    by presburger
  then have c: "(scast (g_HexChars ! d) :: u64) - 48 = of_nat d"
    by (elim disjE) (simp_all add: g_HexChars_def)
  have "digits_val 10 (ds' @ [d]) = digits_val 10 ds' + d * 10 ^ length ds'" for ds'
    by (induction ds') (simp_all add: algebra_simps)
  with Cons c show ?case by (simp add: digit_chars_def algebra_simps)
qed

lemma digit_chars_nonzero: "\<forall>d \<in> set ds. d < 16 \<Longrightarrow> 0 \<notin> set (digit_chars ds)"
proof
  assume a: "\<forall>d \<in> set ds. d < 16" and "0 \<in> set (digit_chars ds)"
  then obtain d where "d < 16" "g_HexChars ! d = 0" by (auto simp: digit_chars_def)
  moreover have "g_HexChars ! d \<noteq> 0" if "d < 16" for d
  proof -
    have "take 16 g_HexChars ! d \<in> set (take 16 g_HexChars)"
      using that by (intro nth_mem) (simp add: g_HexChars_def)
    then have "g_HexChars ! d \<in> set (take 16 g_HexChars)" using that by simp
    then show ?thesis by (auto simp: g_HexChars_def)
  qed
  ultimately show False by blast
qed

lemma utoa_holds:
  assumes "2 \<le> unat radix" "unat radix \<le> 16" and "length (ndigits (unat radix) (unat val)) < 64"
  shows "\<exists>s. utoa val radix = Inr s \<and> holds s (digit_chars (rev (ndigits (unat radix) (unat val))))"
proof -
  let ?ds = "rev (ndigits (unat radix) (unat val))"
  have "\<forall>d \<in> set ?ds. d < 16"
    using ndigits_lt [of "unat radix"] assms(1,2) by (auto dest!: order.strict_trans2)
  then have nz: "0 \<notin> set (digit_chars ?ds)" by (rule digit_chars_nonzero)
  obtain k where "64 - length ?ds = Suc k" using assms(3) by (cases "64 - length ?ds") auto
  then have "fill_itoa (digit_chars ?ds) = digit_chars ?ds @ 0 # replicate k 0"
    by (simp add: fill_itoa_def)
  with nz utoa_digits [OF assms(1,2), of val] show ?thesis by (auto simp: holds_def)
qed

subsection \<open>Properties of the string routines\<close>

text \<open>C13: Numbers survive printing and reading. For every 64-bit value, \<^verbatim>\<open>atou\<close> over the text
  \<^verbatim>\<open>utoa\<close> writes in decimal returns the value.\<close>

theorem atou_utoa:
  "rbind (utoa val 10) (\<lambda>s. rbind (strlen s) (\<lambda>n. atou s n)) = Inr val"
proof -
  let ?nd = "ndigits 10 (unat val)"
  have "unat val < 10 ^ 20" using unat_u64_lt [of val] by simp
  then have len: "length ?nd \<le> 20" by (simp add: ndigits_length)
  then obtain s where s: "utoa val 10 = Inr s" and h: "holds s (digit_chars (rev ?nd))"
    using utoa_holds [of 10 val] by auto
  from h obtain r where r: "s = digit_chars (rev ?nd) @ r" by (auto simp: holds_def)
  have "atou_loop s (length (rev ?nd)) 0 = Inr (of_nat (digits_val 10 ?nd))"
    unfolding r by (subst atou_loop_digits) (use ndigits_lt [of 10] in auto)
  with s strlen_of_holds [OF h] show ?thesis by (simp add: atou_def ndigits_val)
qed

text \<open>\<^verbatim>\<open>utoa\<close> in the radices 2 to 16 writes exactly the digits of the value, most
  significant first, never past its two 64-byte buffers, and pads with zero bytes; the text
  is left without a terminator in one case only, the 64 binary digits of a value from 2 to
  the 63 on.\<close>

lemma utoa_writes_digits:
  assumes "2 \<le> unat radix" and "unat radix \<le> 16"
  shows "\<exists>ds. utoa val radix = Inr (map (\<lambda>d. g_HexChars ! d) (rev ds) @ replicate (64 - length ds) 0) \<and>
    (\<forall>d \<in> set ds. d < unat radix) \<and> foldr (\<lambda>d v. d + unat radix * v) ds 0 = unat val \<and>
    0 < length ds \<and> length ds \<le> 64 \<and>
    (length ds = 64 \<longleftrightarrow> radix = 2 \<and> 2 ^ 63 \<le> unat val)"
proof -
  let ?r = "unat radix" let ?nd = "ndigits ?r (unat val)"
  have full: "length ?nd = 64 \<longleftrightarrow> radix = 2 \<and> 2 ^ 63 \<le> unat val"
  proof -
    have "length ?nd = 64 \<longleftrightarrow> \<not> length ?nd \<le> 63" using ndigits_64 [of ?r val] assms by linarith
    also have "\<dots> \<longleftrightarrow> ?r ^ 63 \<le> unat val" using assms by (simp add: ndigits_length not_less)
    also have "\<dots> \<longleftrightarrow> ?r = 2 \<and> 2 ^ 63 \<le> unat val"
    proof (cases "?r = 2")
      case False
      with assms have "(3 :: nat) ^ 63 \<le> ?r ^ 63" by (intro power_mono) auto
      moreover have "(2 :: nat) ^ 64 < 3 ^ 63" by simp
      ultimately show ?thesis using False unat_u64_lt [of val] by linarith
    qed simp
    also have "?r = 2 \<longleftrightarrow> radix = 2" by (auto simp: word_unat_eq_iff)
    finally show ?thesis .
  qed
  show ?thesis
    using utoa_digits [OF assms, of val] ndigits_lt [of ?r] ndigits_val [of ?r "unat val"]
      ndigits_64 [of ?r val] assms full
    by (intro exI [of _ ?nd]) (simp add: digit_chars_def fill_itoa_def digits_val_def)
qed

text \<open>\<^verbatim>\<open>strcpy\<close> writes no terminator. Copied into a buffer that holds a text at least as
  long, the result is the new text followed by the tail of the old one; the two are equal
  only when the lengths are.\<close>

lemma strcpy_keeps_tail:
  assumes "holds src t" and "holds dst u" and "length t \<le> length u"
  shows "\<exists>d. strcpy dst src = Inr d \<and> holds d (t @ drop (length t) u) \<and>
    (holds d t \<longleftrightarrow> length t = length u)"
proof -
  from assms(2) obtain r where dst: "dst = u @ 0 # r" and u0: "0 \<notin> set u" by (auto simp: holds_def)
  let ?d = "t @ drop (length t) dst" and ?w = "t @ drop (length t) u"
  have cp: "strcpy dst src = Inr ?d" using assms(3) dst by (simp add: strcpy_holds [OF assms(1)])
  have "0 \<notin> set (drop (length t) u)" using u0 by (meson in_set_dropD)
  with assms(1,3) dst have h: "holds ?d ?w" by (auto simp: holds_def)
  have "t = ?w" if "holds ?d t"
    using c_text_holds [THEN iffD2, OF that] c_text_holds [THEN iffD2, OF h] by simp
  then have "length t = length ?w" if "holds ?d t" using that by simp
  then have "length t = length u" if "holds ?d t" using that assms(3) by simp
  moreover have "holds ?d t" if "length t = length u" using h that by simp
  ultimately have "holds ?d t \<longleftrightarrow> length t = length u" by blast
  with cp h show ?thesis by blast
qed

text \<open>The comparisons of terminated strings return, and say what they should: \<^verbatim>\<open>strcmp\<close>
  whether the texts are equal (up to 2 to the 31 characters), \<^verbatim>\<open>strcasecmp\<close> zero exactly
  when they are equal up to case, \<^verbatim>\<open>strncasecmp\<close> the same of their first \<open>n\<close> characters.\<close>

lemma comparisons_agree:
  assumes "holds a s" and "holds b t" and "length s < 2 ^ 31"
  shows "strcmp a b = Inr (s = t) \<and>
    (\<exists>r. strcasecmp a b = Inr r \<and> (r = 0 \<longleftrightarrow> map toUpper s = map toUpper t)) \<and>
    (\<exists>r. strncasecmp a b n = Inr r \<and> (r = 0 \<longleftrightarrow> map toUpper (take n s) = map toUpper (take n t)))"
  using strcmp_eq [OF assms] strcasecmp_holds [OF assms(1,2)] strncasecmp_holds [OF assms(1,2)]
  by blast

end
