(* ===== verification/Float_Value.thy ===== *)
theory Float_Value
  imports Complex_Main Float64
begin

text \<open>
  What the arithmetic of \<^verbatim>\<open>double\<close> computes, in rationals: the value of a number, the error of a
  rounding and when there is none, and the operations on numbers that are not negative.
\<close>

subsection \<open>Values\<close>

definition mag :: "nat \<Rightarrow> int \<Rightarrow> rat" where
  "mag m e = of_nat m * 2 powi e"

fun value_of :: "double \<Rightarrow> rat" where
  "value_of (Fin s m e) = (if s then - mag m e else mag m e)"
| "value_of x = 0"

fun is_fin :: "double \<Rightarrow> bool" where
  "is_fin (Fin s m e) = True"
| "is_fin x = False"

text \<open>The values a finite number can have: at most 53 bit_count, none below 2 to the -1074.\<close>

definition representable :: "rat \<Rightarrow> bool" where
  "representable v \<longleftrightarrow> \<bar>v\<bar> < 2 ^ 1024 \<and> (\<exists>n g. \<bar>v\<bar> = mag n g \<and> n < 2 ^ 53 \<and> - 1074 \<le> g)"

lemma two_powi [simp]: "(0 :: rat) < 2 powi e" "(2 :: rat) powi e \<noteq> 0"
  by simp_all

lemma powi_split: "(2 :: rat) powi (a + b) = 2 powi a * 2 powi b"
  by (simp add: power_int_add)

lemma powi_less_iff [simp]: "(2 :: rat) powi a < 2 powi b \<longleftrightarrow> a < b"
proof
  show "a < b" if "(2 :: rat) powi a < 2 powi b"
    using that power_int_increasing [of b a "2 :: rat"] by (cases "b \<le> a") auto
qed (simp add: power_int_strict_increasing)

lemma powi_le_iff [simp]: "(2 :: rat) powi a \<le> 2 powi b \<longleftrightarrow> a \<le> b"
  by (meson linorder_not_le powi_less_iff)

lemma mag_nonneg [simp]: "0 \<le> mag m e"
  by (simp add: mag_def less_imp_le)

lemma mag_0 [simp]: "mag 0 e = 0"
  by (simp add: mag_def)

lemma mag_eq_0 [simp]: "mag m e = 0 \<longleftrightarrow> m = 0"
  by (simp add: mag_def)

lemma mag_pos [simp]: "0 < mag m e \<longleftrightarrow> 0 < m"
  by (simp add: mag_def zero_less_mult_iff)

lemma mag_shift: "mag (m * 2 ^ k) e = mag m (e + int k)"
  by (simp add: mag_def power_int_add mult_ac)

lemma mag_same: "mag m e = mag n e \<longleftrightarrow> m = n" "mag m e \<le> mag n e \<longleftrightarrow> m \<le> n" "mag m e < mag n e \<longleftrightarrow> m < n"
  by (simp_all add: mag_def)

lemma mag_mult: "mag m e * mag n f = mag (m * n) (e + f)"
  by (simp add: mag_def power_int_add mult_ac)

lemma mag_at: "g \<le> e \<Longrightarrow> mag m e = mag (m * 2 ^ nat (e - g)) g"
  by (simp add: mag_shift)

lemma mag_pow2: "mag (2 ^ k) e = 2 powi (e + int k)"
  using mag_shift [of 1 k e] by (simp add: mag_def)

lemma bits_less: "bit_count m \<le> k \<longleftrightarrow> m < 2 ^ k"
proof (induction m arbitrary: k rule: bit_count.induct)
  case (1 m)
  show ?case
  proof (cases "m = 0")
    case False
    then show ?thesis
    proof (cases k)
      case (Suc j)
      with 1 [OF False, of j] False show ?thesis by (subst bit_count.simps) (auto simp: div_less_iff_less_mult mult.commute)
    qed (subst bit_count.simps, simp)
  qed (subst bit_count.simps, simp)
qed

lemma bits_bounds: "m < 2 ^ bit_count m" "m \<noteq> 0 \<Longrightarrow> 2 ^ (bit_count m - 1) \<le> m"
proof -
  show "m < 2 ^ bit_count m" using bits_less [of m "bit_count m"] by simp
  show "2 ^ (bit_count m - 1) \<le> m" if "m \<noteq> 0"
  proof -
    have "bit_count m \<noteq> 0" using that by (subst bit_count.simps) simp
    then have "\<not> bit_count m \<le> bit_count m - 1" by simp
    then show ?thesis by (simp only: bits_less not_less)
  qed
qed

lemma mag_bits: "m \<noteq> 0 \<Longrightarrow> mag m e < 2 powi p \<longleftrightarrow> int (bit_count m) + e \<le> p"
proof -
  assume m: "m \<noteq> 0"
  have lo: "2 powi (e + int (bit_count m - 1)) \<le> mag m e"
    using bits_bounds(2) [OF m] by (simp flip: mag_pow2 add: mag_same)
  have hi: "mag m e < 2 powi (e + int (bit_count m))"
    using bits_bounds(1) [of m] by (simp flip: mag_pow2 add: mag_same)
  have b: "bit_count m \<noteq> 0" using m by (subst bit_count.simps) simp
  show ?thesis
  proof
    assume "mag m e < 2 powi p"
    with lo have "(2 :: rat) powi (e + int (bit_count m - 1)) < 2 powi p" by (rule order.strict_trans1)
    then show "int (bit_count m) + e \<le> p" using b by simp
  next
    assume "int (bit_count m) + e \<le> p"
    then have "(2 :: rat) powi (e + int (bit_count m)) \<le> 2 powi p" by (simp add: add.commute)
    with hi show "mag m e < 2 powi p" by (rule order.strict_trans2)
  qed
qed

lemma clip_fin: "mag m e < 2 powi 1024 \<Longrightarrow> clip s m e = Fin s m e"
  using mag_bits [of m e 1024] by (auto simp: clip_def)

subsection \<open>Rounding\<close>

text \<open>What is a number needs no rounding.\<close>

lemma excess_divides:
  assumes "mag m e = mag n g" and "n < 2 ^ 53" and "- 1074 \<le> g"
  shows "2 ^ excess m e dvd m"
proof (cases "m = 0 \<or> g \<le> e")
  case True
  have "excess m e = 0" if "g \<le> e" "m \<noteq> 0"
  proof -
    have "mag m e < 2 powi (g + 53)" using assms(1,2) by (simp add: mag_same flip: mag_pow2 [of 53, simplified])
    then have "int (bit_count m) + e \<le> g + 53" using mag_bits that by blast
    then show ?thesis using that assms by (simp add: excess_def)
  qed
  with True show ?thesis by (cases "m = 0") auto
next
  case False
  then have "mag m e = mag (n * 2 ^ nat (g - e)) e" using assms(1) by (simp add: mag_shift)
  then have m: "m = n * 2 ^ nat (g - e)" by (simp only: mag_same)
  have "mag m e < 2 powi (g + 53)" using assms(1,2) by (simp add: mag_same flip: mag_pow2 [of 53, simplified])
  then have "int (bit_count m) + e \<le> g + 53" using mag_bits False by blast
  then have "excess m e \<le> nat (g - e)" using assms False by (auto simp: excess_def)
  then show ?thesis unfolding m by (intro dvd_mult le_imp_power_dvd)
qed

lemma halve_even_exact: "2 ^ sh dvd m \<Longrightarrow> halve_even m sh = m div 2 ^ sh"
  by (simp add: halve_even_def Let_def)

lemma round_exact:
  assumes "representable (mag m e)"
  obtains m' e' where "round_to s m e = Fin s m' e'" and "mag m' e' = mag m e"
proof -
  from assms obtain n g where n: "mag m e = mag n g" "n < 2 ^ 53" "- 1074 \<le> g" and small: "mag m e < 2 ^ 1024"
    by (auto simp: representable_def)
  let ?sh = "excess m e"
  have d: "2 ^ ?sh dvd m" using excess_divides n by blast
  then have v: "mag (m div 2 ^ ?sh) (e + int ?sh) = mag m e" by (simp flip: mag_shift)
  have "round_to s m e = Fin s (m div 2 ^ ?sh) (e + int ?sh)"
    using small v by (simp add: round_to_def Let_def halve_even_exact [OF d] clip_fin)
  with v that show ?thesis by blast
qed

lemma halve_even_bounds: "\<bar>2 ^ sh * int (halve_even m sh) - int m\<bar> * 2 \<le> 2 ^ sh"
proof -
  define d where "d = (2 :: nat) ^ sh"
  have m: "int m = int d * int (m div d) + int (m mod d)" by (metis mult_div_mod_eq of_nat_add of_nat_mult)
  have r: "m mod d < d" by (simp add: d_def)
  have h: "halve_even m sh = m div d \<and> 2 * (m mod d) \<le> d \<or> halve_even m sh = m div d + 1 \<and> d \<le> 2 * (m mod d)"
    by (auto simp: halve_even_def Let_def d_def)
  have "\<bar>int d * int (halve_even m sh) - int m\<bar> * 2 \<le> int d"
    using h
  proof
    assume a: "halve_even m sh = m div d \<and> 2 * (m mod d) \<le> d"
    then have "int d * int (halve_even m sh) - int m = - int (m mod d)" using m by simp
    moreover have "int (m mod d) * 2 \<le> int d" using a by (metis mult.commute of_nat_le_iff of_nat_mult of_nat_numeral)
    ultimately show ?thesis by simp
  next
    assume a: "halve_even m sh = m div d + 1 \<and> d \<le> 2 * (m mod d)"
    then have "int d * int (halve_even m sh) - int m = int d - int (m mod d)" using m by (simp add: distrib_left)
    moreover have "int d \<le> int (m mod d) * 2" using a by (metis mult.commute of_nat_le_iff of_nat_mult of_nat_numeral)
    moreover have "int (m mod d) \<le> int d" using r by (simp add: less_imp_le)
    ultimately show ?thesis by simp
  qed
  then show ?thesis by (simp add: d_def)
qed

lemma halve_even_le:
  assumes "m \<le> n * 2 ^ sh"
  shows "halve_even m sh \<le> n"
proof -
  define d where "d = (2 :: nat) ^ sh"
  have "0 < d" by (simp add: d_def)
  have le: "m \<le> n * d" using assms by (simp add: d_def)
  then have q: "m div d \<le> n" using \<open>0 < d\<close> by (metis div_le_mono nonzero_mult_div_cancel_right less_not_refl)
  have "m div d = n \<Longrightarrow> m mod d = 0" using le by (metis add_le_same_cancel1 div_mult_mod_eq le_zero_eq)
  then have "m div d = n \<Longrightarrow> halve_even m sh = n" using \<open>0 < d\<close> by (auto simp: halve_even_def Let_def d_def)
  moreover have "halve_even m sh \<le> m div d + 1" by (simp add: halve_even_def Let_def d_def)
  ultimately show ?thesis using q by (cases "m div d = n") auto
qed

text \<open>Below 2 to the \<open>p\<close> the error is at most half of a unit of the last of 53 bit_count.\<close>

lemma representable_le:
  assumes "n \<le> 2 ^ 53" and "- 1074 \<le> g" and "mag n g < 2 ^ 1024"
  shows "representable (mag n g)"
proof (cases "n = 2 ^ 53")
  case True
  have "mag n g = mag (2 ^ 52) (g + 1)" unfolding True by (simp only: mag_pow2) (simp add: add.assoc)
  moreover have "(2 :: nat) ^ 52 < 2 ^ 53" by simp
  ultimately show ?thesis using assms unfolding representable_def by (metis abs_of_nonneg mag_nonneg zle_add1_eq_le add_increasing2 zero_le_one)
next
  case False
  with assms have "n < 2 ^ 53" by simp
  then show ?thesis using assms unfolding representable_def by (metis abs_of_nonneg mag_nonneg)
qed

lemma halve_even_bits: "halve_even m (excess m e) \<le> 2 ^ (bit_count m - excess m e)"
proof (rule halve_even_le)
  have "m < 2 ^ bit_count m" by (rule bits_bounds)
  also have "\<dots> \<le> 2 ^ (bit_count m - excess m e) * 2 ^ excess m e"
    unfolding power_add [symmetric] by (rule power_increasing) auto
  finally show "m \<le> 2 ^ (bit_count m - excess m e) * 2 ^ excess m e" by simp
qed

lemma halve_even_scaled: "\<bar>mag (halve_even m sh) (e + int sh) - mag m e\<bar> * 2 \<le> 2 powi (e + int sh)"
proof -
  let ?i = "2 ^ sh * int (halve_even m sh) - int m"
  have "mag (halve_even m sh) (e + int sh) - mag m e = of_int ?i * 2 powi e"
    by (simp add: mag_def power_int_add algebra_simps)
  then have "\<bar>mag (halve_even m sh) (e + int sh) - mag m e\<bar> * 2 = of_int (\<bar>?i\<bar> * 2) * 2 powi e"
    by (simp add: abs_mult)
  also have "\<dots> \<le> of_int (2 ^ sh) * 2 powi e"
    using halve_even_bounds [of sh m] by (intro mult_right_mono) (simp_all only: of_int_le_iff less_imp_le two_powi)
  finally show ?thesis by (simp add: power_int_add mult.commute)
qed

lemma round_error:
  assumes "mag m e < 2 powi p" and "- 1020 \<le> p" and "p \<le> 1023"
  obtains m' e' where "round_to s m e = Fin s m' e'" and "representable (mag m' e')"
    and "\<bar>mag m' e' - mag m e\<bar> \<le> 2 powi (p - 54)" and "mag m' e' \<le> 2 powi p"
proof (cases "m = 0")
  case True
  then have "round_to s m e = Fin s 0 (e + int (excess m e))" by (simp add: round_to_def Let_def halve_even_def clip_def)
  then show ?thesis using that True by (simp add: representable_def) (metis mag_0 neg_le_0_iff_le zero_le_numeral zero_less_numeral zero_less_power)
next
  case False
  let ?sh = "excess m e" let ?h = "halve_even m ?sh"
  have b: "int (bit_count m) + e \<le> p" using assms(1) mag_bits [OF False] by blast
  have "bit_count m - ?sh \<le> 53" by (auto simp: excess_def)
  then have "?h \<le> 2 ^ 53" using halve_even_bits [of m e] power_increasing [of "bit_count m - ?sh" 53 "2 :: nat"] by simp
  have low: "- 1074 \<le> e + int ?sh" by (auto simp: excess_def max_def)
  have "mag ?h (e + int ?sh) \<le> mag (2 ^ (bit_count m - ?sh)) (e + int ?sh)" using halve_even_bits by (simp add: mag_same)
  also have "\<dots> \<le> 2 powi p" unfolding mag_pow2 using b assms(2) by (auto simp: excess_def)
  finally have top: "mag ?h (e + int ?sh) \<le> 2 powi p" .
  also have "\<dots> < 2 powi 1024" using assms(3) by (simp only: powi_less_iff)
  finally have lim: "mag ?h (e + int ?sh) < 2 powi 1024" .
  have f: "round_to s m e = Fin s ?h (e + int ?sh)" using clip_fin [OF lim] by (simp add: round_to_def Let_def)
  have rep: "representable (mag ?h (e + int ?sh))"
    using representable_le [OF \<open>?h \<le> 2 ^ 53\<close> low] lim by (simp only: power_int_numeral)
  have err: "\<bar>mag ?h (e + int ?sh) - mag m e\<bar> \<le> 2 powi (p - 54)"
  proof (cases "?sh = 0")
    case True
    then show ?thesis by (simp add: halve_even_def)
  next
    case False
    then have "e + int ?sh \<le> p - 53" using b assms(2) by (auto simp: excess_def)
    then have "(2 :: rat) powi (e + int ?sh) \<le> 2 powi ((p - 54) + 1)" by simp
    also have "\<dots> = 2 powi (p - 54) * 2" by (subst powi_split) simp
    finally show ?thesis using halve_even_scaled [of m ?sh e] by simp
  qed
  from that [OF f rep err top] show ?thesis .
qed


subsection \<open>Numbers that are not negative\<close>

definition number :: "double \<Rightarrow> rat \<Rightarrow> bool" where
  "number x v \<longleftrightarrow> (\<exists>m e. x = Fin False m e \<and> v = mag m e)"

lemma num_nonneg: "number x v \<Longrightarrow> 0 \<le> v"
  by (auto simp: number_def)

lemma num_round_exact: "representable (mag m e) \<Longrightarrow> number (round_to False m e) (mag m e)"
  by (metis number_def round_exact)

lemma of_whole_num:
  assumes "0 \<le> i" and "i < 2 ^ 53"
  shows "number (of_whole i) (of_int i)"
proof -
  have "mag (nat i) 0 = of_int i" using assms by (simp add: mag_def)
  moreover have "nat i < 2 ^ 53" using assms by (simp add: nat_less_iff)
  moreover have "mag (nat i) 0 < 2 ^ 1024"
    using \<open>nat i < 2 ^ 53\<close> mag_same(3) [of "nat i" 0 "2 ^ 1024"] power_strict_increasing [of 53 1024 "2 :: nat"]
    by (simp add: mag_def)
  ultimately have "representable (mag (nat i) 0)" by (intro representable_le) auto
  then have "number (round_to False (nat i) 0) (of_int i)" using num_round_exact \<open>mag (nat i) 0 = of_int i\<close> by metis
  then show ?thesis using assms by (simp add: of_whole_def)
qed

lemma floor_mag: "\<lfloor>mag m e\<rfloor> = int (if 0 \<le> e then m * 2 ^ nat e else m div 2 ^ nat (- e))"
proof (cases "0 \<le> e")
  case True
  then have "mag m e = of_int (int (m * 2 ^ nat e))" by (simp add: mag_def power_int_nonneg_exp)
  with True show ?thesis by (simp only: floor_of_int if_True)
next
  case False
  then have "mag m e = of_nat m / of_nat (2 ^ nat (- e))"
    using power_int_minus [of "2 :: rat" "- e"] by (simp add: mag_def power_int_nonneg_exp divide_inverse)
  then show ?thesis using False floor_divide_of_nat_eq [of m "2 ^ nat (- e)", where 'a = rat] by (simp only: if_False)
qed

lemma to_int32_num: "number x v \<Longrightarrow> v < 2 ^ 31 \<Longrightarrow> to_int32 x = Inr \<lfloor>v\<rfloor>"
proof -
  assume "number x v" "v < 2 ^ 31"
  then obtain m e where x: "x = Fin False m e" "v = mag m e" by (auto simp: number_def)
  have "\<lfloor>v\<rfloor> < 2 ^ 31" using \<open>v < 2 ^ 31\<close> by (simp add: floor_less_iff)
  moreover have "0 \<le> \<lfloor>v\<rfloor>" using x by simp
  ultimately show ?thesis unfolding x floor_mag by (simp add: Let_def)
qed

lemma dsub_num:
  assumes "number x v" and "number y w" and "w \<le> v" and "representable (v - w)"
  shows "number (dsub x y) (v - w)"
proof -
  obtain m e n f where x: "x = Fin False m e" "v = mag m e" and y: "y = Fin False n f" "w = mag n f"
    using assms by (auto simp: number_def)
  define g where "g = min e f"
  define i where "i = int (m * 2 ^ nat (e - g)) - int (n * 2 ^ nat (f - g))"
  have v: "v = mag (m * 2 ^ nat (e - g)) g" and w: "w = mag (n * 2 ^ nat (f - g)) g"
    unfolding x y by (rule mag_at; simp add: g_def)+
  have "n * 2 ^ nat (f - g) \<le> m * 2 ^ nat (e - g)" using assms(3) unfolding v w by (simp only: mag_same)
  then have "0 \<le> i" unfolding i_def by linarith
  moreover have i: "v - w = of_int i * 2 powi g" unfolding v w i_def by (simp add: mag_def algebra_simps)
  ultimately have d: "v - w = mag (nat i) g" by (simp add: mag_def)
  have "signed_at g False m e + signed_at g True n f = i" by (simp add: signed_at_def i_def)
  then have "dsub x y = (if i = 0 then Fin False 0 g else round_to (i < 0) (nat \<bar>i\<bar>) g)"
    by (simp add: dsub_def x y Let_def flip: g_def)
  then show ?thesis using \<open>0 \<le> i\<close> assms(4) num_round_exact [of "nat i" g] d by (auto simp: number_def)
qed

lemma mag_fraction:
  assumes "g < 0"
  shows "mag n g - of_int \<lfloor>mag n g\<rfloor> = mag (n mod 2 ^ nat (- g)) g"
proof -
  let ?k = "nat (- g)"
  have "mag n g = mag (n mod 2 ^ ?k + n div 2 ^ ?k * 2 ^ ?k) g" by (simp only: mod_div_mult_eq)
  also have "\<dots> = mag (n mod 2 ^ ?k) g + mag (n div 2 ^ ?k * 2 ^ ?k) g"
    by (simp only: mag_def of_nat_add distrib_right)
  also have "mag (n div 2 ^ ?k * 2 ^ ?k) g = of_int \<lfloor>mag n g\<rfloor>"
    unfolding mag_shift floor_mag using assms by (simp add: mag_def)
  finally show ?thesis by simp
qed

lemma fraction_representable:
  assumes "representable v" and "0 \<le> v"
  shows "representable (v - of_int \<lfloor>v\<rfloor>)"
proof -
  from assms obtain n g where n: "v = mag n g" "n < 2 ^ 53" "- 1074 \<le> g" by (auto simp: representable_def)
  have lt: "v - of_int \<lfloor>v\<rfloor> < 2 ^ 1024" "0 \<le> v - of_int \<lfloor>v\<rfloor>"
    using floor_correct [of v] one_le_power [of "2 :: rat" 1024] by linarith+
  show ?thesis
  proof (cases "0 \<le> g")
    case True
    then have "v - of_int \<lfloor>v\<rfloor> = 0" unfolding n floor_mag by (simp add: mag_def power_int_nonneg_exp)
    then show ?thesis using representable_le [of 0 0] by simp
  next
    case False
    let ?k = "nat (- g)"
    have "v - of_int \<lfloor>v\<rfloor> = mag (n mod 2 ^ ?k) g" using mag_fraction [of g n] False n(1) by simp
    moreover have "n mod 2 ^ ?k \<le> 2 ^ 53" using n(2) mod_less_eq_dividend [of n "2 ^ ?k"] by linarith
    ultimately show ?thesis using representable_le [of "n mod 2 ^ ?k" g] n(3) lt by simp
  qed
qed

lemma below_one:
  assumes "representable v" and "0 \<le> v" and "v < 1"
  shows "v \<le> 1 - 2 powi (- 53)"
proof -
  from assms obtain n g where n: "v = mag n g" "n < 2 ^ 53" by (auto simp: representable_def)
  show ?thesis
  proof (cases "- 53 \<le> g")
    case True
    then have v: "v = mag (n * 2 ^ nat (g + 53)) (- 53)" using mag_at [of "- 53" g n] n by simp
    have "(1 :: rat) = mag (2 ^ 53) (- 53)" by (simp only: mag_pow2) simp
    then have "n * 2 ^ nat (g + 53) < 2 ^ 53" using assms(3) unfolding v by (metis mag_same(3))
    then have "v \<le> mag (2 ^ 53 - 1) (- 53)" unfolding v by (simp only: mag_same)
    also have "\<dots> = 1 - 2 powi (- 53)" by (simp add: mag_def power_int_minus)
    finally show ?thesis .
  next
    case False
    have "v < mag (2 ^ 53) g" using n by (simp only: mag_same)
    also have "\<dots> \<le> 2 powi (- 1)" unfolding mag_pow2 using False by (simp only: powi_le_iff)
    also have "\<dots> \<le> 1 - 2 powi (- 53)" by (simp add: power_int_minus)
    finally show ?thesis by simp
  qed
qed

text \<open>Ten times a fraction, rounded: less than ten, and exact for a multiple of 2 to the -49.\<close>

lemma dmul_ten:
  assumes "number x v" and "representable v" and "v < 1"
  obtains p where "number (dmul x (of_whole 10)) p" and "representable p" and "p < 10"
    and "\<bar>p - 10 * v\<bar> \<le> 2 powi (- 50)" and "\<And>k. v = mag k (- 49) \<Longrightarrow> p = 10 * v"
proof -
  obtain m e where x: "x = Fin False m e" "v = mag m e" using assms by (auto simp: number_def)
  have ten: "of_whole 10 = Fin False 10 0"
    by (simp add: of_whole_def round_to_def Let_def excess_def halve_even_def clip_def bit_count.simps)
  have prod: "dmul x (of_whole 10) = round_to False (m * 10) e" by (simp add: x ten)
  have v: "mag (m * 10) e = 10 * v" by (simp add: x mag_def)
  have "mag (m * 10) e < 2 powi 4" unfolding v using assms(3) by simp
  then obtain m' e' where r: "round_to False (m * 10) e = Fin False m' e'" "representable (mag m' e')"
      "\<bar>mag m' e' - 10 * v\<bar> \<le> 2 powi (4 - 54)"
    by (rule round_error [of "m * 10" e 4 False]) (simp_all add: v)
  have "v \<le> 1 - 2 powi (- 53)" using below_one assms(1-3) num_nonneg by blast
  moreover have "mag m' e' - 10 * v \<le> 2 powi (4 - 54)" using r(3) by linarith
  ultimately have "mag m' e' < 10" by (simp add: power_int_minus)
  moreover have "mag m' e' = 10 * v" if "v = mag k (- 49)" for k
  proof -
    have "10 * v = mag (10 * k) (- 49)" by (simp add: that mag_def)
    moreover have "mag (10 * k) (- 49) < mag (2 ^ 53) (- 49)"
      using assms(3) unfolding calculation [symmetric] mag_pow2 by simp
    then have "10 * k < 2 ^ 53" by (simp only: mag_same)
    ultimately have "representable (10 * v)"
      using representable_le [of "10 * k" "- 49"] assms(3) by simp
    then obtain m'' e'' where "round_to False (m * 10) e = Fin False m'' e''" "mag m'' e'' = 10 * v"
      using round_exact [of "m * 10" e False] v by auto
    then show ?thesis using r by simp
  qed
  ultimately show ?thesis using that [of "mag m' e'"] r prod by (auto simp: number_def)
qed


end
