(* ===== verification/Decimal.thy ===== *)
theory Decimal
  imports Float_Value
begin

text \<open>
  The decimal text \<^verbatim>\<open>dtoa\<close> makes of a number and how near it is to the number, the time in front
  of a log line, and what \<^verbatim>\<open>sqrt\<close> and \<^verbatim>\<open>pow\<close> compute.
\<close>

subsection \<open>Decimal text\<close>

fun frac_val :: "nat list \<Rightarrow> rat" where
  "frac_val [] = 0"
| "frac_val (d # ds) = (of_nat d + frac_val ds) / 10"

definition decimal_text :: "int \<Rightarrow> nat list \<Rightarrow> u8 list" where
  "decimal_text i ds = digit_chars (rev (ndigits 10 (nat i))) @ [46] @ digit_chars ds"

lemma digit_char: "d < 10 \<Longrightarrow> 48 + of_nat d = g_HexChars ! d"
proof -
  assume "d < 10"
  then have "d \<in> {0,1,2,3,4,5,6,7,8,9}" by auto
  then show ?thesis by (auto simp: g_HexChars_def)
qed

lemma int_loop_digits:
  "0 < n \<Longrightarrow> length buf + length (ndigits 10 n) \<le> 64 \<Longrightarrow> int_loop n buf = Inr (buf @ digit_chars (ndigits 10 n))"
proof (induction n arbitrary: buf rule: less_induct)
  case (less n)
  let ?c = "48 + of_nat (n mod 10) :: u8"
  have c: "?c = g_HexChars ! (n mod 10)" by (rule digit_char) simp
  have nd: "ndigits 10 n = n mod 10 # (if 0 < n div 10 then ndigits 10 (n div 10) else [])"
    by (subst ndigits.simps) simp
  have step: "int_loop n buf = int_loop (n div 10) (buf @ [?c])"
    using less.prems nd by (subst int_loop.simps) (auto simp: put_byte_def)
  show ?case
  proof (cases "0 < n div 10")
    case True
    have "int_loop (n div 10) (buf @ [?c]) = Inr ((buf @ [?c]) @ digit_chars (ndigits 10 (n div 10)))"
      by (rule less.IH) (use True less.prems nd in auto)
    then show ?thesis using step nd True c by (simp add: digit_chars_def)
  next
    case False
    then have "n div 10 = 0" by simp
    then have "int_loop (n div 10) (buf @ [?c]) = Inr (buf @ [?c])" by (subst int_loop.simps) simp
    moreover have "ndigits 10 n = [n mod 10]" using nd False by simp
    ultimately show ?thesis using step c by (simp add: digit_chars_def)
  qed
qed

lemma reverse_loop_section:
  "mid \<noteq> [] \<Longrightarrow> reverse_loop (xs @ mid @ ys) (length xs) (length xs + length mid - 1) = xs @ rev mid @ ys"
proof (induction "length mid" arbitrary: mid xs ys rule: less_induct)
  case less
  show ?case
  proof (cases "length mid \<le> 1")
    case True
    then obtain a where "mid = [a]" using less.prems by (cases mid) auto
    then show ?thesis by (subst reverse_loop.simps) simp
  next
    case False
    then obtain a m where "mid = a # m" "m \<noteq> []" by (cases mid) auto
    then obtain m' b where mid: "mid = a # m' @ [b]" by (metis append_butlast_last_id)
    let ?n = "length xs" and ?j = "length xs + length mid - 1"
    have upd: "(xs @ mid @ ys)[?n := (xs @ mid @ ys) ! ?j, ?j := (xs @ mid @ ys) ! ?n] = (xs @ [b]) @ m' @ (a # ys)"
      by (simp add: mid nth_append list_update_append)
    have "reverse_loop (xs @ mid @ ys) ?n ?j = reverse_loop ((xs @ [b]) @ m' @ (a # ys)) (?n + 1) (?j - 1)"
      using upd by (subst reverse_loop.simps) (simp add: mid)
    also have "\<dots> = (xs @ [b]) @ rev m' @ (a # ys)"
    proof (cases "m' = []")
      case True
      then show ?thesis by (subst reverse_loop.simps) (simp add: mid)
    next
      case False
      then show ?thesis using less.hyps [of m' "xs @ [b]" "a # ys"] by (simp add: mid)
    qed
    finally show ?thesis by (simp add: mid)
  qed
qed

lemma reverse_loop_rev: "buf \<noteq> [] \<Longrightarrow> reverse_loop buf 0 (length buf - 1) = rev buf"
  using reverse_loop_section [of buf "[]" "[]"] by simp

text \<open>The digits of a fraction are off by less than one of the last, and less than 2 to the -53.\<close>

lemma frac_step_error:
  fixes v p :: rat
  assumes "\<bar>p - 10 * v\<bar> \<le> 8 * b" and "0 \<le> b" and "- b \<le> p - d - f" and "p - d - f < t + b"
  shows "- b \<le> v - (d + f) / 10 \<and> v - (d + f) / 10 < t / 10 + b"
proof -
  define w where "w = v - (d + f) / 10"
  have e: "10 * w = (10 * v - p) + (p - d - f)" by (simp add: w_def field_simps)
  have "- (8 * b) \<le> 10 * v - p" "10 * v - p \<le> 8 * b" using assms(1) by (simp_all add: abs_le_iff)
  then have "- (9 * b) \<le> 10 * w" "10 * w < t + 9 * b" unfolding e using assms(3,4) by simp_all
  then show ?thesis unfolding w_def [symmetric] using assms(2) by simp
qed

lemma frac_step_bounds:
  fixes v p :: rat
  assumes "\<bar>p - 10 * v\<bar> \<le> 2 powi (- 50)" and "- (2 powi (- 53)) \<le> p - d - f" and "p - d - f < t + 2 powi (- 53)"
  shows "- (2 powi (- 53)) \<le> v - (d + f) / 10 \<and> v - (d + f) / 10 < t / 10 + 2 powi (- 53)"
proof (rule frac_step_error [OF _ _ assms(2,3)])
  show "\<bar>p - 10 * v\<bar> \<le> 8 * 2 powi (- 53)" using assms(1) by simp
qed simp

lemma frac_loop_digits:
  assumes "number x v" and "representable v" and "v < 1" and "length buf + n \<le> 64"
  shows "\<exists>ds. frac_loop n x buf = Inr (buf @ digit_chars ds) \<and> length ds = n \<and> (\<forall>d \<in> set ds. d < 10) \<and>
    - (2 powi (- 53)) \<le> v - frac_val ds \<and> v - frac_val ds < 1 / 10 ^ n + 2 powi (- 53) \<and>
    ((\<exists>k. v = mag k (- 49)) \<longrightarrow> 0 \<le> v - frac_val ds \<and> v - frac_val ds < 1 / 10 ^ n)"
  using assms
proof (induction n arbitrary: x v buf)
  case 0
  then have "0 \<le> v" using num_nonneg by blast
  have small: "- (2 powi (- 53)) \<le> (0 :: rat)" by (simp add: power_int_minus)
  show ?case by (rule exI [of _ "[]"]) (use 0 \<open>0 \<le> v\<close> small in \<open>auto simp: digit_chars_def intro: order_trans add_strict_increasing2 less_le_trans\<close>)
next
  case (Suc n)
  obtain p where p: "number (dmul x (of_whole 10)) p" "representable p" "p < 10"
      "\<bar>p - 10 * v\<bar> \<le> 2 powi (- 50)" "\<And>k. v = mag k (- 49) \<Longrightarrow> p = 10 * v"
    using dmul_ten [OF Suc.prems(1-3)] by blast
  have p0: "0 \<le> p" using p(1) num_nonneg by blast
  let ?i = "\<lfloor>p\<rfloor>" let ?d = "nat ?i" let ?y = "dsub (dmul x (of_whole 10)) (of_whole ?i)"
  have i: "0 \<le> ?i" "?i < 10" using p0 p(3) by (auto simp: floor_less_iff)
  have t: "to_int32 (dmul x (of_whole 10)) = Inr ?i" using p(1,3) by (intro to_int32_num) simp_all
  have y: "number ?y (p - of_int ?i)"
    using p(1,2) i p0 by (intro dsub_num of_whole_num fraction_representable) (simp_all add: of_int_floor_le)
  have "representable (p - of_int ?i)" using fraction_representable p(2) p0 by blast
  moreover have "p - of_int ?i < 1" using floor_correct [of p] by linarith
  ultimately obtain ds where ds: "frac_loop n ?y (buf @ [48 + of_nat ?d]) = Inr ((buf @ [48 + of_nat ?d]) @ digit_chars ds)"
      "length ds = n" "\<forall>d \<in> set ds. d < 10"
      "- (2 powi (- 53)) \<le> p - of_int ?i - frac_val ds" "p - of_int ?i - frac_val ds < 1 / 10 ^ n + 2 powi (- 53)"
      "(\<exists>k. p - of_int ?i = mag k (- 49)) \<longrightarrow> 0 \<le> p - of_int ?i - frac_val ds \<and> p - of_int ?i - frac_val ds < 1 / 10 ^ n"
    using Suc.IH [OF y, of "buf @ [48 + of_nat ?d]"] Suc.prems(4) by auto
  have d: "of_int ?i = (of_nat ?d :: rat)" "(of_int ?i :: u8) = of_nat ?d" "?d < 10"
    using i by (simp_all add: nat_less_iff)
  have "frac_loop (Suc n) x buf = frac_loop n ?y (buf @ [48 + of_nat ?d])"
    using Suc.prems(4) t d(2) by (simp add: Let_def put_byte_def)
  also have "\<dots> = Inr (buf @ digit_chars (?d # ds))"
    using ds(1) digit_char [OF d(3)] by (simp add: digit_chars_def)
  finally have loop: "frac_loop (Suc n) x buf = Inr (buf @ digit_chars (?d # ds))" .
  have b: "- (2 powi (- 53)) \<le> v - frac_val (?d # ds)" "v - frac_val (?d # ds) < 1 / 10 ^ Suc n + 2 powi (- 53)"
    using frac_step_bounds [OF p(4), of "of_nat ?d" "frac_val ds" "1 / 10 ^ n"] ds(4,5) unfolding d(1) by simp_all
  have "0 \<le> v - frac_val (?d # ds) \<and> v - frac_val (?d # ds) < 1 / 10 ^ Suc n" if "v = mag k (- 49)" for k
  proof -
    have e: "p = 10 * v" using p(5) that by blast
    then have "p = mag (10 * k) (- 49)" by (simp add: that mag_def)
    then have "\<exists>k. p - of_int ?i = mag k (- 49)" using mag_fraction [of "- 49" "10 * k"] by auto
    then have "0 \<le> 10 * v - of_nat ?d - frac_val ds" "10 * v - of_nat ?d - frac_val ds < 1 / 10 ^ n"
      using ds(6) e d(1) by simp_all
    then show ?thesis by (simp add: field_simps)
  qed
  then show ?case using loop ds(2,3) d(3) b by (intro exI [of _ "?d # ds"]) auto
qed


lemma zero_loop_digits: "length buf + n \<le> 64 \<Longrightarrow> zero_loop n buf = Inr (buf @ digit_chars (replicate n 0))"
proof (induction n arbitrary: buf)
  case (Suc n)
  have "g_HexChars ! 0 = 48" by (simp add: g_HexChars_def)
  then show ?case using Suc by (simp add: put_byte_def digit_chars_def)
qed (simp add: digit_chars_def)

lemma frac_val_zeros [simp]: "frac_val (replicate n 0) = 0"
  by (induction n) simp_all

lemma dless_zero [simp]:
  "dless (Fin False 0 0) (Fin s m e) \<longleftrightarrow> \<not> s \<and> m \<noteq> 0" "dless (Fin s m e) (Fin False 0 0) \<longleftrightarrow> s \<and> m \<noteq> 0"
  by (auto simp: signed_at_def Let_def zero_less_mult_iff mult_less_0_iff)

declare dless_zero [simp del]

lemma dless_num: "number x v \<Longrightarrow> dless (Fin False 0 0) x \<longleftrightarrow> v \<noteq> 0"
  by (auto simp: number_def dless_zero simp del: dless.simps)

text \<open>The part of \<^verbatim>\<open>dtoa\<close> behind the sign.\<close>

definition dtoa_unsigned :: "double \<Rightarrow> int \<Rightarrow> u8 list res" where
  "dtoa_unsigned x dec_cnt =
     rbind (to_int32 x) (\<lambda>intPart.
       let fractionalPart = dsub x (of_whole intPart)
       in rbind (if intPart = 0 then put_byte 48 [] else int_loop (nat intPart) []) (\<lambda>buf.
          rbind (put_byte 46 (reverse_loop buf 0 (length buf - 1))) (\<lambda>buf.
          rbind (if dless (Fin False 0 0) fractionalPart then frac_loop (nat dec_cnt) fractionalPart buf
                 else zero_loop (nat dec_cnt) buf) (put_byte 0))))"

lemma dtoa_sign:
  "dtoa x n = (if dless x (Fin False 0 0) then rbind (dtoa_unsigned (dneg x) n) (\<lambda>buf. Inr (45 # buf))
     else dtoa_unsigned x n)"
  by (simp add: dtoa_def dtoa_unsigned_def Let_def rbind_assoc) (auto simp: rbind_def split: sum.splits)

definition near_text :: "rat \<Rightarrow> nat \<Rightarrow> nat list \<Rightarrow> bool" where
  "near_text v n ds \<longleftrightarrow> length ds = n \<and> (\<forall>d \<in> set ds. d < 10) \<and>
     (let err = v - (of_int \<lfloor>v\<rfloor> + frac_val ds)
      in - (2 powi (- 53)) \<le> err \<and> err < 1 / 10 ^ n + 2 powi (- 53) \<and>
         ((\<exists>k. v = mag k (- 49)) \<longrightarrow> 0 \<le> err \<and> err < 1 / 10 ^ n))"

lemma near_text_zeros: "near_text (of_int i) n (replicate n 0)"
proof -
  have "- (2 powi (- 53)) \<le> (0 :: rat)" "0 < 1 / 10 ^ n + (2 powi (- 53) :: rat)"
    by (simp_all add: power_int_minus add_pos_pos)
  then show ?thesis by (simp add: near_text_def Let_def)
qed

lemma dtoa_unsigned_text:
  assumes "number x v" and "representable v" and "v < 2 ^ 31" and "0 \<le> n" and "n \<le> 52"
  shows "\<exists>ds. dtoa_unsigned x n = Inr (decimal_text \<lfloor>v\<rfloor> ds @ [0]) \<and> near_text v (nat n) ds"
proof -
  let ?i = "\<lfloor>v\<rfloor>" let ?f = "dsub x (of_whole ?i)" let ?nd = "ndigits 10 (nat ?i)"
  have v0: "0 \<le> v" using assms(1) num_nonneg by blast
  have i: "0 \<le> ?i" "?i < 2 ^ 31" using v0 assms(3) by (auto simp: floor_less_iff)
  have f: "number ?f (v - of_int ?i)"
    using assms(1,2) i v0 by (intro dsub_num of_whole_num fraction_representable) simp_all
  have rep: "representable (v - of_int ?i)" using fraction_representable assms(2) v0 by blast
  have lt: "v - of_int ?i < 1" using floor_correct [of v] by linarith
  have "nat ?i < 10 ^ 10" using i by (simp add: nat_less_iff)
  then have len: "length ?nd \<le> 10" by (simp add: ndigits_length)
  have int: "(if ?i = 0 then put_byte 48 [] else int_loop (nat ?i) []) = Inr (digit_chars ?nd)"
  proof (cases "?i = 0")
    case True
    then show ?thesis by (simp add: put_byte_def ndigits.simps [of 10 0] digit_chars_def g_HexChars_def)
  next
    case False
    with i have "0 < nat ?i" by linarith
    then show ?thesis using int_loop_digits [of "nat ?i" "[]"] False len by simp
  qed
  let ?buf = "digit_chars (rev ?nd) @ [46]"
  have "digit_chars ?nd \<noteq> []" by (simp add: digit_chars_def)
  then have rev: "reverse_loop (digit_chars ?nd) 0 (length (digit_chars ?nd) - 1) = digit_chars (rev ?nd)"
    by (subst reverse_loop_rev) (simp_all add: digit_chars_def rev_map)
  have fits: "length ?buf + nat n \<le> 63" using len assms(4,5) by simp
  have "\<exists>ds. (if dless (Fin False 0 0) ?f then frac_loop (nat n) ?f ?buf else zero_loop (nat n) ?buf) = Inr (?buf @ digit_chars ds) \<and>
    near_text v (nat n) ds"
  proof (cases "v = of_int ?i")
    case True
    then have "\<not> dless (Fin False 0 0) ?f" using dless_num [OF f] by simp
    then show ?thesis using zero_loop_digits [of ?buf "nat n"] fits near_text_zeros [of ?i "nat n"] True
      by (intro exI [of _ "replicate (nat n) 0"]) simp
  next
    case False
    then have "dless (Fin False 0 0) ?f" using dless_num [OF f] by simp
    moreover have "\<exists>k. v - of_int ?i = mag k (- 49)" if "v = mag k (- 49)" for k
      using mag_fraction [of "- 49" k] that by auto
    ultimately show ?thesis using frac_loop_digits [OF f rep lt, of ?buf "nat n"] fits
      by (auto simp: near_text_def Let_def diff_diff_eq)
  qed
  then obtain ds where ds: "near_text v (nat n) ds" and
    "(if dless (Fin False 0 0) ?f then frac_loop (nat n) ?f ?buf else zero_loop (nat n) ?buf) = Inr (?buf @ digit_chars ds)"
    by blast
  then have "dtoa_unsigned x n = Inr (decimal_text ?i ds @ [0])"
    using to_int32_num [OF assms(1,3)] int rev len fits
    by (simp add: dtoa_unsigned_def Let_def put_byte_def near_text_def decimal_text_def)
  with ds show ?thesis by blast
qed


lemma dtoa_unsigned_zero: "dtoa_unsigned (Fin True 0 e) n = dtoa_unsigned (Fin False 0 e) n"
proof -
  have t: "to_int32 (Fin s 0 e) = Inr 0" for s by simp
  have w: "of_whole 0 = Fin False 0 0" by (simp add: of_whole_def round_to_def excess_def halve_even_def clip_def bit_count.simps)
  have "dsub (Fin s 0 e) (Fin False 0 0) = Fin s 0 (min e 0)" for s by (simp add: dsub_def signed_at_def)
  then show ?thesis unfolding dtoa_unsigned_def t by (simp add: w Let_def dless_zero del: dless.simps)
qed

text \<open>C14: \<^verbatim>\<open>dtoa\<close> prints the number. For every number below 2 to the 31 in size and up to 52 places it
  returns, without leaving its buffer, a minus sign for a negative number, the digits of the whole
  part, a point and as many digits as it is asked for. The decimal number printed is off by less
  than one of its last place and 2 to the -53; it is the number cut off after that place when the
  number is a multiple of 2 to the -49, as every \<^verbatim>\<open>double\<close> from 8 on is.\<close>

theorem dtoa_accurate:
  assumes "is_fin x" and "representable (value_of x)" and "\<bar>value_of x\<bar> < 2 ^ 31" and "0 \<le> n" and "n \<le> 52"
  shows "\<exists>ds. dtoa x n = Inr ((if value_of x < 0 then [45] else []) @ decimal_text \<lfloor>\<bar>value_of x\<bar>\<rfloor> ds @ [0]) \<and>
    near_text \<bar>value_of x\<bar> (nat n) ds"
proof -
  obtain s m e where x: "x = Fin s m e" using assms(1) by (cases x) auto
  have v: "\<bar>value_of x\<bar> = mag m e" by (simp add: x)
  have rep: "representable (mag m e)" using assms(2) v by (simp add: representable_def)
  have number: "number (Fin False m e) (mag m e)" by (simp add: number_def)
  obtain ds where ds: "dtoa_unsigned (Fin False m e) n = Inr (decimal_text \<lfloor>mag m e\<rfloor> ds @ [0])" "near_text (mag m e) (nat n) ds"
    using dtoa_unsigned_text [OF number rep _ assms(4,5)] assms(3) v by auto
  have zero: "dtoa_unsigned (Fin True 0 e) n = dtoa_unsigned (Fin False 0 e) n"
    by (rule dtoa_unsigned_zero)
  show ?thesis
  proof (cases "s \<and> m \<noteq> 0")
    case True
    then have "value_of x < 0" by (simp add: x)
    moreover have "dtoa x n = Inr (45 # decimal_text \<lfloor>mag m e\<rfloor> ds @ [0])"
      using True ds(1) by (simp add: dtoa_sign x dless_zero del: dless.simps)
    ultimately show ?thesis using ds(2) unfolding v by (intro exI [of _ ds]) simp
  next
    case False
    then have "\<not> value_of x < 0" by (auto simp: x not_less)
    moreover have "dtoa x n = dtoa_unsigned (Fin False m e) n"
      using False zero by (cases s) (auto simp: dtoa_sign x dless_zero simp del: dless.simps)
    ultimately show ?thesis using ds unfolding v by (intro exI [of _ ds]) simp
  qed
qed
theorem dtoa_accurate_witness:
  "\<exists>ds. dtoa (Fin True 5 (- 1)) 2 = Inr ([45] @ decimal_text 2 ds @ [0]) \<and> near_text (5 / 2) 2 ds"
proof -
  have v: "value_of (Fin True 5 (- 1)) = - (5 / 2)" by (simp add: mag_def power_int_minus)
  have m: "mag 5 (- 1) = 5 / 2" by (simp add: mag_def power_int_minus)
  have f: "\<lfloor>5 / 2 :: rat\<rfloor> = 2" by (simp add: floor_eq_iff)
  have "representable (mag 5 (- 1))" by (rule representable_le) (simp_all add: m)
  then have "representable (value_of (Fin True 5 (- 1)))" unfolding v m by (simp add: representable_def)
  from dtoa_accurate [OF _ this, of 2] show ?thesis by (simp add: m f)
qed

subsection \<open>The time in front of a log line\<close>

lemma whole_exact: "a < 2 ^ 53 \<Longrightarrow> of_whole (int a) = Fin False a 0"
proof -
  assume a: "a < 2 ^ 53"
  then have "bit_count a \<le> 53" by (simp only: bits_less)
  then show ?thesis by (simp add: of_whole_def round_to_def excess_def halve_even_def clip_def)
qed

lemma whole_representable: "a < 2 ^ 53 \<Longrightarrow> representable (of_nat a)"
proof -
  assume a: "a < 2 ^ 53"
  then have "mag a 0 < 2 ^ 1024"
    using mag_same(3) [of a 0 "2 ^ 1024"] power_strict_increasing [of 53 1024 "2 :: nat"] by (simp add: mag_def)
  then show ?thesis using representable_le [of a 0] a by (simp add: mag_def)
qed

lemma quotient_error:
  fixes a b k :: nat
  assumes "0 < b"
  defines "x \<equiv> a * 2 ^ k"
  shows "\<bar>mag (2 * (x div b) + (if x mod b = 0 then 0 else 1)) (- int k - 1) - of_nat a / of_nat b\<bar> \<le> 2 powi (- int k - 1)"
proof -
  let ?st = "if x mod b = 0 then 0 else 1 :: nat" and ?g = "(2 :: rat) powi (- int k - 1)"
  have g: "2 powi (- int k - 1) * 2 = 1 / (2 :: rat) ^ k"
    using powi_split [of "- int k - 1" 1] power_int_minus [of "2 :: rat" "int k"] by (simp add: divide_inverse)
  have "(of_nat x :: rat) = of_nat b * of_nat (x div b) + of_nat (x mod b)"
    by (metis mult_div_mod_eq of_nat_add of_nat_mult)
  then have "of_nat a / of_nat b = (of_nat (x div b) + of_nat (x mod b) / of_nat b) * (1 / (2 :: rat) ^ k)"
    using assms by (simp add: x_def field_simps)
  also have "\<dots> = (2 * of_nat (x div b) + 2 * (of_nat (x mod b) / of_nat b)) * ?g"
    unfolding g [symmetric] by (simp add: algebra_simps)
  finally have q: "of_nat a / of_nat b = (2 * of_nat (x div b) + 2 * (of_nat (x mod b) / of_nat b)) * ?g" .
  have r: "of_nat (x mod b) / of_nat b < (1 :: rat)" using assms by simp
  have "\<bar>of_nat ?st - 2 * (of_nat (x mod b) / of_nat b :: rat)\<bar> \<le> 1"
  proof (cases "x mod b = 0")
    case False
    then have "0 < (of_nat (x mod b) / of_nat b :: rat)" using assms by simp
    then show ?thesis using r False by (simp add: abs_le_iff)
  qed simp
  then have "\<bar>of_nat ?st - 2 * (of_nat (x mod b) / of_nat b :: rat)\<bar> * ?g \<le> 1 * ?g" by (intro mult_right_mono) simp_all
  moreover have "mag (2 * (x div b) + ?st) (- int k - 1) - of_nat a / of_nat b =
      (of_nat ?st - 2 * (of_nat (x mod b) / of_nat b)) * ?g"
    unfolding q by (simp add: mag_def algebra_simps)
  ultimately show ?thesis by (simp add: abs_mult)
qed

lemma ddiv_1000:
  obtains y where "ddiv (Fin False a 0) (Fin False 1000 0) = round_to False y (- 66)"
    and "\<bar>mag y (- 66) - of_nat a / 1000\<bar> \<le> 2 powi (- 66)"
proof -
  let ?x = "a * 2 ^ 65"
  let ?y = "2 * (?x div 1000) + (if ?x mod 1000 = 0 then 0 else 1)"
  have b: "bit_count 1000 = 10" by (simp add: bit_count.simps)
  have "ddiv (Fin False a 0) (Fin False 1000 0) = round_to False ?y (- 66)" by (simp add: b Let_def)
  moreover have "\<bar>mag ?y (- 66) - of_nat a / 1000\<bar> \<le> 2 powi (- 66)" using quotient_error [of 1000 a 65] by simp
  ultimately show ?thesis using that by blast
qed

lemma seconds_num:
  assumes "unat ms < 2 ^ 30 * 1000"
  obtains q where "number (ddiv (of_whole (uint ms)) (of_whole 1000)) q" and "representable q" and "q \<le> 2 ^ 30"
    and "\<bar>q - of_nat (unat ms) / 1000\<bar> \<le> 2 powi (- 23)"
proof -
  have w: "of_whole (uint ms) = Fin False (unat ms) 0" "of_whole 1000 = Fin False 1000 0"
    using whole_exact [of "unat ms"] whole_exact [of 1000] assms by simp_all
  obtain y where d: "ddiv (of_whole (uint ms)) (of_whole 1000) = round_to False y (- 66)"
    and err: "\<bar>mag y (- 66) - of_nat (unat ms) / 1000\<bar> \<le> 2 powi (- 66)"
    unfolding w using ddiv_1000 by blast
  have "(of_nat (unat ms) :: rat) \<le> of_nat (2 ^ 30 * 1000 - 1)" using assms by (intro iffD2 [OF of_nat_le_iff]) simp
  then have "of_nat (unat ms) / 1000 < (2 :: rat) powi 30 - 2 powi (- 66)" by simp
  then have "mag y (- 66) < 2 powi 30" using err by linarith
  then obtain m e where r: "round_to False y (- 66) = Fin False m e" "representable (mag m e)"
      "\<bar>mag m e - mag y (- 66)\<bar> \<le> 2 powi (30 - 54)" "mag m e \<le> 2 powi 30"
    by (rule round_error [of y "- 66" 30 False]) simp_all
  have "(2 :: rat) powi (30 - 54) + 2 powi (- 66) \<le> 2 powi (- 23)" by simp
  with err r(3) have "\<bar>mag m e - of_nat (unat ms) / 1000\<bar> \<le> 2 powi (- 23)" by linarith
  then show ?thesis using that [of "mag m e"] r d by (auto simp: number_def)
qed

definition time_text :: "u64 \<Rightarrow> u8 list \<Rightarrow> bool" where
  "time_text ms t \<longleftrightarrow> log_time ms = Inr (t @ [0]) \<and> (\<exists>i ds. t = decimal_text i ds \<and> 0 \<le> i \<and> i \<le> 2 ^ 30 \<and> length ds = 5 \<and> (\<forall>d \<in> set ds. d < 10) \<and>
     \<bar>of_int i + frac_val ds - of_nat (unat ms) / 1000\<bar> < 1 / 10 ^ 5 + 1 / 2 ^ 22)"

lemma log_time_returns:
  assumes "unat ms < 2 ^ 30 * 1000"
  shows "\<exists>t. time_text ms t"
proof -
  obtain q where q: "number (ddiv (of_whole (uint ms)) (of_whole 1000)) q" "representable q" "q \<le> 2 ^ 30"
    "\<bar>q - of_nat (unat ms) / 1000\<bar> \<le> 2 powi (- 23)" using seconds_num [OF assms] by blast
  have q0: "0 \<le> q" using q(1) num_nonneg by blast
  obtain ds where ds: "dtoa_unsigned (ddiv (of_whole (uint ms)) (of_whole 1000)) 5 = Inr (decimal_text \<lfloor>q\<rfloor> ds @ [0])" "near_text q 5 ds"
    using dtoa_unsigned_text [OF q(1,2), of 5] q(3) by auto
  have "\<not> dless (ddiv (of_whole (uint ms)) (of_whole 1000)) (Fin False 0 0)"
    using q(1) by (auto simp: number_def dless_zero simp del: dless.simps)
  then have t: "log_time ms = Inr (decimal_text \<lfloor>q\<rfloor> ds @ [0])" using ds(1) by (simp add: log_time_def dtoa_sign)
  have "- (2 powi (- 53)) \<le> q - (of_int \<lfloor>q\<rfloor> + frac_val ds)" "q - (of_int \<lfloor>q\<rfloor> + frac_val ds) < 1 / 10 ^ 5 + 2 powi (- 53)"
    using ds(2) by (simp_all only: near_text_def Let_def)
  moreover have "(2 :: rat) powi (- 53) + 2 powi (- 23) < 1 / 2 ^ 22" "(2 :: rat) powi (- 53) + 2 powi (- 23) < 1 / 10 ^ 5 + 1 / 2 ^ 22" by (simp_all add: power_int_minus)
  ultimately have "\<bar>of_int \<lfloor>q\<rfloor> + frac_val ds - of_nat (unat ms) / 1000\<bar> < 1 / 10 ^ 5 + 1 / 2 ^ 22"
    using q(4) by linarith
  moreover have "0 \<le> \<lfloor>q\<rfloor>" "\<lfloor>q\<rfloor> \<le> 2 ^ 30" using q0 q(3) by (simp_all add: floor_le_iff)
  ultimately show ?thesis using t ds(2) unfolding time_text_def near_text_def by blast
qed

lemma time_text_holds: "time_text ms t \<Longrightarrow> holds (t @ [0]) t \<and> length t < 2 ^ 31"
proof -
  assume "time_text ms t"
  then obtain i ds where t: "t = decimal_text i ds" "0 \<le> i" "i \<le> 2 ^ 30" "length ds = 5" "\<forall>d \<in> set ds. d < 10"
    by (auto simp: time_text_def)
  have "0 \<notin> set (digit_chars ds)" using t(5) by (intro digit_chars_nonzero) auto
  moreover have "0 \<notin> set (digit_chars (rev (ndigits 10 (nat i))))"
    by (intro digit_chars_nonzero) (auto dest!: ndigits_lt [rotated] intro: less_trans)
  ultimately have nz: "0 \<notin> set t" by (simp add: t decimal_text_def)
  have "nat i < 10 ^ 10" using t(2,3) by (simp add: nat_less_iff)
  then have "length (ndigits 10 (nat i)) \<le> 10" by (simp add: ndigits_length)
  then show ?thesis using nz t(4) by (simp add: t holds_def decimal_text_def)
qed

text \<open>The stamp of the 1001st millisecond is a digit short.\<close>

lemma bits_eval:
  "int (bit_count 0) = 0" "int (bit_count (Suc 0)) = 1" "int (bit_count 1) = 1"
  "int (bit_count (numeral (Num.Bit0 n))) = int (bit_count (numeral n)) + 1"
  "int (bit_count (numeral (Num.Bit1 n))) = int (bit_count (numeral n)) + 1"
  by (simp_all add: bit_count.simps [of "numeral (Num.Bit0 n)"] bit_count.simps [of "numeral (Num.Bit1 n)"]
      bit_count.simps [of 0] bit_count.simps [of "Suc 0"])

lemma halve_even_shifts:
  "halve_even m sh =
     (let q = drop_bit sh m; r = 2 * take_bit sh m in if 2 ^ sh < r \<or> r = 2 ^ sh \<and> odd q then q + 1 else q)"
  by (simp add: halve_even_def drop_bit_eq_div take_bit_eq_mod)

lemmas float_eval = of_whole_def round_to_def excess_def halve_even_shifts clip_def bits_eval Let_def
  signed_at_def dsub_def fabs_def put_byte_def epsilon_def

lemma seconds_1001: "ddiv (of_whole 1001) (of_whole 1000) = Fin False 4508103226997866 (- 52)"
proof -
  have "bit_count 1000 = 10" by (simp add: bit_count.simps)
  then show ?thesis by (simp add: float_eval)
qed

lemma frac_step:
  assumes "dmul x (of_whole 10) = p" and "to_int32 p = Inr d" and "dsub p (of_whole d) = y" and "length buf < 64"
  shows "frac_loop (Suc n) x buf = frac_loop n y (buf @ [48 + of_int d])"
  using assms by (simp add: Let_def put_byte_def)

lemma frac_1001:
  "frac_loop 5 (Fin False 4503599627370 (- 52)) [49, 46] = Inr [49, 46, 48, 48, 48, 57, 57]"
proof -
  have five: "(5 :: nat) = Suc (Suc (Suc (Suc (Suc 0))))" by simp
  show ?thesis
    unfolding five
    by (subst frac_step, (simp add: float_eval; fail), (simp; fail), (simp add: float_eval; fail), (simp; fail))+ simp
qed

lemma stamp_1001: "log_time 1001 = Inr (map of_char ''1.00099'' @ [0])"
proof -
  have f: "dsub (Fin False 4508103226997866 (- 52)) (of_whole 1) = Fin False 4503599627370 (- 52)" by (simp add: float_eval)
  have i: "int_loop (Suc 0) [] = Inr [49]" by (subst int_loop.simps) (simp add: int_loop.simps [of 0] put_byte_def)
  have r: "reverse_loop [49] 0 0 = [49]" by (subst reverse_loop.simps) simp
  have d: "dtoa_unsigned (Fin False 4508103226997866 (- 52)) 5 = Inr ([49, 46, 48, 48, 48, 57, 57] @ [0])"
    using frac_1001 by (simp add: dtoa_unsigned_def f i r put_byte_def dless_zero Let_def del: dless.simps)
  show ?thesis by (simp add: log_time_def seconds_1001 dtoa_sign dless_zero d del: dless.simps)
qed

subsection \<open>\<^verbatim>\<open>sqrt\<close> and \<^verbatim>\<open>pow\<close>\<close>

abbreviation off_root :: "double \<Rightarrow> double \<Rightarrow> bool" where
  "off_root x r \<equiv> dless epsilon (fabs (dsub (dmul r r) x))"

definition newton :: "double \<Rightarrow> double \<Rightarrow> double" where
  "newton x r = ddiv (dadd r (ddiv x r)) (of_whole 2)"

lemma sqrt_loop_newton: "sqrt_loop x r = (if off_root x r then sqrt_loop x (newton x r) else Some r)"
  by (subst sqrt_loop.simps) (simp add: newton_def)

lemma sqrt_loop_induct:
  assumes "sqrt_loop x r = Some t"
    and "\<And>loop x r t. (\<And>y s u. loop y s = Some u \<Longrightarrow> P y s u) \<Longrightarrow>
      (if off_root x r then loop x (newton x r) else Some r) = Some t \<Longrightarrow> P x r t"
  shows "P x r t"
proof -
  have "(case (x, r) of (x, r) \<Rightarrow> P x r) t"
  proof (rule sqrt_loop.raw_induct [where P = P])
    show "(case (x, r) of (x, xa) \<Rightarrow> sqrt_loop x xa) = Some t" using assms(1) by simp
  qed (rule assms(2), simp_all only: newton_def)
  then show ?thesis by simp
qed

lemma sqrt_near: "dsqrt x = Some r \<Longrightarrow> \<not> off_root x r"
  unfolding dsqrt_def by (rule sqrt_loop_induct [where P = "\<lambda>y s t. \<not> off_root y t"]) (auto split: if_splits)

lemma sqrt_stuck:
  assumes "off_root x r" and "newton x r = r"
  shows "sqrt_loop x r = None"
proof (rule ccontr)
  assume "sqrt_loop x r \<noteq> None"
  then obtain t where "sqrt_loop x r = Some t" by blast
  then have "x = x \<longrightarrow> r \<noteq> r"
    by (rule sqrt_loop_induct [where P = "\<lambda>y s t. y = x \<longrightarrow> s \<noteq> r"]) (use assms in \<open>auto split: if_splits\<close>)
  then show False by simp
qed

lemma sqrt_go: "off_root x r \<Longrightarrow> sqrt_loop x (newton x r) = sqrt_loop x r"
  by (subst (2) sqrt_loop_newton) simp

fun orbit :: "nat \<Rightarrow> double \<Rightarrow> double \<Rightarrow> double option" where
  "orbit 0 x r = Some r"
| "orbit (Suc n) x r = (if off_root x r then orbit n x (newton x r) else None)"

lemma sqrt_orbit: "orbit n x r = Some s \<Longrightarrow> sqrt_loop x r = sqrt_loop x s"
  by (induction n x r rule: orbit.induct) (auto split: if_splits simp: sqrt_go)

lemma sqrt_minus_one: "dsqrt (of_whole (- 1)) = None"
proof -
  have "orbit (Suc (Suc 0)) (of_whole (- 1)) (of_whole (- 1)) = Some (Infty True)"
    by (simp add: float_eval newton_def bit_count.simps [of "Suc 0"] bit_count.simps [of 0])
  then have "dsqrt (of_whole (- 1)) = sqrt_loop (of_whole (- 1)) (Infty True)" unfolding dsqrt_def by (rule sqrt_orbit)
  also have "\<dots> = None" by (rule sqrt_stuck) (simp_all add: float_eval newton_def)
  finally show ?thesis .
qed

text \<open>\<^verbatim>\<open>pow\<close> multiplies once too often.\<close>

lemma pow_loop_whole:
  "0 < k \<Longrightarrow> 0 < b \<Longrightarrow> b ^ (k + n) < 2 ^ 53 \<Longrightarrow> number y (of_nat (b ^ k)) \<Longrightarrow>
   number (pow_loop n (of_whole (int b)) y) (of_nat (b ^ (k + n)))"
proof (induction n arbitrary: k y)
  case (Suc n)
  have "b ^ 1 \<le> b ^ (k + Suc n)" "b ^ Suc k \<le> b ^ (k + Suc n)" using Suc.prems by (intro power_increasing; simp)+
  with Suc.prems(3) have b: "b < 2 ^ 53" "b ^ Suc k < 2 ^ 53" by (simp_all only: power_one_right)
  obtain m e where y: "y = Fin False m e" "of_nat (b ^ k) = mag m e" using Suc.prems by (auto simp: number_def)
  have v: "mag (m * b) e = of_nat (b ^ Suc k)" using y(2) by (simp add: mag_def algebra_simps)
  moreover have "representable (of_nat (b ^ Suc k))"
    using whole_representable [OF b(2)] by simp
  ultimately have "number (dmul y (of_whole (int b))) (of_nat (b ^ Suc k))"
    using num_round_exact [of "m * b" e] whole_exact [OF b(1)] y(1) by simp
  then show ?case using Suc.IH [of "Suc k"] Suc.prems by simp
qed simp

lemma pow_whole:
  "0 < b \<Longrightarrow> b ^ (n + 1) < 2 ^ 53 \<Longrightarrow> number (pow (of_whole (int b)) (int n)) (of_nat (b ^ (n + 1)))"
proof -
  assume b: "0 < b" "b ^ (n + 1) < 2 ^ 53"
  moreover have "b ^ 1 \<le> b ^ (n + 1)" using b(1) by (intro power_increasing) simp_all
  ultimately have "b < 2 ^ 53" by (simp only: power_one_right)
  then have "number (of_whole (int b)) (of_nat (b ^ 1))" using of_whole_num [of "int b"] by simp
  then show ?thesis using pow_loop_whole [of 1 b n] b by (simp add: pow_def add.commute)
qed

end
