(* ===== verification/DynList.thy ===== *)
theory DynList
  imports Prelude
begin

text \<open>
  The growing array \<^verbatim>\<open>list\<close> of \<^verbatim>\<open>include/stdlib/structures/list.h\<close>. An object is its
  array, as long as its capacity, with the number of elements in use. \<open>d\<close> is what
  \<^verbatim>\<open>new T[n]\<close> puts in a fresh element; allocation is taken to succeed (the heap is modelled
  on its own). The interface its clients use is the locale \<open>sequence\<close>, and the class is an
  interpretation of it.
\<close>

record 'a dlist =
  lst_data :: "'a list"
  lst_size :: nat
  max_capacity :: nat

definition list_reserve :: "'a \<Rightarrow> nat \<Rightarrow> 'a dlist" where
  "list_reserve d n = \<lparr>lst_data = replicate n d, lst_size = 0, max_capacity = n\<rparr>"

definition list_fill :: "nat \<Rightarrow> 'a \<Rightarrow> 'a dlist" where
  "list_fill n v = \<lparr>lst_data = replicate n v, lst_size = n, max_capacity = n\<rparr>"

definition list_new :: "'a \<Rightarrow> 'a dlist" where
  "list_new d = list_reserve d 10"

text \<open>The element loop of the copies and of \<^verbatim>\<open>resize\<close>: the first \<open>n\<close> elements.\<close>

function copy_elems :: "nat \<Rightarrow> nat \<Rightarrow> 'a list \<Rightarrow> 'a list \<Rightarrow> 'a list res" where
  "copy_elems i n src dst =
     (if i < n
      then if length src \<le> i \<or> length dst \<le> i then Inl Out_of_bounds
           else copy_elems (Suc i) n src (dst[i := src ! i])
      else Inr dst)"
  by pat_completeness auto
termination by (relation "measure (\<lambda>(i, n, _). n - i)") auto

declare copy_elems.simps [simp del]

definition list_copy :: "'a \<Rightarrow> 'a dlist \<Rightarrow> 'a dlist res" where
  "list_copy d l =
     rbind (copy_elems 0 (lst_size l) (lst_data l) (replicate (max_capacity l) d)) (\<lambda>xs.
       Inr \<lparr>lst_data = xs, lst_size = lst_size l, max_capacity = max_capacity l\<rparr>)"

text \<open>The move leaves an empty object without an array behind.\<close>

definition list_move :: "'a dlist \<Rightarrow> 'a dlist \<times> 'a dlist" where
  "list_move l = (l, \<lparr>lst_data = [], lst_size = 0, max_capacity = 0\<rparr>)"

text \<open>The assignments; \<open>same\<close> says that both sides are the same object.\<close>

definition list_assign :: "'a \<Rightarrow> bool \<Rightarrow> 'a dlist \<Rightarrow> 'a dlist \<Rightarrow> 'a dlist res" where
  "list_assign d same other l = (if \<not> same then list_copy d other else Inr l)"

definition list_move_assign :: "bool \<Rightarrow> 'a dlist \<Rightarrow> 'a dlist \<Rightarrow> 'a dlist \<times> 'a dlist" where
  "list_move_assign same other l = (if \<not> same then list_move other else (l, l))"

definition list_length :: "'a dlist \<Rightarrow> nat" where
  "list_length l = lst_size l"

definition list_clear :: "'a dlist \<Rightarrow> 'a dlist" where
  "list_clear l = l\<lparr>lst_size := 0\<rparr>"

definition list_resize :: "'a \<Rightarrow> nat \<Rightarrow> 'a dlist \<Rightarrow> 'a dlist res" where
  "list_resize d requested l =
     rbind (copy_elems 0 (lst_size l) (lst_data l) (replicate requested d)) (\<lambda>xs.
       Inr (l\<lparr>lst_data := xs, max_capacity := requested\<rparr>))"

definition list_at :: "'a dlist \<Rightarrow> nat \<Rightarrow> 'a res" where
  "list_at l ind =
     rbind (kassert (ind < lst_size l)) (\<lambda>_.
       if ind < length (lst_data l) then Inr (lst_data l ! ind) else Inl Out_of_bounds)"

definition list_set :: "nat \<Rightarrow> 'a \<Rightarrow> 'a dlist \<Rightarrow> 'a dlist res" where
  "list_set ind c l =
     rbind (kassert (ind < lst_size l)) (\<lambda>_.
       if ind < length (lst_data l) then Inr (l\<lparr>lst_data := (lst_data l)[ind := c]\<rparr>)
       else Inl Out_of_bounds)"

definition push_back :: "'a \<Rightarrow> 'a \<Rightarrow> 'a dlist \<Rightarrow> 'a dlist res" where
  "push_back d c l =
     rbind (if max_capacity l \<le> lst_size l then list_resize d (max_capacity l * 2 + 1) l else Inr l)
       (\<lambda>l. if lst_size l < length (lst_data l)
             then Inr (l\<lparr>lst_data := (lst_data l)[lst_size l := c], lst_size := lst_size l + 1\<rparr>)
             else Inl Out_of_bounds)"

definition pop_back :: "'a dlist \<Rightarrow> 'a dlist res" where
  "pop_back l = rbind (kassert (0 < lst_size l)) (\<lambda>_. Inr (l\<lparr>lst_size := lst_size l - 1\<rparr>))"

function append_elems :: "nat \<Rightarrow> 'a dlist \<Rightarrow> 'a dlist \<Rightarrow> 'a dlist res" where
  "append_elems i other l =
     (if i < lst_size other + lst_size l
      then rbind (list_at other (i - lst_size l)) (\<lambda>x.
             if i < length (lst_data l)
             then append_elems (Suc i) other (l\<lparr>lst_data := (lst_data l)[i := x]\<rparr>)
             else Inl Out_of_bounds)
      else Inr l)"
  by pat_completeness auto
termination by (relation "measure (\<lambda>(i, other, l). lst_size other + lst_size l - i)") auto

declare append_elems.simps [simp del]

definition list_append :: "'a \<Rightarrow> 'a dlist \<Rightarrow> 'a dlist \<Rightarrow> 'a dlist res" where
  "list_append d other l =
     rbind (if max_capacity l \<le> lst_size l + lst_size other
            then list_resize d ((lst_size other + lst_size l) * 2 + 1) l else Inr l)
       (\<lambda>l. rbind (append_elems (lst_size l) other l) (\<lambda>l.
         Inr (l\<lparr>lst_size := lst_size l + lst_size other\<rparr>)))"

function erase_elems :: "nat \<Rightarrow> nat \<Rightarrow> 'a list \<Rightarrow> 'a list res" where
  "erase_elems i n xs =
     (if i < n
      then if Suc i < length xs then erase_elems (Suc i) n (xs[i := xs ! Suc i])
           else Inl Out_of_bounds
      else Inr xs)"
  by pat_completeness auto
termination by (relation "measure (\<lambda>(i, n, _). n - i)") auto

declare erase_elems.simps [simp del]

definition list_erase :: "nat \<Rightarrow> 'a dlist \<Rightarrow> 'a dlist res" where
  "list_erase ind l =
     rbind (kassert (ind < lst_size l)) (\<lambda>_.
       rbind (erase_elems ind (lst_size l - 1) (lst_data l)) (\<lambda>xs.
         Inr (l\<lparr>lst_data := xs, lst_size := lst_size l - 1\<rparr>)))"

subsection \<open>The object and the sequence it stands for\<close>

definition list_ok :: "'a dlist \<Rightarrow> bool" where
  "list_ok l \<longleftrightarrow> length (lst_data l) = max_capacity l \<and> lst_size l \<le> max_capacity l"

definition elems :: "'a dlist \<Rightarrow> 'a list" where
  "elems l = take (lst_size l) (lst_data l)"

lemma length_elems: "list_ok l \<Longrightarrow> length (elems l) = lst_size l"
  by (simp add: list_ok_def elems_def)

lemma list_okI:
  "length (lst_data l) = max_capacity l \<Longrightarrow> lst_size l \<le> max_capacity l \<Longrightarrow> list_ok l"
  by (simp add: list_ok_def)

lemma list_okD:
  assumes "list_ok l"
  shows "length (lst_data l) = max_capacity l" and "lst_size l \<le> max_capacity l"
  using assms by (simp_all add: list_ok_def)

lemma copy_elems_spec:
  assumes "n \<le> length src" and "n \<le> length dst" and "i \<le> n"
  shows "copy_elems i n src dst = Inr (take i dst @ drop i (take n src) @ drop n dst)"
  using assms
proof (induction i n src dst rule: copy_elems.induct)
  case (1 i n src dst)
  show ?case
  proof (cases "i < n")
    case True
    with 1 have "copy_elems i n src dst =
      Inr (take (Suc i) (dst[i := src ! i]) @ drop (Suc i) (take n src) @ drop n dst)"
      by (subst copy_elems.simps) simp
    moreover have "drop i (take n src) = src ! i # drop (Suc i) (take n src)"
      using True 1(2) by (subst Cons_nth_drop_Suc [symmetric]) simp_all
    ultimately show ?thesis using True 1(2,3) by (simp add: take_Suc_update)
  next
    case False
    with 1 show ?thesis by (subst copy_elems.simps) simp
  qed
qed

lemma list_resize_ok:
  assumes "list_ok l" and "lst_size l \<le> n"
  shows "\<exists>l'. list_resize d n l = Inr l' \<and> list_ok l' \<and> elems l' = elems l \<and>
    lst_size l' = lst_size l \<and> max_capacity l' = n"
  using assms copy_elems_spec [of "lst_size l" "lst_data l" "replicate n d" 0]
  by (auto simp: list_resize_def list_ok_def elems_def)

lemma list_copy_ok:
  "list_ok l \<Longrightarrow> \<exists>l'. list_copy d l = Inr l' \<and> list_ok l' \<and> elems l' = elems l"
  using copy_elems_spec [of "lst_size l" "lst_data l" "replicate (max_capacity l) d" 0]
  by (auto simp: list_copy_def list_ok_def elems_def)

lemma push_back_ok:
  assumes "list_ok l"
  shows "\<exists>l'. push_back d c l = Inr l' \<and> list_ok l' \<and> elems l' = elems l @ [c]"
proof -
  let ?g = "if max_capacity l \<le> lst_size l then list_resize d (max_capacity l * 2 + 1) l else Inr l"
  obtain l1 where l1: "?g = Inr l1" "list_ok l1" "elems l1 = elems l" "lst_size l1 < max_capacity l1"
    using list_resize_ok [OF assms, of "max_capacity l * 2 + 1" d] list_okD [OF assms] assms
    by (cases "max_capacity l \<le> lst_size l") auto
  then show ?thesis
    by (auto simp: push_back_def list_ok_def elems_def take_Suc_conv_app_nth)
qed

lemma append_elems_spec:
  assumes "list_ok other" and "lst_size l + lst_size other \<le> length (lst_data l)"
    and "lst_size l \<le> i" and "i \<le> lst_size l + lst_size other"
  shows "\<exists>xs. append_elems i other l = Inr (l\<lparr>lst_data := xs\<rparr>) \<and> length xs = length (lst_data l) \<and>
    take (lst_size l + lst_size other) xs = take i (lst_data l) @ drop (i - lst_size l) (elems other)"
  using assms
proof (induction "lst_size l + lst_size other - i" arbitrary: i l)
  case 0
  then have "i = lst_size l + lst_size other" by simp
  with 0 show ?case
    by (subst append_elems.simps) (simp add: elems_def list_ok_def exI [of _ "lst_data l"])
next
  case (Suc k)
  let ?x = "lst_data other ! (i - lst_size l)" and ?j = "i - lst_size l"
  let ?l = "l\<lparr>lst_data := (lst_data l)[i := ?x]\<rparr>"
  have i: "i < lst_size l + lst_size other" and j: "?j < lst_size other"
    using Suc.hyps(2) Suc.prems by linarith+
  have at: "list_at other ?j = Inr ?x" using j list_okD [OF Suc.prems(1)] by (simp add: list_at_def)
  have ap: "append_elems i other l = append_elems (Suc i) other ?l"
    using i at Suc.prems(2) by (subst append_elems.simps) simp
  have "k = lst_size ?l + lst_size other - Suc i" using Suc.hyps(2) by simp
  from Suc.hyps(1) [OF this Suc.prems(1)] Suc.prems i
  obtain xs where xs: "append_elems (Suc i) other ?l = Inr (?l\<lparr>lst_data := xs\<rparr>)"
    "length xs = length (lst_data l)"
    "take (lst_size l + lst_size other) xs =
      take (Suc i) ((lst_data l)[i := ?x]) @ drop (Suc i - lst_size l) (elems other)"
    by auto
  have "drop ?j (elems other) = ?x # drop (Suc ?j) (elems other)"
    using j list_okD [OF Suc.prems(1)] length_elems [OF Suc.prems(1)]
    by (subst Cons_nth_drop_Suc [symmetric]) (auto simp: elems_def)
  with xs ap i Suc.prems(2,3) show ?case
    by (intro exI [of _ xs]) (simp add: take_Suc_update Suc_diff_le)
qed

lemma list_append_ok:
  assumes "list_ok l" and "list_ok other"
  shows "\<exists>l'. list_append d other l = Inr l' \<and> list_ok l' \<and> elems l' = elems l @ elems other"
proof -
  let ?n = "lst_size l + lst_size other"
  let ?g = "if max_capacity l \<le> ?n then list_resize d ((lst_size other + lst_size l) * 2 + 1) l else Inr l"
  have "?n \<le> max_capacity l" if "\<not> max_capacity l \<le> ?n" using that by simp
  then obtain l1 where l1: "?g = Inr l1" "list_ok l1" "elems l1 = elems l"
    "lst_size l1 = lst_size l" "?n \<le> max_capacity l1"
    using list_resize_ok [OF assms(1), of "(lst_size other + lst_size l) * 2 + 1" d] assms(1)
    by (cases "max_capacity l \<le> ?n") auto
  note ok = list_okD [OF l1(2)]
  from append_elems_spec [OF assms(2), of l1 "lst_size l1"] l1(4,5) ok
  obtain xs where xs: "append_elems (lst_size l1) other l1 = Inr (l1\<lparr>lst_data := xs\<rparr>)"
    "length xs = length (lst_data l1)" "take ?n xs = elems l1 @ elems other"
    by (auto simp: elems_def)
  with l1 ok show ?thesis by (auto simp: list_append_def list_ok_def elems_def)
qed

lemma erase_elems_spec:
  assumes "n < length xs" and "i \<le> n"
  shows "\<exists>ys. erase_elems i n xs = Inr ys \<and> length ys = length xs \<and>
    take n ys = take i xs @ drop (Suc i) (take (Suc n) xs)"
  using assms
proof (induction i n xs rule: erase_elems.induct)
  case (1 i n xs)
  show ?case
  proof (cases "i < n")
    case True
    let ?xs = "xs[i := xs ! Suc i]"
    from True 1(2) have "erase_elems i n xs = erase_elems (Suc i) n ?xs"
      by (subst erase_elems.simps) simp
    with True 1 obtain ys where "erase_elems i n xs = Inr ys" "length ys = length xs"
      "take n ys = take (Suc i) ?xs @ drop (Suc (Suc i)) (take (Suc n) ?xs)" by auto
    moreover have "drop (Suc i) (take (Suc n) xs) = xs ! Suc i # drop (Suc (Suc i)) (take (Suc n) xs)"
      using True 1(2) by (subst Cons_nth_drop_Suc [symmetric]) simp_all
    moreover have "drop (Suc (Suc i)) (take (Suc n) ?xs) = drop (Suc (Suc i)) (take (Suc n) xs)"
      by (simp add: take_update_swap)
    ultimately show ?thesis using True 1(2) by (simp add: take_Suc_update)
  next
    case False
    with 1 show ?thesis by (subst erase_elems.simps) simp
  qed
qed

lemma list_erase_ok:
  assumes "list_ok l"
  shows "if ind < lst_size l
    then \<exists>l'. list_erase ind l = Inr l' \<and> list_ok l' \<and>
      elems l' = take ind (elems l) @ drop (Suc ind) (elems l)
    else list_erase ind l = Inl Assert_fail"
proof (cases "ind < lst_size l")
  case True
  note ok = list_okD [OF assms]
  from True ok have "lst_size l - 1 < length (lst_data l)" "ind \<le> lst_size l - 1" by simp_all
  from erase_elems_spec [OF this] True obtain ys where
    "erase_elems ind (lst_size l - 1) (lst_data l) = Inr ys" "length ys = length (lst_data l)"
    "take (lst_size l - 1) ys = take ind (lst_data l) @ drop (Suc ind) (elems l)"
    by (auto simp: elems_def)
  with True ok show ?thesis
    by (auto simp: list_erase_def list_ok_def elems_def min_def)
next
  case False
  then show ?thesis by (simp add: list_erase_def)
qed

lemma list_at_ok:
  "list_ok l \<Longrightarrow>
   list_at l ind = (if ind < length (elems l) then Inr (elems l ! ind) else Inl Assert_fail)"
  by (auto simp: list_at_def list_ok_def elems_def)

lemma list_set_ok:
  "list_ok l \<Longrightarrow>
   if ind < length (elems l)
   then \<exists>l'. list_set ind c l = Inr l' \<and> list_ok l' \<and> elems l' = (elems l)[ind := c]
   else list_set ind c l = Inl Assert_fail"
  by (auto simp: list_set_def list_ok_def elems_def take_update_swap)

lemma list_new_ok [simp]: "list_ok (list_new d)" "elems (list_new d) = []"
  "list_ok (list_reserve d n)" "elems (list_reserve d n) = []"
  "list_ok (list_fill n v)" "elems (list_fill n v) = replicate n v"
  by (simp_all add: list_new_def list_reserve_def list_fill_def list_ok_def elems_def)

subsection \<open>The interface\<close>

locale sequence =
  fixes ok :: "'l \<Rightarrow> bool"
    and seq :: "'l \<Rightarrow> 'a list"
    and empty :: "'l"
    and push :: "'a \<Rightarrow> 'l \<Rightarrow> 'l res"
    and get :: "'l \<Rightarrow> nat \<Rightarrow> 'a res"
    and put :: "nat \<Rightarrow> 'a \<Rightarrow> 'l \<Rightarrow> 'l res"
    and remove :: "nat \<Rightarrow> 'l \<Rightarrow> 'l res"
  assumes empty_ok: "ok empty" "seq empty = []"
    and push_ok: "ok l \<Longrightarrow> \<exists>l'. push x l = Inr l' \<and> ok l' \<and> seq l' = seq l @ [x]"
    and get_ok: "ok l \<Longrightarrow> get l i = (if i < length (seq l) then Inr (seq l ! i) else Inl Assert_fail)"
    and put_ok: "ok l \<Longrightarrow> i < length (seq l) \<Longrightarrow>
      \<exists>l'. put i x l = Inr l' \<and> ok l' \<and> seq l' = (seq l)[i := x]"
    and remove_ok: "ok l \<Longrightarrow> i < length (seq l) \<Longrightarrow>
      \<exists>l'. remove i l = Inr l' \<and> ok l' \<and> seq l' = take i (seq l) @ drop (Suc i) (seq l)"
begin

fun push_all :: "'a list \<Rightarrow> 'l \<Rightarrow> 'l res" where
  "push_all [] l = Inr l"
| "push_all (x # xs) l = rbind (push x l) (push_all xs)"

lemma push_all_ok: "ok l \<Longrightarrow> \<exists>l'. push_all xs l = Inr l' \<and> ok l' \<and> seq l' = seq l @ xs"
proof (induction xs arbitrary: l)
  case (Cons x xs)
  from push_ok [OF Cons.prems, of x] obtain l1 where l1: "push x l = Inr l1" "ok l1"
    "seq l1 = seq l @ [x]" by blast
  with Cons.IH [OF l1(2)] show ?case by auto
qed simp

text \<open>The element pushed last can be replaced without touching the others.\<close>

lemma put_last:
  assumes "ok l" and "seq l = xs @ [y]"
  shows "\<exists>l'. put (length (seq l) - 1) x l = Inr l' \<and> ok l' \<and> seq l' = xs @ [x]"
  using put_ok [OF assms(1), of "length (seq l) - 1" x] assms(2) by auto

lemma get_last: "ok l \<Longrightarrow> seq l = xs @ [y] \<Longrightarrow> get l (length (seq l) - 1) = Inr y"
  by (simp add: get_ok)

end

lemma list_set_in:
  "list_ok l \<Longrightarrow> i < length (elems l) \<Longrightarrow>
   \<exists>l'. list_set i c l = Inr l' \<and> list_ok l' \<and> elems l' = (elems l)[i := c]"
  using list_set_ok [of l i c] by simp

lemma list_erase_in:
  "list_ok l \<Longrightarrow> i < length (elems l) \<Longrightarrow>
   \<exists>l'. list_erase i l = Inr l' \<and> list_ok l' \<and>
     elems l' = take i (elems l) @ drop (Suc i) (elems l)"
  using list_erase_ok [of l i] by (simp add: length_elems)

interpretation dl: sequence list_ok elems "list_new d" "push_back d" list_at list_set list_erase for d
  by unfold_locales (simp_all add: push_back_ok list_at_ok list_set_in list_erase_in)

subsection \<open>Properties of the growing array\<close>

text \<open>C9: The growing array refines a sequence. On every well-formed object the operations
  return a well-formed object that stands for the sequence operation, growing when they
  need to; an index outside the sequence, and \<^verbatim>\<open>pop_back\<close> on an empty one, fail the
  assertion.\<close>

theorem list_refines_sequence:
  assumes "list_ok l" and "list_ok m"
  shows "(\<exists>l'. push_back d x l = Inr l' \<and> list_ok l' \<and> elems l' = elems l @ [x]) \<and>
    (\<exists>l'. list_append d m l = Inr l' \<and> list_ok l' \<and> elems l' = elems l @ elems m) \<and>
    (\<exists>l'. list_copy d l = Inr l' \<and> list_ok l' \<and> elems l' = elems l) \<and>
    (\<exists>l'. list_assign d False m l = Inr l' \<and> list_ok l' \<and> elems l' = elems m) \<and>
    (if i < length (elems l)
     then list_at l i = Inr (elems l ! i) \<and>
       (\<exists>l'. list_set i x l = Inr l' \<and> list_ok l' \<and> elems l' = (elems l)[i := x]) \<and>
       (\<exists>l'. list_erase i l = Inr l' \<and> list_ok l' \<and>
         elems l' = take i (elems l) @ drop (Suc i) (elems l))
     else list_at l i = Inl Assert_fail \<and> list_set i x l = Inl Assert_fail \<and>
       list_erase i l = Inl Assert_fail) \<and>
    (if elems l = [] then pop_back l = Inl Assert_fail
     else \<exists>l'. pop_back l = Inr l' \<and> list_ok l' \<and> elems l' = butlast (elems l))"
proof -
  have pb: "if elems l = [] then pop_back l = Inl Assert_fail
     else \<exists>l'. pop_back l = Inr l' \<and> list_ok l' \<and> elems l' = butlast (elems l)"
    using assms(1) by (auto simp: pop_back_def list_ok_def elems_def butlast_take)
  show ?thesis
    using push_back_ok [OF assms(1)] list_append_ok [OF assms] list_copy_ok [OF assms(1)] list_copy_ok [OF assms(2)]
      list_at_ok [OF assms(1)] list_set_ok [OF assms(1), of i x] list_erase_ok [OF assms(1), of i]
      length_elems [OF assms(1)] pb
    by (simp add: list_assign_def split: if_splits)
qed

theorem list_refines_sequence_witness:
  "\<exists>l. list_append 0 (list_fill 2 7) (list_new (0 :: nat)) = Inr l \<and> elems l = [7, 7]"
proof -
  have "list_ok (list_new (0 :: nat))" "list_ok (list_fill 2 (7 :: nat))" by simp_all
  from list_refines_sequence [OF this, THEN conjunct2, THEN conjunct1, of 0] show ?thesis
    by (auto simp: numeral_2_eq_2)
qed

end
