(* ===== verification/DString.thy ===== *)
theory DString
  imports CString DynList
begin

text \<open>
  The class \<^verbatim>\<open>string\<close> of \<^verbatim>\<open>include/stdlib/structures/string.h\<close>: an array of
  \<open>capacity + 1\<close> bytes, zeroed when it is allocated, with the length kept beside it. Its
  copies go through \<^verbatim>\<open>strcpy\<close>, so they stop at the first zero byte. Sizes are \<^verbatim>\<open>size_t\<close>, but most
  loops count with an \<^verbatim>\<open>int\<close>, which overflows at 2147483648: such an object is not well-formed.
\<close>

record dstring =
  str_data :: "u8 list"
  str_size :: nat
  str_cap :: nat

definition string_of :: "u8 list \<Rightarrow> dstring res" where
  "string_of src =
     rbind (strlen src) (\<lambda>n.
     rbind (strcpy (replicate (n + 1) 0) src) (\<lambda>d.
       Inr \<lparr>str_data = d, str_size = n, str_cap = n\<rparr>))"

definition string_fill :: "nat \<Rightarrow> u8 \<Rightarrow> dstring res" where
  "string_fill n c =
     (if n < 2 ^ 31 then Inr \<lparr>str_data = replicate n c @ [0], str_size = n, str_cap = n\<rparr> else Inl Signed_overflow)"

definition string_new :: dstring where
  "string_new = \<lparr>str_data = replicate 11 0, str_size = 0, str_cap = 10\<rparr>"

definition string_copy :: "dstring \<Rightarrow> dstring res" where
  "string_copy s =
     rbind (strcpy (replicate (str_cap s + 1) 0) (str_data s)) (\<lambda>d. Inr (s\<lparr>str_data := d\<rparr>))"

definition string_move :: "dstring \<Rightarrow> dstring \<times> dstring" where
  "string_move s = (s, \<lparr>str_data = [], str_size = 0, str_cap = 0\<rparr>)"

text \<open>The assignments; \<open>same\<close> says that both sides are the same object.\<close>

definition string_assign :: "bool \<Rightarrow> dstring \<Rightarrow> dstring \<Rightarrow> dstring res" where
  "string_assign same other s = (if \<not> same then string_copy other else Inr s)"

definition string_move_assign :: "bool \<Rightarrow> dstring \<Rightarrow> dstring \<Rightarrow> dstring \<times> dstring" where
  "string_move_assign same other s = (if \<not> same then string_move other else (s, s))"

definition string_length :: "dstring \<Rightarrow> nat" where
  "string_length s = str_size s"

definition c_str :: "dstring \<Rightarrow> u8 list" where
  "c_str s = str_data s"

definition string_clear :: "dstring \<Rightarrow> dstring res" where
  "string_clear s =
     (if str_data s = [] then Inl Null_deref
      else Inr (s\<lparr>str_size := 0, str_data := (str_data s)[0 := 0]\<rparr>))"

definition string_resize :: "nat \<Rightarrow> dstring \<Rightarrow> dstring res" where
  "string_resize requested s =
     rbind (strcpy (replicate (requested + 1) 0) (str_data s)) (\<lambda>d.
       Inr (s\<lparr>str_data := d, str_cap := requested\<rparr>))"

definition string_at :: "dstring \<Rightarrow> nat \<Rightarrow> u8 res" where
  "string_at s ind =
     rbind (kassert (ind < str_size s)) (\<lambda>_.
       if ind < length (str_data s) then Inr (str_data s ! ind) else Inl Out_of_bounds)"

definition string_set :: "nat \<Rightarrow> u8 \<Rightarrow> dstring \<Rightarrow> dstring res" where
  "string_set ind c s =
     rbind (kassert (ind < str_size s)) (\<lambda>_.
       if ind < length (str_data s) then Inr (s\<lparr>str_data := (str_data s)[ind := c]\<rparr>)
       else Inl Out_of_bounds)"

definition string_push_back :: "u8 \<Rightarrow> dstring \<Rightarrow> dstring res" where
  "string_push_back c s =
     rbind (if str_cap s \<le> str_size s + 1 then string_resize (str_cap s * 2 + 1) s else Inr s)
       (\<lambda>s. if Suc (str_size s) < length (str_data s)
             then Inr (s\<lparr>str_data := (str_data s)[str_size s := c, Suc (str_size s) := 0],
                         str_size := Suc (str_size s)\<rparr>)
             else Inl Out_of_bounds)"

text \<open>\<^verbatim>\<open>int i = size\<close> wraps, the comparison and \<^verbatim>\<open>i - size\<close> are ones of 64-bit unsigned numbers.\<close>

function string_append_loop :: "int \<Rightarrow> dstring \<Rightarrow> dstring \<Rightarrow> dstring res" where
  "string_append_loop i str s =
     (if unat (word_of_int i :: u64) < str_size str + str_size s
      then rbind (string_at str (unat (word_of_int (i - int (str_size s)) :: u64))) (\<lambda>c.
             if 0 \<le> i \<and> nat i < length (str_data s)
             then if i + 1 < 2 ^ 31
                  then string_append_loop (i + 1) str (s\<lparr>str_data := (str_data s)[nat i := c]\<rparr>)
                  else Inl Signed_overflow
             else Inl Out_of_bounds)
      else Inr s)"
  by pat_completeness auto
termination by (relation "measure (\<lambda>(i, str, s). nat (2 ^ 31 - i))") auto

declare string_append_loop.simps [simp del]

definition string_append :: "dstring \<Rightarrow> dstring \<Rightarrow> dstring res" where
  "string_append str s =
     rbind (if str_cap s \<le> str_size s + str_size str
            then string_resize ((str_size str + str_size s) * 2 + 1) s else Inr s)
       (\<lambda>s. rbind (string_append_loop (sint (of_nat (str_size s) :: u32)) str s) (\<lambda>s.
         let n = str_size s + str_size str
         in if n < length (str_data s)
            then Inr (s\<lparr>str_size := n, str_data := (str_data s)[n := 0]\<rparr>)
            else Inl Out_of_bounds))"

text \<open>\<^verbatim>\<open>out[out.size() - 1].push_back(...)\<close> reads the last element and changes it in place.\<close>

definition push_last :: "u8 \<Rightarrow> dstring dlist \<Rightarrow> dstring dlist res" where
  "push_last c out =
     rbind (list_at out (lst_size out - 1)) (\<lambda>s.
     rbind (string_push_back c s) (\<lambda>s. list_set (lst_size out - 1) s out))"

fun split_loop :: "nat \<Rightarrow> u8 \<Rightarrow> u8 list \<Rightarrow> nat \<Rightarrow> dstring dlist \<Rightarrow> dstring dlist res" where
  "split_loop i c cs 0 out = Inr out"
| "split_loop i c [] (Suc n) out = Inl Out_of_bounds"
| "split_loop i c (x # xs) (Suc n) out =
     rbind (if x = c then push_back string_new string_new out else push_last x out) (\<lambda>out.
       if Suc i < 2 ^ 31 then split_loop (Suc i) c xs n out else Inl Signed_overflow)"

definition split :: "u8 \<Rightarrow> dstring \<Rightarrow> dstring dlist res" where
  "split c s =
     rbind (push_back string_new string_new (list_new string_new)) (\<lambda>out.
       split_loop 0 c (str_data s) (str_size s) out)"

text \<open>The loop of both \<^verbatim>\<open>substr\<close>: \<^verbatim>\<open>ret[i] = data[i + start]\<close>.\<close>

function substr_loop :: "nat \<Rightarrow> nat \<Rightarrow> nat \<Rightarrow> u8 list \<Rightarrow> dstring \<Rightarrow> dstring res" where
  "substr_loop i start len src ret =
     (if i < len
      then if 2 ^ 31 \<le> i + start then Inl Signed_overflow
           else if i + start < length src
           then rbind (string_set i (src ! (i + start)) ret) (substr_loop (Suc i) start len src)
           else Inl Out_of_bounds
      else Inr ret)"
  by pat_completeness auto
termination by (relation "measure (\<lambda>(i, start, len, _). len - i)") auto

declare substr_loop.simps [simp del]

text \<open>
  \<^verbatim>\<open>start\<close> and \<^verbatim>\<open>len\<close> are \<^verbatim>\<open>int\<close>, and so is their sum. A negative length that passes the assertion
  asks for an array no heap can hold: \<^verbatim>\<open>new\<close> returns NULL, which is then written through.
\<close>

definition substr :: "int \<Rightarrow> int \<Rightarrow> dstring \<Rightarrow> dstring res" where
  "substr start len s =
     (if start + len < - (2 ^ 31) \<or> 2 ^ 31 \<le> start + len then Inl Signed_overflow
      else rbind (kassert (0 \<le> start + len \<and> start + len \<le> int (str_size s) \<and> 0 \<le> start)) (\<lambda>_.
        if len < 0 then Inl Null_deref
        else rbind (string_fill (nat len) 32) (substr_loop 0 (nat start) (nat len) (str_data s))))"

definition substr_from :: "int \<Rightarrow> dstring \<Rightarrow> dstring res" where
  "substr_from start s =
     rbind (kassert (0 \<le> start)) (\<lambda>_.
       let len = sint (word_of_int (int (str_size s) - start) :: u32)
       in if len < 0 then Inl Null_deref
          else rbind (string_fill (nat len) 32) (substr_loop 0 (nat start) (nat len) (str_data s)))"

function find_from :: "nat \<Rightarrow> u8 \<Rightarrow> dstring \<Rightarrow> int res" where
  "find_from i c s =
     (if i < str_size s
      then if length (str_data s) \<le> i then Inl Out_of_bounds
           else if str_data s ! i = c then Inr (int i)
           else if Suc i < 2 ^ 31 then find_from (Suc i) c s else Inl Signed_overflow
      else Inr (- 1))"
  by pat_completeness auto
termination by (relation "measure (\<lambda>(i, c, s). str_size s - i)") auto

declare find_from.simps [simp del]

text \<open>A negative start is a huge one: the comparison with the size is unsigned.\<close>

definition string_find :: "int \<Rightarrow> u8 \<Rightarrow> dstring \<Rightarrow> int res" where
  "string_find start c s = (if start < 0 then Inr (- 1) else find_from (nat start) c s)"

definition string_eq :: "dstring \<Rightarrow> dstring \<Rightarrow> bool res" where
  "string_eq a b =
     (if str_size a \<noteq> str_size b then Inr False else strcmp (str_data a) (str_data b))"

subsection \<open>The object and the text it stands for\<close>

definition str_ok :: "dstring \<Rightarrow> bool" where
  "str_ok s \<longleftrightarrow> length (str_data s) = str_cap s + 1 \<and> str_size s \<le> str_cap s \<and> str_size s < 2 ^ 31 \<and>
     holds (str_data s) (take (str_size s) (str_data s))"

definition stext :: "dstring \<Rightarrow> u8 list" where
  "stext s = take (str_size s) (str_data s)"

lemma str_okD:
  assumes "str_ok s"
  shows "length (str_data s) = str_cap s + 1" and "str_size s \<le> str_cap s"
    and "holds (str_data s) (stext s)" and "length (stext s) = str_size s" and "str_size s < 2 ^ 31"
  using assms by (auto simp: str_ok_def stext_def)

lemma holds_nth: "holds s t \<Longrightarrow> length t < length s \<and> s ! length t = 0 \<and> take (length t) s = t"
  by (auto simp: holds_def)

lemma str_okI:
  assumes "length (str_data s) = str_cap s + 1" and "str_size s = length t"
    and "holds (str_data s) t" and "length t < 2 ^ 31"
  shows "str_ok s \<and> stext s = t"
  using assms holds_nth [OF assms(3)] by (auto simp: str_ok_def stext_def)

lemma string_new_ok: "str_ok string_new \<and> stext string_new = []"
proof -
  have "replicate 11 (0 :: u8) = [] @ 0 # replicate 10 0" by (simp add: numeral_eq_Suc)
  then have "holds (replicate 11 0) []" unfolding holds_def by auto
  then show ?thesis by (intro str_okI) (simp_all add: string_new_def)
qed

lemma string_of_ok:
  assumes "holds src t" and len: "length t < 2 ^ 31"
  shows "\<exists>s. string_of src = Inr s \<and> str_ok s \<and> stext s = t"
proof -
  have "holds (t @ [0]) t" using assms(1) by (auto simp: holds_def)
  moreover have "drop (length t) (0 # replicate (length t) 0) = [0 :: u8]"
    using drop_replicate [of "length t" "Suc (length t)" "0 :: u8"] by simp
  ultimately show ?thesis
    using str_okI [of "\<lparr>str_data = t @ [0], str_size = length t, str_cap = length t\<rparr>" t]
    len by (simp add: string_of_def strlen_of_holds [OF assms(1)] strcpy_holds [OF assms(1)])
qed

lemma string_resize_ok:
  assumes ok: "str_ok s" and fit: "str_size s \<le> n"
  shows "\<exists>s'. string_resize n s = Inr s' \<and> str_ok s' \<and> stext s' = stext s \<and>
    str_size s' = str_size s \<and> str_cap s' = n"
proof -
  note d = str_okD [OF ok]
  let ?d = "stext s @ replicate (n + 1 - str_size s) 0"
  have "holds ?d (stext s)"
    using d(3) fit by (simp add: holds_def Suc_diff_le)
  then show ?thesis
    using d fit str_okI [of "s\<lparr>str_data := ?d, str_cap := n\<rparr>" "stext s"]
    by (auto simp: string_resize_def strcpy_holds [OF d(3)] simp del: replicate.simps)
qed

lemma string_push_back_ok:
  assumes ok: "str_ok s" and c: "c \<noteq> 0" and len: "Suc (str_size s) < 2 ^ 31"
  shows "\<exists>s'. string_push_back c s = Inr s' \<and> str_ok s' \<and> stext s' = stext s @ [c]"
proof -
  let ?g = "if str_cap s \<le> str_size s + 1 then string_resize (str_cap s * 2 + 1) s else Inr s"
  note d = str_okD [OF ok]
  obtain s1 where s1: "?g = Inr s1" "str_ok s1" "stext s1 = stext s" "str_size s1 = str_size s"
    "str_size s1 < str_cap s1"
    using string_resize_ok [OF ok, of "str_cap s * 2 + 1"] d ok
    by (cases "str_cap s \<le> str_size s + 1") auto
  note e = str_okD [OF s1(2)]
  let ?d = "(str_data s1)[str_size s1 := c, Suc (str_size s1) := 0]"
  have len': "Suc (str_size s1) < length (str_data s1)" using s1(5) e(1) by simp
  have tk: "take (Suc (str_size s1)) ?d = stext s1 @ [c]"
    using len' by (simp add: take_Suc_update stext_def)
  have "?d = take (Suc (str_size s1)) ?d @ ?d ! Suc (str_size s1) # drop (Suc (Suc (str_size s1))) ?d"
    using len' by (intro id_take_nth_drop) simp
  moreover have "?d ! Suc (str_size s1) = 0" using len' by simp
  ultimately have "?d = (stext s1 @ [c]) @ 0 # drop (Suc (Suc (str_size s1))) ?d"
    by (simp only: tk)
  moreover have "0 \<notin> set (stext s1 @ [c])" using e(3) c by (simp add: holds_def)
  ultimately have "holds ?d (stext s1 @ [c])" unfolding holds_def by blast
  then show ?thesis
    using str_okI [of "s1\<lparr>str_data := ?d, str_size := Suc (str_size s1)\<rparr>" "stext s1 @ [c]"] s1 e len' len
    by (simp add: string_push_back_def)
qed

lemma nat_u64: "n < 2 ^ 31 \<Longrightarrow> unat (word_of_int (int n) :: u64) = n"
  using unat_of_nat_u64 [of n] by simp

lemma string_append_loop_spec:
  assumes "str_ok str" and "str_size s + str_size str \<le> length (str_data s)" and "str_size s + str_size str < 2 ^ 31"
    and "str_size s \<le> i" and "i \<le> str_size s + str_size str"
  shows "\<exists>xs. string_append_loop (int i) str s = Inr (s\<lparr>str_data := xs\<rparr>) \<and>
    length xs = length (str_data s) \<and>
    take (str_size s + str_size str) xs = take i (str_data s) @ drop (i - str_size s) (stext str)"
  using assms
proof (induction "str_size s + str_size str - i" arbitrary: i s)
  case 0
  then have "i = str_size s + str_size str" by simp
  with 0 str_okD [OF 0(2)] nat_u64 [of i] show ?case
    by (subst string_append_loop.simps) (simp add: exI [of _ "str_data s"])
next
  case (Suc k)
  let ?x = "str_data str ! (i - str_size s)" and ?j = "i - str_size s"
  let ?s = "s\<lparr>str_data := (str_data s)[i := ?x]\<rparr>"
  note d = str_okD [OF Suc.prems(1)]
  have i: "i < str_size s + str_size str" and j: "?j < str_size str"
    using Suc.hyps(2) Suc.prems by linarith+
  have at: "string_at str ?j = Inr ?x" using j d by (simp add: string_at_def)
  have ix: "unat (word_of_int (int i) :: u64) = i" "unat (word_of_int (int i - int (str_size s)) :: u64) = ?j"
    using nat_u64 [of i] nat_u64 [of ?j] i Suc.prems(3,4) by (simp_all add: of_nat_diff)
  have ap: "string_append_loop (int i) str s = string_append_loop (int (Suc i)) str ?s"
    unfolding string_append_loop.simps [of "int i"] ix using i at Suc.prems(2,3) by (simp add: add.commute)
  have "k = str_size ?s + str_size str - Suc i" using Suc.hyps(2) by simp
  from Suc.hyps(1) [OF this Suc.prems(1)] Suc.prems i
  obtain xs where xs: "string_append_loop (int (Suc i)) str ?s = Inr (?s\<lparr>str_data := xs\<rparr>)"
    "length xs = length (str_data s)"
    "take (str_size s + str_size str) xs =
      take (Suc i) ((str_data s)[i := ?x]) @ drop (Suc i - str_size s) (stext str)"
    by auto
  have "drop ?j (stext str) = ?x # drop (Suc ?j) (stext str)"
    using j d by (subst Cons_nth_drop_Suc [symmetric]) (auto simp: stext_def)
  with xs ap i Suc.prems(2,4) show ?case
    by (intro exI [of _ xs]) (simp add: take_Suc_update Suc_diff_le)
qed

lemma string_append_ok:
  assumes ok: "str_ok s" and ok': "str_ok t" and len: "length (stext s) + length (stext t) < 2 ^ 31"
  shows "\<exists>s'. string_append t s = Inr s' \<and> str_ok s' \<and> stext s' = stext s @ stext t"
proof -
  let ?n = "str_size s + str_size t"
  let ?g = "if str_cap s \<le> ?n then string_resize ((str_size t + str_size s) * 2 + 1) s else Inr s"
  note d = str_okD [OF ok] and d' = str_okD [OF ok']
  have "?n \<le> str_cap s" if "\<not> str_cap s \<le> ?n" using that by simp
  then obtain s1 where s1: "?g = Inr s1" "str_ok s1" "stext s1 = stext s" "str_size s1 = str_size s"
    "?n \<le> str_cap s1"
    using string_resize_ok [OF ok, of "(str_size t + str_size s) * 2 + 1"] ok
    by (cases "str_cap s \<le> ?n") auto
  note e = str_okD [OF s1(2)]
  have len': "?n < 2 ^ 31" using len d d' by simp
  then have cv: "sint (of_nat (str_size s1) :: u32) = int (str_size s1)"
    using s1(4) by (simp add: sint_of_nat_u32)
  from string_append_loop_spec [OF ok', of s1 "str_size s1"] s1(4,5) e len'
  obtain xs where xs: "string_append_loop (int (str_size s1)) t s1 = Inr (s1\<lparr>str_data := xs\<rparr>)"
    "length xs = length (str_data s1)" "take ?n xs = stext s1 @ stext t"
    by (auto simp: stext_def)
  have n: "?n < length xs" using xs(2) e(1) s1(5) by simp
  have "xs[?n := 0] = take ?n xs @ 0 # drop (Suc ?n) xs" using n by (simp add: upd_conv_take_nth_drop)
  moreover have "0 \<notin> set (take ?n xs)" using xs(3) e(3) d'(3) by (simp add: holds_def)
  ultimately have "holds (xs[?n := 0]) (take ?n xs)" unfolding holds_def by blast
  with xs(3) have "holds (xs[?n := 0]) (stext s @ stext t)" using s1(3) by simp
  then show ?thesis
    using str_okI [of "s1\<lparr>str_size := ?n, str_data := xs[?n := 0]\<rparr>" "stext s @ stext t"]
      s1 e xs n d d' len' by (simp add: string_append_def Let_def cv [unfolded s1(4)])
qed

lemma string_eq_ok:
  assumes "str_ok s" and "str_ok t"
  shows "string_eq s t = Inr (stext s = stext t)"
proof -
  note d = str_okD [OF assms(1)] and d' = str_okD [OF assms(2)]
  have "strcmp (str_data s) (str_data t) = Inr (stext s = stext t)"
    using d d' by (intro strcmp_eq) auto
  moreover have "stext s \<noteq> stext t" if "str_size s \<noteq> str_size t" using that d(4) d'(4) by auto
  ultimately show ?thesis by (simp add: string_eq_def)
qed

lemma find_from_ok:
  assumes "str_ok s" and "i \<le> str_size s"
  shows "if c \<in> set (drop i (stext s))
    then \<exists>k. find_from i c s = Inr (int k) \<and> i \<le> k \<and> k < length (stext s) \<and> stext s ! k = c \<and>
      c \<notin> set (drop i (take k (stext s)))
    else find_from i c s = Inr (- 1)"
  using assms
proof (induction "str_size s - i" arbitrary: i)
  case 0
  then show ?case using str_okD [OF 0(2)] by (subst find_from.simps) simp
next
  case (Suc n)
  note d = str_okD [OF Suc.prems(1)]
  from Suc.hyps(2) have i: "i < str_size s" "n = str_size s - Suc i" by simp_all
  with d have dr: "drop i (stext s) = stext s ! i # drop (Suc i) (stext s)"
    by (simp add: Cons_nth_drop_Suc)
  have nth: "str_data s ! i = stext s ! i" using i by (simp add: stext_def)
  show ?case
  proof (cases "stext s ! i = c")
    case True
    with i d nth dr show ?thesis by (subst find_from.simps) (auto intro: exI [of _ i])
  next
    case False
    have r: "find_from i c s = find_from (Suc i) c s"
      using i d nth False by (subst find_from.simps) simp
    have tk: "drop i (take k (stext s)) = stext s ! i # drop (Suc i) (take k (stext s))"
      if "Suc i \<le> k" for k
      using that i d by (subst Cons_nth_drop_Suc [symmetric]) auto
    from Suc.hyps(1) [OF i(2) Suc.prems(1)] i r dr False show ?thesis
      by (auto split: if_splits) (metis Suc_leD set_ConsD tk)
  qed
qed

lemma substr_loop_spec:
  assumes "length (str_data ret) = Suc len" and "str_size ret = len" and "start + len \<le> length src" and "i \<le> len"
    and "start + len \<le> 2 ^ 31"
  shows "\<exists>xs. substr_loop i start len src ret = Inr (ret\<lparr>str_data := xs\<rparr>) \<and>
    xs = take i (str_data ret) @ take (len - i) (drop (start + i) src) @ drop len (str_data ret)"
  using assms
proof (induction "len - i" arbitrary: i ret)
  case 0
  then show ?case by (subst substr_loop.simps) simp
next
  case (Suc n)
  then have i: "i < len" "n = len - Suc i" by simp_all
  let ?r = "ret\<lparr>str_data := (str_data ret)[i := src ! (i + start)]\<rparr>"
  from Suc.prems i have "substr_loop i start len src ret = substr_loop (Suc i) start len src ?r"
    by (subst substr_loop.simps) (simp add: string_set_def)
  moreover have "drop (start + i) src = src ! (i + start) # drop (start + Suc i) src"
    using i Suc.prems(3) by (simp add: Cons_nth_drop_Suc add.commute)
  moreover have "len - i = Suc (len - Suc i)" using i by simp
  ultimately show ?case
    using Suc.hyps(1) [OF i(2), of ?r] Suc.prems i by (simp add: take_Suc_update)
qed

lemma substr_loop_text:
  assumes ok: "str_ok s" and fit: "start + len \<le> str_size s"
  shows "\<exists>r. rbind (string_fill len 32) (substr_loop 0 start len (str_data s)) = Inr r \<and> str_ok r \<and>
    stext r = take len (drop start (stext s))"
proof -
  note d = str_okD [OF ok]
  let ?t = "take len (drop start (stext s))"
  have t: "?t = take len (drop start (str_data s))"
    using fit by (simp add: stext_def drop_take min_def)
  have lt: "length ?t = len" using fit d by simp
  have "0 \<notin> set (stext s)" using d(3) by (simp add: holds_def)
  then have nz: "0 \<notin> set ?t" by (meson in_set_dropD in_set_takeD)
  let ?f = "\<lparr>str_data = replicate len 32 @ [0], str_size = len, str_cap = len\<rparr>"
  have b: "len < 2 ^ 31" "start + len \<le> 2 ^ 31" using fit d(5) by simp_all
  then have f: "string_fill len 32 = Inr ?f" by (simp add: string_fill_def)
  obtain r where r: "substr_loop 0 start len (str_data s) ?f = Inr r" "r = ?f\<lparr>str_data := ?t @ [0]\<rparr>"
    using substr_loop_spec [of ?f len start "str_data s" 0] fit d b by (auto simp: t)
  have "holds (?t @ [0]) ?t" using nz by (auto simp: holds_def)
  with r lt show ?thesis
    using str_okI [of r ?t] b f by simp
qed

subsection \<open>Splitting\<close>

fun join :: "u8 \<Rightarrow> u8 list list \<Rightarrow> u8 list" where
  "join c [] = []"
| "join c [p] = p"
| "join c (p # q # r) = p @ c # join c (q # r)"

lemma join_snoc: "ps \<noteq> [] \<Longrightarrow> join c (ps @ [p]) = join c ps @ c # p"
  by (induction c ps rule: join.induct) auto

lemma join_last: "join c (ps @ [p @ q]) = join c (ps @ [p]) @ q"
proof (cases "ps = []")
  case False
  then show ?thesis by (simp add: join_snoc)
qed simp

lemma last_piece_length: "length p \<le> length (join c (ps @ [p]))"
  by (cases "ps = []") (simp_all add: join_snoc)

text \<open>The list of strings \<^verbatim>\<open>split\<close> builds, as the sequence of their texts.\<close>

definition pieces_ok :: "dstring dlist \<Rightarrow> bool" where
  "pieces_ok out \<longleftrightarrow> list_ok out \<and> elems out \<noteq> [] \<and> (\<forall>s \<in> set (elems out). str_ok s)"

definition texts :: "dstring dlist \<Rightarrow> u8 list list" where
  "texts out = map stext (elems out)"

lemma push_piece:
  assumes "list_ok out" and "\<forall>s \<in> set (elems out). str_ok s"
  shows "\<exists>out'. push_back string_new string_new out = Inr out' \<and> pieces_ok out' \<and>
    texts out' = texts out @ [[]]"
  using push_back_ok [OF assms(1), of string_new string_new] assms string_new_ok
  by (auto simp: pieces_ok_def texts_def)

lemma push_last_ok:
  assumes ok: "pieces_ok out" and x: "x \<noteq> 0" and tx: "texts out = ps @ [p]" and len: "Suc (length p) < 2 ^ 31"
  shows "\<exists>out'. push_last x out = Inr out' \<and> pieces_ok out' \<and> texts out' = ps @ [p @ [x]]"
proof -
  from ok have l: "list_ok out" "\<forall>s \<in> set (elems out). str_ok s" by (simp_all add: pieces_ok_def)
  from tx obtain ss s where es: "elems out = ss @ [s]" "map stext ss = ps" "stext s = p"
    by (auto simp: texts_def map_eq_append_conv)
  note last = dl.get_last [OF l(1) es(1)] and put = dl.put_last [OF l(1) es(1)]
  from es l(2) have sok: "str_ok s" by simp
  have "Suc (str_size s) < 2 ^ 31" using len str_okD(4) [OF sok] es(3) by simp
  from string_push_back_ok [OF sok x this] obtain s' where s': "string_push_back x s = Inr s'"
    "str_ok s'" "stext s' = p @ [x]" using es(3) by auto
  from put [of s'] obtain out' where "list_set (lst_size out - 1) s' out = Inr out'"
    "list_ok out'" "elems out' = ss @ [s']" by (auto simp: length_elems [OF l(1)])
  moreover have "length ss = lst_size out - 1" using es(1) length_elems [OF l(1)] by simp
  ultimately show ?thesis
    using last s' es l(2) by (auto simp: push_last_def pieces_ok_def texts_def)
qed

lemma split_loop_ok:
  assumes "pieces_ok out" and "n \<le> length xs" and "0 \<notin> set (take n xs)"
    and "\<forall>p \<in> set (texts out). c \<notin> set p" and "length (join c (texts out)) \<le> i" and "i + n < 2 ^ 31"
  shows "\<exists>out'. split_loop i c xs n out = Inr out' \<and> pieces_ok out' \<and>
    (\<forall>p \<in> set (texts out'). c \<notin> set p) \<and> join c (texts out') = join c (texts out) @ take n xs"
  using assms
proof (induction i c xs n out rule: split_loop.induct)
  case (3 i c x xs n out)
  from "3.prems"(1) have l: "list_ok out" "\<forall>s \<in> set (elems out). str_ok s" "texts out \<noteq> []"
    by (simp_all add: pieces_ok_def texts_def)
  have si: "Suc i < 2 ^ 31" using "3.prems"(6) by simp
  show ?case
  proof (cases "x = c")
    case True
    from push_piece [OF l(1,2)] obtain o1 where o1: "push_back string_new string_new out = Inr o1"
      "pieces_ok o1" "texts o1 = texts out @ [[]]" by blast
    with "3.IH" [OF _ si, of o1] "3.prems" True l(3) si show ?thesis by (simp add: join_snoc)
  next
    case False
    from l(3) obtain ps p where tx: "texts out = ps @ [p]" by (cases "texts out" rule: rev_cases) auto
    from "3.prems"(3) have "x \<noteq> 0" by simp
    moreover have "Suc (length p) < 2 ^ 31" using last_piece_length [of p c ps] "3.prems"(5) tx si by simp
    ultimately obtain o1 where o1: "push_last x out = Inr o1"
      "pieces_ok o1" "texts o1 = ps @ [p @ [x]]" using push_last_ok [OF "3.prems"(1) _ tx] by blast
    from "3.prems"(4) tx False o1(3) have "\<forall>p \<in> set (texts o1). c \<notin> set p" by auto
    moreover have "join c (texts o1) = join c (texts out) @ [x]" by (simp add: o1(3) tx join_last)
    ultimately show ?thesis using "3.IH" [OF _ si, of o1] "3.prems" False o1(1,2) si by auto
  qed
qed auto

lemma split_ok:
  assumes ok: "str_ok s"
  shows "\<exists>out. split c s = Inr out \<and> pieces_ok out \<and> (\<forall>p \<in> set (texts out). c \<notin> set p) \<and>
    join c (texts out) = stext s"
proof -
  note d = str_okD [OF ok]
  obtain o1 where o1: "push_back string_new string_new (list_new string_new) = Inr o1"
    "pieces_ok o1" "texts o1 = [[]]"
    using push_piece [of "list_new string_new"] by (auto simp: texts_def)
  have "0 \<notin> set (take (str_size s) (str_data s))" using d(3) by (simp add: holds_def stext_def)
  from split_loop_ok [OF o1(2) _ this, of c 0] o1 d show ?thesis
    by (simp add: split_def stext_def)
qed

subsection \<open>Properties of the string class\<close>

text \<open>C12: Splitting loses nothing. \<^verbatim>\<open>split\<close> of a well-formed string returns a list of
  well-formed strings none of which contains the separator, and the texts joined with the
  separator are the text of the string again.\<close>

theorem split_join:
  assumes "str_ok s"
  shows "\<exists>out. split c s = Inr out \<and> list_ok out \<and>
    (\<forall>p \<in> set (elems out). str_ok p \<and> c \<notin> set (stext p)) \<and>
    elems out \<noteq> [] \<and> join c (map stext (elems out)) = stext s"
  using split_ok [OF assms, of c] by (auto simp: pieces_ok_def texts_def)

theorem split_join_witness:
  "\<exists>s out. string_of [47, 98, 47, 99, 0] = Inr s \<and> split 47 s = Inr out \<and>
     join 47 (map stext (elems out)) = [47, 98, 47, 99]"
proof -
  have "holds [47, 98, 47, 99, 0] [47, 98, 47, 99]" "length [47, 98, 47, 99 :: u8] < 2 ^ 31" by simp_all
  from string_of_ok [OF this] obtain s where s: "string_of [47, 98, 47, 99, 0] = Inr s"
    "str_ok s" "stext s = [47, 98, 47, 99]" by blast
  from split_join [OF s(2), of 47] s show ?thesis by auto
qed

lemma string_copy_ok:
  assumes "str_ok s"
  shows "\<exists>r. string_copy s = Inr r \<and> str_ok r \<and> stext r = stext s"
proof -
  note d = str_okD [OF assms]
  have "string_copy s = string_resize (str_cap s) s"
    by (simp add: string_copy_def string_resize_def)
  with string_resize_ok [OF assms d(2)] show ?thesis by auto
qed

text \<open>C10: The class refines texts. On well-formed strings (of fewer than 2147483648 characters)
  \<^verbatim>\<open>push_back\<close> of a character other than zero and \<^verbatim>\<open>append\<close> return well-formed strings of the
  extended text, growing as needed, as long as that has fewer than 2147483648 characters; an assignment
  takes over the text; \<^verbatim>\<open>substr\<close> cuts out the text, fails its assertion when the piece ends behind the
  text, or overflows when the sum of start and length does not fit an \<^verbatim>\<open>int\<close>; \<^verbatim>\<open>find\<close> returns the
  first position from the start or minus one; \<^verbatim>\<open>operator==\<close> compares the texts.\<close>

theorem string_refines_text:
  assumes "str_ok s" and "str_ok t" and "x \<noteq> 0" and "a < 2 ^ 31" and "n < 2 ^ 31"
  shows "(Suc (length (stext s)) < 2 ^ 31 \<longrightarrow> (\<exists>r. string_push_back x s = Inr r \<and> str_ok r \<and> stext r = stext s @ [x])) \<and>
    (length (stext s) + length (stext t) < 2 ^ 31 \<longrightarrow>
       (\<exists>r. string_append t s = Inr r \<and> str_ok r \<and> stext r = stext s @ stext t)) \<and>
    (\<exists>r. string_assign False t s = Inr r \<and> str_ok r \<and> stext r = stext t) \<and>
    (if 2 ^ 31 \<le> a + n then substr (int a) (int n) s = Inl Signed_overflow
     else if a + n \<le> length (stext s)
     then \<exists>r. substr (int a) (int n) s = Inr r \<and> str_ok r \<and> stext r = take n (drop a (stext s))
     else substr (int a) (int n) s = Inl Assert_fail) \<and>
    (\<exists>k. string_find (int a) c s = Inr k \<and>
      (if c \<in> set (drop a (stext s))
       then a \<le> nat k \<and> 0 \<le> k \<and> stext s ! nat k = c \<and> c \<notin> set (drop a (take (nat k) (stext s)))
       else k = - 1)) \<and>
    string_eq s t = Inr (stext s = stext t)"
proof -
  note d = str_okD [OF assms(1)] and d' = str_okD [OF assms(2)]
  have sub: "if 2 ^ 31 \<le> a + n then substr (int a) (int n) s = Inl Signed_overflow
     else if a + n \<le> length (stext s)
     then \<exists>r. substr (int a) (int n) s = Inr r \<and> str_ok r \<and> stext r = take n (drop a (stext s))
     else substr (int a) (int n) s = Inl Assert_fail"
    using substr_loop_text [OF assms(1), of a n] d by (auto simp: substr_def)
  have fnd: "\<exists>k. string_find (int a) c s = Inr k \<and>
      (if c \<in> set (drop a (stext s))
       then a \<le> nat k \<and> 0 \<le> k \<and> stext s ! nat k = c \<and> c \<notin> set (drop a (take (nat k) (stext s)))
       else k = - 1)"
  proof (cases "a \<le> str_size s")
    case True
    from find_from_ok [OF assms(1) True, of c] show ?thesis
      by (auto simp: string_find_def split: if_splits)
  next
    case False
    with d show ?thesis by (subst string_find_def, subst find_from.simps) simp
  qed
  have asg: "\<exists>r. string_assign False t s = Inr r \<and> str_ok r \<and> stext r = stext t"
    using string_copy_ok [OF assms(2)] by (simp add: string_assign_def)
  have "\<exists>r. string_push_back x s = Inr r \<and> str_ok r \<and> stext r = stext s @ [x]" if "Suc (length (stext s)) < 2 ^ 31"
    using string_push_back_ok [OF assms(1,3)] that d(4) by simp
  then show ?thesis
    using string_append_ok [OF assms(1,2)] string_eq_ok [OF assms(1,2)] asg sub fnd by blast
qed

theorem string_refines_text_witness:
  "\<exists>s r. string_of [97, 98, 0] = Inr s \<and> string_append s s = Inr r \<and> stext r = [97, 98, 97, 98] \<and>
     substr 2147483647 1 s = Inl Signed_overflow"
proof -
  have "holds [97, 98, 0] [97, 98]" "length [97, 98 :: u8] < 2 ^ 31" by simp_all
  from string_of_ok [OF this] obtain s where s: "string_of [97, 98, 0] = Inr s"
    "str_ok s" "stext s = [97, 98]" by blast
  have b: "(2147483647 :: nat) < 2 ^ 31" "(1 :: nat) < 2 ^ 31" by simp_all
  from string_refines_text [OF s(2) s(2) one_neq_zero b] s show ?thesis by auto
qed

end
