(* ===== verification/HashMap.thy ===== *)
theory HashMap
  imports DString
begin

text \<open>
  The hash table of \<^verbatim>\<open>src/stdlib/structures/hashmap.cpp\<close>: a list of buckets, each a list
  of pairs. \<^verbatim>\<open>put\<close> never looks for the key, it appends; \<^verbatim>\<open>get\<close> and \<^verbatim>\<open>remove\<close> take
  the oldest pair with the key. So the table is a map from keys to queues of values, which
  is the interface \<open>fifo_map\<close>. The templates ask the list for \<^verbatim>\<open>length()\<close>, which the class
  calls \<^verbatim>\<open>size()\<close>; the model reads it so.
\<close>

subsection \<open>Hash functions\<close>

definition HASH_MOD :: u64 where
  "HASH_MOD = 1000000007"

definition hash_int :: "u64 \<Rightarrow> u64" where
  "hash_int input = input mod HASH_MOD"

fun hash_string_loop :: "u8 list \<Rightarrow> u64 \<Rightarrow> u64 \<Rightarrow> u64" where
  "hash_string_loop [] base acc = acc"
| "hash_string_loop (c # cs) base acc =
     hash_string_loop cs ((base * 67) mod HASH_MOD) ((acc + base * scast c) mod HASH_MOD)"

definition hash_string :: "u8 list \<Rightarrow> u64" where
  "hash_string s = hash_string_loop s 1 0"

subsection \<open>The table\<close>

record ('k, 'v) hash_map =
  hm_hash :: "'k \<Rightarrow> nat"
  buckets :: "('k \<times> 'v) dlist dlist"

definition hash_map_new :: "('k \<times> 'v) \<Rightarrow> ('k \<Rightarrow> nat) \<Rightarrow> nat \<Rightarrow> ('k, 'v) hash_map" where
  "hash_map_new d h num_buckets =
     \<lparr>hm_hash = h, buckets = list_fill num_buckets (list_reserve d 0)\<rparr>"

definition bucket_index :: "('k, 'v) hash_map \<Rightarrow> 'k \<Rightarrow> nat res" where
  "bucket_index m key =
     (if lst_size (buckets m) = 0 then Inl Div_by_zero
      else Inr (hm_hash m key mod lst_size (buckets m)))"

definition hm_put :: "('k \<times> 'v) \<Rightarrow> 'k \<Rightarrow> 'v \<Rightarrow> ('k, 'v) hash_map \<Rightarrow> ('k, 'v) hash_map res" where
  "hm_put d key val m =
     rbind (bucket_index m key) (\<lambda>i.
     rbind (list_at (buckets m) i) (\<lambda>b.
     rbind (push_back d (key, val) b) (\<lambda>b.
     rbind (list_set i b (buckets m)) (\<lambda>bs. Inr (m\<lparr>buckets := bs\<rparr>)))))"

text \<open>The search loop of \<^verbatim>\<open>remove\<close>, \<^verbatim>\<open>get\<close> and \<^verbatim>\<open>contains\<close>.\<close>

function scan_bucket :: "nat \<Rightarrow> 'k \<Rightarrow> ('k \<times> 'v) dlist \<Rightarrow> nat option res" where
  "scan_bucket i key b =
     (if i < lst_size b
      then rbind (list_at b i) (\<lambda>p. if fst p = key then Inr (Some i) else scan_bucket (Suc i) key b)
      else Inr None)"
  by pat_completeness auto
termination by (relation "measure (\<lambda>(i, key, b). lst_size b - i)") auto

declare scan_bucket.simps [simp del]

definition hm_remove :: "'k \<Rightarrow> ('k, 'v) hash_map \<Rightarrow> ('v \<times> ('k, 'v) hash_map) res" where
  "hm_remove key m =
     rbind (bucket_index m key) (\<lambda>i.
     rbind (list_at (buckets m) i) (\<lambda>b.
     rbind (scan_bucket 0 key b) (\<lambda>r.
       case r of
         None \<Rightarrow> Inl Assert_fail
       | Some j \<Rightarrow>
           rbind (list_at b j) (\<lambda>p.
           rbind (list_erase j b) (\<lambda>b.
           rbind (list_set i b (buckets m)) (\<lambda>bs. Inr (snd p, m\<lparr>buckets := bs\<rparr>)))))))"

definition hm_get :: "'k \<Rightarrow> ('k, 'v) hash_map \<Rightarrow> 'v res" where
  "hm_get key m =
     rbind (bucket_index m key) (\<lambda>i.
     rbind (list_at (buckets m) i) (\<lambda>b.
     rbind (scan_bucket 0 key b) (\<lambda>r.
       case r of None \<Rightarrow> Inl Assert_fail | Some j \<Rightarrow> rbind (list_at b j) (\<lambda>p. Inr (snd p)))))"

definition hm_contains :: "'k \<Rightarrow> ('k, 'v) hash_map \<Rightarrow> bool res" where
  "hm_contains key m =
     rbind (bucket_index m key) (\<lambda>i.
     rbind (list_at (buckets m) i) (\<lambda>b.
     rbind (scan_bucket 0 key b) (\<lambda>r. Inr (r \<noteq> None))))"

subsection \<open>The interface: a map to queues\<close>

locale fifo_map =
  fixes ok :: "'m \<Rightarrow> bool"
    and vals :: "'m \<Rightarrow> 'k \<Rightarrow> 'v list"
    and put :: "'k \<Rightarrow> 'v \<Rightarrow> 'm \<Rightarrow> 'm res"
    and take_out :: "'k \<Rightarrow> 'm \<Rightarrow> ('v \<times> 'm) res"
  assumes put_ok: "ok m \<Longrightarrow> \<exists>m'. put k v m = Inr m' \<and> ok m' \<and> vals m' = (vals m)(k := vals m k @ [v])"
    and take_ok: "ok m \<Longrightarrow> vals m k = v # vs \<Longrightarrow>
      \<exists>m'. take_out k m = Inr (v, m') \<and> ok m' \<and> vals m' = (vals m)(k := vs)"
begin

fun put_all :: "'k \<Rightarrow> 'v list \<Rightarrow> 'm \<Rightarrow> 'm res" where
  "put_all k [] m = Inr m"
| "put_all k (v # vs) m = rbind (put k v m) (put_all k vs)"

fun take_n :: "'k \<Rightarrow> nat \<Rightarrow> 'm \<Rightarrow> ('v list \<times> 'm) res" where
  "take_n k 0 m = Inr ([], m)"
| "take_n k (Suc n) m =
     rbind (take_out k m) (\<lambda>(v, m). rbind (take_n k n m) (\<lambda>(vs, m). Inr (v # vs, m)))"

lemma put_all_ok:
  "ok m \<Longrightarrow> \<exists>m'. put_all k vs m = Inr m' \<and> ok m' \<and> vals m' = (vals m)(k := vals m k @ vs)"
proof (induction vs arbitrary: m)
  case (Cons v vs)
  from put_ok [OF Cons.prems, of k v] obtain m1 where m1: "put k v m = Inr m1" "ok m1"
    "vals m1 = (vals m)(k := vals m k @ [v])" by blast
  have "(vals m1)(k := vals m1 k @ vs) = (vals m)(k := vals m k @ v # vs)"
    unfolding m1(3) by (simp add: fun_eq_iff)
  with Cons.IH [OF m1(2)] m1(1) show ?case by simp
qed simp

lemma take_n_ok:
  "ok m \<Longrightarrow> vals m k = vs @ ws \<Longrightarrow>
   \<exists>m'. take_n k (length vs) m = Inr (vs, m') \<and> ok m' \<and> vals m' = (vals m)(k := ws)"
proof (induction vs arbitrary: m)
  case Nil
  then show ?case by (auto simp: fun_upd_idem)
next
  case (Cons v vs)
  from take_ok [OF Cons.prems(1), of k v "vs @ ws"] Cons.prems(2) obtain m1 where
    m1: "take_out k m = Inr (v, m1)" "ok m1" "vals m1 = (vals m)(k := vs @ ws)" by auto
  have "(vals m1)(k := ws) = (vals m)(k := ws)" unfolding m1(3) by (simp add: fun_eq_iff)
  moreover have "vals m1 k = vs @ ws" by (simp add: m1(3))
  ultimately obtain m2 where "take_n k (length vs) m1 = Inr (vs, m2)" "ok m2"
    "vals m2 = (vals m)(k := ws)" using Cons.IH [OF m1(2)] by metis
  with m1(1) show ?case by (simp del: fun_upd_apply)
qed

text \<open>Values come out in the order they went in, and other keys are not disturbed.\<close>

lemma first_in_first_out:
  assumes "ok m" and "vals m k = []"
  shows "\<exists>m1 m2. put_all k vs m = Inr m1 \<and> take_n k (length vs) m1 = Inr (vs, m2) \<and>
    vals m2 = vals m"
proof -
  from put_all_ok [OF assms(1), of k vs] obtain m1 where m1: "put_all k vs m = Inr m1" "ok m1"
    "vals m1 = (vals m)(k := vs)" using assms(2) by auto
  from take_n_ok [OF m1(2), of k vs "[]"] m1(3) obtain m2
    where "take_n k (length vs) m1 = Inr (vs, m2)" "vals m2 = (vals m)(k := [])" by auto
  with m1(1) assms(2) show ?thesis by (metis fun_upd_idem)
qed

end

subsection \<open>The table keeps it\<close>

definition hm_ok :: "('k, 'v) hash_map \<Rightarrow> bool" where
  "hm_ok m \<longleftrightarrow> list_ok (buckets m) \<and> 0 < lst_size (buckets m) \<and> (\<forall>b \<in> set (elems (buckets m)). list_ok b)"

definition hm_bucket :: "('k, 'v) hash_map \<Rightarrow> 'k \<Rightarrow> ('k \<times> 'v) dlist" where
  "hm_bucket m key = elems (buckets m) ! (hm_hash m key mod lst_size (buckets m))"

definition hm_vals :: "('k, 'v) hash_map \<Rightarrow> 'k \<Rightarrow> 'v list" where
  "hm_vals m key = map snd (filter (\<lambda>p. fst p = key) (elems (hm_bucket m key)))"

lemma hm_bucket_ok:
  assumes "hm_ok m"
  shows "bucket_index m key = Inr (hm_hash m key mod lst_size (buckets m))"
    and "list_at (buckets m) (hm_hash m key mod lst_size (buckets m)) = Inr (hm_bucket m key)"
    and "list_ok (hm_bucket m key)"
  using assms length_elems [of "buckets m"]
  by (auto simp: hm_ok_def bucket_index_def list_at_ok hm_bucket_def)

text \<open>Writing one bucket back: the others, and the keys that do not hash to it, keep theirs.\<close>

lemma hm_set_bucket:
  assumes ok: "hm_ok m" and b: "list_ok b"
  shows "\<exists>bs. list_set (hm_hash m key mod lst_size (buckets m)) b (buckets m) = Inr bs \<and>
    hm_ok (m\<lparr>buckets := bs\<rparr>) \<and>
    (\<forall>k. hm_bucket (m\<lparr>buckets := bs\<rparr>) k =
      (if hm_hash m k mod lst_size (buckets m) = hm_hash m key mod lst_size (buckets m) then b
       else hm_bucket m k))"
proof -
  let ?n = "lst_size (buckets m)" let ?i = "hm_hash m key mod ?n"
  from ok have l: "list_ok (buckets m)" "0 < ?n" "\<forall>b \<in> set (elems (buckets m)). list_ok b"
    by (auto simp: hm_ok_def)
  note len = length_elems [OF l(1)]
  have i: "?i < length (elems (buckets m))" using l(2) len by simp
  from list_set_in [OF l(1) i, of b] obtain bs where bs: "list_set ?i b (buckets m) = Inr bs"
    "list_ok bs" "elems bs = (elems (buckets m))[?i := b]" by blast
  have sz: "lst_size bs = ?n" using length_elems [OF bs(2)] bs(3) len by simp
  have "list_ok c" if "c \<in> set (elems bs)" for c
    using that bs(3) b l(3) by (auto dest: set_update_subset_insert [THEN subsetD])
  then have "hm_ok (m\<lparr>buckets := bs\<rparr>)" using bs(2) sz l(2) by (simp add: hm_ok_def)
  with bs sz i len show ?thesis
    by (intro exI [of _ bs]) (auto simp: hm_bucket_def nth_list_update)
qed

lemma scan_bucket_spec:
  assumes "list_ok b" and "i \<le> lst_size b"
  shows "scan_bucket i key b = Inr
    (if \<exists>p \<in> set (drop i (elems b)). fst p = key
     then Some (i + length (takeWhile (\<lambda>p. fst p \<noteq> key) (drop i (elems b)))) else None)"
  using assms
proof (induction "lst_size b - i" arbitrary: i)
  case 0
  then show ?case by (subst scan_bucket.simps) (simp add: length_elems)
next
  case (Suc n)
  then have i: "i < lst_size b" "n = lst_size b - Suc i" by simp_all
  note len = length_elems [OF Suc.prems(1)]
  have dr: "drop i (elems b) = elems b ! i # drop (Suc i) (elems b)"
    using i len by (simp add: Cons_nth_drop_Suc)
  have at: "list_at b i = Inr (elems b ! i)" using i len by (simp add: list_at_ok Suc.prems(1))
  from i Suc.hyps(1) [OF i(2) Suc.prems(1)] show ?case
    by (subst scan_bucket.simps) (simp add: at dr)
qed

lemma filter_split_first:
  assumes "\<exists>p \<in> set xs. P p"
  defines "j \<equiv> length (takeWhile (\<lambda>p. \<not> P p) xs)"
  shows "j < length xs" and "filter P xs = xs ! j # filter P (drop (Suc j) xs)"
    and "filter P (take j xs) = []" and "P (xs ! j)"
proof -
  have eq: "takeWhile (\<lambda>p. \<not> P p) xs = take j xs" unfolding j_def by (rule takeWhile_eq_take)
  show j: "j < length xs"
  proof -
    have "takeWhile (\<lambda>p. \<not> P p) xs \<noteq> xs" using assms(1) by (metis takeWhile_eq_all_conv)
    then show ?thesis unfolding j_def
      by (metis eq j_def length_takeWhile_le nat_less_le take_all_iff le_refl)
  qed
  show P: "P (xs ! j)" using nth_length_takeWhile [of "\<lambda>p. \<not> P p" xs] j by (simp add: j_def)
  show no: "filter P (take j xs) = []"
    unfolding filter_empty_conv by (auto simp flip: eq dest: set_takeWhileD)
  have "xs = take j xs @ xs ! j # drop (Suc j) xs" using j by (rule id_take_nth_drop)
  then have "filter P xs = filter P (take j xs) @ filter P (xs ! j # drop (Suc j) xs)"
    by (metis filter_append)
  with no P show "filter P xs = xs ! j # filter P (drop (Suc j) xs)" by simp
qed

lemma hm_put_ok:
  assumes ok: "hm_ok m"
  shows "\<exists>m'. hm_put d k v m = Inr m' \<and> hm_ok m' \<and> hm_vals m' = (hm_vals m)(k := hm_vals m k @ [v])"
proof -
  note b = hm_bucket_ok [OF ok, of k]
  from push_back_ok [OF b(3), of d "(k, v)"] obtain b' where b': "push_back d (k, v) (hm_bucket m k) = Inr b'"
    "list_ok b'" "elems b' = elems (hm_bucket m k) @ [(k, v)]" by blast
  from hm_set_bucket [OF ok b'(2), of k] obtain bs where bs:
    "list_set (hm_hash m k mod lst_size (buckets m)) b' (buckets m) = Inr bs" "hm_ok (m\<lparr>buckets := bs\<rparr>)"
    "\<And>l. hm_bucket (m\<lparr>buckets := bs\<rparr>) l =
      (if hm_hash m l mod lst_size (buckets m) = hm_hash m k mod lst_size (buckets m) then b'
       else hm_bucket m l)" by blast
  have "hm_vals (m\<lparr>buckets := bs\<rparr>) l = (if l = k then hm_vals m k @ [v] else hm_vals m l)" for l
  proof (cases "hm_hash m l mod lst_size (buckets m) = hm_hash m k mod lst_size (buckets m)")
    case True
    then have "hm_bucket m l = hm_bucket m k" by (simp add: hm_bucket_def)
    with True b'(3) show ?thesis by (simp add: hm_vals_def bs(3))
  next
    case False
    then show ?thesis by (auto simp: hm_vals_def bs(3))
  qed
  then have "hm_vals (m\<lparr>buckets := bs\<rparr>) = (hm_vals m)(k := hm_vals m k @ [v])" by auto
  moreover have "hm_put d k v m = Inr (m\<lparr>buckets := bs\<rparr>)"
    using b(1,2) b'(1) bs(1) by (simp add: hm_put_def)
  ultimately show ?thesis using bs(2) by blast
qed

lemma hm_found:
  assumes ok: "hm_ok m" and vals: "hm_vals m k = v # vs"
  obtains j where "scan_bucket 0 k (hm_bucket m k) = Inr (Some j)"
    and "j < length (elems (hm_bucket m k))" and "elems (hm_bucket m k) ! j = (k, v)"
    and "filter (\<lambda>p. fst p = k) (take j (elems (hm_bucket m k))) = []"
    and "map snd (filter (\<lambda>p. fst p = k) (drop (Suc j) (elems (hm_bucket m k)))) = vs"
proof -
  let ?e = "elems (hm_bucket m k)"
  from vals have ex: "\<exists>p \<in> set ?e. fst p = k"
    by (auto simp: hm_vals_def filter_eq_Cons_iff)
  note f = filter_split_first [of ?e "\<lambda>p. fst p = k", OF ex]
  let ?j = "length (takeWhile (\<lambda>p. fst p \<noteq> k) ?e)"
  have "scan_bucket 0 k (hm_bucket m k) = Inr (Some ?j)"
    using scan_bucket_spec [OF hm_bucket_ok(3) [OF ok], of 0 k k] ex by simp
  moreover have "snd (?e ! ?j) = v" "map snd (filter (\<lambda>p. fst p = k) (drop (Suc ?j) ?e)) = vs"
    using vals f(2) by (simp_all add: hm_vals_def)
  moreover have "?e ! ?j = (k, v)" using f(4) calculation(2) by (metis prod.collapse)
  ultimately show ?thesis using that [of ?j] f(1,3) by blast
qed

lemma hm_not_found:
  assumes ok: "hm_ok m" and vals: "hm_vals m k = []"
  shows "scan_bucket 0 k (hm_bucket m k) = Inr None"
  using scan_bucket_spec [OF hm_bucket_ok(3) [OF ok], of 0 k k] vals
  by (auto simp: hm_vals_def filter_empty_conv)

lemma hm_remove_ok:
  assumes ok: "hm_ok m" and vals: "hm_vals m k = v # vs"
  shows "\<exists>m'. hm_remove k m = Inr (v, m') \<and> hm_ok m' \<and> hm_vals m' = (hm_vals m)(k := vs)"
proof -
  note b = hm_bucket_ok [OF ok, of k]
  from hm_found [OF ok vals] obtain j where j: "scan_bucket 0 k (hm_bucket m k) = Inr (Some j)"
    "j < length (elems (hm_bucket m k))" "elems (hm_bucket m k) ! j = (k, v)"
    "filter (\<lambda>p. fst p = k) (take j (elems (hm_bucket m k))) = []"
    "map snd (filter (\<lambda>p. fst p = k) (drop (Suc j) (elems (hm_bucket m k)))) = vs" by blast
  from list_erase_in [OF b(3) j(2)] obtain b' where b': "list_erase j (hm_bucket m k) = Inr b'"
    "list_ok b'"
    "elems b' = take j (elems (hm_bucket m k)) @ drop (Suc j) (elems (hm_bucket m k))" by blast
  from hm_set_bucket [OF ok b'(2), of k] obtain bs where bs:
    "list_set (hm_hash m k mod lst_size (buckets m)) b' (buckets m) = Inr bs" "hm_ok (m\<lparr>buckets := bs\<rparr>)"
    "\<And>l. hm_bucket (m\<lparr>buckets := bs\<rparr>) l =
      (if hm_hash m l mod lst_size (buckets m) = hm_hash m k mod lst_size (buckets m) then b'
       else hm_bucket m l)" by blast
  have all: "elems (hm_bucket m k) =
    take j (elems (hm_bucket m k)) @ (k, v) # drop (Suc j) (elems (hm_bucket m k))"
    using id_take_nth_drop [OF j(2)] unfolding j(3) .
  have other: "filter (\<lambda>p. fst p = l) (elems b') = filter (\<lambda>p. fst p = l) (elems (hm_bucket m k))"
    if "l \<noteq> k" for l
  proof -
    have "filter (\<lambda>p. fst p = l) (elems (hm_bucket m k)) = filter (\<lambda>p. fst p = l)
        (take j (elems (hm_bucket m k)) @ (k, v) # drop (Suc j) (elems (hm_bucket m k)))"
      by (rule arg_cong [OF all])
    also have "\<dots> = filter (\<lambda>p. fst p = l) (elems b')" using that by (simp add: b'(3))
    finally show ?thesis by (rule sym)
  qed
  have "hm_vals (m\<lparr>buckets := bs\<rparr>) l = (if l = k then vs else hm_vals m l)" for l
  proof (cases "hm_hash m l mod lst_size (buckets m) = hm_hash m k mod lst_size (buckets m)")
    case True
    then have "hm_bucket m l = hm_bucket m k" by (simp add: hm_bucket_def)
    moreover have "hm_bucket (m\<lparr>buckets := bs\<rparr>) l = b'" using True by (simp add: bs(3))
    ultimately show ?thesis using b'(3) j(4,5) other [of l] by (cases "l = k") (simp_all add: hm_vals_def)
  next
    case False
    then show ?thesis by (auto simp: hm_vals_def bs(3))
  qed
  then have "hm_vals (m\<lparr>buckets := bs\<rparr>) = (hm_vals m)(k := vs)" by auto
  moreover have "list_at (hm_bucket m k) j = Inr (k, v)" using j(2,3) b(3) by (simp add: list_at_ok)
  then have "hm_remove k m = Inr (v, m\<lparr>buckets := bs\<rparr>)"
    using b(1,2) b'(1) bs(1) j(1) by (simp add: hm_remove_def)
  ultimately show ?thesis using bs(2) by blast
qed

interpretation hm: fifo_map hm_ok hm_vals "hm_put d" hm_remove for d
  by unfold_locales (simp_all add: hm_put_ok hm_remove_ok)

subsection \<open>The polynomial hash\<close>

fun hash_poly :: "u8 list \<Rightarrow> nat" where
  "hash_poly [] = 0"
| "hash_poly (c # cs) = unat c + 67 * hash_poly cs"

lemma scast_ascii: "unat (c :: u8) < 128 \<Longrightarrow> unat (scast c :: u64) = unat c"
proof -
  assume c: "unat c < 128"
  have u: "uint c = int (unat c)" by simp
  with c have "uint c < 128" "- 128 \<le> uint c" by linarith+
  then have "signed_take_bit 7 (uint c) = uint c" by (intro signed_take_bit_int_eq_self) simp_all
  then have s: "sint c = uint c" by (simp add: sint_uint)
  have "(scast c :: u64) = of_int (sint c)" by simp
  also have "\<dots> = of_nat (unat c)" unfolding s u by simp
  finally have "unat (scast c :: u64) = unat (of_nat (unat c) :: u64)" by simp
  also have "\<dots> = unat c" using c by (intro unat_of_nat_u64) simp
  finally show ?thesis .
qed

lemma hash_string_loop_poly:
  assumes "\<forall>c \<in> set cs. unat c < 128" and "unat base < 1000000007" and "unat acc < 1000000007"
  shows "unat (hash_string_loop cs base acc) = (unat acc + unat base * hash_poly cs) mod 1000000007"
  using assms
proof (induction cs arbitrary: base acc)
  case (Cons c cs)
  have M: "unat HASH_MOD = 1000000007" by (simp add: HASH_MOD_def)
  have c: "unat (scast c :: u64) = unat c" "unat c < 128" using Cons.prems(1) by (simp_all add: scast_ascii)
  have bc: "unat base * unat c \<le> 1000000007 * 128"
    using Cons.prems(2) c(2) by (intro mult_mono) simp_all
  have m: "unat (base * scast c) = unat base * unat c" using bc c by (subst unat_mul_no) simp_all
  have a: "unat (acc + base * scast c) = unat acc + unat base * unat c"
    using bc m Cons.prems(3) by (subst unat_add_no) simp_all
  have b: "unat (base * 67) = unat base * 67" using Cons.prems(2) by (subst unat_mul_no) simp_all
  have "unat (hash_string_loop (c # cs) base acc) =
    ((unat acc + unat base * unat c) mod 1000000007 +
     (unat base * 67) mod 1000000007 * hash_poly cs) mod 1000000007"
    using Cons.prems by (simp add: Cons.IH unat_mod M a b)
  also have "\<dots> = (unat acc + unat base * unat c + unat base * 67 * hash_poly cs) mod 1000000007"
    by (rule mod_sum_prod)
  finally show ?case by (simp add: algebra_simps)
qed simp

subsection \<open>Properties of the hash table\<close>

text \<open>The hash table maps keys to queues. \<^verbatim>\<open>put\<close> appends the value to the queue of its
  key and touches no other key, whatever the hash function does; \<^verbatim>\<open>get\<close> returns the oldest
  value, \<^verbatim>\<open>remove\<close> takes it out, \<^verbatim>\<open>contains\<close> says whether there is one; on a key
  without a value \<^verbatim>\<open>get\<close> and \<^verbatim>\<open>remove\<close> fail their assertion.\<close>

lemma hash_map_refines_queues:
  assumes ok: "hm_ok m"
  shows "(\<exists>m'. hm_put d k v m = Inr m' \<and> hm_ok m' \<and> hm_vals m' = (hm_vals m)(k := hm_vals m k @ [v])) \<and>
    hm_contains k m = Inr (hm_vals m k \<noteq> []) \<and>
    (case hm_vals m k of
       [] \<Rightarrow> hm_get k m = Inl Assert_fail \<and> hm_remove k m = Inl Assert_fail
     | x # xs \<Rightarrow> hm_get k m = Inr x \<and>
         (\<exists>m'. hm_remove k m = Inr (x, m') \<and> hm_ok m' \<and> hm_vals m' = (hm_vals m)(k := xs)))"
proof (cases "hm_vals m k")
  case Nil
  note b = hm_bucket_ok [OF ok, of k]
  from hm_put_ok [OF ok, of d k v] hm_not_found [OF ok Nil] Nil b show ?thesis
    by (simp add: hm_contains_def hm_get_def hm_remove_def)
next
  case (Cons x xs)
  note b = hm_bucket_ok [OF ok, of k]
  from hm_found [OF ok Cons] obtain j where "scan_bucket 0 k (hm_bucket m k) = Inr (Some j)"
    "j < length (elems (hm_bucket m k))" "elems (hm_bucket m k) ! j = (k, x)" by blast
  with hm_put_ok [OF ok, of d k v] hm_remove_ok [OF ok Cons] Cons b show ?thesis
    by (simp add: hm_contains_def hm_get_def list_at_ok)
qed

lemma hash_map_new_ok:
  assumes "0 < n"
  shows "hm_ok (hash_map_new d h n) \<and> hm_vals (hash_map_new d h n) k = []"
  using assms
  by (auto simp: hm_ok_def hash_map_new_def hm_vals_def hm_bucket_def list_fill_def [of n] list_ok_def
      elems_def list_reserve_def)

text \<open>The string hash is the polynomial in 67 of the characters modulo 1000000007, with no
  wrap-around on the way, for every text of 7-bit characters of any length.\<close>

lemma hash_string_is_polynomial:
  assumes "\<forall>c \<in> set s. unat c < 128"
  shows "unat (hash_string s) = hash_poly s mod 1000000007"
  using hash_string_loop_poly [OF assms, of 1 0] by (simp add: hash_string_def)

end
