(* ===== verification/Bitmap.thy ===== *)
theory Bitmap
  imports Prelude
begin

text \<open>
  The bit array of \<^verbatim>\<open>src/stdlib/structures/bitmap.cpp\<close>. Its words live in the blocks the
  heap hands out for the request, 256 bytes each; what lies there beyond the bytes asked for
  is not cleared and is the parameter \<open>stale\<close>.
\<close>

record bitmap =
  bm_data :: "u64 list"
  sz_bits :: nat

text \<open>The request is counted in words but made in bytes.\<close>

definition bitmap_request :: "nat \<Rightarrow> nat" where
  "bitmap_request n = n div 64 + 1"

definition bitmap_word :: "(nat \<Rightarrow> u64) \<Rightarrow> nat \<Rightarrow> nat \<Rightarrow> u64" where
  "bitmap_word stale bytes i =
     (if 8 * i + 8 \<le> bytes then 0
      else if bytes \<le> 8 * i then stale i
      else stale i AND NOT (mask (8 * (bytes - 8 * i))))"

definition bitmap_init :: "(nat \<Rightarrow> u64) \<Rightarrow> nat \<Rightarrow> bitmap" where
  "bitmap_init stale n =
     (let bytes = bitmap_request n
      in \<lparr>bm_data = map (bitmap_word stale bytes) [0..<32 * ((bytes + 255) div 256)], sz_bits = n\<rparr>)"

definition bm_word :: "bitmap \<Rightarrow> nat \<Rightarrow> u64 res" where
  "bm_word b i = (if i < length (bm_data b) then Inr (bm_data b ! i) else Inl Out_of_bounds)"

definition bm_store :: "nat \<Rightarrow> u64 \<Rightarrow> bitmap \<Rightarrow> bitmap res" where
  "bm_store i w b =
     (if i < length (bm_data b) then Inr (b\<lparr>bm_data := (bm_data b)[i := w]\<rparr>) else Inl Out_of_bounds)"

definition bitmap_get :: "nat \<Rightarrow> bitmap \<Rightarrow> bool res" where
  "bitmap_get pos b =
     rbind (kassert (pos \<le> sz_bits b)) (\<lambda>_.
     rbind (bm_word b (pos div 64)) (\<lambda>w.
       Inr ((drop_bit (pos mod 64) w) AND 1 \<noteq> 0)))"

text \<open>\<^verbatim>\<open>1 << offset\<close> and \<^verbatim>\<open>0 << offset\<close> shift an \<^verbatim>\<open>int\<close>: by 32 or more is undefined, and
  the result is sign-extended to the word.\<close>

definition shift_int :: "u32 \<Rightarrow> nat \<Rightarrow> u64 res" where
  "shift_int v offset = (if 32 \<le> offset then Inl Bad_shift else Inr (scast (push_bit offset v)))"

definition bitmap_set :: "nat \<Rightarrow> bool \<Rightarrow> bitmap \<Rightarrow> bitmap res" where
  "bitmap_set pos val b =
     rbind (kassert (pos \<le> sz_bits b)) (\<lambda>_.
     rbind (bm_word b (pos div 64)) (\<lambda>w.
       if val
       then rbind (shift_int 1 (pos mod 64)) (\<lambda>s. bm_store (pos div 64) (w OR s) b)
       else rbind (shift_int 0 (pos mod 64)) (\<lambda>s. bm_store (pos div 64) (w AND s) b)))"

definition set_chunk :: "nat \<Rightarrow> u64 \<Rightarrow> bitmap \<Rightarrow> bitmap res" where
  "set_chunk pos val b = rbind (kassert (pos \<le> sz_bits b div 64)) (\<lambda>_. bm_store pos val b)"

definition get_chunk :: "nat \<Rightarrow> bitmap \<Rightarrow> u64 res" where
  "get_chunk pos b = rbind (kassert (pos \<le> sz_bits b div 64)) (\<lambda>_. bm_word b pos)"

subsection \<open>What the code does to the bits\<close>

lemma shift_int_1:
  "n < 31 \<Longrightarrow> shift_int 1 n = Inr (push_bit n 1)"
proof -
  assume n: "n < 31"
  have "sint (push_bit n (1 :: u32)) = 2 ^ n"
  proof -
    have "push_bit n (1 :: u32) = of_nat (2 ^ n)" by (simp add: push_bit_eq_mult)
    moreover have "sint (of_nat (2 ^ n) :: u32) = int (2 ^ n)"
      using n by (intro sint_of_nat_u32 power_strict_increasing) auto
    ultimately show ?thesis by simp
  qed
  then have "(scast (push_bit n (1 :: u32)) :: u64) = of_int (2 ^ n)" by (metis of_int_sint)
  with n show ?thesis by (simp add: shift_int_def push_bit_eq_mult)
qed

lemma bit_word_get:
  "pos \<le> sz_bits b \<Longrightarrow> pos div 64 < length (bm_data b) \<Longrightarrow>
   bitmap_get pos b = Inr (bit (bm_data b ! (pos div 64)) (pos mod 64))"
  by (simp add: bitmap_get_def bm_word_def bit_iff_odd_drop_bit and_one_eq odd_iff_mod_2_eq_one)

lemma div_mod_64_eq: "p div 64 = q div 64 \<Longrightarrow> p mod 64 = q mod 64 \<Longrightarrow> p = q" for p q :: nat
  by (metis div_mod_decomp)

text \<open>Setting a bit works for the low 31 bits of a word only. There \<^verbatim>\<open>set(pos, true)\<close>
  makes \<^verbatim>\<open>get(pos)\<close> true and changes no other bit; from bit 32 of a word on the shift is
  undefined. Clearing one bit clears its whole word: every bit of the same word reads false
  afterwards, and the other words keep theirs.\<close>

lemma bitmap_set_bits:
  assumes pos: "pos \<le> sz_bits b" "pos div 64 < length (bm_data b)"
    and q: "q \<le> sz_bits b" "q div 64 < length (bm_data b)"
  shows "(pos mod 64 < 31 \<longrightarrow> (\<exists>b'. bitmap_set pos True b = Inr b' \<and>
      bitmap_get q b' = (if q = pos then Inr True else bitmap_get q b))) \<and>
    (pos mod 64 < 32 \<longrightarrow> (\<exists>b'. bitmap_set pos False b = Inr b' \<and>
      bitmap_get q b' = (if q div 64 = pos div 64 then Inr False else bitmap_get q b))) \<and>
    (32 \<le> pos mod 64 \<longrightarrow> bitmap_set pos v b = Inl Bad_shift)"
proof (intro conjI impI)
  let ?w = "bm_data b ! (pos div 64)"
  assume low: "pos mod 64 < 31"
  let ?b = "b\<lparr>bm_data := (bm_data b)[pos div 64 := ?w OR push_bit (pos mod 64) 1]\<rparr>"
  have "bitmap_set pos True b = Inr ?b"
    using pos low by (simp add: bitmap_set_def bm_word_def bm_store_def shift_int_1)
  moreover have "bitmap_get q ?b = (if q = pos then Inr True else bitmap_get q b)"
  proof (cases "q div 64 = pos div 64")
    case True
    then have "q = pos \<longleftrightarrow> q mod 64 = pos mod 64" using div_mod_64_eq by blast
    with True pos q show ?thesis by (auto simp: bit_word_get bit_or_iff bit_exp_iff)
  next
    case False
    with pos q show ?thesis by (auto simp: bit_word_get)
  qed
  ultimately show "\<exists>b'. bitmap_set pos True b = Inr b' \<and>
      bitmap_get q b' = (if q = pos then Inr True else bitmap_get q b)" by blast
next
  assume low: "pos mod 64 < 32"
  let ?b = "b\<lparr>bm_data := (bm_data b)[pos div 64 := 0]\<rparr>"
  have "bitmap_set pos False b = Inr ?b"
    using pos low by (simp add: bitmap_set_def bm_word_def bm_store_def shift_int_def)
  moreover have "bitmap_get q ?b = (if q div 64 = pos div 64 then Inr False else bitmap_get q b)"
    using pos q by (auto simp: bit_word_get)
  ultimately show "\<exists>b'. bitmap_set pos False b = Inr b' \<and>
      bitmap_get q b' = (if q div 64 = pos div 64 then Inr False else bitmap_get q b)" by blast
next
  assume "32 \<le> pos mod 64"
  with pos show "bitmap_set pos v b = Inl Bad_shift"
    by (simp add: bitmap_set_def bm_word_def shift_int_def)
qed

lemma bitmap_word_bit:
  "r < 64 \<Longrightarrow> bit (bitmap_word stale bytes i) r \<longleftrightarrow> 8 * bytes \<le> 64 * i + r \<and> bit (stale i) r"
  by (auto simp: bitmap_word_def bit_simps)

text \<open>A fresh bitmap is neither empty nor large enough. Only as many bytes are cleared as the
  bitmap has words, so every bit from \<open>8 * (n div 64 + 1)\<close> on starts with whatever the heap
  held there; and from 2048 bits on the last bit lies outside the allocation.\<close>

lemma bitmap_init_stale:
  "if n < 2048
   then pos \<le> n \<longrightarrow> bitmap_get pos (bitmap_init stale n) =
     Inr (8 * (n div 64 + 1) \<le> pos \<and> bit (stale (pos div 64)) (pos mod 64))
   else bitmap_get n (bitmap_init stale n) = Inl Out_of_bounds"
proof (cases "n < 2048")
  case True
  let ?b = "bitmap_init stale n"
  have "bitmap_get pos ?b = Inr (8 * (n div 64 + 1) \<le> pos \<and> bit (stale (pos div 64)) (pos mod 64))"
    if pos: "pos \<le> n"
  proof -
    have "n div 64 < 32" "pos div 64 \<le> n div 64" using True pos by (auto intro: div_le_mono)
    moreover from this have "(256 + n div 64) div 256 = 1" by (intro div_nat_eqI) simp_all
    ultimately have i: "pos div 64 < 32 * ((bitmap_request n + 255) div 256)"
      by (simp add: bitmap_request_def)
    have "bm_data ?b ! (pos div 64) = bitmap_word stale (bitmap_request n) (pos div 64)"
      using i by (simp add: bitmap_init_def Let_def)
    with i pos show ?thesis
      by (subst bit_word_get) (simp_all add: bitmap_init_def Let_def bitmap_word_bit bitmap_request_def)
  qed
  with True show ?thesis by simp
next
  case False
  define k where "k = n div 64"
  have k: "32 \<le> k" using False div_le_mono [of 2048 n 64] by (simp add: k_def)
  have "32 * ((256 + k) div 256) \<le> k"
  proof -
    define q where "q = k div 256"
    have "q * 256 \<le> k" unfolding q_def by (rule div_times_less_eq_dividend)
    then have "32 * Suc q \<le> k" using k by (cases q) simp_all
    moreover have "(256 + k) div 256 = Suc q"
      using div_mult_self1 [of 256 k 1] by (simp add: q_def)
    ultimately show ?thesis by (simp only:)
  qed
  with False show ?thesis
    by (simp add: bitmap_get_def bitmap_init_def Let_def bm_word_def bitmap_request_def k_def)
qed

end
