(* ===== verification/Bytes.thy ===== *)
theory Bytes
  imports Prelude
begin

text \<open>
  Little-endian integers in byte buffers, the way the packed structures of the kernel lie in
  memory and on disk: reading a field at an offset, the bytes of a value, and the round
  trips between the two.
\<close>

definition rd8 :: "u8 list \<Rightarrow> nat \<Rightarrow> u8" where
  "rd8 bs i = bs ! i"

definition rd16 :: "u8 list \<Rightarrow> nat \<Rightarrow> u16" where
  "rd16 bs i = ucast (bs ! i) OR push_bit 8 (ucast (bs ! (i + 1)))"

definition rd32 :: "u8 list \<Rightarrow> nat \<Rightarrow> u32" where
  "rd32 bs i = ucast (rd16 bs i) OR push_bit 16 (ucast (rd16 bs (i + 2)))"

definition rd64 :: "u8 list \<Rightarrow> nat \<Rightarrow> u64" where
  "rd64 bs i = ucast (rd32 bs i) OR push_bit 32 (ucast (rd32 bs (i + 4)))"

definition le16 :: "u16 \<Rightarrow> u8 list" where
  "le16 w = [ucast w, ucast (drop_bit 8 w)]"

definition le32 :: "u32 \<Rightarrow> u8 list" where
  "le32 w = le16 (ucast w) @ le16 (ucast (drop_bit 16 w))"

definition le64 :: "u64 \<Rightarrow> u8 list" where
  "le64 w = le32 (ucast w) @ le32 (ucast (drop_bit 32 w))"

lemma length_le [simp]: "length (le16 a) = 2" "length (le32 b) = 4" "length (le64 c) = 8"
  by (simp_all add: le16_def le32_def le64_def)

lemma join16: "ucast (ucast w :: u8) OR push_bit 8 (ucast (ucast (drop_bit 8 w) :: u8)) = (w :: u16)"
  by (rule bit_word_eqI) (auto simp: bit_simps)

lemma join32: "ucast (ucast w :: u16) OR push_bit 16 (ucast (ucast (drop_bit 16 w) :: u16)) = (w :: u32)"
  by (rule bit_word_eqI) (auto simp: bit_simps)

lemma join64: "ucast (ucast w :: u32) OR push_bit 32 (ucast (ucast (drop_bit 32 w) :: u32)) = (w :: u64)"
  by (rule bit_word_eqI) (auto simp: bit_simps)

lemma split16: "le16 (ucast a OR push_bit 8 (ucast b)) = [a, b]" for a b :: u8
  unfolding le16_def by (simp, intro conjI; rule bit_word_eqI; auto simp: bit_simps dest: bit_imp_le_length)

lemma split32: "(ucast (ucast a OR push_bit 16 (ucast b) :: u32) :: u16) = a"
  "(ucast (drop_bit 16 (ucast a OR push_bit 16 (ucast b) :: u32)) :: u16) = b" for a b :: u16
  by (rule bit_word_eqI, auto simp: bit_simps dest: bit_imp_le_length)+

text \<open>A field read at its place in a buffer.\<close>

lemma rd16_at: "rd16 (xs @ le16 w @ ys) (length xs) = w"
  by (simp add: rd16_def le16_def nth_append join16)

lemma rd32_at: "rd32 (xs @ le32 w @ ys) (length xs) = w"
proof -
  have "rd16 (xs @ le32 w @ ys) (length xs) = ucast w"
    using rd16_at [of xs "ucast w" "le16 (ucast (drop_bit 16 w)) @ ys"] by (simp add: le32_def)
  moreover have "rd16 (xs @ le32 w @ ys) (length xs + 2) = ucast (drop_bit 16 w)"
    using rd16_at [of "xs @ le16 (ucast w)" "ucast (drop_bit 16 w)" ys] by (simp add: le32_def)
  ultimately show ?thesis by (simp add: rd32_def join32)
qed

lemma rd64_at: "rd64 (xs @ le64 w @ ys) (length xs) = w"
proof -
  have "rd32 (xs @ le64 w @ ys) (length xs) = ucast w"
    using rd32_at [of xs "ucast w" "le32 (ucast (drop_bit 32 w)) @ ys"] by (simp add: le64_def)
  moreover have "rd32 (xs @ le64 w @ ys) (length xs + 4) = ucast (drop_bit 32 w)"
    using rd32_at [of "xs @ le32 (ucast w)" "ucast (drop_bit 32 w)" ys] by (simp add: le64_def)
  ultimately show ?thesis by (simp add: rd64_def join64)
qed

lemma le16_rd16: "Suc i < length bs \<Longrightarrow> le16 (rd16 bs i) = take 2 (drop i bs)"
  by (simp add: rd16_def split16 numeral_2_eq_2 take_Suc_conv_app_nth nth_drop hd_drop_conv_nth)

lemma le32_rd32: "i + 3 < length bs \<Longrightarrow> le32 (rd32 bs i) = take 4 (drop i bs)"
proof -
  assume l: "i + 3 < length bs"
  have "le32 (rd32 bs i) = le16 (rd16 bs i) @ le16 (rd16 bs (i + 2))"
    by (simp only: le32_def rd32_def split32)
  also have "\<dots> = take 2 (drop i bs) @ take 2 (drop (i + 2) bs)"
    using l by (simp add: le16_rd16)
  also have "\<dots> = take 4 (drop i bs)"
    using take_add [of 2 2 "drop i bs"] by (simp add: add.commute)
  finally show ?thesis .
qed

subsection \<open>Tables of 32-bit words\<close>

definition words_bytes :: "u32 list \<Rightarrow> u8 list" where
  "words_bytes ws = concat (map le32 ws)"

definition bytes_words :: "u8 list \<Rightarrow> u32 list" where
  "bytes_words bs = map (\<lambda>i. rd32 bs (4 * i)) [0..<length bs div 4]"

lemma length_words_bytes [simp]: "length (words_bytes ws) = 4 * length ws"
  by (induction ws) (simp_all add: words_bytes_def)

lemma length_bytes_words [simp]: "length (bytes_words bs) = length bs div 4"
  by (simp add: bytes_words_def)

lemma bytes_words_bytes: "bytes_words (words_bytes ws) = ws"
proof (rule list_eq_nthI)
  show "length (bytes_words (words_bytes ws)) = length ws" by simp
  fix i assume "i < length (bytes_words (words_bytes ws))"
  then have i: "i < length ws" by simp
  have "words_bytes ws = words_bytes (take i ws) @ le32 (ws ! i) @ words_bytes (drop (Suc i) ws)"
    by (subst id_take_nth_drop [OF i]) (simp add: words_bytes_def)
  moreover have "length (words_bytes (take i ws)) = 4 * i" using i by simp
  ultimately have "rd32 (words_bytes ws) (4 * i) = ws ! i" by (metis rd32_at)
  with i show "bytes_words (words_bytes ws) ! i = ws ! i" by (simp add: bytes_words_def)
qed

text \<open>Storing a run of bytes into a buffer.\<close>

definition put_at :: "nat \<Rightarrow> 'a list \<Rightarrow> 'a list \<Rightarrow> 'a list" where
  "put_at off xs buf = take off buf @ xs @ drop (off + length xs) buf"

lemma length_put_at [simp]: "off + length xs \<le> length buf \<Longrightarrow> length (put_at off xs buf) = length buf"
  by (simp add: put_at_def)

lemma take_put_at: "n \<le> off \<Longrightarrow> off + length xs \<le> length buf \<Longrightarrow> take n (put_at off xs buf) = take n buf"
  by (simp add: put_at_def min_def)

lemma put_at_end: "off + length xs \<le> length buf \<Longrightarrow> take (off + length xs) (put_at off xs buf) = take off buf @ xs"
  by (simp add: put_at_def)

lemma drop_put_at:
  "off + length xs \<le> n \<Longrightarrow> n \<le> length buf \<Longrightarrow> drop n (put_at off xs buf) = drop n buf"
  by (simp add: put_at_def add.commute)

subsection \<open>Packed structures\<close>

text \<open>
  A packed structure is the list of its fields with their sizes in bytes; a field lies where
  the sizes before it add up to.
\<close>

type_synonym layout = "(string \<times> nat) list"

fun offset_of :: "layout \<Rightarrow> string \<Rightarrow> nat" where
  "offset_of [] f = 0"
| "offset_of ((g, n) # l) f = (if f = g then 0 else n + offset_of l f)"

definition layout_size :: "layout \<Rightarrow> nat" where
  "layout_size l = sum_list (map snd l)"

lemma offset_of_le: "offset_of l f \<le> layout_size l"
  by (induction l) (auto simp: layout_size_def)

end
