(* ===== verification/Fat_Data.thy ===== *)
theory Fat_Data
  imports Bytes
begin

text \<open>
  The on-disk structures of \<^verbatim>\<open>include/drivers/fs/fat/fat.h\<close> as packed layouts, the records
  the driver reads out of them (the fields the code uses, at the offsets the structure gives
  them), and the mounted partition. The disk below is a parameter here: \<open>dread\<close> is
  \<^verbatim>\<open>disk::read\<close> (\<open>None\<close> when the driver reports an error, which leaves the buffer as it
  was) and \<open>dwrite\<close> is \<^verbatim>\<open>disk::write\<close>; their contract is the locale \<open>block_device\<close>.
\<close>

definition bpb_layout :: layout where
  "bpb_layout =
     [(''rsv0'', 3), (''oemID'', 8), (''bytes_per_sector'', 2), (''sectors_per_cluster'', 1),
      (''reserved_sectors'', 2), (''num_fats'', 1), (''root_dir_entry_count'', 2),
      (''total_sector_count_16'', 2), (''media_type'', 1), (''fat_size_16'', 2),
      (''sector_per_track'', 2), (''head_count'', 2), (''hidden_sector_count'', 4),
      (''total_sector_count_32'', 4), (''fat_size_32'', 4), (''flags'', 2),
      (''FAT_version'', 2), (''root_dir_cluster'', 4), (''fs_info_sector'', 2),
      (''backup_boot_sector'', 2), (''rsv2'', 12), (''drive_number'', 1), (''rsv3'', 1),
      (''signature'', 1), (''volume_id'', 4), (''volume_label'', 11), (''fs_identifier'', 8),
      (''boot_sector_code'', 420), (''magic_number'', 2)]"

record bpb =
  bytes_per_sector :: u16
  sectors_per_cluster :: u8
  reserved_sectors :: u16
  num_fats :: u8
  total_sector_count_32 :: u32
  fat_size_32 :: u32
  root_dir_cluster :: u32
  fs_info_sector :: u16
  magic_number :: u16

definition parse_bpb :: "u8 list \<Rightarrow> bpb" where
  "parse_bpb b = (let at = offset_of bpb_layout in
     \<lparr>bytes_per_sector = rd16 b (at ''bytes_per_sector''),
      sectors_per_cluster = rd8 b (at ''sectors_per_cluster''),
      reserved_sectors = rd16 b (at ''reserved_sectors''),
      num_fats = rd8 b (at ''num_fats''),
      total_sector_count_32 = rd32 b (at ''total_sector_count_32''),
      fat_size_32 = rd32 b (at ''fat_size_32''),
      root_dir_cluster = rd32 b (at ''root_dir_cluster''),
      fs_info_sector = rd16 b (at ''fs_info_sector''),
      magic_number = rd16 b (at ''magic_number'')\<rparr>)"

definition fsinfo_layout :: layout where
  "fsinfo_layout =
     [(''signature_1'', 4), (''rsv0'', 480), (''signature_2'', 4), (''free_cluster_count'', 4),
      (''cluster_search_start'', 4), (''rsv1'', 12), (''signature_3'', 4)]"

definition FSINFO_SIGNATURE_1 :: u32 where "FSINFO_SIGNATURE_1 = 0x41615252"
definition FSINFO_SIGNATURE_2 :: u32 where "FSINFO_SIGNATURE_2 = 0x61417272"
definition FSINFO_SIGNATURE_3 :: u32 where "FSINFO_SIGNATURE_3 = 0xAA550000"

record fsinfo =
  signature_1 :: u32
  signature_2 :: u32
  free_cluster_count :: u32
  cluster_search_start :: u32
  signature_3 :: u32

definition parse_fsinfo :: "u8 list \<Rightarrow> fsinfo" where
  "parse_fsinfo b = (let at = offset_of fsinfo_layout in
     \<lparr>signature_1 = rd32 b (at ''signature_1''),
      signature_2 = rd32 b (at ''signature_2''),
      free_cluster_count = rd32 b (at ''free_cluster_count''),
      cluster_search_start = rd32 b (at ''cluster_search_start''),
      signature_3 = rd32 b (at ''signature_3'')\<rparr>)"

definition ATTR_DIRECTORY :: u8 where "ATTR_DIRECTORY = 0x10"
definition ATTR_SYSTEM :: u8 where "ATTR_SYSTEM = 0x4"
definition ATTR_LONG_NAME :: u8 where "ATTR_LONG_NAME = 0x1 OR 0x2 OR 0x4 OR 0x8"

definition dirent_layout :: layout where
  "dirent_layout =
     [(''dir_name'', 11), (''dir_attrib'', 1), (''rsv0'', 1), (''time_created_ms'', 1),
      (''time_created'', 2), (''date_created'', 2), (''last_access_date'', 2),
      (''first_cluster_h'', 2), (''last_write_time'', 2), (''last_write_date'', 2),
      (''first_cluster_l'', 2), (''file_size'', 4)]"

definition DIRENT :: nat where "DIRENT = 32"

record dirent =
  dir_name :: "u8 list"
  dir_attrib :: u8
  de_rsv0 :: u8
  time_created_ms :: u8
  time_created :: u16
  date_created :: u16
  last_access_date :: u16
  first_cluster_h :: u16
  last_write_time :: u16
  last_write_date :: u16
  first_cluster_l :: u16
  file_size :: u32

definition parse_dirent :: "u8 list \<Rightarrow> dirent" where
  "parse_dirent b = (let at = offset_of dirent_layout in
     \<lparr>dir_name = take 11 (drop (at ''dir_name'') b), dir_attrib = rd8 b (at ''dir_attrib''),
      de_rsv0 = rd8 b (at ''rsv0''), time_created_ms = rd8 b (at ''time_created_ms''),
      time_created = rd16 b (at ''time_created''), date_created = rd16 b (at ''date_created''),
      last_access_date = rd16 b (at ''last_access_date''),
      first_cluster_h = rd16 b (at ''first_cluster_h''),
      last_write_time = rd16 b (at ''last_write_time''),
      last_write_date = rd16 b (at ''last_write_date''),
      first_cluster_l = rd16 b (at ''first_cluster_l''), file_size = rd32 b (at ''file_size'')\<rparr>)"

definition dirent_bytes :: "dirent \<Rightarrow> u8 list" where
  "dirent_bytes e =
     dir_name e @ [dir_attrib e, de_rsv0 e, time_created_ms e] @ le16 (time_created e) @
     le16 (date_created e) @ le16 (last_access_date e) @ le16 (first_cluster_h e) @
     le16 (last_write_time e) @ le16 (last_write_date e) @ le16 (first_cluster_l e) @
     le32 (file_size e)"

text \<open>\<^verbatim>\<open>(uint32_t)first_cluster_h << 16 | first_cluster_l\<close>\<close>

definition first_cluster :: "dirent \<Rightarrow> u32" where
  "first_cluster e = push_bit 16 (ucast (first_cluster_h e)) OR ucast (first_cluster_l e)"

text \<open>\<^verbatim>\<open>new fat_dir_entry\<close> is zeroed by the heap.\<close>

definition blank_dirent :: dirent where
  "blank_dirent =
     \<lparr>dir_name = replicate 11 0, dir_attrib = 0, de_rsv0 = 0, time_created_ms = 0, time_created = 0,
      date_created = 0, last_access_date = 0, first_cluster_h = 0, last_write_time = 0,
      last_write_date = 0, first_cluster_l = 0, file_size = 0\<rparr>"

record fat_part =
  root_dir :: dirent
  p_bpb :: bpb
  p_fsinfo :: fsinfo
  fat :: "u32 list"
  fat_dirty :: u8
  first_sector :: u32
  total_sectors :: u32
  fat_size :: u32
  first_data_sector :: u32
  first_fat_sector :: u32
  total_clusters :: u32
  gpt_lba :: u64

subsection \<open>The structures have the sizes of the standard\<close>

lemma layout_sizes:
  "layout_size bpb_layout = 512" "layout_size fsinfo_layout = 512" "layout_size dirent_layout = DIRENT"
  by (simp_all add: layout_size_def bpb_layout_def fsinfo_layout_def dirent_layout_def DIRENT_def)

lemma dirent_offsets:
  "offset_of dirent_layout ''dir_name'' = 0" "offset_of dirent_layout ''dir_attrib'' = 11"
  "offset_of dirent_layout ''rsv0'' = 12" "offset_of dirent_layout ''time_created_ms'' = 13"
  "offset_of dirent_layout ''time_created'' = 14" "offset_of dirent_layout ''date_created'' = 16"
  "offset_of dirent_layout ''last_access_date'' = 18" "offset_of dirent_layout ''first_cluster_h'' = 20"
  "offset_of dirent_layout ''last_write_time'' = 22" "offset_of dirent_layout ''last_write_date'' = 24"
  "offset_of dirent_layout ''first_cluster_l'' = 26" "offset_of dirent_layout ''file_size'' = 28"
  by (simp_all add: dirent_layout_def)

lemma length_dirent_bytes [simp]: "length (dir_name e) = 11 \<Longrightarrow> length (dirent_bytes e) = DIRENT"
  by (simp add: dirent_bytes_def DIRENT_def)

lemma parse_dirent_bytes:
  assumes n: "length (dir_name e) = 11"
  shows "parse_dirent (dirent_bytes e @ r) = e"
proof -
  let ?h = "dir_name e @ [dir_attrib e, de_rsv0 e, time_created_ms e]"
  let ?b = "dirent_bytes e @ r"
  have f16: "rd16 (xs @ le16 w @ ys) k = w" if "length xs = k" for xs w ys k
    using rd16_at [of xs w ys] that by simp
  have f32: "rd32 (xs @ le32 w @ ys) k = w" if "length xs = k" for xs w ys k
    using rd32_at [of xs w ys] that by simp
  have w: "rd16 ?b 14 = time_created e" "rd16 ?b 16 = date_created e" "rd16 ?b 18 = last_access_date e"
    "rd16 ?b 20 = first_cluster_h e" "rd16 ?b 22 = last_write_time e" "rd16 ?b 24 = last_write_date e"
    "rd16 ?b 26 = first_cluster_l e" "rd32 ?b 28 = file_size e"
    using n
      f16 [of ?h 14 "time_created e"]
      f16 [of "?h @ le16 (time_created e)" 16 "date_created e"]
      f16 [of "?h @ le16 (time_created e) @ le16 (date_created e)" 18 "last_access_date e"]
      f16 [of "?h @ le16 (time_created e) @ le16 (date_created e) @ le16 (last_access_date e)" 20
        "first_cluster_h e"]
      f16 [of "?h @ le16 (time_created e) @ le16 (date_created e) @ le16 (last_access_date e) @
        le16 (first_cluster_h e)" 22 "last_write_time e"]
      f16 [of "?h @ le16 (time_created e) @ le16 (date_created e) @ le16 (last_access_date e) @
        le16 (first_cluster_h e) @ le16 (last_write_time e)" 24 "last_write_date e"]
      f16 [of "?h @ le16 (time_created e) @ le16 (date_created e) @ le16 (last_access_date e) @
        le16 (first_cluster_h e) @ le16 (last_write_time e) @ le16 (last_write_date e)" 26
        "first_cluster_l e"]
      f32 [of "?h @ le16 (time_created e) @ le16 (date_created e) @ le16 (last_access_date e) @
        le16 (first_cluster_h e) @ le16 (last_write_time e) @ le16 (last_write_date e) @
        le16 (first_cluster_l e)" 28 "file_size e"]
    by (simp_all add: dirent_bytes_def)
  have "?b ! 11 = dir_attrib e" "?b ! 12 = de_rsv0 e" "?b ! 13 = time_created_ms e" "take 11 ?b = dir_name e"
    using n by (simp_all add: dirent_bytes_def nth_append)
  with w show ?thesis by (simp add: parse_dirent_def dirent_offsets rd8_def)
qed

lemma first_cluster_split:
  "first_cluster (e\<lparr>first_cluster_h := ucast (drop_bit 16 w), first_cluster_l := ucast w\<rparr>) = w" for w :: u32
  using join32 [of w] by (simp add: first_cluster_def or.commute)

subsection \<open>The contract of the disk below\<close>

text \<open>
  Reads and writes of whole 512-byte sectors by a 32-bit address. \<open>good l n\<close> says that the
  disk accepts the range of \<open>n\<close> sectors at \<open>l\<close>.
\<close>

definition sector_range :: "u32 \<Rightarrow> u32 \<Rightarrow> nat set" where
  "sector_range l n = {unat l..<unat l + unat n}"

locale block_device =
  fixes dread :: "'d \<Rightarrow> u64 \<Rightarrow> u32 \<Rightarrow> u8 list option"
    and dwrite :: "'d \<Rightarrow> u32 \<Rightarrow> u32 \<Rightarrow> u8 list \<Rightarrow> 'd"
    and good :: "u32 \<Rightarrow> u32 \<Rightarrow> bool"
  assumes read_length: "good l n \<Longrightarrow> \<exists>xs. dread d (ucast l) n = Some xs \<and> length xs = 512 * unat n"
    and read_written: "good l n \<Longrightarrow> length xs = 512 * unat n \<Longrightarrow>
      dread (dwrite d l n xs) (ucast l) n = Some xs"
    and read_other: "good l n \<Longrightarrow> good l' n' \<Longrightarrow> length xs = 512 * unat n \<Longrightarrow>
      sector_range l n \<inter> sector_range l' n' = {} \<Longrightarrow>
      dread (dwrite d l n xs) (ucast l') n' = dread d (ucast l') n'"

end
