(* ===== verification/Fat_Chain.thy ===== *)
theory Fat_Chain
  imports Fat_Data
begin

text \<open>
  Cluster chains: the first half of \<^verbatim>\<open>src/drivers/fs/fat/fat_rw.cpp\<close> with \<^verbatim>\<open>write_fat\<close>
  of \<^verbatim>\<open>fat_init.cpp\<close>. The state is the mounted partition and the disk below it; the FAT is
  the table in memory, and an index past its end is \<open>Out_of_bounds\<close>. The loops that follow a
  chain in the source end when the chain does, so their models take fuel; the loops that
  write, allocate and free end by themselves and are total.
\<close>

subsection \<open>The table\<close>

definition EOC :: u32 where "EOC = 0x0FFFFFF8"
definition BAD_CLUSTER :: u32 where "BAD_CLUSTER = 0x0FFFFFF7"
definition FAT_END :: u32 where "FAT_END = 0xFFFFFFFF"

definition fat_get :: "fat_part \<Rightarrow> u32 \<Rightarrow> u32 res" where
  "fat_get p c = (if unat c < length (fat p) then Inr (fat p ! unat c) else Inl Out_of_bounds)"

definition fat_set :: "u32 \<Rightarrow> u32 \<Rightarrow> fat_part \<Rightarrow> fat_part res" where
  "fat_set c v p =
     (if unat c < length (fat p) then Inr (p\<lparr>fat := (fat p)[unat c := v]\<rparr>) else Inl Out_of_bounds)"

definition get_next_cluster :: "fat_part \<Rightarrow> u32 \<Rightarrow> u32 res" where
  "get_next_cluster p c = rbind (fat_get p c) (\<lambda>v. Inr (v AND NOT 0xF0000000))"

definition cluster_lba :: "fat_part \<Rightarrow> u32 \<Rightarrow> u32" where
  "cluster_lba p c = first_data_sector p + (c - 2) * ucast (sectors_per_cluster (p_bpb p))"

text \<open>Bytes a cluster moves on the disk (its sectors, 512 bytes each), and in the buffer.\<close>

definition cluster_io :: "fat_part \<Rightarrow> nat" where
  "cluster_io p = 512 * unat (sectors_per_cluster (p_bpb p))"

definition cluster_bytes :: "fat_part \<Rightarrow> nat" where
  "cluster_bytes p = unat (bytes_per_sector (p_bpb p)) * unat (sectors_per_cluster (p_bpb p))"

subsection \<open>Reading\<close>

definition read_into ::
  "('d \<Rightarrow> u64 \<Rightarrow> u32 \<Rightarrow> u8 list option) \<Rightarrow> 'd \<Rightarrow> u64 \<Rightarrow> u32 \<Rightarrow> nat \<Rightarrow> u8 list \<Rightarrow> u8 list res" where
  "read_into dread d lba n off buf =
     (if length buf < off + 512 * unat n then Inl Out_of_bounds
      else Inr (case dread d lba n of None \<Rightarrow> buf | Some xs \<Rightarrow> put_at off xs buf))"

fun rcc_loop ::
  "('d \<Rightarrow> u64 \<Rightarrow> u32 \<Rightarrow> u8 list option) \<Rightarrow> nat \<Rightarrow> fat_part \<Rightarrow> 'd \<Rightarrow> nat \<Rightarrow> u8 list \<Rightarrow> u32 \<Rightarrow>
   (int \<times> u8 list) res" where
  "rcc_loop dread 0 p d off buf cluster = Inl Hang"
| "rcc_loop dread (Suc k) p d off buf cluster =
     (if \<not> cluster < EOC then Inr (0, buf)
      else if cluster = BAD_CLUSTER then Inr (- 1, buf)
      else rbind (read_into dread d (ucast (cluster_lba p cluster))
                    (ucast (sectors_per_cluster (p_bpb p))) off buf) (\<lambda>buf.
           rbind (get_next_cluster p cluster) (\<lambda>next.
             rcc_loop dread k p d (off + cluster_bytes p) buf next)))"

definition read_cluster_chain ::
  "('d \<Rightarrow> u64 \<Rightarrow> u32 \<Rightarrow> u8 list option) \<Rightarrow> nat \<Rightarrow> fat_part \<Rightarrow> 'd \<Rightarrow> u8 list \<Rightarrow> u32 \<Rightarrow>
   (int \<times> u8 list) res" where
  "read_cluster_chain dread fuel p d buf start = rcc_loop dread fuel p d 0 buf start"

fun gfs_loop :: "nat \<Rightarrow> fat_part \<Rightarrow> u32 \<Rightarrow> u32 \<Rightarrow> u32 res" where
  "gfs_loop 0 p acc cluster = Inl Hang"
| "gfs_loop (Suc k) p acc cluster =
     (if cluster < EOC
      then rbind (get_next_cluster p cluster) (\<lambda>next.
             gfs_loop k p (acc + of_nat (cluster_bytes p)) next)
      else Inr acc)"

definition get_file_size :: "nat \<Rightarrow> fat_part \<Rightarrow> u32 \<Rightarrow> u32 res" where
  "get_file_size fuel p start = gfs_loop fuel p 0 start"

subsection \<open>Allocating\<close>

function ffc_loop :: "u32 list \<Rightarrow> nat \<Rightarrow> nat \<Rightarrow> nat res" where
  "ffc_loop t tot cur =
     (if cur < tot
      then if length t \<le> cur then Inl Out_of_bounds
           else if t ! cur = 0 then Inr cur else ffc_loop t tot (Suc cur)
      else Inr cur)"
  by pat_completeness auto
termination by (relation "measure (\<lambda>(t, tot, cur). tot - cur)") auto

declare ffc_loop.simps [simp del]

definition find_free_cluster :: "fat_part \<Rightarrow> (u32 \<times> fat_part) res" where
  "find_free_cluster p =
     (let s = cluster_search_start (p_fsinfo p);
          cur = (if s = 0xFFFFFFFF then 2 else unat s)
      in rbind (ffc_loop (fat p) (unat (total_clusters p)) cur) (\<lambda>cur.
           Inr (of_nat cur, p\<lparr>p_fsinfo := (p_fsinfo p)\<lparr>cluster_search_start := of_nat cur\<rparr>\<rparr>)))"

subsection \<open>Writing\<close>

definition write_from ::
  "('d \<Rightarrow> u32 \<Rightarrow> u32 \<Rightarrow> u8 list \<Rightarrow> 'd) \<Rightarrow> 'd \<Rightarrow> u32 \<Rightarrow> u32 \<Rightarrow> nat \<Rightarrow> u8 list \<Rightarrow> 'd res" where
  "write_from dwrite d lba n off buf =
     (if length buf < off + 512 * unat n then Inl Out_of_bounds
      else Inr (dwrite d lba n (take (512 * unat n) (drop off buf))))"

definition fsinfo_lba :: "fat_part \<Rightarrow> u32" where
  "fsinfo_lba p = ucast (gpt_lba p + ucast (fs_info_sector (p_bpb p)))"

text \<open>The FSINFO sector is read where the comment says it is written.\<close>

definition write_fat ::
  "('d \<Rightarrow> u64 \<Rightarrow> u32 \<Rightarrow> u8 list option) \<Rightarrow> ('d \<Rightarrow> u32 \<Rightarrow> u32 \<Rightarrow> u8 list \<Rightarrow> 'd) \<Rightarrow> fat_part \<Rightarrow> 'd \<Rightarrow>
   (fat_part \<times> 'd) res" where
  "write_fat dread dwrite p d =
     rbind (write_from dwrite d (first_fat_sector p) (fat_size p) 0 (words_bytes (fat p))) (\<lambda>d.
       Inr (p\<lparr>p_fsinfo := (case dread d (ucast (fsinfo_lba p)) 1 of
                            None \<Rightarrow> p_fsinfo p | Some s \<Rightarrow> parse_fsinfo s),
              fat_dirty := 0\<rparr>, d))"

text \<open>
  The loop of \<^verbatim>\<open>write_cluster_chain\<close>, \<open>n\<close> clusters to go. \<open>Inl\<close> of the result is the return
  in the middle (status \<open>- 2\<close>), \<open>Inr\<close> the end of the loop with the value of \<^verbatim>\<open>next\<close>.
\<close>

fun wcc_loop ::
  "('d \<Rightarrow> u32 \<Rightarrow> u32 \<Rightarrow> u8 list \<Rightarrow> 'd) \<Rightarrow> nat \<Rightarrow> u8 list \<Rightarrow> nat \<Rightarrow> u32 \<Rightarrow> u32 \<Rightarrow> u32 \<Rightarrow> fat_part \<Rightarrow> 'd \<Rightarrow>
   ((unit + u32) \<times> fat_part \<times> 'd) res" where
  "wcc_loop dwrite 0 buf off cur prev nxt p d = Inr (Inr nxt, p, d)"
| "wcc_loop dwrite (Suc n) buf off cur prev nxt p d =
     rbind (if prev \<noteq> 0 then fat_set prev cur p else Inr p) (\<lambda>p.
     rbind (write_from dwrite d (cluster_lba p cur) (ucast (sectors_per_cluster (p_bpb p))) off buf) (\<lambda>d.
     rbind (fat_get p cur) (\<lambda>nxt.
     rbind (fat_set cur FAT_END p) (\<lambda>p.
       if nxt = 0
       then rbind (find_free_cluster p) (\<lambda>(c, p).
              if c = total_clusters p then Inr (Inl (), p, d)
              else wcc_loop dwrite n buf (off + cluster_bytes p) c cur nxt p d)
       else wcc_loop dwrite n buf (off + cluster_bytes p) nxt cur nxt p d))))"

text \<open>The loop that frees the rest of a chain; a cluster once freed reads as 0 and ends it.\<close>

definition used_entries :: "u32 list \<Rightarrow> nat" where
  "used_entries t = card {i. i < length t \<and> t ! i \<noteq> 0}"

lemma used_entries_clear:
  assumes "i < length t" and "t ! i \<noteq> 0"
  shows "used_entries (t[i := 0]) < used_entries t"
proof -
  have "{j. j < length (t[i := 0]) \<and> t[i := 0] ! j \<noteq> 0} \<subset> {j. j < length t \<and> t ! j \<noteq> 0}"
    using assms by (auto simp: nth_list_update)
  then show ?thesis unfolding used_entries_def by (intro psubset_card_mono) auto
qed

function free_orphans :: "u32 list \<Rightarrow> u32 \<Rightarrow> nat \<Rightarrow> (u32 list \<times> nat) res" where
  "free_orphans t orphan freed =
     (if orphan \<noteq> 0 \<and> orphan < EOC
      then if orphan = BAD_CLUSTER then Inr (t, freed)
           else if length t \<le> unat orphan then Inl Out_of_bounds
           else free_orphans (t[unat orphan := 0]) (t ! unat orphan AND NOT 0xF0000000) (Suc freed)
      else Inr (t, freed))"
  by pat_completeness auto
termination
  by (relation "measure (\<lambda>(t, orphan, freed). if orphan = 0 then 0 else Suc (used_entries t))")
    (auto intro!: used_entries_clear)

declare free_orphans.simps [simp del]

definition NO_START :: u64 where "NO_START = - 1"

definition write_cluster_chain ::
  "('d \<Rightarrow> u64 \<Rightarrow> u32 \<Rightarrow> u8 list option) \<Rightarrow> ('d \<Rightarrow> u32 \<Rightarrow> u32 \<Rightarrow> u8 list \<Rightarrow> 'd) \<Rightarrow> u8 list \<Rightarrow> u64 \<Rightarrow> u64 \<Rightarrow>
   fat_part \<Rightarrow> 'd \<Rightarrow> (int \<times> fat_part \<times> 'd) res" where
  "write_cluster_chain dread dwrite buf size_bytes start p d =
     (let cluster_size = (of_nat (cluster_bytes p) :: u64)
      in if cluster_size = 0 then Inl Div_by_zero
         else let count = (size_bytes + cluster_size - 1) div cluster_size
              in if count > ucast (free_cluster_count (p_fsinfo p)) then Inr (- 1, p, d)
                 else
                   let p = p\<lparr>p_fsinfo := (p_fsinfo p)\<lparr>free_cluster_count :=
                               free_cluster_count (p_fsinfo p) - ucast count\<rparr>\<rparr>
                   in rbind (if start \<noteq> NO_START then Inr (ucast start, p) else find_free_cluster p)
                        (\<lambda>(first, p).
                          if count = 0 then Inl Uninit_read
                          else rbind (wcc_loop dwrite (unat count) buf 0 first 0 0 p d) (\<lambda>(r, p, d).
                            case r of
                              Inl _ \<Rightarrow> Inr (- 2, p, d)
                            | Inr nxt \<Rightarrow>
                                rbind (free_orphans (fat p) nxt 0) (\<lambda>(t, freed).
                                  let p = p\<lparr>fat := t, p_fsinfo := (p_fsinfo p)\<lparr>free_cluster_count :=
                                              free_cluster_count (p_fsinfo p) + of_nat freed\<rparr>\<rparr>
                                  in rbind (write_fat dread dwrite p d) (\<lambda>(p, d).
                                       Inr (sint first, p, d))))))"

subsection \<open>Chains\<close>

definition next_link :: "u32 list \<Rightarrow> u32 \<Rightarrow> u32" where
  "next_link t c = t ! unat c AND NOT 0xF0000000"

fun chain :: "u32 list \<Rightarrow> u32 \<Rightarrow> u32 list \<Rightarrow> bool" where
  "chain t c [] \<longleftrightarrow> EOC \<le> c"
| "chain t c (x # xs) \<longleftrightarrow> x = c \<and> c < EOC \<and> unat c < length t \<and> chain t (next_link t c) xs"

lemma get_next_link: "unat c < length (fat p) \<Longrightarrow> get_next_cluster p c = Inr (next_link (fat p) c)"
  by (simp add: get_next_cluster_def fat_get_def next_link_def)

lemma gfs_chain:
  "chain (fat p) c cs \<Longrightarrow> length cs < k \<Longrightarrow>
   gfs_loop k p acc c = Inr (acc + of_nat (length cs * cluster_bytes p))"
proof (induction cs arbitrary: c k acc)
  case Nil
  then obtain j where "k = Suc j" by (cases k) auto
  moreover have "\<not> c < EOC" using Nil by (simp add: not_less)
  ultimately show ?case by simp
next
  case (Cons x cs)
  then obtain j where k: "k = Suc j" "length cs < j" by (cases k) auto
  with Cons show ?case by (simp add: get_next_link algebra_simps)
qed

lemma gfs_returns_chain: "gfs_loop k p acc c = Inr r \<Longrightarrow> \<exists>cs. chain (fat p) c cs \<and> length cs < k"
proof (induction k arbitrary: acc c)
  case (Suc k)
  show ?case
  proof (cases "c < EOC")
    case True
    with Suc.prems have len: "unat c < length (fat p)"
      by (auto simp: get_next_cluster_def fat_get_def split: if_splits)
    with True Suc.prems have "gfs_loop k p (acc + of_nat (cluster_bytes p)) (next_link (fat p) c) = Inr r"
      by (simp add: get_next_link)
    from Suc.IH [OF this] obtain cs where "chain (fat p) (next_link (fat p) c) cs" "length cs < k"
      by blast
    with True len show ?thesis by (intro exI [of _ "c # cs"]) simp
  next
    case False
    then show ?thesis by (intro exI [of _ "[]"]) (simp add: not_less)
  qed
qed simp

text \<open>The free clusters from \<open>cur\<close> on, in order.\<close>

definition zeros_from :: "u32 list \<Rightarrow> nat \<Rightarrow> nat \<Rightarrow> nat list" where
  "zeros_from t tot cur = filter (\<lambda>i. t ! i = 0) [cur..<tot]"

lemma zeros_from_step:
  "cur < tot \<Longrightarrow> zeros_from t tot cur =
     (if t ! cur = 0 then cur # zeros_from t tot (Suc cur) else zeros_from t tot (Suc cur))"
  by (simp add: zeros_from_def upt_conv_Cons)

lemma zeros_from_Cons:
  assumes "zeros_from t tot cur = z # zs"
  shows "cur \<le> z" and "z < tot" and "t ! z = 0" and "zeros_from t tot (Suc z) = zs"
    and "zeros_from t tot z = z # zs" and "\<forall>i \<in> {cur..<z}. t ! i \<noteq> 0"
proof -
  have "cur \<le> z \<and> z < tot \<and> t ! z = 0 \<and> zeros_from t tot (Suc z) = zs \<and>
    (\<forall>i \<in> {cur..<z}. t ! i \<noteq> 0)"
    using assms
  proof (induction "tot - cur" arbitrary: cur)
    case 0
    then show ?case by (simp add: zeros_from_def)
  next
    case (Suc n)
    then have lt: "cur < tot" and n: "n = tot - Suc cur" by simp_all
    show ?case
    proof (cases "t ! cur = 0")
      case True
      with Suc.prems zeros_from_step [OF lt, of t] lt show ?thesis by auto
    next
      case False
      with Suc.prems zeros_from_step [OF lt, of t] have "zeros_from t tot (Suc cur) = z # zs" by simp
      from Suc.hyps(1) [OF n this] False show ?thesis
        by (auto simp: Suc_le_eq)
    qed
  qed
  then show "cur \<le> z" "z < tot" "t ! z = 0" "zeros_from t tot (Suc z) = zs"
    "\<forall>i \<in> {cur..<z}. t ! i \<noteq> 0" by auto
  then show "zeros_from t tot z = z # zs" by (simp add: zeros_from_step)
qed

lemma ffc_loop_zeros:
  assumes "tot \<le> length t"
  shows "ffc_loop t tot cur = Inr (case zeros_from t tot cur of [] \<Rightarrow> max cur tot | z # zs \<Rightarrow> z)"
  using assms
proof (induction t tot cur rule: ffc_loop.induct)
  case (1 t tot cur)
  show ?case
  proof (cases "cur < tot")
    case True
    with 1 zeros_from_step [OF True, of t] show ?thesis
      by (subst ffc_loop.simps) (auto split: list.splits)
  next
    case False
    then show ?thesis by (subst ffc_loop.simps) (simp add: zeros_from_def)
  qed
qed

lemma zeros_from_update:
  assumes "zeros_from t tot cur = z # zs" and "i < z" and "v \<noteq> 0" and "tot \<le> length t"
  shows "zeros_from (t[i := w, z := v]) tot z = zs"
proof -
  note z = zeros_from_Cons [OF assms(1)]
  have "zeros_from (t[i := w, z := v]) tot z = zeros_from (t[i := w, z := v]) tot (Suc z)"
    using z(2) assms(3,4) by (subst zeros_from_step) auto
  also have "\<dots> = zeros_from t tot (Suc z)"
    using assms(2) by (auto simp: zeros_from_def intro!: filter_cong)
  finally show ?thesis using z(4) by simp
qed

lemma zeros_from_set: "x \<in> set (zeros_from t tot cur) \<longleftrightarrow> cur \<le> x \<and> x < tot \<and> t ! x = 0"
  by (auto simp: zeros_from_def)

lemma zeros_from_sorted: "sorted (zeros_from t tot cur)" "distinct (zeros_from t tot cur)"
  by (simp_all add: zeros_from_def sorted_wrt_filter)

subsection \<open>The links a fresh chain gets\<close>

fun alloc_links :: "u32 list \<Rightarrow> nat \<Rightarrow> nat list \<Rightarrow> u32 list" where
  "alloc_links t prev [] = t"
| "alloc_links t prev (c # cs) =
     alloc_links ((if prev \<noteq> 0 then t[prev := of_nat c] else t)[c := FAT_END]) c cs"

lemma length_alloc_links [simp]: "length (alloc_links t prev cs) = length t"
  by (induction cs arbitrary: t prev) simp_all

lemma alloc_links_other:
  "i \<notin> set cs \<Longrightarrow> (prev \<noteq> 0 \<Longrightarrow> i \<noteq> prev) \<Longrightarrow> alloc_links t prev cs ! i = t ! i"
  by (induction cs arbitrary: t prev) (auto simp: nth_list_update)

lemma alloc_links_prev:
  "prev \<noteq> 0 \<Longrightarrow> prev \<notin> set (c # cs) \<Longrightarrow> prev < length t \<Longrightarrow> alloc_links t prev (c # cs) ! prev = of_nat c"
  by (auto simp: alloc_links_other)

lemma FAT_END_link: "EOC \<le> FAT_END AND NOT 0xF0000000"
  by (simp add: FAT_END_def EOC_def)

lemma low_link:
  assumes "c < (0x10000000 :: u32)"
  shows "c AND NOT 0xF0000000 = c"
proof -
  have "NOT (0xF0000000 :: u32) = mask 28" by (simp add: mask_eq_exp_minus_1)
  then have "c AND NOT 0xF0000000 = take_bit 28 c" by (simp only: take_bit_eq_mask)
  also have "\<dots> = c"
    using assms
    by (simp add: word_unat_eq_iff unsigned_take_bit_eq take_bit_nat_eq_self word_less_nat_alt)
  finally show ?thesis .
qed

lemma alloc_links_chain:
  assumes "distinct (c # cs)" and "\<forall>x \<in> set (c # cs). 0 < x \<and> x < length t \<and> x < 0x0FFFFFF7"
  shows "chain (alloc_links t prev (c # cs)) (of_nat c) (map of_nat (c # cs))"
  using assms
proof (induction cs arbitrary: t prev c)
  case Nil
  then show ?case
    using FAT_END_link
    by (auto simp: next_link_def unat_of_nat_u32 EOC_def word_less_nat_alt)
next
  case (Cons d cs)
  let ?t = "(if prev \<noteq> 0 then t[prev := of_nat c] else t)[c := FAT_END]"
  let ?R = "alloc_links ?t c (d # cs)"
  have lt: "length ?t = length t" by simp
  have ih: "chain ?R (of_nat d) (map of_nat (d # cs))"
    using Cons.prems by (intro Cons.IH) (simp_all add: lt)
  have uc: "unat (of_nat c :: u32) = c" and ud: "unat (of_nat d :: u32) = d"
    using Cons.prems(2) by (simp_all add: unat_of_nat_u32)
  have "?R ! c = of_nat d" using Cons.prems by (intro alloc_links_prev) (auto simp: lt)
  moreover have "of_nat d < (0x10000000 :: u32)" using Cons.prems(2) by (simp add: word_less_nat_alt ud)
  ultimately have "next_link ?R (of_nat c) = of_nat d" unfolding next_link_def uc
    by (simp only: low_link)
  moreover have "of_nat c < EOC" using Cons.prems(2) by (simp add: EOC_def word_less_nat_alt uc)
  ultimately have R: "chain ?R (of_nat c) (map of_nat (c # d # cs))"
    using ih Cons.prems(2) lt uc by (simp del: alloc_links.simps)
  show ?case by (subst alloc_links.simps(2)) (rule R)
qed

subsection \<open>A fresh chain, as the loop writes it\<close>

fun write_all ::
  "('d \<Rightarrow> u32 \<Rightarrow> u32 \<Rightarrow> u8 list \<Rightarrow> 'd) \<Rightarrow> fat_part \<Rightarrow> u8 list \<Rightarrow> nat \<Rightarrow> nat list \<Rightarrow> 'd \<Rightarrow> 'd" where
  "write_all dwrite p buf off [] d = d"
| "write_all dwrite p buf off (c # cs) d =
     write_all dwrite p buf (off + cluster_bytes p) cs
       (dwrite d (cluster_lba p (of_nat c)) (ucast (sectors_per_cluster (p_bpb p)))
          (take (cluster_io p) (drop off buf)))"

text \<open>What the cluster geometry depends on.\<close>

lemma geometry_frame [simp]:
  "cluster_lba (p\<lparr>fat := t, p_fsinfo := f\<rparr>) = cluster_lba p"
  "cluster_bytes (p\<lparr>fat := t, p_fsinfo := f\<rparr>) = cluster_bytes p"
  "cluster_io (p\<lparr>fat := t, p_fsinfo := f\<rparr>) = cluster_io p"
  "cluster_lba (p\<lparr>fat := t, p_fsinfo := f, fat_dirty := b\<rparr>) = cluster_lba p"
  "cluster_bytes (p\<lparr>fat := t, p_fsinfo := f, fat_dirty := b\<rparr>) = cluster_bytes p"
  "cluster_lba (p\<lparr>fat := t\<rparr>) = cluster_lba p"
  "cluster_bytes (p\<lparr>fat := t\<rparr>) = cluster_bytes p"
  "cluster_io (p\<lparr>fat := t\<rparr>) = cluster_io p"
  "cluster_lba (p\<lparr>p_fsinfo := f\<rparr>) = cluster_lba p"
  "cluster_bytes (p\<lparr>p_fsinfo := f\<rparr>) = cluster_bytes p"
  "cluster_io (p\<lparr>p_fsinfo := f\<rparr>) = cluster_io p"
  "cluster_lba (p\<lparr>p_fsinfo := f, fat_dirty := b\<rparr>) = cluster_lba p"
  "cluster_bytes (p\<lparr>p_fsinfo := f, fat_dirty := b\<rparr>) = cluster_bytes p"
  "cluster_io (p\<lparr>p_fsinfo := f, fat_dirty := b\<rparr>) = cluster_io p"
  by (simp_all add: cluster_lba_def [abs_def] cluster_bytes_def cluster_io_def)

lemma write_all_frame [simp]:
  "write_all dwrite (p\<lparr>fat := t, p_fsinfo := f\<rparr>) buf off cs d = write_all dwrite p buf off cs d"
  "write_all dwrite (p\<lparr>p_fsinfo := f\<rparr>) buf off cs d = write_all dwrite p buf off cs d"
  "write_all dwrite (p\<lparr>fat := t\<rparr>) buf off cs d = write_all dwrite p buf off cs d"
  by (induction cs arbitrary: off d) simp_all

definition table_ok :: "fat_part \<Rightarrow> bool" where
  "table_ok p \<longleftrightarrow>
     unat (total_clusters p) \<le> length (fat p) \<and> unat (total_clusters p) \<le> 0x0FFFFFF7 \<and>
     bytes_per_sector (p_bpb p) = 512 \<and> 0 < sectors_per_cluster (p_bpb p)"

lemma cluster_io_bytes: "table_ok p \<Longrightarrow> cluster_io p = cluster_bytes p \<and> 0 < cluster_bytes p"
  by (auto simp: table_ok_def cluster_io_def cluster_bytes_def word_less_nat_alt)

lemma wcc_loop_fresh:
  assumes "table_ok p" and "zeros_from (fat p) (unat (total_clusters p)) z = z # zs"
    and "0 < z" and "prev < z" and "n \<le> length zs"
    and "cluster_search_start (p_fsinfo p) = of_nat z"
    and "off + n * cluster_bytes p \<le> length buf"
  shows "wcc_loop dwrite n buf off (of_nat z) (of_nat prev) nxt p d =
    Inr (Inr (if n = 0 then nxt else 0),
         p\<lparr>fat := alloc_links (fat p) prev (take n (z # zs)),
           p_fsinfo := (p_fsinfo p)\<lparr>cluster_search_start := of_nat ((z # zs) ! n)\<rparr>\<rparr>,
         write_all dwrite p buf off (take n (z # zs)) d)"
  using assms
proof (induction n arbitrary: z zs prev off nxt p d)
  case 0
  then show ?case by simp
next
  case (Suc n)
  let ?T = "unat (total_clusters p)" and ?t = "if prev \<noteq> 0 then (fat p)[prev := of_nat z] else fat p"
  let ?t' = "?t[z := FAT_END]"
  note ok = Suc.prems(1)
  note z = zeros_from_Cons [OF Suc.prems(2)]
  from Suc.prems(5) obtain z2 zs2 where zs: "zs = z2 # zs2" "n \<le> length zs2" by (cases zs) auto
  from ok have tot: "?T \<le> length (fat p)" "?T \<le> 0x0FFFFFF7" by (simp_all add: table_ok_def)
  have uz: "unat (of_nat z :: u32) = z" "unat (of_nat prev :: u32) = prev"
    using z(2) tot(2) Suc.prems(4) by (simp_all add: unat_of_nat_u32)
  have pz: "(of_nat prev :: u32) = 0 \<longleftrightarrow> prev = 0"
    unfolding word_unat_eq_iff uz(2) by simp
  have zlen: "z < length (fat p)" using z(2) tot(1) by simp
  have zt: "zeros_from ?t' ?T z = z2 # zs2"
  proof (cases "prev = 0")
    case True
    have "zeros_from ((fat p)[0 := fat p ! 0, z := FAT_END]) ?T z = zs"
      using Suc.prems(3) tot(1) by (intro zeros_from_update [OF Suc.prems(2)]) (simp_all add: FAT_END_def)
    then show ?thesis using True zs by simp
  next
    case False
    have "zeros_from ((fat p)[prev := of_nat z, z := FAT_END]) ?T z = zs"
      using Suc.prems(4) tot(1) by (intro zeros_from_update [OF Suc.prems(2)]) (simp_all add: FAT_END_def)
    then show ?thesis using False zs by simp
  qed
  note z2 = zeros_from_Cons [OF zt]
  have uz2: "unat (of_nat z2 :: u32) = z2" using z2(2) tot(2) by (simp add: unat_of_nat_u32)
  have z2T: "of_nat z2 \<noteq> total_clusters p" using z2(2) uz2 by auto
  have zE: "of_nat z \<noteq> (0xFFFFFFFF :: u32)" using z(2) tot(2) uz(1) by auto
  have "z < z2" using z2(1) z2(3) zlen by (cases "z = z2") (auto simp: FAT_END_def)
  have cb: "cluster_io p = cluster_bytes p" using cluster_io_bytes [OF ok] by simp
  let ?p2 = "p\<lparr>fat := ?t', p_fsinfo := (p_fsinfo p)\<lparr>cluster_search_start := of_nat z2\<rparr>\<rparr>"
  let ?d2 = "dwrite d (cluster_lba p (of_nat z)) (ucast (sectors_per_cluster (p_bpb p)))
    (take (cluster_io p) (drop off buf))"
  have pre: "(if of_nat prev \<noteq> (0 :: u32) then fat_set (of_nat prev) (of_nat z) p else Inr p) = Inr (p\<lparr>fat := ?t\<rparr>)"
    using pz uz(2) Suc.prems(4) zlen by (simp add: fat_set_def)
  have wr: "write_from dwrite d (cluster_lba p (of_nat z)) (ucast (sectors_per_cluster (p_bpb p))) off buf =
    Inr ?d2"
    using Suc.prems(7) cb by (simp add: write_from_def cluster_io_def)
  have rd: "fat_get (p\<lparr>fat := ?t\<rparr>) (of_nat z) = Inr 0"
    using zlen z(3) Suc.prems(4) uz(1) by (simp add: fat_get_def)
  have st: "fat_set (of_nat z) FAT_END (p\<lparr>fat := ?t\<rparr>) = Inr (p\<lparr>fat := ?t'\<rparr>)"
    using zlen uz(1) by (simp add: fat_set_def)
  have ff: "find_free_cluster (p\<lparr>fat := ?t'\<rparr>) = Inr (of_nat z2, ?p2)"
    using Suc.prems(6) zE uz(1) tot(1) zt by (simp add: find_free_cluster_def Let_def ffc_loop_zeros)
  have "wcc_loop dwrite (Suc n) buf off (of_nat z) (of_nat prev) nxt p d =
    wcc_loop dwrite n buf (off + cluster_bytes p) (of_nat z2) (of_nat z) 0 ?p2 ?d2"
    using pre wr rd st ff z2T by simp
  also have "\<dots> = Inr (Inr (if n = 0 then 0 else 0),
         ?p2\<lparr>fat := alloc_links (fat ?p2) z (take n (z2 # zs2)),
           p_fsinfo := (p_fsinfo ?p2)\<lparr>cluster_search_start := of_nat ((z2 # zs2) ! n)\<rparr>\<rparr>,
         write_all dwrite ?p2 buf (off + cluster_bytes p) (take n (z2 # zs2)) ?d2)"
    using ok tot Suc.prems(3,7) \<open>z < z2\<close> zs(2) z2(5)
    by (intro Suc.IH) (simp_all add: table_ok_def)
  also have "\<dots> = Inr (Inr (if Suc n = 0 then nxt else 0),
         p\<lparr>fat := alloc_links (fat p) prev (take (Suc n) (z # zs)),
           p_fsinfo := (p_fsinfo p)\<lparr>cluster_search_start := of_nat ((z # zs) ! Suc n)\<rparr>\<rparr>,
         write_all dwrite p buf off (take (Suc n) (z # zs)) d)"
    by (simp add: zs(1))
  finally show ?case .
qed

subsection \<open>Where clusters lie\<close>

definition clusters_at :: "fat_part \<Rightarrow> nat \<Rightarrow> nat" where
  "clusters_at p c = unat (first_data_sector p) + (c - 2) * unat (sectors_per_cluster (p_bpb p))"

definition disk_ok :: "(u32 \<Rightarrow> u32 \<Rightarrow> bool) \<Rightarrow> fat_part \<Rightarrow> bool" where
  "disk_ok good p \<longleftrightarrow>
     table_ok p \<and> clusters_at p (unat (total_clusters p)) < 2 ^ 32 \<and>
     (\<forall>c. 2 \<le> c \<and> c < unat (total_clusters p) \<longrightarrow>
        good (cluster_lba p (of_nat c)) (ucast (sectors_per_cluster (p_bpb p)))) \<and>
     512 * unat (fat_size p) \<le> 4 * length (fat p) \<and>
     unat (first_fat_sector p) + unat (fat_size p) \<le> unat (first_data_sector p) \<and>
     good (first_fat_sector p) (fat_size p)"

lemma disk_okD:
  assumes "disk_ok good p"
  shows "table_ok p" and "clusters_at p (unat (total_clusters p)) < 2 ^ 32"
    and "2 \<le> c \<Longrightarrow> c < unat (total_clusters p) \<Longrightarrow>
      good (cluster_lba p (of_nat c)) (ucast (sectors_per_cluster (p_bpb p)))"
    and "512 * unat (fat_size p) \<le> 4 * length (fat p)"
    and "unat (first_fat_sector p) + unat (fat_size p) \<le> unat (first_data_sector p)"
    and "good (first_fat_sector p) (fat_size p)"
  using assms by (auto simp: disk_ok_def)

lemma clusters_at_mono: "c < e \<Longrightarrow> 2 \<le> c \<Longrightarrow>
  clusters_at p c + unat (sectors_per_cluster (p_bpb p)) \<le> clusters_at p e"
proof -
  assume "c < e" "2 \<le> c"
  then have "Suc (c - 2) * unat (sectors_per_cluster (p_bpb p)) \<le>
    (e - 2) * unat (sectors_per_cluster (p_bpb p))" by (intro mult_right_mono) auto
  then show ?thesis by (simp add: clusters_at_def)
qed

lemma unat_cluster_lba:
  assumes ok: "disk_ok good p" and c: "2 \<le> c" "c < unat (total_clusters p)"
  shows "unat (cluster_lba p (of_nat c)) = clusters_at p c"
proof -
  note d = disk_okD [OF ok]
  let ?s = "sectors_per_cluster (p_bpb p)"
  have lt: "clusters_at p c < 2 ^ 32" using clusters_at_mono [OF c(2,1), of p] d(2) by linarith
  have uc: "unat (of_nat c :: u32) = c" using c(2) d(1) by (simp add: table_ok_def unat_of_nat_u32)
  have u2: "unat (of_nat c - 2 :: u32) = c - 2" using c(1) uc by (subst unat_sub_no32) simp_all
  have prod: "unat ((of_nat c - 2) * ucast ?s :: u32) = (c - 2) * unat ?s"
    using lt u2 by (subst unat_mul_no32) (simp_all add: clusters_at_def)
  show ?thesis
    using lt prod unfolding cluster_lba_def
    by (subst unat_add_no32) (simp_all add: clusters_at_def)
qed

lemma sector_range_cluster:
  assumes "disk_ok good p" and "2 \<le> c" and "c < unat (total_clusters p)"
  shows "sector_range (cluster_lba p (of_nat c)) (ucast (sectors_per_cluster (p_bpb p))) =
    {clusters_at p c..<clusters_at p c + unat (sectors_per_cluster (p_bpb p))}"
  by (simp add: sector_range_def unat_cluster_lba [OF assms])

lemma clusters_apart:
  assumes ok: "disk_ok good p" and "2 \<le> c" "c < unat (total_clusters p)"
    and "2 \<le> e" "e < unat (total_clusters p)" and "c \<noteq> e"
  shows "sector_range (cluster_lba p (of_nat c)) (ucast (sectors_per_cluster (p_bpb p))) \<inter>
    sector_range (cluster_lba p (of_nat e)) (ucast (sectors_per_cluster (p_bpb p))) = {}"
proof -
  have "c < e \<or> e < c" using assms(6) by linarith
  then have "{clusters_at p c..<clusters_at p c + unat (sectors_per_cluster (p_bpb p))} \<inter>
    {clusters_at p e..<clusters_at p e + unat (sectors_per_cluster (p_bpb p))} = {}"
    using clusters_at_mono [of c e p] clusters_at_mono [of e c p] assms(2,4) by auto
  then show ?thesis using assms(2-5) by (simp add: sector_range_cluster [OF ok])
qed

lemma fat_apart:
  assumes ok: "disk_ok good p" and "2 \<le> c" "c < unat (total_clusters p)"
  shows "sector_range (first_fat_sector p) (fat_size p) \<inter>
    sector_range (cluster_lba p (of_nat c)) (ucast (sectors_per_cluster (p_bpb p))) = {}"
proof -
  have "unat (first_data_sector p) \<le> clusters_at p c" by (simp add: clusters_at_def)
  then show ?thesis
    using disk_okD(5) [OF ok] sector_range_cluster [OF ok assms(2,3)]
    by (auto simp: sector_range_def [of "first_fat_sector p"])
qed

context block_device
begin

definition cluster_data :: "fat_part \<Rightarrow> 'd \<Rightarrow> u32 \<Rightarrow> u8 list" where
  "cluster_data p d c =
     the (dread d (ucast (cluster_lba p c)) (ucast (sectors_per_cluster (p_bpb p))))"

lemma read_cluster:
  assumes ok: "disk_ok good p" and c: "2 \<le> c" "c < unat (total_clusters p)"
  shows "dread d (ucast (cluster_lba p (of_nat c))) (ucast (sectors_per_cluster (p_bpb p))) =
      Some (cluster_data p d (of_nat c))"
    and "length (cluster_data p d (of_nat c)) = cluster_bytes p"
  using read_length [OF disk_okD(3) [OF ok c], of d] cluster_io_bytes [OF disk_okD(1) [OF ok]]
  by (auto simp: cluster_data_def cluster_io_def)

lemma rcc_chain:
  assumes ok: "disk_ok good p" and "chain (fat p) c cs"
    and "\<forall>x \<in> set cs. 2 \<le> unat x \<and> unat x < unat (total_clusters p)"
    and "length cs < k" and "off + length cs * cluster_bytes p \<le> length buf"
  shows "rcc_loop dread k p d off buf c = Inr (0, take off buf @
    concat (map (cluster_data p d) cs) @ drop (off + length cs * cluster_bytes p) buf)"
  using assms(2-)
proof (induction cs arbitrary: c k off buf)
  case Nil
  then obtain j where "k = Suc j" by (cases k) auto
  moreover have "\<not> c < EOC" using Nil(1) by (simp add: not_less)
  ultimately show ?case by simp
next
  case (Cons x cs)
  obtain j where k: "k = Suc j" "length cs < j" using Cons.prems(3) by (cases k) auto
  from Cons.prems(1) have x: "x = c" "c < EOC" "unat c < length (fat p)"
    "chain (fat p) (next_link (fat p) c) cs" by auto
  have c: "2 \<le> unat c" "unat c < unat (total_clusters p)" using Cons.prems(2) x(1) by auto
  note rd = read_cluster [OF ok c, of d, unfolded of_nat_unat_id]
  let ?cb = "cluster_bytes p" and ?x = "cluster_data p d c"
  have cb: "512 * unat (sectors_per_cluster (p_bpb p)) = ?cb"
    using cluster_io_bytes [OF disk_okD(1) [OF ok]] by (simp add: cluster_io_def)
  have fit: "off + ?cb \<le> length buf" using Cons.prems(4) by simp
  have bad: "c \<noteq> BAD_CLUSTER"
    using c(2) disk_okD(1) [OF ok] by (auto simp: table_ok_def BAD_CLUSTER_def)
  have into: "read_into dread d (ucast (cluster_lba p c)) (ucast (sectors_per_cluster (p_bpb p))) off buf =
    Inr (put_at off ?x buf)"
    using fit cb rd(1) by (simp add: read_into_def)
  have "rcc_loop dread k p d off buf c =
    rcc_loop dread j p d (off + ?cb) (put_at off ?x buf) (next_link (fat p) c)"
    using k x(2,3) bad into by (simp add: get_next_link)
  also have "\<dots> = Inr (0, take (off + ?cb) (put_at off ?x buf) @ concat (map (cluster_data p d) cs) @
    drop (off + ?cb + length cs * ?cb) (put_at off ?x buf))"
    using Cons.prems(2,4) k(2) x(4) rd(2) fit by (intro Cons.IH) simp_all
  also have "take (off + ?cb) (put_at off ?x buf) = take off buf @ ?x"
    using put_at_end [of off ?x buf] rd(2) fit by simp
  also have "drop (off + ?cb + length cs * ?cb) (put_at off ?x buf) = drop (off + ?cb + length cs * ?cb) buf"
    using rd(2) Cons.prems(4) by (intro drop_put_at) simp_all
  finally show ?case by (simp add: x(1) add.assoc)
qed

lemma write_all_other:
  assumes ok: "disk_ok good p" and g: "good l n"
    and "\<forall>c \<in> set cs. 2 \<le> c \<and> c < unat (total_clusters p) \<and>
      sector_range (cluster_lba p (of_nat c)) (ucast (sectors_per_cluster (p_bpb p))) \<inter> sector_range l n = {}"
    and "off + length cs * cluster_bytes p \<le> length buf"
  shows "dread (write_all dwrite p buf off cs d) (ucast l) n = dread d (ucast l) n"
  using assms(3-)
proof (induction cs arbitrary: off d)
  case (Cons c cs)
  let ?x = "take (cluster_io p) (drop off buf)"
  have cb: "cluster_io p = cluster_bytes p" using cluster_io_bytes [OF disk_okD(1) [OF ok]] by simp
  have len: "length ?x = 512 * unat (ucast (sectors_per_cluster (p_bpb p)) :: u32)"
    using Cons.prems(2) cb by (simp add: cluster_io_def)
  have c: "2 \<le> c" "c < unat (total_clusters p)" using Cons.prems(1) by simp_all
  have "dread (dwrite d (cluster_lba p (of_nat c)) (ucast (sectors_per_cluster (p_bpb p))) ?x) (ucast l) n =
    dread d (ucast l) n"
    using Cons.prems(1) by (intro read_other [OF disk_okD(3) [OF ok c] g len]) simp
  with Cons show ?case by simp
qed simp

lemma write_all_cluster_other:
  assumes ok: "disk_ok good p" and "\<forall>c \<in> set cs. 2 \<le> c \<and> c < unat (total_clusters p)"
    and "off + length cs * cluster_bytes p \<le> length buf"
    and e: "2 \<le> e" "e < unat (total_clusters p)" "e \<notin> set cs"
  shows "cluster_data p (write_all dwrite p buf off cs d) (of_nat e) = cluster_data p d (of_nat e)"
proof -
  have "\<forall>c \<in> set cs. 2 \<le> c \<and> c < unat (total_clusters p) \<and>
    sector_range (cluster_lba p (of_nat c)) (ucast (sectors_per_cluster (p_bpb p))) \<inter>
    sector_range (cluster_lba p (of_nat e)) (ucast (sectors_per_cluster (p_bpb p))) = {}"
    using assms(2) e by (metis clusters_apart [OF ok])
  from write_all_other [OF ok disk_okD(3) [OF ok e(1,2)] this assms(3)] show ?thesis
    by (simp add: cluster_data_def)
qed

lemma write_all_read:
  assumes ok: "disk_ok good p" and "\<forall>c \<in> set cs. 2 \<le> c \<and> c < unat (total_clusters p)"
    and "distinct cs" and "off + length cs * cluster_bytes p \<le> length buf"
  shows "concat (map (cluster_data p (write_all dwrite p buf off cs d)) (map of_nat cs)) =
    take (length cs * cluster_bytes p) (drop off buf)"
  using assms(2-)
proof (induction cs arbitrary: off d)
  case (Cons c cs)
  let ?cb = "cluster_bytes p" and ?x = "take (cluster_io p) (drop off buf)"
  let ?d = "dwrite d (cluster_lba p (of_nat c)) (ucast (sectors_per_cluster (p_bpb p))) ?x"
  let ?r = "write_all dwrite p buf (off + ?cb) cs ?d"
  have cb: "cluster_io p = ?cb" using cluster_io_bytes [OF disk_okD(1) [OF ok]] by simp
  have len: "length ?x = 512 * unat (ucast (sectors_per_cluster (p_bpb p)) :: u32)"
    using Cons.prems(3) cb by (simp add: cluster_io_def)
  have c: "2 \<le> c" "c < unat (total_clusters p)" using Cons.prems(1) by simp_all
  have "cluster_data p ?r (of_nat c) = cluster_data p ?d (of_nat c)"
    using Cons.prems c by (intro write_all_cluster_other [OF ok]) simp_all
  also have "\<dots> = ?x"
    using read_written [OF disk_okD(3) [OF ok c] len] by (simp add: cluster_data_def)
  finally have "concat (map (cluster_data p (write_all dwrite p buf off (c # cs) d)) (map of_nat (c # cs))) =
    ?x @ concat (map (cluster_data p ?r) (map of_nat cs))" by simp
  also have "concat (map (cluster_data p ?r) (map of_nat cs)) = take (length cs * ?cb) (drop (off + ?cb) buf)"
    using Cons.prems by (intro Cons.IH) simp_all
  finally show ?case by (simp add: cb take_add add.commute)
qed simp

text \<open>A write of a new file, as a whole.\<close>

lemma write_fresh:
  fixes d :: 'd
  assumes ok: "disk_ok good p" and sz: "0 < nbytes" "unat nbytes + cluster_bytes p < 2 ^ 64"
    and n: "n = (unat nbytes + cluster_bytes p - 1) div cluster_bytes p"
    and free: "n \<le> unat (free_cluster_count (p_fsinfo p))"
    and start: "2 \<le> unat (cluster_search_start (p_fsinfo p))" "cluster_search_start (p_fsinfo p) \<noteq> 0xFFFFFFFF"
    and zs: "zeros_from (fat p) (unat (total_clusters p)) (unat (cluster_search_start (p_fsinfo p))) = z # zs"
    and room: "n \<le> length zs" and buf: "n * cluster_bytes p \<le> length buf"
  defines "t \<equiv> alloc_links (fat p) 0 (take n (z # zs))"
  defines "d' \<equiv> dwrite (write_all dwrite p buf 0 (take n (z # zs)) d) (first_fat_sector p) (fat_size p)
    (take (512 * unat (fat_size p)) (words_bytes t))"
  shows "0 < n \<and> (\<exists>f f0. write_cluster_chain dread dwrite buf nbytes NO_START p d =
    Inr (int z, p\<lparr>fat := t, p_fsinfo := f, fat_dirty := 0\<rparr>, d') \<and>
    f = (case dread d' (ucast (fsinfo_lba p)) 1 of None \<Rightarrow> f0 | Some s \<Rightarrow> parse_fsinfo s))"
proof -
  let ?cb = "cluster_bytes p"
  note dk = disk_okD [OF ok] and z = zeros_from_Cons [OF zs]
  have tot: "unat (total_clusters p) \<le> length (fat p)" "unat (total_clusters p) \<le> 0x0FFFFFF7"
    using dk(1) by (simp_all add: table_ok_def)
  have cb: "0 < ?cb" using cluster_io_bytes [OF dk(1)] by simp
  have ucb: "unat (of_nat ?cb :: u64) = ?cb" using sz(2) by (intro unat_of_nat_u64) simp
  have u1: "unat (nbytes + of_nat ?cb) = unat nbytes + ?cb" using sz(2) ucb by (subst unat_add_no) simp_all
  have u2: "unat (nbytes + of_nat ?cb - 1) = unat nbytes + ?cb - 1" using u1 cb by (subst unat_sub_no) simp_all
  have cnt: "unat ((nbytes + of_nat ?cb - 1) div of_nat ?cb) = n" by (simp add: unat_div u2 ucb n)
  have pos: "0 < n" using sz(1) cb unfolding n by (simp add: div_greater_zero_iff word_less_nat_alt)
  have nz: "(of_nat ?cb :: u64) \<noteq> 0" using ucb cb by (metis less_numeral_extra(3) unat_0)
  have uz: "unat (of_nat z :: u32) = z" and sz': "sint (of_nat z :: u32) = int z"
    using z(2) tot(2) by (simp_all add: unat_of_nat_u32 sint_of_nat_u32)
  define p1 where "p1 = p\<lparr>p_fsinfo := (p_fsinfo p)\<lparr>free_cluster_count := free_cluster_count (p_fsinfo p) -
    ucast ((nbytes + of_nat ?cb - 1) div of_nat ?cb)\<rparr>\<rparr>"
  define p2 where "p2 = p1\<lparr>p_fsinfo := (p_fsinfo p1)\<lparr>cluster_search_start := of_nat z\<rparr>\<rparr>"
  have ff: "find_free_cluster p1 = Inr (of_nat z, p2)"
    using start zs tot(1) by (simp add: find_free_cluster_def Let_def ffc_loop_zeros p1_def p2_def)
  have same: "fat p2 = fat p" "cluster_bytes p2 = ?cb" "total_clusters p2 = total_clusters p"
    "table_ok p2" "write_all dwrite p2 = write_all dwrite p"
    using dk(1) by (simp_all add: p1_def p2_def table_ok_def fun_eq_iff)
  have "wcc_loop dwrite n buf 0 (of_nat z) (of_nat 0) 0 p2 d =
    Inr (Inr (if n = 0 then 0 else 0),
         p2\<lparr>fat := alloc_links (fat p2) 0 (take n (z # zs)),
           p_fsinfo := (p_fsinfo p2)\<lparr>cluster_search_start := of_nat ((z # zs) ! n)\<rparr>\<rparr>,
         write_all dwrite p2 buf 0 (take n (z # zs)) d)"
    using same z(1,5) start room buf
    by (intro wcc_loop_fresh) (simp_all add: p2_def)
  then have lp: "\<exists>f. wcc_loop dwrite n buf 0 (of_nat z) 0 0 p2 d =
    Inr (Inr 0, p\<lparr>fat := t, p_fsinfo := f\<rparr>, write_all dwrite p buf 0 (take n (z # zs)) d)"
    using same by (auto simp: t_def p2_def p1_def)
  then obtain f where lp: "wcc_loop dwrite n buf 0 (of_nat z) 0 0 p2 d =
    Inr (Inr 0, p\<lparr>fat := t, p_fsinfo := f\<rparr>, write_all dwrite p buf 0 (take n (z # zs)) d)" by blast
  let ?f = "case dread d' (ucast (fsinfo_lba p)) 1 of None \<Rightarrow> f | Some s \<Rightarrow> parse_fsinfo s"
  have wf: "write_fat dread dwrite (p\<lparr>fat := t, p_fsinfo := f\<rparr>)
      (write_all dwrite p buf 0 (take n (z # zs)) d) =
    Inr (p\<lparr>fat := t, p_fsinfo := ?f, fat_dirty := 0\<rparr>, d')"
    using dk(4)
    by (auto simp: write_fat_def Let_def write_from_def d'_def t_def fsinfo_lba_def
        cong: option.case_cong)
  have "write_cluster_chain dread dwrite buf nbytes NO_START p d =
    Inr (int z, p\<lparr>fat := t, p_fsinfo := ?f, fat_dirty := 0\<rparr>, d')"
    using nz cnt pos free ff lp wf sz'
    by (auto simp: write_cluster_chain_def Let_def NO_START_def word_less_nat_alt free_orphans.simps
        simp flip: p1_def)
  with pos show ?thesis by blast
qed

lemma cluster_data_fat_write:
  assumes ok: "disk_ok good p" and c: "2 \<le> c" "c < unat (total_clusters p)"
    and len: "length xs = 512 * unat (fat_size p)"
  shows "cluster_data (p\<lparr>fat := t, p_fsinfo := f, fat_dirty := b\<rparr>)
      (dwrite d (first_fat_sector p) (fat_size p) xs) (of_nat c) = cluster_data p d (of_nat c)"
  using read_other [OF disk_okD(6) [OF ok] disk_okD(3) [OF ok c] len fat_apart [OF ok c]]
  by (simp add: cluster_data_def)

lemma disk_ok_update:
  "disk_ok good p \<Longrightarrow> length t = length (fat p) \<Longrightarrow> disk_ok good (p\<lparr>fat := t, p_fsinfo := f, fat_dirty := b\<rparr>)"
  by (auto simp: disk_ok_def table_ok_def clusters_at_def)

end

subsection \<open>Overrunning an existing chain\<close>

text \<open>The clusters \<open>cs\<close> in link order, the last one holding the end mark \<open>v\<close>, as the write loop
  reads them (without the mask).\<close>

definition raw_chain :: "u32 list \<Rightarrow> u32 list \<Rightarrow> u32 \<Rightarrow> bool" where
  "raw_chain t cs v \<longleftrightarrow> distinct cs \<and> 0 \<notin> set cs \<and>
     (\<forall>i < length cs. unat (cs ! i) < length t \<and> t ! unat (cs ! i) = (cs @ [v]) ! Suc i)"

lemma raw_chain_Cons:
  assumes "raw_chain t (c # cs) v"
  shows "unat c < length t" and "t ! unat c = (cs @ [v]) ! 0" and "c \<noteq> 0"
    and "unat prev < length t \<Longrightarrow> prev \<notin> set cs \<Longrightarrow> raw_chain (t[unat prev := w, unat c := u]) cs v"
proof -
  from assms have d: "distinct (c # cs)" "0 \<notin> set (c # cs)"
    and e: "\<And>i. i < length (c # cs) \<Longrightarrow> unat ((c # cs) ! i) < length t \<and>
      t ! unat ((c # cs) ! i) = ((c # cs) @ [v]) ! Suc i"
    by (auto simp: raw_chain_def)
  from e [of 0] show "unat c < length t" "t ! unat c = (cs @ [v]) ! 0" by simp_all
  from d show "c \<noteq> 0" by auto
  assume pv: "unat prev < length t" "prev \<notin> set cs"
  have "t[unat prev := w, unat c := u] ! unat (cs ! i) = t ! unat (cs ! i)" if "i < length cs" for i
  proof -
    have "cs ! i \<noteq> prev" "cs ! i \<noteq> c" using that pv(2) d(1) by (auto simp: in_set_conv_nth)
    then have "unat (cs ! i) \<noteq> unat prev" "unat (cs ! i) \<noteq> unat c" by (simp_all add: word_unat_eq_iff)
    then show ?thesis by simp
  qed
  with d e [of "Suc i" for i] show "raw_chain (t[unat prev := w, unat c := u]) cs v"
    by (auto simp: raw_chain_def)
qed

lemma wcc_overrun:
  assumes "raw_chain (fat p) cs v" and "v \<noteq> 0" and "length (fat p) \<le> unat v" and "length cs < n"
    and "prev \<notin> set cs" and "prev \<noteq> 0 \<Longrightarrow> unat prev < length (fat p)"
  shows "wcc_loop dwrite n buf off ((cs @ [v]) ! 0) prev nxt p d = Inl Out_of_bounds"
  using assms
proof (induction cs arbitrary: n off prev nxt p d)
  case Nil
  then obtain m where n: "n = Suc m" by (cases n) auto
  obtain q where q: "(if prev \<noteq> 0 then fat_set prev v p else Inr p) = Inr q"
    and len: "length (fat q) = length (fat p)"
    using Nil(6) by (cases "prev = 0") (auto simp: fat_set_def)
  have "fat_get q v = Inl Out_of_bounds" using Nil(3) len by (simp add: fat_get_def)
  with q n show ?case
    by (auto simp: write_from_def split: if_splits)
next
  case (Cons c cs)
  then obtain m where n: "n = Suc m" by (cases n) auto
  note r = raw_chain_Cons [OF Cons.prems(1)]
  let ?t = "if prev \<noteq> 0 then (fat p)[unat prev := c] else fat p"
  let ?t' = "?t[unat c := FAT_END]"
  have set: "(if prev \<noteq> 0 then fat_set prev c p else Inr p) = Inr (p\<lparr>fat := ?t\<rparr>)"
    using Cons.prems(6) by (simp add: fat_set_def)
  have pc: "prev \<noteq> c" using Cons.prems(5) by auto
  have cn: "c \<notin> set cs" using Cons.prems(1) by (simp add: raw_chain_def)
  have nx: "(cs @ [v]) ! 0 \<noteq> 0"
    using Cons.prems(1,2) by (cases cs) (auto simp: raw_chain_def)
  have get: "fat_get (p\<lparr>fat := ?t\<rparr>) c = Inr ((cs @ [v]) ! 0)"
    using r(1,2) pc by (simp add: fat_get_def word_unat_eq_iff)
  have st: "fat_set c FAT_END (p\<lparr>fat := ?t\<rparr>) = Inr (p\<lparr>fat := ?t'\<rparr>)"
    using r(1) by (simp add: fat_set_def)
  have rc: "raw_chain ?t' cs v"
  proof (cases "prev = 0")
    case True
    have "raw_chain ((fat p)[unat c := fat p ! unat c, unat c := FAT_END]) cs v"
      using r(1) cn by (intro r(4))
    with True show ?thesis by simp
  next
    case False
    with Cons.prems(5,6) have "raw_chain ((fat p)[unat prev := c, unat c := FAT_END]) cs v"
      by (intro r(4)) simp_all
    with False show ?thesis by simp
  qed
  have ih: "wcc_loop dwrite m buf (off + cluster_bytes p) ((cs @ [v]) ! 0) c ((cs @ [v]) ! 0)
    (p\<lparr>fat := ?t'\<rparr>) e = Inl Out_of_bounds" for e
    using rc Cons.prems(2-4) n cn r(1) by (intro Cons.IH) simp_all
  have hd: "((c # cs) @ [v]) ! 0 = c" by simp
  show ?case unfolding hd
    using n set get st nx ih by (auto simp: write_from_def split: if_splits)
qed

subsection \<open>The clusters a fresh chain takes\<close>

lemma fresh_clusters:
  assumes ok: "table_ok p"
    and zs: "zeros_from (fat p) (unat (total_clusters p)) s = z # zs" and start: "2 \<le> s"
    and n: "0 < n" "n \<le> length zs"
  defines "cs \<equiv> take n (z # zs)"
  shows "length cs = n \<and> distinct cs \<and>
    (\<forall>c \<in> set cs. 2 \<le> c \<and> c < unat (total_clusters p) \<and> fat p ! c = 0 \<and> unat (of_nat c :: u32) = c) \<and>
    chain (alloc_links (fat p) 0 cs) (of_nat z) (map of_nat cs) \<and> unat (of_nat z :: u32) = z"
proof -
  let ?T = "unat (total_clusters p)"
  have tot: "?T \<le> length (fat p)" "?T \<le> 0x0FFFFFF7" using ok by (simp_all add: table_ok_def)
  have "set cs \<subseteq> set (zeros_from (fat p) ?T s)" unfolding zs cs_def by (rule set_take_subset)
  then have rng: "2 \<le> c \<and> c < ?T \<and> fat p ! c = 0" if "c \<in> set cs" for c
    using that start by (auto simp: zeros_from_set)
  then have u: "unat (of_nat c :: u32) = c" if "c \<in> set cs" for c
    using that tot(2) by (force intro: unat_of_nat_u32)
  have dist: "distinct cs"
    using zeros_from_sorted(2) [of "fat p" ?T s] unfolding zs cs_def by (rule distinct_take)
  obtain m where m: "n = Suc m" using n(1) by (cases n) auto
  have "chain (alloc_links (fat p) 0 cs) (of_nat z) (map of_nat cs)"
    using dist rng tot unfolding cs_def m take_Suc_Cons by (intro alloc_links_chain) force+
  with rng u dist n(2) m show ?thesis by (auto simp: cs_def)
qed

text \<open>A chain in the data area has no free cluster, and lives on when the table changes elsewhere.\<close>

lemma chain_nonzero:
  assumes "chain t c us" and "\<forall>u \<in> set us. 2 \<le> unat u \<and> unat u < T"
  shows "\<forall>u \<in> set us. t ! unat u \<noteq> 0"
  using assms
proof (induction us arbitrary: c)
  case (Cons u us)
  have "t ! unat u \<noteq> 0"
  proof
    assume z: "t ! unat u = 0"
    then have "next_link t u = 0" by (simp add: next_link_def)
    with Cons.prems show False by (cases us) (auto simp: EOC_def)
  qed
  with Cons show ?case by auto
qed simp

lemma chain_frame:
  "(\<And>u. u \<in> set us \<Longrightarrow> t' ! unat u = t ! unat u) \<Longrightarrow> length t' = length t \<Longrightarrow> chain t' c us \<longleftrightarrow> chain t c us"
  by (induction us arbitrary: c) (auto simp: next_link_def)

subsection \<open>A disk in memory\<close>

text \<open>The contract of the disk has a model: sectors in a table, read back padded to 512 bytes.\<close>

definition ram_sector :: "(nat \<Rightarrow> u8 list) \<Rightarrow> nat \<Rightarrow> u8 list" where
  "ram_sector d i = take 512 (d i @ replicate 512 0)"

definition ram_read :: "(nat \<Rightarrow> u8 list) \<Rightarrow> u64 \<Rightarrow> u32 \<Rightarrow> u8 list option" where
  "ram_read d l n = Some (concat (map (ram_sector d) [unat l..<unat l + unat n]))"

definition ram_write :: "(nat \<Rightarrow> u8 list) \<Rightarrow> u32 \<Rightarrow> u32 \<Rightarrow> u8 list \<Rightarrow> nat \<Rightarrow> u8 list" where
  "ram_write d l n xs =
     (\<lambda>i. if unat l \<le> i \<and> i < unat l + unat n then take 512 (drop (512 * (i - unat l)) xs) else d i)"

lemma length_ram_sector [simp]: "length (ram_sector d i) = 512"
  by (simp add: ram_sector_def)

lemma concat_slices:
  "length xs = m * k \<Longrightarrow> concat (map (\<lambda>i. take m (drop (m * i) xs)) [0..<k]) = xs"
proof (induction k arbitrary: xs)
  case (Suc k)
  have "concat (map (\<lambda>i. take m (drop (m * i) xs)) [0..<k]) =
    concat (map (\<lambda>i. take m (drop (m * i) (take (m * k) xs))) [0..<k])"
  proof (intro arg_cong [of _ _ concat] map_cong refl)
    fix i assume "i \<in> set [0..<k]"
    then have "m * Suc i \<le> m * k" by (intro mult_le_mono2) simp
    then show "take m (drop (m * i) xs) = take m (drop (m * i) (take (m * k) xs))"
      by (simp add: drop_take min_def)
  qed
  also have "\<dots> = take (m * k) xs" using Suc.prems by (intro Suc.IH) simp
  finally show ?case using Suc.prems by simp
qed simp

lemma ram_block_device: "block_device ram_read ram_write (\<lambda>l n. True)"
proof
  fix l n :: u32 and d :: "nat \<Rightarrow> u8 list"
  show "\<exists>xs. ram_read d (ucast l) n = Some xs \<and> length xs = 512 * unat n"
    by (simp add: ram_read_def length_concat comp_def sum_list_triv)
next
  fix l n :: u32 and d :: "nat \<Rightarrow> u8 list" and xs :: "u8 list"
  assume len: "length xs = 512 * unat n"
  have "map (ram_sector (ram_write d l n xs)) [unat l..<unat l + unat n] =
    map (\<lambda>i. take 512 (drop (512 * i) xs)) [0..<unat n]"
  proof (rule list_eq_nthI)
    fix i assume "i < length (map (ram_sector (ram_write d l n xs)) [unat l..<unat l + unat n])"
    then have i: "i < unat n" by simp
    then have "512 * Suc i \<le> length xs" unfolding len by (intro mult_le_mono2) simp
    with i show "map (ram_sector (ram_write d l n xs)) [unat l..<unat l + unat n] ! i =
      map (\<lambda>i. take 512 (drop (512 * i) xs)) [0..<unat n] ! i"
      by (simp add: ram_sector_def ram_write_def)
  qed simp
  then show "ram_read (ram_write d l n xs) (ucast l) n = Some xs"
    using len by (simp add: ram_read_def concat_slices)
next
  fix l n l' n' :: u32 and d :: "nat \<Rightarrow> u8 list" and xs :: "u8 list"
  assume "sector_range l n \<inter> sector_range l' n' = {}"
  then have "ram_write d l n xs i = d i" if "unat l' \<le> i" "i < unat l' + unat n'" for i
    using that by (auto simp: ram_write_def sector_range_def)
  then show "ram_read (ram_write d l n xs) (ucast l') n' = ram_read d (ucast l') n'"
    by (auto simp: ram_read_def ram_sector_def intro!: arg_cong [of _ _ concat])
qed

definition small_part :: fat_part where
  "small_part =
     \<lparr>root_dir = blank_dirent,
      p_bpb = \<lparr>bytes_per_sector = 512, sectors_per_cluster = 1, reserved_sectors = 1, num_fats = 1,
        total_sector_count_32 = 8, fat_size_32 = 1, root_dir_cluster = 2, fs_info_sector = 0,
        magic_number = 0xAA55\<rparr>,
      p_fsinfo = \<lparr>signature_1 = FSINFO_SIGNATURE_1, signature_2 = FSINFO_SIGNATURE_2,
        free_cluster_count = 4, cluster_search_start = 2, signature_3 = FSINFO_SIGNATURE_3\<rparr>,
      fat = EOC # FAT_END # 3 # FAT_END # replicate 124 0, fat_dirty = 0, first_sector = 0, total_sectors = 8, fat_size = 1,
      first_data_sector = 2, first_fat_sector = 1, total_clusters = 8, gpt_lba = 0\<rparr>"

lemma small_part_ok: "disk_ok (\<lambda>l n. True) small_part" "cluster_bytes small_part = 512"
  by (simp_all add: disk_ok_def table_ok_def small_part_def clusters_at_def cluster_bytes_def)

lemma small_part_free: "zeros_from (fat small_part) 8 2 = [4, 5, 6, 7]"
  by (simp add: zeros_from_def small_part_def upt_rec EOC_def FAT_END_def)

subsection \<open>Properties of cluster chains\<close>

lemma written_is_read:
  assumes dev: "block_device dread dwrite good" and ok: "disk_ok good p"
    and nb: "0 < nbytes" "unat nbytes + cluster_bytes p < 2 ^ 64"
    and n: "n = (unat nbytes + cluster_bytes p - 1) div cluster_bytes p"
    and free: "n \<le> unat (free_cluster_count (p_fsinfo p))"
    and start: "2 \<le> unat (cluster_search_start (p_fsinfo p))" "cluster_search_start (p_fsinfo p) \<noteq> 0xFFFFFFFF"
    and room: "n < length (zeros_from (fat p) (unat (total_clusters p)) (unat (cluster_search_start (p_fsinfo p))))"
    and buf: "n * cluster_bytes p \<le> length buf" and out: "length out = n * cluster_bytes p" and fuel: "n < k"
  shows "\<exists>c p' d'. write_cluster_chain dread dwrite buf nbytes NO_START p d = Inr (int (unat c), p', d') \<and>
    read_cluster_chain dread k p' d' out c = Inr (0, take (n * cluster_bytes p) buf)"
proof -
  from room obtain z zs where zs: "zeros_from (fat p) (unat (total_clusters p))
      (unat (cluster_search_start (p_fsinfo p))) = z # zs" "n \<le> length zs"
    by (cases "zeros_from (fat p) (unat (total_clusters p)) (unat (cluster_search_start (p_fsinfo p)))") auto
  let ?cs = "take n (z # zs)" let ?us = "map of_nat ?cs :: u32 list" let ?t = "alloc_links (fat p) 0 ?cs"
  let ?w = "write_all dwrite p buf 0 ?cs d" and ?x = "take (512 * unat (fat_size p)) (words_bytes ?t)"
  let ?d = "dwrite ?w (first_fat_sector p) (fat_size p) ?x"
  note dk = disk_okD [OF ok]
  from block_device.write_fresh [OF dev ok nb n free start zs buf, of d]
  obtain f where pos: "0 < n" and wr: "write_cluster_chain dread dwrite buf nbytes NO_START p d =
    Inr (int z, p\<lparr>fat := ?t, p_fsinfo := f, fat_dirty := 0\<rparr>, ?d)" by blast
  let ?p = "p\<lparr>fat := ?t, p_fsinfo := f, fat_dirty := 0\<rparr>"
  note fc = fresh_clusters [OF dk(1) zs(1) start(1) pos zs(2)]
  have ok': "disk_ok good ?p" by (rule block_device.disk_ok_update [OF dev ok]) simp
  have len: "length ?x = 512 * unat (fat_size p)" using dk(4) by simp
  have A: "map (block_device.cluster_data dread ?p ?d) ?us = map (block_device.cluster_data dread p ?w) ?us"
    using fc by (auto simp: block_device.cluster_data_fat_write [OF dev ok _ _ len])
  have B: "concat (map (block_device.cluster_data dread p ?w) ?us) = take (n * cluster_bytes p) buf"
    using block_device.write_all_read [OF dev ok, of ?cs 0 buf d] fc buf by simp
  have C: "rcc_loop dread k ?p ?d 0 out (of_nat z) = Inr (0, take 0 out @
      concat (map (block_device.cluster_data dread ?p ?d) ?us) @ drop (0 + length ?us * cluster_bytes ?p) out)"
    using fc fuel out by (intro block_device.rcc_chain [OF dev ok']) auto
  have "read_cluster_chain dread k ?p ?d out (of_nat z) = Inr (0, take (n * cluster_bytes p) buf)"
    unfolding read_cluster_chain_def C A B using out zs(2) by simp
  then show ?thesis
    using wr fc by (intro exI [of _ "of_nat z"] exI [of _ ?p] exI [of _ ?d]) simp
qed

text \<open>C2: What is written can be read. On a disk that keeps its contract, a buffer written to a
  new chain while more free clusters than it needs lie from the search start on is read back
  byte for byte by following the chain from the cluster that \<^verbatim>\<open>write_cluster_chain\<close> returned.\<close>

theorem fat_write_read:
  assumes dev: "block_device dread dwrite good" and ok: "disk_ok good p"
    and nb: "0 < nbytes" "unat nbytes + cluster_bytes p < 2 ^ 64"
    and n: "n = (unat nbytes + cluster_bytes p - 1) div cluster_bytes p"
    and free: "n \<le> unat (free_cluster_count (p_fsinfo p))"
    and start: "2 \<le> unat (cluster_search_start (p_fsinfo p))" "cluster_search_start (p_fsinfo p) \<noteq> 0xFFFFFFFF"
    and room: "n < length (zeros_from (fat p) (unat (total_clusters p)) (unat (cluster_search_start (p_fsinfo p))))"
    and buf: "n * cluster_bytes p \<le> length buf" and out: "length out = n * cluster_bytes p" and fuel: "n < k"
  shows "\<exists>c p' d'. write_cluster_chain dread dwrite buf nbytes NO_START p d = Inr (int (unat c), p', d') \<and>
    read_cluster_chain dread k p' d' out c = Inr (0, take (n * cluster_bytes p) buf)"
  using assms by (rule written_is_read)

theorem fat_write_read_witness:
  "\<exists>c p' d'. write_cluster_chain ram_read ram_write (replicate 1024 7) 600 NO_START small_part (\<lambda>_. []) =
     Inr (int (unat c), p', d') \<and>
   read_cluster_chain ram_read 3 p' d' (replicate 1024 0) c = Inr (0, replicate 1024 7)"
proof -
  have T: "unat (total_clusters small_part) = 8" "unat (cluster_search_start (p_fsinfo small_part)) = 2"
    "cluster_search_start (p_fsinfo small_part) \<noteq> 0xFFFFFFFF"
    "unat (free_cluster_count (p_fsinfo small_part)) = 4"
    by (simp_all add: small_part_def)
  have n: "(2 :: nat) = (unat (600 :: u64) + cluster_bytes small_part - 1) div cluster_bytes small_part"
    by (simp add: small_part_ok)
  have room: "2 < length (zeros_from (fat small_part) (unat (total_clusters small_part))
      (unat (cluster_search_start (p_fsinfo small_part))))"
    unfolding T small_part_free by simp
  show ?thesis
    using fat_write_read [OF ram_block_device small_part_ok(1) _ _ n _ _ T(3) room,
        of "replicate 1024 7" "replicate 1024 0" 3 "\<lambda>_. []"]
    by (simp add: small_part_ok T)
qed

text \<open>C6: A new file disturbs no other. Under the same conditions, every chain that was in the
  table before (its clusters in the data area) is still there after the write and reads back
  the same bytes.\<close>

theorem fat_write_keeps_chains:
  assumes dev: "block_device dread dwrite good" and ok: "disk_ok good p"
    and nb: "0 < nbytes" "unat nbytes + cluster_bytes p < 2 ^ 64"
    and n: "n = (unat nbytes + cluster_bytes p - 1) div cluster_bytes p"
    and free: "n \<le> unat (free_cluster_count (p_fsinfo p))"
    and start: "2 \<le> unat (cluster_search_start (p_fsinfo p))" "cluster_search_start (p_fsinfo p) \<noteq> 0xFFFFFFFF"
    and room: "n < length (zeros_from (fat p) (unat (total_clusters p)) (unat (cluster_search_start (p_fsinfo p))))"
    and buf: "n * cluster_bytes p \<le> length buf"
    and other: "chain (fat p) c us" "\<forall>u \<in> set us. 2 \<le> unat u \<and> unat u < unat (total_clusters p)"
    and out: "length us * cluster_bytes p \<le> length out" and fuel: "length us < k"
    and wr: "write_cluster_chain dread dwrite buf nbytes NO_START p d = Inr (r, p', d')"
  shows "read_cluster_chain dread k p' d' out c = read_cluster_chain dread k p d out c"
proof -
  from room obtain z zs where zs: "zeros_from (fat p) (unat (total_clusters p))
      (unat (cluster_search_start (p_fsinfo p))) = z # zs" "n \<le> length zs"
    by (cases "zeros_from (fat p) (unat (total_clusters p)) (unat (cluster_search_start (p_fsinfo p)))") auto
  let ?cs = "take n (z # zs)" let ?t = "alloc_links (fat p) 0 ?cs"
  let ?w = "write_all dwrite p buf 0 ?cs d" and ?x = "take (512 * unat (fat_size p)) (words_bytes ?t)"
  let ?d = "dwrite ?w (first_fat_sector p) (fat_size p) ?x"
  note dk = disk_okD [OF ok]
  from block_device.write_fresh [OF dev ok nb n free start zs buf, of d] wr
  obtain f where pos: "0 < n" and p': "p' = p\<lparr>fat := ?t, p_fsinfo := f, fat_dirty := 0\<rparr>" and d': "d' = ?d"
    by auto
  note fc = fresh_clusters [OF dk(1) zs(1) start(1) pos zs(2)]
  have len: "length ?x = 512 * unat (fat_size p)" using dk(4) by simp
  have ok': "disk_ok good p'" unfolding p' by (rule block_device.disk_ok_update [OF dev ok]) simp
  have nz: "\<forall>u \<in> set us. fat p ! unat u \<noteq> 0" by (rule chain_nonzero [OF other])
  then have free: "\<forall>u \<in> set us. unat u \<notin> set ?cs" using fc by blast
  have ch: "chain (fat p') c us"
    by (rule chain_frame [THEN iffD2, OF _ _ other(1)]) (simp_all add: p' alloc_links_other free)
  have rng: "\<forall>c \<in> set ?cs. 2 \<le> c \<and> c < unat (total_clusters p)" using fc by blast
  have fit: "0 + length ?cs * cluster_bytes p \<le> length buf" using fc buf by (simp only: add_0)
  have A: "map (block_device.cluster_data dread p' d') us = map (block_device.cluster_data dread p d) us"
  proof (intro map_cong refl)
    fix u assume u: "u \<in> set us"
    then have r: "2 \<le> unat u" "unat u < unat (total_clusters p)" "unat u \<notin> set ?cs" using other(2) free by auto
    have "block_device.cluster_data dread p' d' (of_nat (unat u)) = block_device.cluster_data dread p ?w (of_nat (unat u))"
      unfolding p' d' by (rule block_device.cluster_data_fat_write [OF dev ok r(1,2) len])
    also have "\<dots> = block_device.cluster_data dread p d (of_nat (unat u))"
      by (rule block_device.write_all_cluster_other [OF dev ok rng fit r])
    finally show "block_device.cluster_data dread p' d' u = block_device.cluster_data dread p d u" by simp
  qed
  have cb: "cluster_bytes p' = cluster_bytes p" by (simp add: p')
  have "rcc_loop dread k p' d' 0 out c = Inr (0, take 0 out @
      concat (map (block_device.cluster_data dread p' d') us) @ drop (0 + length us * cluster_bytes p') out)"
    using ch other(2) out fuel cb by (intro block_device.rcc_chain [OF dev ok']) (simp_all add: p')
  moreover have "rcc_loop dread k p d 0 out c = Inr (0, take 0 out @
      concat (map (block_device.cluster_data dread p d) us) @ drop (0 + length us * cluster_bytes p) out)"
    using other out fuel by (intro block_device.rcc_chain [OF dev ok]) simp_all
  ultimately show ?thesis by (simp only: read_cluster_chain_def A cb)
qed

lemma small_part_n:
  "(2 :: nat) = (unat (600 :: u64) + cluster_bytes small_part - 1) div cluster_bytes small_part"
  by (simp add: small_part_ok)

lemma small_part_fields:
  "unat (total_clusters small_part) = 8" "unat (cluster_search_start (p_fsinfo small_part)) = 2"
  "cluster_search_start (p_fsinfo small_part) \<noteq> 0xFFFFFFFF"
  "unat (free_cluster_count (p_fsinfo small_part)) = 4"
  by (simp_all add: small_part_def)

lemma small_part_room:
  "2 < length (zeros_from (fat small_part) (unat (total_clusters small_part))
     (unat (cluster_search_start (p_fsinfo small_part))))"
  unfolding small_part_fields small_part_free by simp

lemma small_write:
  "\<exists>r p' d'. write_cluster_chain ram_read ram_write (replicate 1024 7) 600 NO_START small_part (\<lambda>_. []) =
     Inr (r, p', d')"
proof -
  have zs: "zeros_from (fat small_part) (unat (total_clusters small_part))
    (unat (cluster_search_start (p_fsinfo small_part))) = 4 # [5, 6, 7]"
    unfolding small_part_fields by (rule small_part_free)
  show ?thesis
    using block_device.write_fresh [OF ram_block_device small_part_ok(1) _ _ small_part_n _ _
        small_part_fields(3) zs, of "replicate 1024 7" "\<lambda>_. []"]
    by (auto simp: small_part_ok small_part_fields)
qed

lemma small_part_chain: "chain (fat small_part) 2 [2, 3]"
  by (simp add: small_part_def next_link_def EOC_def FAT_END_def)

theorem fat_write_keeps_chains_witness:
  "\<exists>r p' d'. write_cluster_chain ram_read ram_write (replicate 1024 7) 600 NO_START small_part (\<lambda>_. []) =
     Inr (r, p', d') \<and>
   read_cluster_chain ram_read 3 p' d' (replicate 1024 1) 2 =
   read_cluster_chain ram_read 3 small_part (\<lambda>_. []) (replicate 1024 1) 2"
proof -
  from small_write obtain r p' d' where wr: "write_cluster_chain ram_read ram_write (replicate 1024 7) 600
    NO_START small_part (\<lambda>_. []) = Inr (r, p', d')" by blast
  from fat_write_keeps_chains [OF ram_block_device small_part_ok(1) _ _ small_part_n _ _
      small_part_fields(3) small_part_room _ small_part_chain _ _ _ wr, of "replicate 1024 1" 3] wr
  show ?thesis by (simp add: small_part_ok small_part_fields)
qed

text \<open>Allocation is never recorded. \<^verbatim>\<open>write_fat\<close> reads the FSINFO sector where it should
  write it, so after a new file has been written the free cluster count and the search start
  in memory are those that were on the disk before, as if nothing had been allocated.\<close>

lemma fat_write_forgets_fsinfo:
  assumes dev: "block_device dread dwrite good" and ok: "disk_ok good p"
    and nb: "0 < nbytes" "unat nbytes + cluster_bytes p < 2 ^ 64"
    and n: "n = (unat nbytes + cluster_bytes p - 1) div cluster_bytes p"
    and free: "n \<le> unat (free_cluster_count (p_fsinfo p))"
    and start: "2 \<le> unat (cluster_search_start (p_fsinfo p))" "cluster_search_start (p_fsinfo p) \<noteq> 0xFFFFFFFF"
    and room: "n < length (zeros_from (fat p) (unat (total_clusters p)) (unat (cluster_search_start (p_fsinfo p))))"
    and buf: "n * cluster_bytes p \<le> length buf"
    and fsi: "good (fsinfo_lba p) 1" "sector_range (first_fat_sector p) (fat_size p) \<inter> sector_range (fsinfo_lba p) 1 = {}"
      "unat (fsinfo_lba p) < unat (first_data_sector p)"
    and on_disk: "dread d (ucast (fsinfo_lba p)) 1 = Some s"
    and wr: "write_cluster_chain dread dwrite buf nbytes NO_START p d = Inr (r, p', d')"
  shows "p_fsinfo p' = parse_fsinfo s"
proof -
  from room obtain z zs where zs: "zeros_from (fat p) (unat (total_clusters p))
      (unat (cluster_search_start (p_fsinfo p))) = z # zs" "n \<le> length zs"
    by (cases "zeros_from (fat p) (unat (total_clusters p)) (unat (cluster_search_start (p_fsinfo p)))") auto
  let ?cs = "take n (z # zs)" let ?t = "alloc_links (fat p) 0 ?cs"
  let ?w = "write_all dwrite p buf 0 ?cs d" and ?x = "take (512 * unat (fat_size p)) (words_bytes ?t)"
  let ?d = "dwrite ?w (first_fat_sector p) (fat_size p) ?x"
  note dk = disk_okD [OF ok]
  from block_device.write_fresh [OF dev ok nb n free start zs buf, of d] wr
  obtain f0 where pos: "0 < n" and f: "p_fsinfo p' =
    (case dread ?d (ucast (fsinfo_lba p)) 1 of None \<Rightarrow> f0 | Some s \<Rightarrow> parse_fsinfo s)" by auto
  note fc = fresh_clusters [OF dk(1) zs(1) start(1) pos zs(2)]
  have rng: "2 \<le> c" "c < unat (total_clusters p)" if "c \<in> set ?cs" for c using fc that by blast+
  have len: "length ?x = 512 * unat (fat_size p)" using dk(4) by simp
  have "sector_range (cluster_lba p (of_nat c)) (ucast (sectors_per_cluster (p_bpb p))) \<inter>
    sector_range (fsinfo_lba p) 1 = {}" if c: "c \<in> set ?cs" for c
    using fsi(3) unfolding sector_range_cluster [OF ok rng [OF c]]
    by (auto simp: sector_range_def clusters_at_def)
  with rng have "\<forall>c \<in> set ?cs. 2 \<le> c \<and> c < unat (total_clusters p) \<and>
    sector_range (cluster_lba p (of_nat c)) (ucast (sectors_per_cluster (p_bpb p))) \<inter>
    sector_range (fsinfo_lba p) 1 = {}" by blast
  from block_device.write_all_other [OF dev ok fsi(1) this, of 0 buf d]
  have "dread ?w (ucast (fsinfo_lba p)) 1 = dread d (ucast (fsinfo_lba p)) 1" using fc buf by simp
  with block_device.read_other [OF dev dk(6) fsi(1) len fsi(2), of ?w] f on_disk show ?thesis by simp
qed

text \<open>A file cannot grow. Writing more clusters than an existing chain has (its last entry
  an end mark beyond the table) follows the end mark as if it were a cluster: the data goes to
  an address computed from it and the table is read out of bounds, whatever the disk does.\<close>

lemma growing_chain_faults:
  assumes ch: "raw_chain (fat p) (c # cs) v" and v: "v \<noteq> 0" "length (fat p) \<le> unat v"
    and cb: "0 < cluster_bytes p" and nb: "unat nbytes + cluster_bytes p < 2 ^ 64"
    and n: "n = (unat nbytes + cluster_bytes p - 1) div cluster_bytes p"
    and more: "length (c # cs) < n" and free: "n \<le> unat (free_cluster_count (p_fsinfo p))"
  shows "write_cluster_chain dread dwrite buf nbytes (ucast c) p d = Inl Out_of_bounds"
proof -
  have ucb: "unat (of_nat (cluster_bytes p) :: u64) = cluster_bytes p" using nb by (intro unat_of_nat_u64) simp
  have u1: "unat (nbytes + of_nat (cluster_bytes p)) = unat nbytes + cluster_bytes p"
    using nb ucb by (subst unat_add_no) simp_all
  have u2: "unat (nbytes + of_nat (cluster_bytes p) - 1) = unat nbytes + cluster_bytes p - 1"
    using u1 cb by (subst unat_sub_no) simp_all
  have cnt: "unat ((nbytes + of_nat (cluster_bytes p) - 1) div of_nat (cluster_bytes p)) = n"
    by (simp add: unat_div u2 ucb n)
  have nz: "(of_nat (cluster_bytes p) :: u64) \<noteq> 0" using ucb cb by (metis less_numeral_extra(3) unat_0)
  have st: "(ucast c :: u64) \<noteq> NO_START"
  proof
    assume "(ucast c :: u64) = NO_START"
    then have "unat c = unat (NO_START :: u64)" using unat_ucast_32_64 [of c] by simp
    then show False using unsigned_less [of c, where 'a = nat] by (simp add: NO_START_def unsigned_minus_1_eq_mask mask_eq_exp_minus_1)
  qed
  have over: "wcc_loop dwrite n buf 0 c 0 0 q d = Inl Out_of_bounds" if "fat q = fat p" for q
    using wcc_overrun [of q "c # cs" v n 0 dwrite buf 0 0 d] ch v more that
    by (simp add: raw_chain_def)
  have "n \<noteq> 0" using more by simp
  with nz cnt st over free show ?thesis
    by (auto simp: write_cluster_chain_def Let_def word_less_nat_alt)
qed

text \<open>C35: The size of a file is the length of its chain. \<^verbatim>\<open>get_file_size\<close> returns exactly when
  the links lead to an end mark inside the table, and then returns the bytes of the clusters on
  the way (modulo 2 to the 32); on a table with a cycle it never returns.\<close>

theorem get_file_size_chain:
  "((\<exists>k r. get_file_size k p c = Inr r) \<longleftrightarrow> (\<exists>cs. chain (fat p) c cs)) \<and>
   (\<forall>cs k. chain (fat p) c cs \<and> length cs < k \<longrightarrow>
      get_file_size k p c = Inr (of_nat (length cs * cluster_bytes p)))"
  unfolding get_file_size_def using gfs_returns_chain [of _ p 0 c] gfs_chain [of p c _ _ 0]
  by (metis add_0 lessI)

theorem get_file_size_chain_witness: "get_file_size 3 small_part 2 = Inr 1024"
proof -
  have "chain (fat small_part) 2 [2, 3] \<and> length [2 :: u32, 3] < 3"
    by (intro conjI small_part_chain) simp
  from get_file_size_chain [of small_part 2, THEN conjunct2, rule_format, OF this] show ?thesis
    by (simp add: small_part_ok)
qed

end
