(* ===== verification/Fat_File.thy ===== *)
theory Fat_File
  imports Fat_Chain DString
begin

text \<open>
  Files and directories: the second half of \<^verbatim>\<open>fat_rw.cpp\<close>, \<^verbatim>\<open>misc.cpp\<close> and
  \<^verbatim>\<open>mount_part\<close> of \<^verbatim>\<open>fat_init.cpp\<close>. A directory in memory is its byte buffer and an entry
  in it an offset. Pages come from the page allocator with whatever they held before: \<open>junk\<close>
  is their contents. \<open>fuel\<close> bounds the chains that are followed. Error paths log, and logging
  is not modelled here.
\<close>

definition pages :: "(nat \<Rightarrow> u8) \<Rightarrow> nat \<Rightarrow> u8 list" where
  "pages junk n = map junk [0..<4096 * n]"

lemma length_pages [simp]: "length (pages junk n) = 4096 * n"
  by (simp add: pages_def)

subsection \<open>Names\<close>

text \<open>
  \<^verbatim>\<open>filename_to_fat\<close>: the loop counter \<open>i\<close> is a position of the result, and a dot moves it
  to the extension (\<^verbatim>\<open>i = 7\<close>, then \<^verbatim>\<open>i++\<close>). Each round reads one more source character, so
  the source is consumed.
\<close>

fun f2f_loop :: "u8 list \<Rightarrow> nat \<Rightarrow> u8 list \<Rightarrow> u8 list res" where
  "f2f_loop [] i out = (if i < 11 then Inl Out_of_bounds else Inr out)"
| "f2f_loop (c # cs) i out =
     (if i < 11
      then if c = 0 then Inr out
           else if c = 46 then f2f_loop cs 8 out
           else f2f_loop cs (Suc i) (out[i := toUpper c])
      else Inr out)"

definition filename_to_fat :: "dstring \<Rightarrow> u8 list res" where
  "filename_to_fat s = f2f_loop (str_data s) 0 (replicate 11 32)"

subsection \<open>Directories\<close>

text \<open>\<^verbatim>\<open>fat_read_file_entry\<close>: one page more than the size in the entry asks for.\<close>

definition fat_read_file_entry ::
  "('d \<Rightarrow> u64 \<Rightarrow> u32 \<Rightarrow> u8 list option) \<Rightarrow> nat \<Rightarrow> (nat \<Rightarrow> u8) \<Rightarrow> fat_part \<Rightarrow> 'd \<Rightarrow> dirent \<Rightarrow> u8 list res" where
  "fat_read_file_entry dread fuel junk p d e =
     rbind (read_cluster_chain dread fuel p d (pages junk (unat (file_size e) div 4096 + 1)) (first_cluster e))
       (\<lambda>(_, buf). Inr buf)"

definition write_file_entry ::
  "('d \<Rightarrow> u64 \<Rightarrow> u32 \<Rightarrow> u8 list option) \<Rightarrow> ('d \<Rightarrow> u32 \<Rightarrow> u32 \<Rightarrow> u8 list \<Rightarrow> 'd) \<Rightarrow> dirent \<Rightarrow> u8 list \<Rightarrow>
   fat_part \<Rightarrow> 'd \<Rightarrow> (int \<times> fat_part \<times> 'd) res" where
  "write_file_entry dread dwrite e buf p d =
     write_cluster_chain dread dwrite buf (ucast (file_size e)) (ucast (first_cluster e)) p d"

definition entry_at :: "u8 list \<Rightarrow> nat \<Rightarrow> dirent" where
  "entry_at dir off = parse_dirent (drop off dir)"

function search_directory :: "u8 list \<Rightarrow> u8 list \<Rightarrow> nat \<Rightarrow> nat \<Rightarrow> nat option res" where
  "search_directory dir name size_bytes off =
     (if off < size_bytes
      then if length dir < off + DIRENT then Inl Out_of_bounds
           else let e = entry_at dir off
                in if dir_name e ! 0 = 0 then Inr None
                   else if dir_name e ! 0 = 0xE5 \<or> dir_attrib e = ATTR_LONG_NAME
                        then search_directory dir name size_bytes (off + DIRENT)
                        else rbind (strcmp_count name (dir_name e) 11) (\<lambda>same.
                               if same then Inr (Some off)
                               else search_directory dir name size_bytes (off + DIRENT))
      else Inr None)"
  by pat_completeness auto
termination by (relation "measure (\<lambda>(dir, name, n, off). n - off)") (auto simp: DIRENT_def)

declare search_directory.simps [simp del]

text \<open>One component of the path: read the directory, look the name up.\<close>

definition lookup_step ::
  "('d \<Rightarrow> u64 \<Rightarrow> u32 \<Rightarrow> u8 list option) \<Rightarrow> nat \<Rightarrow> (nat \<Rightarrow> u8) \<Rightarrow> fat_part \<Rightarrow> 'd \<Rightarrow> dirent \<Rightarrow> dstring \<Rightarrow>
   dirent option res" where
  "lookup_step dread fuel junk p d cur nm =
     rbind (filename_to_fat nm) (\<lambda>name.
     rbind (fat_read_file_entry dread fuel junk p d cur) (\<lambda>dir.
     rbind (get_file_size fuel p (first_cluster cur)) (\<lambda>n.
     rbind (search_directory dir name (unat n) 0) (\<lambda>r.
       Inr (case r of None \<Rightarrow> None | Some off \<Rightarrow> Some (entry_at dir off))))))"

fun lookup_path ::
  "('d \<Rightarrow> u64 \<Rightarrow> u32 \<Rightarrow> u8 list option) \<Rightarrow> nat \<Rightarrow> (nat \<Rightarrow> u8) \<Rightarrow> fat_part \<Rightarrow> 'd \<Rightarrow> dirent \<Rightarrow> dstring list \<Rightarrow>
   dirent option res" where
  "lookup_path dread fuel junk p d cur [] = Inr (Some cur)"
| "lookup_path dread fuel junk p d cur (c # cs) =
     rbind (lookup_step dread fuel junk p d cur c) (\<lambda>r.
       case r of None \<Rightarrow> Inr None | Some e \<Rightarrow> lookup_path dread fuel junk p d e cs)"

definition get_f32_file_entry ::
  "('d \<Rightarrow> u64 \<Rightarrow> u32 \<Rightarrow> u8 list option) \<Rightarrow> nat \<Rightarrow> (nat \<Rightarrow> u8) \<Rightarrow> fat_part \<Rightarrow> 'd \<Rightarrow> dstring \<Rightarrow>
   dirent option res" where
  "get_f32_file_entry dread fuel junk p d path =
     rbind (string_at path 0) (\<lambda>c.
     rbind (kassert (c = 47)) (\<lambda>_.
     rbind (split 47 path) (\<lambda>comps.
       lookup_path dread fuel junk p d (root_dir p) (drop 1 (elems comps)))))"

subsection \<open>The parent of a path\<close>

text \<open>
  The prefix the four path operations share: the last component, and the path of the
  directory, built as a slash and then a slash before every component between the first and
  the last.
\<close>

fun add_components :: "dstring list \<Rightarrow> dstring \<Rightarrow> dstring res" where
  "add_components [] dir = Inr dir"
| "add_components (c # cs) dir =
     rbind (string_push_back 47 dir) (\<lambda>dir. rbind (string_append c dir) (add_components cs))"

definition split_parent :: "dstring \<Rightarrow> (dstring \<times> dstring) res" where
  "split_parent path =
     rbind (string_at path 0) (\<lambda>c.
     rbind (kassert (c = 47)) (\<lambda>_.
     rbind (split 47 path) (\<lambda>comps.
     rbind (rbind (list_at comps (lst_size comps - 1)) string_copy) (\<lambda>file.
     rbind (string_of [47, 0]) (\<lambda>dir.
     rbind (string_resize (str_size path) dir) (\<lambda>dir.
     rbind (add_components (butlast (drop 1 (elems comps))) dir) (\<lambda>dir.
       Inr (file, dir))))))))"

text \<open>The directory of a path, its entry, its bytes and its size; a NULL entry is dereferenced.\<close>

definition open_parent ::
  "('d \<Rightarrow> u64 \<Rightarrow> u32 \<Rightarrow> u8 list option) \<Rightarrow> nat \<Rightarrow> (nat \<Rightarrow> u8) \<Rightarrow> fat_part \<Rightarrow> 'd \<Rightarrow> dstring \<Rightarrow>
   (dirent \<times> u8 list \<times> u32) res" where
  "open_parent dread fuel junk p d dir =
     rbind (get_f32_file_entry dread fuel junk p d dir) (\<lambda>r.
       case r of
         None \<Rightarrow> Inl Null_deref
       | Some parent \<Rightarrow>
           rbind (fat_read_file_entry dread fuel junk p d parent) (\<lambda>data.
           rbind (get_file_size fuel p (first_cluster parent)) (\<lambda>n. Inr (parent, data, n))))"

definition update_file_entry ::
  "('d \<Rightarrow> u64 \<Rightarrow> u32 \<Rightarrow> u8 list option) \<Rightarrow> ('d \<Rightarrow> u32 \<Rightarrow> u32 \<Rightarrow> u8 list \<Rightarrow> 'd) \<Rightarrow> nat \<Rightarrow> (nat \<Rightarrow> u8) \<Rightarrow>
   dstring \<Rightarrow> dirent \<Rightarrow> fat_part \<Rightarrow> 'd \<Rightarrow> (fat_part \<times> 'd) res" where
  "update_file_entry dread dwrite fuel junk path e p d =
     rbind (split_parent path) (\<lambda>(file, dir).
     rbind (open_parent dread fuel junk p d dir) (\<lambda>(parent, data, n).
     rbind (filename_to_fat file) (\<lambda>name.
     rbind (search_directory data name (unat n) 0) (\<lambda>r.
       case r of
         None \<Rightarrow> Inr (p, d)
       | Some off \<Rightarrow>
           rbind (write_file_entry dread dwrite parent (put_at off (dirent_bytes e) data) p d)
             (\<lambda>(_, p, d). Inr (p, d))))))"

function open_slot :: "u8 list \<Rightarrow> nat \<Rightarrow> nat \<Rightarrow> (bool \<times> nat) res" where
  "open_slot dir size_bytes off =
     (if off < size_bytes
      then if length dir \<le> off then Inl Out_of_bounds
           else if dir ! off = 0 \<or> dir ! off = 0xE5 then Inr (True, off)
           else open_slot dir size_bytes (off + DIRENT)
      else Inr (False, off))"
  by pat_completeness auto
termination by (relation "measure (\<lambda>(dir, n, off). n - off)") (auto simp: DIRENT_def)

declare open_slot.simps [simp del]

definition create_file ::
  "('d \<Rightarrow> u64 \<Rightarrow> u32 \<Rightarrow> u8 list option) \<Rightarrow> ('d \<Rightarrow> u32 \<Rightarrow> u32 \<Rightarrow> u8 list \<Rightarrow> 'd) \<Rightarrow> nat \<Rightarrow> (nat \<Rightarrow> u8) \<Rightarrow>
   dstring \<Rightarrow> dirent \<Rightarrow> u8 list option \<Rightarrow> fat_part \<Rightarrow> 'd \<Rightarrow> (int \<times> fat_part \<times> 'd) res" where
  "create_file dread dwrite fuel junk path entry buffer p d =
     rbind (split_parent path) (\<lambda>(file, dir).
     rbind (filename_to_fat file) (\<lambda>name.
     rbind (rbind (strcmp_count name (dir_name entry) 11) kassert) (\<lambda>_.
     rbind (open_parent dread fuel junk p d dir) (\<lambda>(parent, data, n).
     rbind (search_directory data name (unat n) 0) (\<lambda>r.
       if r \<noteq> None then Inr (- 1, p, d)
       else
         rbind (open_slot data (unat n) 0) (\<lambda>(found, off).
         rbind (if found then Inr (parent, p, d)
                else let parent = parent\<lparr>file_size := file_size parent + 0x1000\<rparr>
                     in rbind (update_file_entry dread dwrite fuel junk dir parent p d) (\<lambda>(p, d).
                          Inr (parent, p, d))) (\<lambda>(parent, p, d).
         if length data < off + DIRENT then Inl Out_of_bounds
         else
           rbind (case buffer of
                    None \<Rightarrow> Inr (Inr (entry\<lparr>file_size := 0, first_cluster_l := 0, first_cluster_h := 0\<rparr>), p, d)
                  | Some buf \<Rightarrow>
                      rbind (write_cluster_chain dread dwrite buf (ucast (file_size entry)) NO_START p d)
                        (\<lambda>(c, p, d).
                          if c < 0 then Inr (Inl (), p, d)
                          else Inr (Inr (entry\<lparr>first_cluster_l := of_int c,
                                               first_cluster_h := ucast (drop_bit 16 (of_int c :: u32))\<rparr>), p, d)))
             (\<lambda>(r, p, d).
               case r of
                 Inl _ \<Rightarrow> Inr (- 2, p, d)
               | Inr e \<Rightarrow>
                   rbind (write_file_entry dread dwrite parent (put_at off (dirent_bytes e) data) p d)
                     (\<lambda>(s, p, d). Inr (if s < 0 then - 3 else 0, p, d))))))))))"

definition save_file ::
  "('d \<Rightarrow> u64 \<Rightarrow> u32 \<Rightarrow> u8 list option) \<Rightarrow> ('d \<Rightarrow> u32 \<Rightarrow> u32 \<Rightarrow> u8 list \<Rightarrow> 'd) \<Rightarrow> nat \<Rightarrow> (nat \<Rightarrow> u8) \<Rightarrow>
   dstring \<Rightarrow> dirent \<Rightarrow> u8 list \<Rightarrow> fat_part \<Rightarrow> 'd \<Rightarrow> (fat_part \<times> 'd) res" where
  "save_file dread dwrite fuel junk path e buf p d =
     rbind (update_file_entry dread dwrite fuel junk path e p d) (\<lambda>(p, d).
     rbind (write_file_entry dread dwrite e buf p d) (\<lambda>(_, p, d). Inr (p, d)))"

text \<open>The loop of \<^verbatim>\<open>delete_file\<close>. It does not stop at cluster 0, so it has no bound of its own.\<close>

fun free_chain :: "nat \<Rightarrow> u32 list \<Rightarrow> u32 \<Rightarrow> nat \<Rightarrow> (u32 list \<times> nat \<times> bool) res" where
  "free_chain 0 t cluster freed = Inl Hang"
| "free_chain (Suc k) t cluster freed =
     (if cluster < EOC
      then if cluster = BAD_CLUSTER then Inr (t, freed, False)
           else if length t \<le> unat cluster then Inl Out_of_bounds
           else free_chain k (t[unat cluster := 0]) (next_link t cluster) (Suc freed)
      else Inr (t, freed, True))"

definition delete_chain ::
  "('d \<Rightarrow> u64 \<Rightarrow> u32 \<Rightarrow> u8 list option) \<Rightarrow> ('d \<Rightarrow> u32 \<Rightarrow> u32 \<Rightarrow> u8 list \<Rightarrow> 'd) \<Rightarrow> nat \<Rightarrow> u32 \<Rightarrow>
   fat_part \<Rightarrow> 'd \<Rightarrow> (fat_part \<times> 'd) res" where
  "delete_chain dread dwrite fuel start p d =
     rbind (free_chain fuel (fat p) start 0) (\<lambda>(t, freed, fin).
       if \<not> fin then Inr (p\<lparr>fat := t\<rparr>, d)
       else write_fat dread dwrite
              (p\<lparr>fat := t, p_fsinfo := (p_fsinfo p)
                  \<lparr>free_cluster_count := free_cluster_count (p_fsinfo p) + of_nat freed,
                    cluster_search_start := min start (cluster_search_start (p_fsinfo p))\<rparr>\<rparr>) d)"

definition delete_file ::
  "('d \<Rightarrow> u64 \<Rightarrow> u32 \<Rightarrow> u8 list option) \<Rightarrow> ('d \<Rightarrow> u32 \<Rightarrow> u32 \<Rightarrow> u8 list \<Rightarrow> 'd) \<Rightarrow> nat \<Rightarrow> (nat \<Rightarrow> u8) \<Rightarrow>
   dstring \<Rightarrow> fat_part \<Rightarrow> 'd \<Rightarrow> (fat_part \<times> 'd) res" where
  "delete_file dread dwrite fuel junk path p d =
     rbind (split_parent path) (\<lambda>(file, dir).
     rbind (filename_to_fat file) (\<lambda>name.
     rbind (open_parent dread fuel junk p d dir) (\<lambda>(parent, data, n).
     rbind (search_directory data name (unat n) 0) (\<lambda>r.
       case r of
         None \<Rightarrow> Inr (p, d)
       | Some off \<Rightarrow>
           rbind (write_file_entry dread dwrite parent (data[off := 0xE5]) p d) (\<lambda>(_, p, d).
             delete_chain dread dwrite fuel (first_cluster (entry_at data off)) p d)))))"

subsection \<open>Mounting\<close>

text \<open>
  \<^verbatim>\<open>read_fat\<close>. The table takes the pages its bytes need and one more; a failed read leaves
  what was in the pages. \<open>lba\<close> is the first block the partition table names.
\<close>

definition read_fat ::
  "('d \<Rightarrow> u64 \<Rightarrow> u32 \<Rightarrow> u8 list option) \<Rightarrow> (nat \<Rightarrow> u8) \<Rightarrow> fat_part \<Rightarrow> 'd \<Rightarrow> fat_part res" where
  "read_fat dread junk p d =
     (let n = unat (fat_size p * ucast (bytes_per_sector (p_bpb p))) div 4096 + 1
      in rbind (read_into dread d (ucast (first_fat_sector p)) (fat_size p) 0 (pages junk n)) (\<lambda>buf.
         rbind (read_into dread d (ucast (fsinfo_lba p)) 1 0 (pages junk 1)) (\<lambda>info.
           Inr (p\<lparr>fat := bytes_words buf, p_fsinfo := parse_fsinfo info, fat_dirty := 0\<rparr>))))"

text \<open>The do-while loop that sizes the root directory.\<close>

fun root_size :: "nat \<Rightarrow> fat_part \<Rightarrow> u32 \<Rightarrow> u32 \<Rightarrow> u32 res" where
  "root_size 0 p acc cluster = Inl Hang"
| "root_size (Suc k) p acc cluster =
     rbind (get_next_cluster p cluster) (\<lambda>cluster.
       let acc = acc + of_nat (cluster_bytes p)
       in if cluster < EOC then root_size k p acc cluster else Inr acc)"

text \<open>\<^verbatim>\<open>print_directory_contents\<close> walks the buffer up to the first free entry; it does not
  know where the buffer ends. The value is the entries it logs.\<close>

function listed_entries :: "u8 list \<Rightarrow> nat \<Rightarrow> dirent list res" where
  "listed_entries dir off =
     (if length dir < off + DIRENT then Inl Out_of_bounds
      else let e = entry_at dir off
           in if dir_name e ! 0 = 0 then Inr []
              else rbind (listed_entries dir (off + DIRENT)) (\<lambda>es.
                     Inr (if dir_name e ! 0 = 0xE5 \<or> dir_attrib e = ATTR_LONG_NAME then es else e # es)))"
  by pat_completeness auto
termination by (relation "measure (\<lambda>(dir, off). Suc (length dir) - off)") (auto simp: DIRENT_def)

declare listed_entries.simps [simp del]

definition no_fsinfo :: fsinfo where
  "no_fsinfo = \<lparr>signature_1 = 0, signature_2 = 0, free_cluster_count = 0, cluster_search_start = 0,
                signature_3 = 0\<rparr>"

text \<open>The partition before its table is read: the geometry the boot sector gives.\<close>

definition volume_of :: "u64 \<Rightarrow> bpb \<Rightarrow> fat_part" where
  "volume_of lba b =
     (let fat_lba = ucast lba + ucast (reserved_sectors b) :: u32
      in \<lparr>root_dir = blank_dirent, p_bpb = b, p_fsinfo = no_fsinfo, fat = [], fat_dirty = 0,
          first_sector = ucast lba, total_sectors = total_sector_count_32 b,
          fat_size = fat_size_32 b,
          first_data_sector = fat_lba + fat_size_32 b * ucast (num_fats b),
          first_fat_sector = fat_lba,
          total_clusters = total_sector_count_32 b div ucast (sectors_per_cluster b),
          gpt_lba = lba\<rparr>)"

definition read_bpb ::
  "('d \<Rightarrow> u64 \<Rightarrow> u32 \<Rightarrow> u8 list option) \<Rightarrow> (nat \<Rightarrow> u8) \<Rightarrow> u64 \<Rightarrow> 'd \<Rightarrow> u8 list res" where
  "read_bpb dread junk lba d = read_into dread d (ucast (ucast lba :: u32)) 1 0 (pages junk 1)"

definition mount_part ::
  "('d \<Rightarrow> u64 \<Rightarrow> u32 \<Rightarrow> u8 list option) \<Rightarrow> nat \<Rightarrow> (nat \<Rightarrow> u8) \<Rightarrow> u64 \<Rightarrow> 'd \<Rightarrow> fat_part option res" where
  "mount_part dread fuel junk lba d =
     rbind (read_bpb dread junk lba d) (\<lambda>sector.
     let b = parse_bpb sector
     in if magic_number b \<noteq> 0xAA55 then Inr None
        else if sectors_per_cluster b = 0 then Inl Div_by_zero
        else
          rbind (read_fat dread junk (volume_of lba b) d) (\<lambda>p.
             if signature_3 (p_fsinfo p) \<noteq> FSINFO_SIGNATURE_3 \<or> signature_2 (p_fsinfo p) \<noteq> FSINFO_SIGNATURE_2 \<or>
                signature_1 (p_fsinfo p) \<noteq> FSINFO_SIGNATURE_1
             then Inr None
             else rbind (root_size fuel p 0 (root_dir_cluster b)) (\<lambda>n.
                  let root = blank_dirent\<lparr>file_size := n, first_cluster_l := ucast (root_dir_cluster b),
                        dir_attrib := ATTR_DIRECTORY OR ATTR_SYSTEM, dir_name := 47 # replicate 10 0\<rparr>
                  in rbind (fat_read_file_entry dread fuel junk p d root) (\<lambda>dir.
                     rbind (listed_entries dir 0) (\<lambda>_.
                       Inr (Some (p\<lparr>root_dir := root\<rparr>)))))))"

subsection \<open>Directories as tables of entries\<close>

definition dir_table :: "dirent list \<Rightarrow> u8 list" where
  "dir_table es = concat (map dirent_bytes es)"

definition names_ok :: "dirent list \<Rightarrow> bool" where
  "names_ok es \<longleftrightarrow> (\<forall>e \<in> set es. length (dir_name e) = 11)"

definition live :: "dirent \<Rightarrow> bool" where
  "live e \<longleftrightarrow> dir_name e ! 0 \<noteq> 0xE5 \<and> dir_attrib e \<noteq> ATTR_LONG_NAME"

text \<open>An entry counts when it is live and no entry up to it has the name that ends a directory.\<close>

definition present :: "dirent list \<Rightarrow> nat \<Rightarrow> bool" where
  "present es i \<longleftrightarrow> i < length es \<and> live (es ! i) \<and> (\<forall>j \<le> i. dir_name (es ! j) ! 0 \<noteq> 0)"

lemma length_dir_table: "names_ok es \<Longrightarrow> length (dir_table es) = DIRENT * length es"
  by (induction es) (simp_all add: dir_table_def names_ok_def)

lemma names_ok_take: "names_ok es \<Longrightarrow> names_ok (take n es)"
  by (auto simp: names_ok_def dest: in_set_takeD)

lemma dir_table_split:
  "i < length es \<Longrightarrow> dir_table es = dir_table (take i es) @ dirent_bytes (es ! i) @ dir_table (drop (Suc i) es)"
  by (subst id_take_nth_drop) (simp_all add: dir_table_def)

lemma entry_at_table:
  assumes "names_ok es" and "i < length es"
  shows "entry_at (dir_table es @ r) (DIRENT * i) = es ! i"
proof -
  have "length (dir_table (take i es)) = DIRENT * i"
    using assms by (simp add: length_dir_table names_ok_take)
  then have "drop (DIRENT * i) (dir_table es @ r) =
    dirent_bytes (es ! i) @ dir_table (drop (Suc i) es) @ r"
    using assms(2) by (simp add: dir_table_split)
  with assms show ?thesis
    by (simp add: entry_at_def names_ok_def parse_dirent_bytes)
qed

lemma put_at_table:
  assumes "names_ok es" and "i < length es" and "length (dir_name e) = 11"
  shows "put_at (DIRENT * i) (dirent_bytes e) (dir_table es @ r) = dir_table (es[i := e]) @ r"
proof -
  have l: "length (dir_table (take i es)) = DIRENT * i"
    using assms by (simp add: length_dir_table names_ok_take)
  have e: "length (dirent_bytes (es ! i)) = DIRENT" using assms by (simp add: names_ok_def)
  have "dir_table (es[i := e]) = dir_table (take i es) @ dirent_bytes e @ dir_table (drop (Suc i) es)"
    using assms(2) by (simp add: dir_table_def upd_conv_take_nth_drop)
  moreover have "put_at (DIRENT * i) (dirent_bytes e) (dir_table es @ r) =
    dir_table (take i es) @ dirent_bytes e @ dir_table (drop (Suc i) es) @ r"
    unfolding put_at_def dir_table_split [OF assms(2)] using l e assms(3) by simp
  ultimately show ?thesis by simp
qed

lemma strcmp_count_all: "length a = n \<Longrightarrow> length b = n \<Longrightarrow> strcmp_count a b n = Inr (a = b)"
proof (induction n arbitrary: a b)
  case (Suc n)
  then obtain x a' y b' where "a = x # a'" "b = y # b'" by (auto simp: length_Suc_conv)
  with Suc show ?case by auto
qed simp

fun find_entry :: "u8 list \<Rightarrow> dirent list \<Rightarrow> nat option" where
  "find_entry nm [] = None"
| "find_entry nm (e # es) =
     (if dir_name e ! 0 = 0 then None
      else if live e \<and> dir_name e = nm then Some 0
      else map_option Suc (find_entry nm es))"

lemma search_table:
  assumes ok: "names_ok es" and nm: "length nm = 11" and i: "i \<le> length es"
  shows "search_directory (dir_table es @ r) nm (DIRENT * length es) (DIRENT * i) =
    Inr (map_option (\<lambda>k. DIRENT * (i + k)) (find_entry nm (drop i es)))"
  using i
proof (induction "length es - i" arbitrary: i)
  case 0
  then show ?case by (subst search_directory.simps) simp
next
  case (Suc n)
  then have lt: "i < length es" and n: "n = length es - Suc i" by simp_all
  let ?dir = "dir_table es @ r"
  have ih: "search_directory ?dir nm (DIRENT * length es) (DIRENT * i + DIRENT) =
    Inr (map_option (\<lambda>k. DIRENT * (Suc i + k)) (find_entry nm (drop (Suc i) es)))"
    using Suc.hyps(1) [OF n] lt by (simp add: algebra_simps)
  have len: "\<not> length ?dir < DIRENT * i + DIRENT"
    using mult_le_mono2 [of "Suc i" "length es" DIRENT] lt by (simp add: length_dir_table [OF ok])
  have off: "DIRENT * i < DIRENT * length es" using lt by (simp add: DIRENT_def)
  have "length (dir_name (es ! i)) = 11" using ok lt by (simp add: names_ok_def)
  from strcmp_count_all [OF nm this]
  have cmp: "strcmp_count nm (dir_name (es ! i)) 11 = Inr (nm = dir_name (es ! i))" .
  have comp_map: "map_option (\<lambda>k. DIRENT * (i + k)) (map_option Suc x) =
    map_option (\<lambda>k. DIRENT * (Suc i + k)) x" for x
    by (cases x) simp_all
  show ?case
    using lt off len cmp ih entry_at_table [OF ok lt, of r]
    by (subst search_directory.simps)
      (auto simp: Let_def live_def comp_map Cons_nth_drop_Suc [symmetric])
qed

lemma find_entry_spec:
  "case find_entry nm es of
     None \<Rightarrow> \<forall>i. present es i \<longrightarrow> dir_name (es ! i) \<noteq> nm
   | Some i \<Rightarrow> present es i \<and> dir_name (es ! i) = nm \<and> (\<forall>j < i. present es j \<longrightarrow> dir_name (es ! j) \<noteq> nm)"
proof (induction es)
  case Nil
  then show ?case by (simp add: present_def)
next
  case (Cons e es)
  have pS: "present (e # es) (Suc i) \<longleftrightarrow> dir_name e ! 0 \<noteq> 0 \<and> present es i" for i
    by (auto simp: present_def less_Suc_eq_le [symmetric] All_less_Suc2)
  have p0: "present (e # es) 0 \<longleftrightarrow> dir_name e ! 0 \<noteq> 0 \<and> live e"
    by (auto simp: present_def)
  have none: "\<not> present (e # es) i" if "dir_name e ! 0 = 0" for i
    using that by (auto simp: present_def)
  show ?case
  proof (cases "dir_name e ! 0 = 0 \<or> find_entry nm es = None")
    case True
    have "dir_name ((e # es) ! i) \<noteq> nm"
      if "find_entry nm (e # es) = None" and "present (e # es) i" for i
      using that True Cons by (cases i) (auto simp: pS p0 none split: if_splits)
    with True Cons p0 none show ?thesis
      by (auto split: option.splits if_splits)
  next
    case False
    then obtain i where "find_entry nm es = Some i" "dir_name e ! 0 \<noteq> 0" by auto
    with Cons show ?thesis by (auto simp: pS p0 All_less_Suc2)
  qed
qed

lemma find_entryI:
  assumes "present es i" and "dir_name (es ! i) = nm" and "\<And>j. j < i \<Longrightarrow> present es j \<Longrightarrow> dir_name (es ! j) \<noteq> nm"
  shows "find_entry nm es = Some i"
proof (cases "find_entry nm es")
  case None
  with find_entry_spec [of es nm] assms(1,2) show ?thesis by auto
next
  case (Some k)
  with find_entry_spec [of es nm] have k: "present es k" "dir_name (es ! k) = nm"
    "\<forall>j < k. present es j \<longrightarrow> dir_name (es ! j) \<noteq> nm" by auto
  with assms have "\<not> k < i" "\<not> i < k" by blast+
  with Some show ?thesis by simp
qed

definition free_entry :: "dirent \<Rightarrow> bool" where
  "free_entry e \<longleftrightarrow> dir_name e ! 0 = 0 \<or> dir_name e ! 0 = 0xE5"

lemma table_first_byte:
  assumes ok: "names_ok es" and i: "i < length es"
  shows "DIRENT * i < length (dir_table es @ r)" "(dir_table es @ r) ! (DIRENT * i) = dir_name (es ! i) ! 0"
proof -
  have "DIRENT * i < DIRENT * length es" using i by (simp add: DIRENT_def)
  then show l: "DIRENT * i < length (dir_table es @ r)" unfolding length_append length_dir_table [OF ok] by linarith
  have "es ! i = entry_at (dir_table es @ r) (DIRENT * i)" by (simp add: entry_at_table [OF assms])
  also have "dir_name \<dots> ! 0 = (dir_table es @ r) ! (DIRENT * i)"
    using l by (simp add: entry_at_def parse_dirent_def dirent_offsets del: append_assoc drop_append take_append)
  finally show "(dir_table es @ r) ! (DIRENT * i) = dir_name (es ! i) ! 0" by simp
qed

lemma open_slot_table:
  assumes ok: "names_ok es"
  shows "i \<le> length es \<Longrightarrow> open_slot (dir_table es @ r) (DIRENT * length es) (DIRENT * i) = Inr (b, off) \<Longrightarrow>
    (if b then \<exists>k. off = DIRENT * k \<and> i \<le> k \<and> k < length es \<and> free_entry (es ! k) \<and>
        (\<forall>j \<in> {i..<k}. \<not> free_entry (es ! j))
     else off = DIRENT * length es \<and> (\<forall>j \<in> {i..<length es}. \<not> free_entry (es ! j)))"
proof (induction "length es - i" arbitrary: i)
  case 0
  then show ?case by (subst (asm) open_slot.simps) auto
next
  case (Suc n)
  then have lt: "i < length es" and n: "n = length es - Suc i" by simp_all
  note fb = table_first_byte [OF ok lt, of r]
  have lt': "DIRENT * i < DIRENT * length es" using lt by (simp add: DIRENT_def)
  show ?case
  proof (cases "free_entry (es ! i)")
    case True
    with Suc.prems(2) fb lt' have "b \<and> off = DIRENT * i"
      by (subst (asm) open_slot.simps) (auto simp: free_entry_def split: if_splits)
    with True lt show ?thesis by auto
  next
    case False
    with Suc.prems(2) fb lt' have "open_slot (dir_table es @ r) (DIRENT * length es) (DIRENT * Suc i) = Inr (b, off)"
      by (subst (asm) open_slot.simps) (simp add: free_entry_def add.commute)
    from Suc.hyps(1) [OF n _ this] lt have ih: "if b
      then \<exists>k. off = DIRENT * k \<and> Suc i \<le> k \<and> k < length es \<and> free_entry (es ! k) \<and>
        (\<forall>j \<in> {Suc i..<k}. \<not> free_entry (es ! j))
      else off = DIRENT * length es \<and> (\<forall>j \<in> {Suc i..<length es}. \<not> free_entry (es ! j))" by simp
    have ex: "(\<forall>j \<in> {i..<k}. \<not> free_entry (es ! j))" if "\<forall>j \<in> {Suc i..<k}. \<not> free_entry (es ! j)" for k
    proof
      fix j assume "j \<in> {i..<k}"
      with that False show "\<not> free_entry (es ! j)" by (cases "j = i") auto
    qed
    from ih ex show ?thesis by (cases b) (auto dest: Suc_leD)
  qed
qed

subsection \<open>Properties of directories\<close>

text \<open>Searching a directory finds the first entry that counts. In a buffer that starts with
  a table of entries as large as the directory, \<^verbatim>\<open>search_directory\<close> returns the offset of the
  first live entry of the name before the end mark, reading it there gives that very entry,
  and it returns NULL only when no entry that counts has the name.\<close>

lemma search_directory_first:
  assumes "names_ok es" and "length nm = 11"
  shows "\<exists>found. search_directory (dir_table es @ r) nm (DIRENT * length es) 0 = Inr found \<and>
    (case found of
       None \<Rightarrow> \<forall>i. present es i \<longrightarrow> dir_name (es ! i) \<noteq> nm
     | Some off \<Rightarrow> \<exists>i. off = DIRENT * i \<and> present es i \<and> dir_name (es ! i) = nm \<and>
         entry_at (dir_table es @ r) off = es ! i \<and>
         (\<forall>j < i. present es j \<longrightarrow> dir_name (es ! j) \<noteq> nm))"
  using search_table [OF assms le0, of r] find_entry_spec [of es nm] entry_at_table [OF assms(1)]
  by (auto simp: present_def split: option.splits)

definition sample_entry :: "u8 \<Rightarrow> dirent" where
  "sample_entry c = blank_dirent\<lparr>dir_name := replicate 11 c, file_size := 5\<rparr>"

lemma sample_names_ok: "names_ok [sample_entry 65, sample_entry 0xE5, sample_entry 66]"
  by (simp add: names_ok_def sample_entry_def)

text \<open>C24: An entry stored in an open slot can be found. This is about the last step of
  \<^verbatim>\<open>create_file\<close> before it writes the directory back; as \<open>path_operations_fault\<close> shows, the
  function itself does not get that far. The directory is a buffer of entries with eleven-byte
  names. The new entry has a name of eleven bytes that begins neither with 0 nor with 0xE5 and is not a
  long-name entry; the search for its name finds nothing; and the scan for an open slot finds one.
  Then, after the entry has been copied into that slot, a search for its name finds that slot, the
  bytes there read back as the entry, and every other name that was found before is found at the same
  place.\<close>

theorem created_entry_found:
  assumes ok: "names_ok es" and e: "length (dir_name e) = 11" "live e" "dir_name e ! 0 \<noteq> 0"
    and new: "search_directory (dir_table es @ r) (dir_name e) (DIRENT * length es) 0 = Inr None"
    and slot: "open_slot (dir_table es @ r) (DIRENT * length es) 0 = Inr (True, off)"
  shows "search_directory (put_at off (dirent_bytes e) (dir_table es @ r)) (dir_name e) (DIRENT * length es) 0 =
      Inr (Some off) \<and>
    entry_at (put_at off (dirent_bytes e) (dir_table es @ r)) off = e \<and>
    (\<forall>nm o'. nm \<noteq> dir_name e \<and> length nm = 11 \<and>
       search_directory (dir_table es @ r) nm (DIRENT * length es) 0 = Inr (Some o') \<longrightarrow>
       search_directory (put_at off (dirent_bytes e) (dir_table es @ r)) nm (DIRENT * length es) 0 = Inr (Some o'))"
proof -
  from open_slot_table [OF ok, of 0 r True off] slot obtain k where
    k: "off = DIRENT * k" "k < length es" "free_entry (es ! k)" "\<forall>j \<in> {0..<k}. \<not> free_entry (es ! j)"
    by (auto split: if_splits)
  let ?es = "es[k := e]"
  have ok': "names_ok ?es" using ok e(1) by (auto simp: names_ok_def dest!: set_update_subset_insert [THEN subsetD])
  have buf: "put_at off (dirent_bytes e) (dir_table es @ r) = dir_table ?es @ r"
    unfolding k(1) by (rule put_at_table [OF ok k(2) e(1)])
  have none: "find_entry (dir_name e) es = None"
    using search_table [OF ok e(1) le0, of r] new by simp
  have before: "present ?es j \<longleftrightarrow> present es j" "?es ! j = es ! j" if "j < k" for j
    using that by (auto simp: present_def)
  have nz: "\<forall>j < k. dir_name (es ! j) ! 0 \<noteq> 0" using k(4) by (auto simp: free_entry_def)
  have "present ?es k" using k(2) e nz by (auto simp: present_def nth_list_update le_less)
  moreover have "dir_name (?es ! j) \<noteq> dir_name e" if "j < k" "present ?es j" for j
    using find_entry_spec [of es "dir_name e"] none that before [OF that(1)] by auto
  ultimately have "find_entry (dir_name e) ?es = Some k"
    using k(2) by (intro find_entryI) auto
  moreover have "find_entry nm ?es = Some i" if nm: "nm \<noteq> dir_name e" "find_entry nm es = Some i" for nm i
  proof -
    from find_entry_spec [of es nm] nm(2) have i: "present es i" "dir_name (es ! i) = nm"
      "\<forall>j < i. present es j \<longrightarrow> dir_name (es ! j) \<noteq> nm" by auto
    have "i \<noteq> k" using i(1) k(3) by (auto simp: present_def live_def free_entry_def)
    have p: "present ?es j \<Longrightarrow> j \<noteq> k \<Longrightarrow> j \<le> i \<Longrightarrow> present es j" for j
      using i(1) by (auto simp: present_def)
    have "present ?es i" using i(1) \<open>i \<noteq> k\<close> e(3) k(2) by (auto simp: present_def nth_list_update)
    with i p nm(1) \<open>i \<noteq> k\<close> k(2) show ?thesis
      by (intro find_entryI) (auto simp: nth_list_update split: if_splits)
  qed
  ultimately show ?thesis
    unfolding buf using search_table [OF ok' _ le0, of _ r] search_table [OF ok _ le0, of _ r] e(1)
      entry_at_table [OF ok', of k r] k(1,2) by auto
qed

theorem created_entry_found_witness:
  "search_directory (put_at 32 (dirent_bytes (sample_entry 67))
      (dir_table [sample_entry 65, sample_entry 0xE5, sample_entry 66] @ [])) (replicate 11 67) 96 0 = Inr (Some 32)"
proof -
  let ?es = "[sample_entry 65, sample_entry 0xE5, sample_entry 66]"
  have n: "DIRENT * length ?es = 96" by (simp add: DIRENT_def)
  have l: "length (dir_name (sample_entry 67)) = 11" "live (sample_entry 67)" "dir_name (sample_entry 67) ! 0 \<noteq> 0"
    by (simp_all add: sample_entry_def live_def blank_dirent_def ATTR_LONG_NAME_def)
  have fe: "find_entry (dir_name (sample_entry 67)) ?es = None"
    by (simp add: sample_entry_def live_def blank_dirent_def ATTR_LONG_NAME_def numeral_eq_Suc)
  have new: "search_directory (dir_table ?es @ []) (dir_name (sample_entry 67)) (DIRENT * length ?es) 0 = Inr None"
    using search_table [OF sample_names_ok l(1) le0, of "[]"] fe by simp
  have b: "(dir_table ?es @ []) ! 0 = 65" "(dir_table ?es @ []) ! 32 = 0xE5" "length (dir_table ?es @ []) = 96"
    using table_first_byte [OF sample_names_ok, of 0 "[]"] table_first_byte [OF sample_names_ok, of 1 "[]"]
      length_dir_table [OF sample_names_ok]
    by (simp_all add: DIRENT_def sample_entry_def)
  have slot: "open_slot (dir_table ?es @ []) (DIRENT * length ?es) 0 = Inr (True, 32)"
    unfolding n by (subst open_slot.simps, subst open_slot.simps)
      (simp add: b [unfolded append_Nil2] DIRENT_def)
  have "dir_name (sample_entry 67) = replicate 11 67" by (simp add: sample_entry_def)
  with created_entry_found [OF sample_names_ok l new slot] n show ?thesis by simp
qed

subsection \<open>Properties of files\<close>

lemma f2f_loop_returns:
  "0 \<in> set s \<Longrightarrow> length out = 11 \<Longrightarrow> \<exists>nm. f2f_loop s i out = Inr nm \<and> length nm = 11"
proof (induction s i out rule: f2f_loop.induct)
  case (2 c cs i out)
  then show ?case by (cases "c = 0"; cases "c = 46"; cases "i < 11") simp_all
qed simp

lemma filename_to_fat_returns:
  "str_ok s \<Longrightarrow> \<exists>nm. filename_to_fat s = Inr nm \<and> length nm = 11"
  using f2f_loop_returns [of "str_data s" "replicate 11 32" 0] str_okD(3) [of s]
  by (auto simp: filename_to_fat_def holds_def)

lemma filename_to_fat_blank:
  assumes "str_ok s" and "stext s = []"
  shows "filename_to_fat s = Inr (replicate 11 32)"
  using str_okD(3) [OF assms(1)] assms(2) by (auto simp: filename_to_fat_def holds_def)

lemma add_components_ok:
  "str_ok dir \<Longrightarrow> \<forall>c \<in> set cs. str_ok c \<Longrightarrow>
   length (stext dir @ concat (map (\<lambda>c. 47 # stext c) cs)) < 2 ^ 31 \<Longrightarrow>
   \<exists>dir'. add_components cs dir = Inr dir' \<and> str_ok dir' \<and>
     stext dir' = stext dir @ concat (map (\<lambda>c. 47 # stext c) cs)"
proof (induction cs arbitrary: dir)
  case (Cons c cs)
  note len = Cons.prems(3)
  have "Suc (str_size dir) < 2 ^ 31" using len str_okD(4) [OF Cons.prems(1)] by simp
  from string_push_back_ok [OF Cons.prems(1) _ this, of 47] obtain d1 where
    d1: "string_push_back 47 dir = Inr d1" "str_ok d1" "stext d1 = stext dir @ [47]" by auto
  from Cons.prems(2) have "str_ok c" by simp
  moreover have "length (stext d1) + length (stext c) < 2 ^ 31" using len d1(3) by simp
  ultimately obtain d2 where
    d2: "string_append c d1 = Inr d2" "str_ok d2" "stext d2 = stext d1 @ stext c"
    using string_append_ok [OF d1(2)] by blast
  have "length (stext d2 @ concat (map (\<lambda>c. 47 # stext c) cs)) < 2 ^ 31" using len d1(3) d2(3) by simp
  from Cons.IH [OF d2(2) _ this] Cons.prems(2) d1 d2 show ?case by auto
qed simp

lemma join_concat: "join c (p # ps) = p @ concat (map (\<lambda>q. c # q) ps)"
  by (induction ps arbitrary: p) simp_all

text \<open>The middle pieces of a path, each after its separator, are shorter than the path.\<close>

lemma middle_pieces_fit:
  "length (concat (map (\<lambda>q. c # q) (butlast qs))) + (if qs = [] then 0 else 1) \<le> length (join c (p # qs))"
  by (cases qs rule: rev_cases) (simp_all add: join_concat)

lemma string_at_first:
  assumes "str_ok s" and "stext s = c # t"
  shows "string_at s 0 = Inr c"
proof -
  note d = str_okD [OF assms(1)]
  have n: "0 < str_size s" using d(4) assms(2) by auto
  then have "str_data s ! 0 = stext s ! 0" by (simp add: stext_def)
  with n d(1,2) assms(2) show ?thesis by (simp add: string_at_def)
qed

text \<open>The directory of every path is a slash followed by nothing or by another slash.\<close>

lemma split_parent_blank:
  assumes ok: "str_ok path" and sl: "stext path = 47 # rest"
  shows "\<exists>leaf dir sub. split_parent path = Inr (leaf, dir) \<and> str_ok leaf \<and> str_ok dir \<and>
    (stext dir = [47] \<or> stext dir = 47 # 47 # sub)"
proof -
  note d = str_okD [OF ok]
  have at: "string_at path 0 = Inr 47"
    by (rule string_at_first [OF ok sl])
  from split_ok [OF ok, of 47] obtain out where
    out: "split 47 path = Inr out" "pieces_ok out" and jn: "join 47 (texts out) = stext path" by blast
  from out(2) obtain cs s where cs: "elems out = cs @ [s]" by (metis pieces_ok_def rev_exhaust)
  from out(2) cs have l: "list_ok out" "\<forall>c \<in> set cs. str_ok c" "str_ok s" by (auto simp: pieces_ok_def)
  have last: "list_at out (lst_size out - 1) = Inr s"
    using dl.get_last [OF l(1) cs] length_elems [OF l(1)] by simp
  from string_copy_ok [OF l(3)] obtain leaf where leaf: "string_copy s = Inr leaf" "str_ok leaf" by blast
  have "holds [47, 0] [47]" "length [47 :: u8] < 2 ^ 31" by simp_all
  from string_of_ok [OF this] obtain d0 where d0: "string_of [47, 0] = Inr d0" "str_ok d0" "stext d0 = [47]" by blast
  have "str_size d0 \<le> str_size path" using str_okD(4) [OF d0(2)] d0(3) d(4) sl by auto
  from string_resize_ok [OF d0(2) this] d0(3) obtain d1 where
    d1: "string_resize (str_size path) d0 = Inr d1" "str_ok d1" "stext d1 = [47]" by auto
  let ?cs = "butlast (drop 1 (elems out))"
  have "set ?cs \<subseteq> set cs" unfolding cs by (cases cs) (auto dest: in_set_butlastD)
  with l(2) have cok: "\<forall>c \<in> set ?cs. str_ok c" by blast
  obtain q qs where q: "elems out = q # qs" using out(2) by (cases "elems out") (auto simp: pieces_ok_def)
  have "length (stext d1 @ concat (map (\<lambda>c. 47 # stext c) ?cs)) \<le> length (stext path)"
    using middle_pieces_fit [of 47 "map stext qs" "stext q"] jn q d1(3) sl
    by (simp add: texts_def o_def map_butlast [symmetric] split: if_splits)
  then have "length (stext d1 @ concat (map (\<lambda>c. 47 # stext c) ?cs)) < 2 ^ 31" using d(4,5) by linarith
  from add_components_ok [OF d1(2) cok this] d1(3) obtain dir where
    dir: "add_components ?cs d1 = Inr dir" "str_ok dir" "stext dir = 47 # concat (map (\<lambda>c. 47 # stext c) ?cs)"
    by auto
  have "split_parent path = Inr (leaf, dir)"
    using at out last leaf d0 d1 dir by (simp add: split_parent_def)
  with leaf dir show ?thesis by (cases ?cs) auto
qed

lemma split_blank:
  assumes ok: "str_ok dir" and sl: "stext dir = [47] \<or> stext dir = 47 # 47 # sub"
  shows "\<exists>out c0 c1 cs. split 47 dir = Inr out \<and> elems out = c0 # c1 # cs \<and> str_ok c1 \<and> stext c1 = []"
proof -
  from split_ok [OF ok, of 47] obtain out where
    out: "split 47 dir = Inr out" "pieces_ok out" "\<forall>p \<in> set (texts out). 47 \<notin> set p"
      "join 47 (texts out) = stext dir" by blast
  from out(2) obtain c0 r where e: "elems out = c0 # r" by (cases "elems out") (auto simp: pieces_ok_def)
  show ?thesis
  proof (cases r)
    case Nil
    with out(3,4) e sl show ?thesis by (auto simp: texts_def)
  next
    case (Cons c1 cs)
    have j: "stext c0 @ 47 # join 47 (stext c1 # map stext cs) = stext dir"
      using out(4) e Cons by (simp add: texts_def)
    have n: "47 \<notin> set (stext c0)" "47 \<notin> set (stext c1)" using out(3) e Cons by (auto simp: texts_def)
    from j n(1) sl have "stext c0 = []" by (cases "stext c0") auto
    with j sl have "join 47 (stext c1 # map stext cs) = [] \<or> (\<exists>m. join 47 (stext c1 # map stext cs) = 47 # m)" by auto
    with n(2) have "stext c1 = []" by (cases cs; cases "stext c1") auto
    with out(1,2) e Cons show ?thesis by (auto simp: pieces_ok_def)
  qed
qed

lemma open_parent_null:
  assumes ok: "str_ok dir" and sl: "stext dir = [47] \<or> stext dir = 47 # 47 # sub"
    and rd: "fat_read_file_entry dread fuel junk p d (root_dir p) = Inr data"
    and sz: "get_file_size fuel p (first_cluster (root_dir p)) = Inr n"
    and none: "search_directory data (replicate 11 32) (unat n) 0 = Inr None"
  shows "open_parent dread fuel junk p d dir = Inl Null_deref"
proof -
  note dd = str_okD [OF ok]
  from sl obtain m where "stext dir = 47 # m" by auto
  then have "string_at dir 0 = Inr 47" by (rule string_at_first [OF ok])
  moreover from split_blank [OF ok sl] obtain out c0 c1 cs where
    "split 47 dir = Inr out" "elems out = c0 # c1 # cs" "str_ok c1" "stext c1 = []" by blast
  moreover from this filename_to_fat_blank have "filename_to_fat c1 = Inr (replicate 11 32)" by blast
  ultimately have "get_f32_file_entry dread fuel junk p d dir = Inr None"
    using rd sz none by (simp add: get_f32_file_entry_def lookup_step_def)
  then show ?thesis by (simp add: open_parent_def)
qed

definition zero_read :: "unit \<Rightarrow> u64 \<Rightarrow> u32 \<Rightarrow> u8 list option" where
  "zero_read d l n = Some (replicate (512 * unat n) 0)"

lemma put_at_replicate: "off + m \<le> n \<Longrightarrow> put_at off (replicate m x) (replicate n x) = replicate n x"
  by (simp add: put_at_def replicate_add [symmetric])

definition orphan_part :: fat_part where
  "orphan_part = small_part\<lparr>root_dir := blank_dirent\<lparr>first_cluster_l := 2\<rparr>\<rparr>"

text \<open>C11: Files cannot be created, changed or deleted. Let the path be absolute and well formed, and let the
  root directory be readable, its chain end within the fuel, and hold no entry whose name is eleven spaces. The
  code spells the directory of the path with an empty component (a slash for a file of the root, two slashes
  before anything else), and looks that component up in the root as a name of eleven spaces. It is not found,
  the parent entry is NULL, and \<^verbatim>\<open>delete_file\<close>, \<^verbatim>\<open>update_file_entry\<close> and \<^verbatim>\<open>save_file\<close> dereference it;
  so does \<^verbatim>\<open>create_file\<close>, unless it stops before on its assertion that the entry carries the name
  of the path. The entry given has a name of eleven bytes; the disk, the fuel, the entry and the buffers
  are otherwise arbitrary.\<close>

theorem path_operations_fault:
  assumes ok: "str_ok path" and sl: "stext path = 47 # rest"
    and rd: "fat_read_file_entry dread fuel junk p d (root_dir p) = Inr data"
    and sz: "get_file_size fuel p (first_cluster (root_dir p)) = Inr n"
    and none: "search_directory data (replicate 11 32) (unat n) 0 = Inr None"
    and e: "length (dir_name e) = 11"
  shows "delete_file dread dwrite fuel junk path p d = Inl Null_deref \<and>
    update_file_entry dread dwrite fuel junk path e p d = Inl Null_deref \<and>
    save_file dread dwrite fuel junk path e buf p d = Inl Null_deref \<and>
    create_file dread dwrite fuel junk path e buffer p d \<in> {Inl Null_deref, Inl Assert_fail}"
proof -
  from split_parent_blank [OF ok sl] obtain leaf dir sub where
    sp: "split_parent path = Inr (leaf, dir)" "str_ok leaf" "str_ok dir"
      "stext dir = [47] \<or> stext dir = 47 # 47 # sub" by blast
  note null = open_parent_null [OF sp(3,4) rd sz none]
  from filename_to_fat_returns [OF sp(2)] obtain nm where
    nm: "filename_to_fat leaf = Inr nm" "length nm = 11" by blast
  with sp(1) null strcmp_count_all [OF nm(2) e] show ?thesis
    by (auto simp: delete_file_def update_file_entry_def save_file_def create_file_def kassert_def)
qed

theorem path_operations_fault_witness:
  "\<exists>path. string_of [47, 65, 0] = Inr path \<and> stext path = [47, 65] \<and>
     delete_file zero_read (\<lambda>d l n b. d) 3 (\<lambda>_. 0) path orphan_part () = Inl Null_deref"
proof -
  have h: "holds [47, 65, 0] [47, 65]" "length [47 :: u8, 65] < 2 ^ 31" by (simp_all add: holds_def)
  from string_of_ok [OF h] obtain path where
    path: "string_of [47, 65, 0] = Inr path" "str_ok path" "stext path = [47, 65]" by blast
  have fc: "first_cluster (root_dir orphan_part) = 2" "file_size (root_dir orphan_part) = 0"
    by (simp_all add: orphan_part_def first_cluster_def blank_dirent_def)
  have pg: "pages (\<lambda>_. 0) 1 = replicate 4096 0" by (simp add: pages_def map_replicate_const)
  have nx: "get_next_cluster orphan_part 2 = Inr 3" "get_next_cluster orphan_part 3 = Inr (FAT_END AND NOT 0xF0000000)"
    by (simp_all add: get_next_cluster_def fat_get_def orphan_part_def small_part_def)
  have e: "\<not> FAT_END AND NOT 0xF0000000 < EOC" using FAT_END_link by (simp add: not_less)
  have lba: "sectors_per_cluster (p_bpb orphan_part) = 1" by (simp add: orphan_part_def small_part_def)
  have cb: "cluster_bytes orphan_part = 512" by (simp add: orphan_part_def small_part_def cluster_bytes_def)
  have rd: "fat_read_file_entry zero_read 3 (\<lambda>_. 0) orphan_part () (root_dir orphan_part) = Inr (replicate 4096 0)"
    unfolding fat_read_file_entry_def fc read_cluster_chain_def numeral_3_eq_3
    using nx e lba cb pg
    by (simp add: read_into_def zero_read_def put_at_replicate EOC_def BAD_CLUSTER_def)
  have sz: "get_file_size 3 orphan_part (first_cluster (root_dir orphan_part)) = Inr 1024"
    unfolding get_file_size_def fc numeral_3_eq_3 using nx e cb by (simp add: EOC_def)
  have none: "search_directory (replicate 4096 0) (replicate 11 32) (unat (1024 :: u32)) 0 = Inr None"
    by (subst search_directory.simps)
      (simp add: DIRENT_def entry_at_def parse_dirent_def Let_def dirent_offsets)
  have n: "length (dir_name (sample_entry 65)) = 11" by (simp add: sample_entry_def)
  from path_operations_fault [OF path(2,3) rd sz none n, of "\<lambda>d l n b. d" "[]" None] path show ?thesis by blast
qed

subsection \<open>Properties of deletion\<close>

lemma chain_hits:
  "chain t c cs \<Longrightarrow> i \<in> unat ` set cs \<Longrightarrow> i < length t"
  by (induction cs arbitrary: c) auto

lemma chain_suffix:
  "chain t c cs \<Longrightarrow> x \<in> set cs \<Longrightarrow> \<exists>us vs. cs = us @ vs \<and> chain t x vs"
proof (induction cs arbitrary: c)
  case (Cons y cs)
  show ?case
  proof (cases "x = y")
    case True
    with Cons.prems show ?thesis by (intro exI [of _ "[]"] exI [of _ "y # cs"]) auto
  next
    case False
    with Cons.prems have "chain t (next_link t c) cs" "x \<in> set cs" by auto
    from Cons.IH [OF this] obtain us vs where "cs = us @ vs" "chain t x vs" by blast
    then show ?thesis by (intro exI [of _ "y # us"] exI [of _ vs]) auto
  qed
qed simp

lemma chain_unique: "chain t c cs \<Longrightarrow> chain t c ds \<Longrightarrow> cs = ds"
proof (induction cs arbitrary: c ds)
  case Nil
  then show ?case by (cases ds) auto
next
  case (Cons x cs)
  then show ?case by (cases ds) auto
qed

lemma chain_distinct: "chain t c cs \<Longrightarrow> distinct cs"
proof (induction cs arbitrary: c)
  case (Cons x cs)
  have "x \<notin> set cs"
  proof
    assume "x \<in> set cs"
    with Cons.prems obtain us vs where "cs = us @ vs" "chain t x vs" by (auto dest: chain_suffix)
    moreover from Cons.prems have "chain t x (x # cs)" by simp
    ultimately have "x # us @ vs = vs" using chain_unique by blast
    then have "length (x # us @ vs) = length vs" by simp
    then show False by simp
  qed
  with Cons show ?case by auto
qed simp

lemma chain_update_other:
  "chain t c cs \<Longrightarrow> i \<notin> unat ` set cs \<Longrightarrow> chain (t[i := v]) c cs"
  by (induction cs arbitrary: c) (auto simp: next_link_def)

lemma free_chain_frees:
  assumes "chain t c cs" and "BAD_CLUSTER \<notin> set cs" and "length cs < k"
  shows "\<exists>t'. free_chain k t c n = Inr (t', n + length cs, True) \<and> length t' = length t \<and>
    (\<forall>i < length t. t' ! i = (if i \<in> unat ` set cs then 0 else t ! i))"
  using assms
proof (induction cs arbitrary: t c k n)
  case Nil
  then obtain j where "k = Suc j" by (cases k) auto
  moreover have "\<not> c < EOC" using Nil by (simp add: not_less)
  ultimately show ?case by simp
next
  case (Cons x cs)
  then obtain j where k: "k = Suc j" "length cs < j" by (cases k) auto
  from Cons.prems have x: "x = c" "c < EOC" "unat c < length t" "chain t (next_link t c) cs"
    "c \<noteq> BAD_CLUSTER" by auto
  have "x \<notin> set cs" using chain_distinct [OF Cons.prems(1)] by simp
  then have nin: "unat c \<notin> unat ` set cs" using x(1) by (auto dest: word_unat_eq_iff [THEN iffD2])
  from chain_update_other [OF x(4) nin, of 0] Cons.prems(2) k(2)
    Cons.IH [of "t[unat c := 0]" "next_link t c" j "Suc n"] obtain t' where
    "free_chain j (t[unat c := 0]) (next_link t c) (Suc n) = Inr (t', Suc n + length cs, True)"
    "length t' = length t"
    "\<forall>i < length t. t' ! i = (if i \<in> unat ` set cs then 0 else t[unat c := 0] ! i)" by auto
  with k x show ?case by (auto simp: nth_list_update)
qed

text \<open>C25: Deletion frees exactly the file. When the clusters of a file lead to an end mark and
  none is marked bad, the loop of \<^verbatim>\<open>delete_file\<close> ends, has counted every cluster of the file,
  has cleared their entries and no others, and so leaves every chain that shares no cluster
  with the file a chain as before.\<close>

theorem delete_frees_chain:
  assumes "chain t c cs" and "BAD_CLUSTER \<notin> set cs" and "length cs < k"
  shows "\<exists>t'. free_chain k t c 0 = Inr (t', length cs, True) \<and>
    (\<forall>i < length t. t' ! i = (if i \<in> unat ` set cs then 0 else t ! i)) \<and>
    (\<forall>e us. chain t e us \<and> set us \<inter> set cs = {} \<longrightarrow> chain t' e us)"
proof -
  from free_chain_frees [OF assms, of 0] obtain t' where
    t': "free_chain k t c 0 = Inr (t', length cs, True)" "length t' = length t"
    "\<forall>i < length t. t' ! i = (if i \<in> unat ` set cs then 0 else t ! i)" by auto
  have "chain t' e us" if "chain t e us" "set us \<inter> set cs = {}" for e us
  proof (rule chain_frame [THEN iffD2, OF _ t'(2) that(1)])
    fix u assume u: "u \<in> set us"
    with that have "unat u \<notin> unat ` set cs" by (auto dest: word_unat_eq_iff [THEN iffD2])
    with t'(3) chain_hits [OF that(1)] u show "t' ! unat u = t ! unat u" by auto
  qed
  with t' show ?thesis by blast
qed

theorem delete_frees_chain_witness:
  "\<exists>t'. free_chain 3 (fat small_part) 2 0 = Inr (t', 2, True) \<and> t' ! 2 = 0 \<and> t' ! 3 = 0"
proof -
  have b: "BAD_CLUSTER \<notin> set [2, 3]" "length [2, 3 :: u32] < 3" by (simp_all add: BAD_CLUSTER_def)
  have l: "length (fat small_part) = 128" by (simp add: small_part_def)
  from delete_frees_chain [OF small_part_chain b] l show ?thesis by auto
qed

lemma free_chain_zero_stays:
  "free_chain k t c n = Inr (t', m, b) \<Longrightarrow> length t' = length t \<and> (t ! 0 = 0 \<longrightarrow> t' ! 0 = 0)"
proof (induction k arbitrary: t c n)
  case (Suc k)
  show ?case
  proof (cases "c < EOC \<and> c \<noteq> BAD_CLUSTER")
    case True
    with Suc.prems have st: "free_chain k (t[unat c := 0]) (next_link t c) (Suc n) = Inr (t', m, b)"
      and l: "unat c < length t"
      by (auto split: if_splits)
    from l have "t ! 0 = 0 \<Longrightarrow> t[unat c := 0] ! 0 = 0" by (cases "unat c = 0") auto
    with Suc.IH [OF st] show ?thesis by auto
  next
    case False
    with Suc.prems show ?thesis by (auto split: if_splits)
  qed
qed simp

lemma free_chain_hangs: "t ! 0 = 0 \<Longrightarrow> 0 < length t \<Longrightarrow> free_chain k t 0 n = Inl Hang"
proof (induction k arbitrary: t n)
  case (Suc k)
  from Suc.IH [of "t[0 := 0]" "Suc n"] Suc.prems show ?case
    by (simp add: EOC_def BAD_CLUSTER_def next_link_def)
qed simp

text \<open>Deleting empty files ends in a loop. \<^verbatim>\<open>create_file\<close> gives a file without contents
  the first cluster 0, the loop of \<^verbatim>\<open>delete_file\<close> takes it for a cluster: if the deletion of
  one such file returns, it has cleared the first entry of the table, and the deletion of the
  next one never returns, with any fuel and on any disk.\<close>

lemma second_empty_delete_hangs:
  assumes "delete_chain dread dwrite k 0 p d = Inr (p', d')"
  shows "fat p' ! 0 = 0 \<and> delete_chain dread' dwrite' k' 0 p' d'' = Inl Hang"
proof -
  from assms obtain t freed fin where fc: "free_chain k (fat p) 0 0 = Inr (t, freed, fin)" "fat p' = t"
    by (auto simp: delete_chain_def write_fat_def rbind_eq_Inr Let_def split: if_splits)
  then obtain j where k: "k = Suc j" by (cases k) auto
  with fc(1) have l: "0 < length (fat p)"
    "free_chain j ((fat p)[0 := 0]) (next_link (fat p) 0) 1 = Inr (t, freed, fin)"
    by (auto simp: EOC_def BAD_CLUSTER_def split: if_splits)
  from free_chain_zero_stays [OF l(2)] l(1) have t: "t ! 0 = 0" "0 < length t" by auto
  from free_chain_hangs [OF this, of k' 0] t fc(2) show ?thesis by (simp add: delete_chain_def)
qed

subsection \<open>Properties of mounting\<close>

lemma root_size_chain:
  "root_size k p acc c = Inr n \<Longrightarrow> \<exists>cs. chain (fat p) (next_link (fat p) c) cs \<and> unat c < length (fat p) \<and>
     n = acc + of_nat (Suc (length cs) * cluster_bytes p)"
proof (induction k arbitrary: acc c)
  case (Suc k)
  then have l: "unat c < length (fat p)"
    by (auto simp: get_next_cluster_def fat_get_def split: if_splits)
  let ?n = "next_link (fat p) c"
  show ?case
  proof (cases "?n < EOC")
    case True
    with Suc.prems l have "root_size k p (acc + of_nat (cluster_bytes p)) ?n = Inr n"
      by (simp add: get_next_link Let_def)
    from Suc.IH [OF this] obtain cs where "chain (fat p) (next_link (fat p) ?n) cs" "unat ?n < length (fat p)"
      "n = acc + of_nat (cluster_bytes p) + of_nat (Suc (length cs) * cluster_bytes p)" by blast
    with True l show ?thesis by (intro exI [of _ "?n # cs"]) (simp add: algebra_simps)
  next
    case False
    with Suc.prems l have "n = acc + of_nat (cluster_bytes p)" by (simp add: get_next_link Let_def)
    with False l show ?thesis by (intro exI [of _ "[]"]) (simp add: not_less)
  qed
qed simp

lemma last_cluster_start:
  fixes tot spc :: nat
  assumes "0 < spc" and "4 * spc \<le> gap" and "3 \<le> tot div spc"
  shows "tot \<le> gap + (tot div spc - 1 - 2) * spc"
proof -
  have "tot < (tot div spc + 1) * spc" using dividend_less_div_times [OF assms(1), of tot] by (simp add: add.commute)
  also have "tot div spc + 1 = (tot div spc - 1 - 2) + 4" using assms(3) by simp
  finally show ?thesis using assms(2) by (simp add: add_mult_distrib)
qed

text \<open>C26: What a mounted partition is. When \<^verbatim>\<open>mount_part\<close> returns a partition, the boot sector and
  all three FSINFO signatures were right, the FAT and the data area follow the reserved
  sectors, the root directory is a chain of clusters to an end mark inside the table and its
  size is the bytes of that chain; but of the root's first cluster only 16 bits are kept, and
  the clusters are counted as if the whole volume were data: when the sectors before the data
  area are at least four clusters, the last cluster the allocator may hand out begins
  beyond the end of the volume.\<close>

theorem mount_reads_geometry:
  assumes "mount_part dread fuel junk lba d = Inr (Some p)"
    and sector: "dread d (ucast (ucast lba :: u32)) 1 = Some s" "length s = 512"
  shows "magic_number (p_bpb p) = 0xAA55 \<and> signature_1 (p_fsinfo p) = FSINFO_SIGNATURE_1 \<and>
    signature_2 (p_fsinfo p) = FSINFO_SIGNATURE_2 \<and> signature_3 (p_fsinfo p) = FSINFO_SIGNATURE_3 \<and>
    p_bpb p = parse_bpb (s @ drop 512 (pages junk 1)) \<and>
    first_fat_sector p = first_sector p + ucast (reserved_sectors (p_bpb p)) \<and>
    first_data_sector p = first_fat_sector p + fat_size p * ucast (num_fats (p_bpb p)) \<and>
    (\<exists>cs. chain (fat p) (next_link (fat p) (root_dir_cluster (p_bpb p))) cs \<and>
       file_size (root_dir p) = of_nat (Suc (length cs) * cluster_bytes p)) \<and>
    first_cluster (root_dir p) = take_bit 16 (root_dir_cluster (p_bpb p)) \<and>
    (unat (first_sector p) + 4 * unat (sectors_per_cluster (p_bpb p)) \<le> unat (first_data_sector p) \<and>
     3 \<le> unat (total_clusters p) \<longrightarrow>
     unat (first_sector p) + unat (total_sectors p) \<le> clusters_at p (unat (total_clusters p) - 1))"
proof -
  let ?sec = "s @ drop 512 (pages junk 1)"
  let ?b = "parse_bpb ?sec"
  have rd: "read_into dread d (ucast (ucast lba :: u32)) 1 0 (pages junk 1) = Inr ?sec"
    using sector by (simp add: read_into_def put_at_def)
  from assms(1) rd have m: "magic_number ?b = 0xAA55" and spc: "sectors_per_cluster ?b \<noteq> 0"
    by (auto simp: mount_part_def read_bpb_def Let_def split: if_splits)
  from assms(1) m spc rd obtain q n where rf: "read_fat dread junk (volume_of lba ?b) d = Inr q"
    and sg: "signature_1 (p_fsinfo q) = FSINFO_SIGNATURE_1" "signature_2 (p_fsinfo q) = FSINFO_SIGNATURE_2"
      "signature_3 (p_fsinfo q) = FSINFO_SIGNATURE_3"
    and n: "root_size fuel q 0 (root_dir_cluster ?b) = Inr n"
    and p: "p = q\<lparr>root_dir := blank_dirent\<lparr>file_size := n, first_cluster_l := ucast (root_dir_cluster ?b),
        dir_attrib := ATTR_DIRECTORY OR ATTR_SYSTEM, dir_name := 47 # replicate 10 0\<rparr>\<rparr>"
    unfolding mount_part_def read_bpb_def by (auto simp: Let_def rbind_eq_Inr split: if_splits)
  from rf obtain t f where "q = (volume_of lba ?b)\<lparr>fat := t, p_fsinfo := f, fat_dirty := 0\<rparr>"
    by (auto simp: read_fat_def rbind_eq_Inr Let_def)
  with sg m have q: "magic_number (p_bpb q) = 0xAA55" "signature_1 (p_fsinfo q) = FSINFO_SIGNATURE_1"
      "signature_2 (p_fsinfo q) = FSINFO_SIGNATURE_2" "signature_3 (p_fsinfo q) = FSINFO_SIGNATURE_3"
      "p_bpb q = ?b" "first_fat_sector q = first_sector q + ucast (reserved_sectors ?b)"
      "first_data_sector q = first_fat_sector q + fat_size q * ucast (num_fats ?b)"
      "total_sectors q = total_sector_count_32 ?b"
      "total_clusters q = total_sector_count_32 ?b div ucast (sectors_per_cluster ?b)"
    by (simp_all add: volume_of_def Let_def)
  from root_size_chain [OF n] obtain cs where
    cs: "chain (fat q) (next_link (fat q) (root_dir_cluster ?b)) cs" "n = of_nat (Suc (length cs) * cluster_bytes q)"
    by auto
  have fc: "first_cluster (root_dir p) = take_bit 16 (root_dir_cluster ?b)"
    by (simp add: p first_cluster_def blank_dirent_def) (rule bit_word_eqI, auto simp: bit_simps)
  have "unat (first_sector p) + unat (total_sectors p) \<le> clusters_at p (unat (total_clusters p) - 1)"
    if "unat (first_sector p) + 4 * unat (sectors_per_cluster ?b) \<le> unat (first_data_sector p)"
      "3 \<le> unat (total_clusters p)"
  proof -
    let ?n = "unat (sectors_per_cluster ?b)" and ?t = "unat (total_sector_count_32 ?b)"
    have tc: "unat (total_clusters p) = ?t div ?n" by (simp add: p q unat_div)
    have "0 < ?n" using spc by (simp add: unat_gt_0)
    from last_cluster_start [OF this, of "unat (first_data_sector p) - unat (first_sector p)" ?t] that tc
    have "?t \<le> unat (first_data_sector p) - unat (first_sector p) + (?t div ?n - 1 - 2) * ?n" by simp
    with that(1) show ?thesis by (simp add: clusters_at_def tc) (simp add: p q)
  qed
  with q cs fc p show ?thesis by (auto simp: cluster_bytes_def)
qed

definition demo_boot :: "u8 list" where
  "demo_boot = replicate 11 0 @ le16 512 @ [1] @ le16 2 @ [1] @ replicate 15 0 @ le32 16 @ le32 1 @
     replicate 4 0 @ le32 2 @ le16 1 @ replicate 460 0 @ le16 0xAA55"

definition demo_info :: "u8 list" where
  "demo_info = le32 FSINFO_SIGNATURE_1 @ replicate 480 0 @ le32 FSINFO_SIGNATURE_2 @ replicate 20 0 @
     le32 FSINFO_SIGNATURE_3"

definition demo_fat :: "u8 list" where
  "demo_fat = replicate 8 0 @ le32 FAT_END @ replicate 500 0"

definition demo_read :: "unit \<Rightarrow> u64 \<Rightarrow> u32 \<Rightarrow> u8 list option" where
  "demo_read d l n = Some (if l = 0 then demo_boot else if l = 1 then demo_info
     else if l = 2 then demo_fat else replicate 512 0)"

lemma demo_lengths: "length demo_boot = 512" "length demo_info = 512" "length demo_fat = 512"
  by (simp_all add: demo_boot_def demo_info_def demo_fat_def)

lemma demo_bpb:
  "parse_bpb (demo_boot @ r) =
     \<lparr>bytes_per_sector = 512, sectors_per_cluster = 1, reserved_sectors = 2, num_fats = 1,
      total_sector_count_32 = 16, fat_size_32 = 1, root_dir_cluster = 2, fs_info_sector = 1,
      magic_number = 0xAA55\<rparr>"
  by (simp add: parse_bpb_def Let_def bpb_layout_def demo_boot_def rd8_def rd16_def rd32_def le16_def
      le32_def nth_append)

lemma demo_fsinfo:
  "signature_1 (parse_fsinfo (demo_info @ r)) = FSINFO_SIGNATURE_1 \<and>
   signature_2 (parse_fsinfo (demo_info @ r)) = FSINFO_SIGNATURE_2 \<and>
   signature_3 (parse_fsinfo (demo_info @ r)) = FSINFO_SIGNATURE_3"
  by (simp add: parse_fsinfo_def Let_def fsinfo_layout_def demo_info_def rd16_def rd32_def le16_def
      le32_def nth_append FSINFO_SIGNATURE_1_def FSINFO_SIGNATURE_2_def FSINFO_SIGNATURE_3_def)

lemma demo_fat_end: "bytes_words (demo_fat @ replicate 3584 0) ! 2 = FAT_END"
  by (simp add: bytes_words_def demo_lengths)
    (simp add: demo_fat_def FAT_END_def rd16_def rd32_def le16_def le32_def nth_append)

theorem mount_reads_geometry_witness:
  "\<exists>p. mount_part demo_read 2 (\<lambda>_. 0) 0 () = Inr (Some p) \<and> file_size (root_dir p) = 512 \<and>
     first_cluster (root_dir p) = 2"
proof -
  have pg: "pages (\<lambda>_. 0) n = replicate (4096 * n) 0" for n by (simp add: pages_def map_replicate_const)
  let ?b = "\<lparr>bytes_per_sector = 512, sectors_per_cluster = 1, reserved_sectors = 2, num_fats = 1,
      total_sector_count_32 = 16, fat_size_32 = 1, root_dir_cluster = 2, fs_info_sector = 1,
      magic_number = 0xAA55\<rparr>"
  let ?v = "volume_of 0 ?b" and ?info = "parse_fsinfo (demo_info @ replicate 3584 0)"
  let ?q = "?v\<lparr>fat := bytes_words (demo_fat @ replicate 3584 0), p_fsinfo := ?info, fat_dirty := 0\<rparr>"
  have v: "first_fat_sector ?v = 2" "fat_size ?v = 1" "fsinfo_lba ?v = 1" "p_bpb ?v = ?b" "first_data_sector ?v = 3"
    by (simp_all add: volume_of_def Let_def fsinfo_lba_def)
  have rf: "read_fat demo_read (\<lambda>_. 0) ?v () = Inr ?q"
    by (simp add: read_fat_def v pg Let_def read_into_def demo_read_def put_at_def demo_lengths)
  have l: "length (fat ?q) = 1024" by (simp add: demo_lengths)
  have nx: "get_next_cluster ?q 2 = Inr (FAT_END AND NOT 0xF0000000)"
    unfolding get_next_cluster_def fat_get_def l by (simp add: demo_fat_end)
  have e: "\<not> FAT_END AND NOT 0xF0000000 < EOC" using FAT_END_link by (simp add: not_less)
  have cb: "cluster_bytes ?q = 512" by (simp add: cluster_bytes_def v)
  have two: "(2 :: nat) = Suc (Suc 0)" by simp
  have rs: "root_size 2 ?q 0 2 = Inr 512" unfolding two using nx e cb by (simp add: Let_def)
  define root where "root = blank_dirent\<lparr>file_size := 512, first_cluster_l := ucast (2 :: u32),
        dir_attrib := ATTR_DIRECTORY OR ATTR_SYSTEM, dir_name := 47 # replicate 10 0\<rparr>"
  have rt: "first_cluster root = 2" "file_size root = 512" by (simp_all add: root_def first_cluster_def blank_dirent_def)
  have lba: "cluster_lba ?q 2 = 3" "sectors_per_cluster (p_bpb ?q) = 1" by (simp_all add: cluster_lba_def v)
  have rd: "fat_read_file_entry demo_read 2 (\<lambda>_. 0) ?q () root = Inr (replicate 4096 0)"
    unfolding fat_read_file_entry_def rt read_cluster_chain_def two
    using nx e lba by (simp add: pg read_into_def demo_read_def put_at_replicate EOC_def BAD_CLUSTER_def)
  have ls: "listed_entries (replicate 4096 0) 0 = Inr []"
    by (subst listed_entries.simps)
      (simp add: DIRENT_def entry_at_def parse_dirent_def Let_def dirent_offsets)
  have bt: "read_into demo_read () (ucast (ucast (0 :: u64) :: u32)) 1 0 (pages (\<lambda>_. 0) 1) =
    Inr (demo_boot @ replicate 3584 0)"
    by (simp add: read_into_def pg demo_read_def put_at_def demo_lengths)
  have mp: "mount_part demo_read 2 (\<lambda>_. 0) 0 () = Inr (Some (?q\<lparr>root_dir := root\<rparr>))"
    unfolding mount_part_def read_bpb_def bt rbind_Inr demo_bpb Let_def
    using demo_fsinfo [of "replicate 3584 0"] rf rs rd ls by (simp add: root_def)
  have "demo_read () (ucast (ucast (0 :: u64) :: u32)) 1 = Some demo_boot" by (simp add: demo_read_def)
  from mount_reads_geometry [OF mp this demo_lengths(1)] mp rt show ?thesis by auto
qed

end
