(* ===== verification/Hba_Regs.thy ===== *)
theory Hba_Regs
  imports Bytes
begin

text \<open>
  The structures of \<^verbatim>\<open>include/drivers/disk/ahci\<close>: the registers of the AHCI controller
  (\<^verbatim>\<open>hba_ghc.h\<close>, \<^verbatim>\<open>hba_port.h\<close>, \<^verbatim>\<open>ahci.h\<close>) and the structures in memory it reads
  (\<^verbatim>\<open>ahci_cmd.h\<close>), as packed layouts with sizes in bits: a bit field of width 1 counts one
  bit, an array its length times the size of its elements, and the unnamed bits that fill a
  byte are called \<open>pad\<close>. A register is then read and written by field name.
\<close>

subsection \<open>Fields of a register\<close>

fun width_of :: "layout \<Rightarrow> string \<Rightarrow> nat" where
  "width_of [] f = 0"
| "width_of ((g, n) # l) f = (if f = g then n else width_of l f)"

definition get_bits :: "nat \<Rightarrow> nat \<Rightarrow> u32 \<Rightarrow> u32" where
  "get_bits off n w = take_bit n (drop_bit off w)"

definition set_bits :: "nat \<Rightarrow> nat \<Rightarrow> u32 \<Rightarrow> u32 \<Rightarrow> u32" where
  "set_bits off n v w = (w AND NOT (push_bit off (mask n))) OR push_bit off (take_bit n v)"

definition get_field :: "layout \<Rightarrow> string \<Rightarrow> u32 \<Rightarrow> u32" where
  "get_field l f = get_bits (offset_of l f) (width_of l f)"

definition set_field :: "layout \<Rightarrow> string \<Rightarrow> u32 \<Rightarrow> u32 \<Rightarrow> u32" where
  "set_field l f = set_bits (offset_of l f) (width_of l f)"

lemma get_set_bits: "off + n \<le> 32 \<Longrightarrow> get_bits off n (set_bits off n v w) = take_bit n v"
  by (rule bit_word_eqI) (auto simp: get_bits_def set_bits_def bit_simps)

lemma get_set_bits_other:
  "off + n \<le> 32 \<Longrightarrow> off' + n' \<le> 32 \<Longrightarrow> off + n \<le> off' \<or> off' + n' \<le> off \<Longrightarrow>
   get_bits off' n' (set_bits off n v w) = get_bits off' n' w"
  by (rule bit_word_eqI) (auto simp: get_bits_def set_bits_def bit_simps)

lemma set_bits_set_bits: "off + n \<le> 32 \<Longrightarrow> set_bits off n v (set_bits off n u w) = set_bits off n v w"
  by (rule bit_word_eqI) (auto simp: set_bits_def bit_simps)

lemma get_bits_1: "get_bits k 1 w \<noteq> 0 \<longleftrightarrow> bit w k"
proof -
  have "get_bits k 1 w = of_bool (bit w k)"
    by (simp add: get_bits_def take_bit_eq_mask mask_Suc_0 bit_iff_odd_drop_bit and_one_eq mod2_eq_if)
  then show ?thesis by simp
qed

subsection \<open>The structures\<close>

definition host_capabillities_t_bits :: layout where
  "host_capabillities_t_bits =
     [(''number_of_ports'', 5), (''supports_external_sata'', 1), (''encolsure_mgmt_supported'', 1),
      (''ccc_suported'', 1), (''number_of_cmd_slots'', 5), (''partial_state_capabile'', 1),
      (''slumber_state_capable'', 1), (''pio_multiple_drq_blk'', 1),
      (''fis_based_switch_support'', 1), (''supports_port_multiplier'', 1),
      (''supports_ahci_mode_only'', 1), (''rsv0'', 1), (''interface_speed_support'', 4),
      (''support_cmd_list_overrride'', 1), (''support_activity_led'', 1), (''support_alpm'', 1),
      (''support_sss'', 1), (''support_mps'', 1), (''support_snotification_reg'', 1),
      (''support_native_cmd_queuing'', 1), (''support_64_bit_addressing'', 1)]"

definition global_host_ctrl_t_bits :: layout where
  "global_host_ctrl_t_bits =
     [(''hba_reset'', 1), (''intr_enable'', 1), (''mrsm'', 1), (''rsv0'', 28),
      (''ahci_enable'', 1)]"

definition ccc_control_t_bits :: layout where
  "ccc_control_t_bits =
     [(''enable'', 1), (''rsv0'', 2), (''interrupt'', 5), (''command_completions'', 8),
      (''timeout_val'', 16)]"

definition encolsure_mgmt_loc_t_bits :: layout where
  "encolsure_mgmt_loc_t_bits =
     [(''offset'', 16), (''buffer_size'', 16)]"

definition encolsure_mgmt_ctrl_t_bits :: layout where
  "encolsure_mgmt_ctrl_t_bits =
     [(''message_recieved'', 1), (''rsv0'', 7), (''transmit_message'', 1), (''reset'', 1),
      (''rsv1'', 6), (''led_message_types'', 1), (''SAF_TE_messages'', 1), (''SES_2_messages'', 1),
      (''SGPIO_messages'', 1), (''rsv2'', 4), (''single_message_buffer'', 1),
      (''transmit_only'', 1), (''activity_led'', 1), (''port_multiplier_support'', 1),
      (''rsv3'', 4)]"

definition hba_cap_ext_t_bits :: layout where
  "hba_cap_ext_t_bits =
     [(''bios_handoff'', 1), (''NVMHCI_present'', 1), (''auto_partial_to_slumber'', 1),
      (''support_dev_sleep'', 1), (''support_aggressive_dev_sleep'', 1),
      (''dev_sleep_entrance_from_slumber'', 1), (''rsv0'', 26)]"

definition bios_handoff_t_bits :: layout where
  "bios_handoff_t_bits =
     [(''BIOS_owned_semaphore'', 1), (''OS_owned_semaphore'', 1),
      (''SMI_on_OS_ownership_change_enabled'', 1), (''OS_ownership_change'', 1),
      (''BIOS_busy'', 1), (''rsv0'', 27)]"

definition generic_host_ctrl_bits :: layout where
  "generic_host_ctrl_bits =
     [(''host_cap'', 32), (''g_host_ctrl'', 32), (''interrupt_status'', 32),
      (''ports_implemented'', 32), (''hba_version'', 32), (''ccc_control'', 32),
      (''ccc_ports'', 32), (''enclosure_mgmt_loc'', 32), (''enclosure_mgmt_ctrl'', 32),
      (''host_capabillities_ext'', 32), (''bios_handoff_ctrl_sts'', 32)]"

definition phy_region_desc_bits :: layout where
  "phy_region_desc_bits =
     [(''data_base_address'', 64), (''rsv0'', 32), (''data_byte_count'', 22), (''rsv1'', 9),
      (''intr_on_completion'', 1)]"

definition command_tbl_t_bits :: layout where
  "command_tbl_t_bits =
     [(''cmd_fis'', 512), (''atapi_cmd'', 128), (''rsv0'', 384), (''prdt'', 1024)]"

definition command_hdr_t_bits :: layout where
  "command_hdr_t_bits =
     [(''cmdfis_length'', 5), (''ATAPI_command'', 1), (''write_command'', 1),
      (''prefetchable'', 1), (''reset'', 1), (''BIST'', 1), (''clear_busy'', 1), (''rsv0'', 1),
      (''port_mult'', 4), (''prdt_length'', 16), (''prdt_byte_count'', 32),
      (''cmd_table_desc_base_addr'', 64), (''rsv1'', 128)]"

definition FIS_REG_H2D_bits :: layout where
  "FIS_REG_H2D_bits =
     [(''fis_type'', 8), (''pmport'', 4), (''rsv0'', 3), (''c'', 1), (''command'', 8),
      (''feature_low'', 8), (''lba0'', 8), (''lba1'', 8), (''lba2'', 8), (''device'', 8),
      (''lba3'', 8), (''lba4'', 8), (''lba5'', 8), (''feature_high'', 8), (''countl'', 8),
      (''counth'', 8), (''icc'', 8), (''ctrl'', 8), (''rsv1'', 32)]"

definition FIS_REG_D2H_bits :: layout where
  "FIS_REG_D2H_bits =
     [(''fis_type'', 8), (''pmport'', 4), (''rsv0'', 2), (''i'', 1), (''c'', 1), (''status'', 8),
      (''error'', 8), (''lba0'', 8), (''lba1'', 8), (''lba2'', 8), (''device'', 8), (''lba3'', 8),
      (''lba4'', 8), (''lba5'', 8), (''rsv1'', 8), (''countl'', 8), (''counth'', 8),
      (''rsv2'', 16), (''rsv3'', 32)]"

definition FIS_DATA_bits :: layout where
  "FIS_DATA_bits =
     [(''fis_type'', 8), (''pmport'', 4), (''rsv0'', 4), (''rsv1'', 16), (''data'', 8)]"

definition FIS_DMA_SETUP_bits :: layout where
  "FIS_DMA_SETUP_bits =
     [(''fis_type'', 8), (''rsv0'', 1), (''d'', 1), (''i'', 1), (''a'', 1), (''pad'', 4),
      (''rsv1'', 16), (''DMA_buffer_id'', 64), (''rsv2'', 32), (''DMA_buffer_offset'', 32),
      (''transfer_cnt'', 32), (''rsv3'', 32)]"

definition FIS_PIO_SETUP_bits :: layout where
  "FIS_PIO_SETUP_bits =
     [(''fis_type'', 8), (''pmport'', 4), (''rsv0'', 1), (''d'', 1), (''i'', 1), (''rsv1'', 1),
      (''status'', 8), (''error'', 8), (''lba0'', 8), (''lba1'', 8), (''lba2'', 8),
      (''device'', 8), (''lba3'', 8), (''lba4'', 8), (''lba5'', 8), (''rsv2'', 8), (''countl'', 8),
      (''counth'', 8), (''rsv3'', 8), (''e_status'', 8), (''transfer_cnt'', 16), (''rsv4'', 16)]"

definition HBA_FIS_bits :: layout where
  "HBA_FIS_bits =
     [(''dma_setup_fis'', 224), (''rsv0'', 32), (''pio_setup_fis'', 160), (''rsv1'', 96),
      (''reg_d2h_fis'', 160), (''rsv2'', 64), (''ufis'', 512), (''rsv3'', 768)]"

definition sata_status_t_bits :: layout where
  "sata_status_t_bits =
     [(''device_detection'', 4), (''current_speed'', 4), (''interface_pm'', 4), (''rsv0'', 20)]"

definition interrupt_sts_t_bits :: layout where
  "interrupt_sts_t_bits =
     [(''device_to_host_reg_FIS_intr'', 1), (''PIO_setup_FIS_intr'', 1),
      (''DMA_setup_FIS_intr'', 1), (''set_dev_bit_intr'', 1), (''unknown_FIS_intr'', 1),
      (''descriptor_processed'', 1), (''port_connect_change_status'', 1),
      (''device_mechanical_presense_sts'', 1), (''rsv0'', 14), (''phyrdy_change_sts'', 1),
      (''incorrect_port_multiplier_sts'', 1), (''overflow_status'', 1), (''rsv1'', 1),
      (''interface_non_fatal_error_sts'', 1), (''interface_fatal_error_sts'', 1),
      (''host_bus_data_error_sts'', 1), (''host_bus_fatal_error_sts'', 1),
      (''task_file_error_sts'', 1), (''cold_port_detect_sts'', 1)]"

definition interrupt_enable_t_bits :: layout where
  "interrupt_enable_t_bits =
     [(''device_to_host_reg_FIS_intr_enable'', 1), (''PIO_setup_FIS_intr_enable'', 1),
      (''DMA_setup_FIS_intr_enable'', 1), (''set_dev_bit_intr_enable'', 1),
      (''unknown_FIS_intr_enable'', 1), (''descriptor_processed_intr_enable'', 1),
      (''port_connect_change_intr_enable'', 1), (''device_mechanical_presense_enable'', 1),
      (''rsv0'', 14), (''phyrdy_change_enable'', 1), (''incorrect_port_multiplier_enable'', 1),
      (''overflow_enable'', 1), (''rsv1'', 1), (''interface_non_fatal_error_enable'', 1),
      (''interface_fatal_error_enable'', 1), (''host_bus_data_error_enable'', 1),
      (''host_bus_fatal_error_enable'', 1), (''task_file_error_enable'', 1),
      (''cold_presence_detect_enable'', 1)]"

definition command_status_t_bits :: layout where
  "command_status_t_bits =
     [(''cmd_start'', 1), (''spin_up_device'', 1), (''power_on_device'', 1),
      (''cmd_list_override'', 1), (''FIS_recieve_enable'', 1), (''rsv0'', 3),
      (''current_cmd_slot'', 5), (''mechanical_presence_switch_state'', 1),
      (''FIS_recieve_running'', 1), (''cmd_list_running'', 1), (''cold_presence_state'', 1),
      (''port_multiplier_attached'', 1), (''hot_plug_capable_port'', 1),
      (''mechanical_presence_switch_attached'', 1), (''cold_presence_detection'', 1),
      (''external_sata_port'', 1), (''FIS_based_switching_port'', 1),
      (''auto_partial_slumber_transitions_enabled'', 1), (''device_is_ATAPI'', 1),
      (''drive_led_on_ATAPI_enable'', 1), (''aggressive_link_power_mgmt_enable'', 1),
      (''aggressive_slumber'', 1), (''interface_communication_ctrl'', 4)]"

definition task_file_data_t_bits :: layout where
  "task_file_data_t_bits =
     [(''status_err'', 1), (''status_command_specific'', 2),
      (''status_data_transfer_requested'', 1), (''status_command_specific_2'', 3),
      (''status_busy'', 1), (''error'', 8), (''rsv0'', 16)]"

definition sata_ctrl_t_bits :: layout where
  "sata_ctrl_t_bits =
     [(''device_detection_init'', 4), (''speed_allowed'', 4), (''ipm_transitions_allowed'', 4),
      (''rsv0'', 20)]"

definition sata_err_t_bits :: layout where
  "sata_err_t_bits =
     [(''diagnostics.phyrdy_change'', 1), (''diagnostics.phy_internal_err'', 1),
      (''diagnostics.comm_wake'', 1), (''diagnostics.decode_err'', 1),
      (''diagnostics.disparity_err'', 1), (''diagnostics.crc_err'', 1),
      (''diagnostics.handshke_err'', 1), (''diagnostics.link_sequence_err'', 1),
      (''diagnostics.transport_state_transition_error'', 1), (''diagnostics.unknown_FIS_type'', 1),
      (''diagnostics.exchanged'', 1), (''diagnostics.rsv0'', 5),
      (''error.recovered_data_integrity_err'', 1), (''error.recovered_comms_err'', 1),
      (''error.rsv0'', 6), (''error.transient_data_integrity_err'', 1),
      (''error.persistent_comms_or_data_integrity_err'', 1), (''error.protocol_err'', 1),
      (''error.internal_err'', 1), (''error.rsv1'', 4)]"

definition fis_switching_ctrl_t_bits :: layout where
  "fis_switching_ctrl_t_bits =
     [(''enable'', 1), (''device_err_clear'', 1), (''single_device_err'', 1), (''rsv0'', 5),
      (''device_to_issue'', 4), (''active_device_optimization'', 4), (''device_with_err'', 4),
      (''rsv1'', 12)]"

definition device_sleep_t_bits :: layout where
  "device_sleep_t_bits =
     [(''aggressive_device_sleep_enable'', 1), (''device_sleep_present'', 1),
      (''device_sleep_exit_timeout'', 8), (''minimum_device_sleep_assertion_time'', 5),
      (''device_sleep_idle_timeout'', 10), (''DITO_multiplier'', 4), (''rsv0'', 3)]"

definition hba_port_t_bits :: layout where
  "hba_port_t_bits =
     [(''cmd_list_base_addr'', 64), (''fis_base_addr'', 64), (''interupt_status'', 32),
      (''interrupt_enable'', 32), (''command_status'', 32), (''rsv0'', 32),
      (''task_file_data'', 32), (''signature'', 32), (''sata_status'', 32), (''sata_control'', 32),
      (''sata_error'', 32), (''sata_active'', 32), (''command_issue'', 32),
      (''sata_notification'', 32), (''fis_switching_ctrl'', 32), (''device_sleep'', 32),
      (''rsv1'', 320), (''vendor_regs'', 128)]"

definition hba_mem_t_bits :: layout where
  "hba_mem_t_bits =
     [(''ghc'', 352), (''rsv0'', 416), (''nvmhci'', 512), (''vendor_regs'', 768),
      (''ports'', 32768)]"

lemmas hba_layout_defs =
  host_capabillities_t_bits_def
  global_host_ctrl_t_bits_def
  ccc_control_t_bits_def
  encolsure_mgmt_loc_t_bits_def
  encolsure_mgmt_ctrl_t_bits_def
  hba_cap_ext_t_bits_def
  bios_handoff_t_bits_def
  generic_host_ctrl_bits_def
  phy_region_desc_bits_def
  command_tbl_t_bits_def
  command_hdr_t_bits_def
  FIS_REG_H2D_bits_def
  FIS_REG_D2H_bits_def
  FIS_DATA_bits_def
  FIS_DMA_SETUP_bits_def
  FIS_PIO_SETUP_bits_def
  HBA_FIS_bits_def
  sata_status_t_bits_def
  interrupt_sts_t_bits_def
  interrupt_enable_t_bits_def
  command_status_t_bits_def
  task_file_data_t_bits_def
  sata_ctrl_t_bits_def
  sata_err_t_bits_def
  fis_switching_ctrl_t_bits_def
  device_sleep_t_bits_def
  hba_port_t_bits_def
  hba_mem_t_bits_def

definition bytes_of :: "layout \<Rightarrow> nat" where
  "bytes_of l = layout_size l div 8"

definition byte_offset :: "layout \<Rightarrow> string \<Rightarrow> nat" where
  "byte_offset l f = offset_of l f div 8"

subsection \<open>Against the standard\<close>

text \<open>The structures lie where the controller expects them. Every register is 32 bits,
  the global registers take 44 bytes, the ports begin at 0x100 and are 128 bytes apart with
  status, command, task file, signature, active and issue registers at their offsets, a command
  header is 32 bytes, a command table is 256 with its first region descriptor at 0x80, and the
  register FIS is 20 bytes with the command at byte 2, the address bytes at 4, 5, 6, 8, 9, 10
  and the count at 12 and 13. The received FIS structure is four bytes short of its 256, so the
  unknown FIS lies at 0x5C instead of 0x60, the direction bit of the DMA setup FIS lies at
  bit 9 instead of 13, and the two halves of the error register are swapped: its error bits
  are looked for from bit 16 on.\<close>

lemma hba_layouts:
  "list_all (\<lambda>l. layout_size l = 32) [host_capabillities_t_bits, global_host_ctrl_t_bits, ccc_control_t_bits, encolsure_mgmt_loc_t_bits,
      encolsure_mgmt_ctrl_t_bits, hba_cap_ext_t_bits, bios_handoff_t_bits, sata_status_t_bits,
      interrupt_sts_t_bits, interrupt_enable_t_bits, command_status_t_bits, task_file_data_t_bits,
      sata_ctrl_t_bits, sata_err_t_bits, fis_switching_ctrl_t_bits, device_sleep_t_bits] \<and>
   bytes_of generic_host_ctrl_bits = 44 \<and> bytes_of hba_port_t_bits = 0x80 \<and>
   byte_offset hba_mem_t_bits ''ports'' = 0x100 \<and>
   map (byte_offset hba_port_t_bits)
     [''cmd_list_base_addr'', ''fis_base_addr'', ''interupt_status'', ''command_status'', ''task_file_data'',
      ''signature'', ''sata_status'', ''sata_active'', ''command_issue''] =
     [0, 8, 0x10, 0x18, 0x20, 0x24, 0x28, 0x34, 0x38] \<and>
   bytes_of command_hdr_t_bits = 32 \<and> bytes_of command_tbl_t_bits = 256 \<and>
   byte_offset command_tbl_t_bits ''prdt'' = 0x80 \<and> bytes_of phy_region_desc_bits = 16 \<and>
   bytes_of FIS_REG_H2D_bits = 20 \<and>
   map (byte_offset FIS_REG_H2D_bits)
     [''command'', ''lba0'', ''lba1'', ''lba2'', ''lba3'', ''lba4'', ''lba5'', ''countl'', ''counth''] =
     [2, 4, 5, 6, 8, 9, 10, 12, 13] \<and>
   bytes_of HBA_FIS_bits = 252 \<and> byte_offset HBA_FIS_bits ''ufis'' = 0x5C \<and>
   offset_of FIS_DMA_SETUP_bits ''d'' = 9 \<and>
   offset_of sata_err_t_bits ''error.recovered_data_integrity_err'' = 16"
  unfolding bytes_of_def byte_offset_def layout_size_def
  by (simp add: hba_layout_defs)

end
