(* ===== verification/Disk.thy ===== *)
theory Disk
  imports Prelude
begin

text \<open>
  The table of disks, \<^verbatim>\<open>src/drivers/disk/disk_driver.cpp\<close>: ten entries, each with the driver
  object it was registered with. Reads and writes go to the driver of the entry; \<open>drd\<close> and
  \<open>dwr\<close> stand for its \<^verbatim>\<open>read\<close> and \<^verbatim>\<open>write\<close>, \<open>None\<close> for the buffer a failed read leaves
  as it was. A failure is only logged.
\<close>

datatype disk_type_t = EMPTY | AHCI

record 'a rw_disk_t =
  disk_driver :: "'a option"
  disk_type :: disk_type_t
  disk_number :: int

definition boot_disks :: "'a rw_disk_t list" where
  "boot_disks = replicate 10 \<lparr>disk_driver = None, disk_type = EMPTY, disk_number = 0\<rparr>"

definition disk_write ::
  "('a \<Rightarrow> u64 \<Rightarrow> u32 \<Rightarrow> u8 list \<Rightarrow> 'd \<Rightarrow> 'd) \<Rightarrow> 'a rw_disk_t \<Rightarrow> u32 \<Rightarrow> u32 \<Rightarrow> u8 list \<Rightarrow> 'd \<Rightarrow> 'd res" where
  "disk_write dwr dsk lba n buf d =
     (case disk_type dsk of
        EMPTY \<Rightarrow> Inr d
      | AHCI \<Rightarrow> (case disk_driver dsk of None \<Rightarrow> Inl Null_deref | Some drv \<Rightarrow> Inr (dwr drv (ucast lba) n buf d)))"

definition disk_read ::
  "('a \<Rightarrow> u64 \<Rightarrow> u32 \<Rightarrow> 'd \<Rightarrow> u8 list option) \<Rightarrow> 'a rw_disk_t \<Rightarrow> u64 \<Rightarrow> u32 \<Rightarrow> 'd \<Rightarrow> u8 list option res" where
  "disk_read drd dsk lba n d =
     (case disk_type dsk of
        EMPTY \<Rightarrow> Inr None
      | AHCI \<Rightarrow> (case disk_driver dsk of None \<Rightarrow> Inl Null_deref | Some drv \<Rightarrow> Inr (drd drv lba n d)))"

definition get_gpt :: "('a \<Rightarrow> 'g) \<Rightarrow> 'a rw_disk_t \<Rightarrow> 'g option res" where
  "get_gpt gpt dsk =
     (case disk_type dsk of
        EMPTY \<Rightarrow> Inr None
      | AHCI \<Rightarrow> (case disk_driver dsk of None \<Rightarrow> Inl Null_deref | Some drv \<Rightarrow> Inr (Some (gpt drv))))"

text \<open>The address of an entry; the number is not checked.\<close>

definition get_disk :: "'a rw_disk_t list \<Rightarrow> u8 \<Rightarrow> 'a rw_disk_t res" where
  "get_disk ds i = (if unat i < length ds then Inr (ds ! unat i) else Inl Out_of_bounds)"

text \<open>The loop of \<^verbatim>\<open>register_disk\<close>: \<open>Inl\<close> when a duplicate ends it, else the first empty entry.\<close>

fun register_scan :: "disk_type_t \<Rightarrow> int \<Rightarrow> 'a rw_disk_t list \<Rightarrow> nat \<Rightarrow> nat option \<Rightarrow> unit + nat option" where
  "register_scan ty n [] i first_null = Inr first_null"
| "register_scan ty n (d # ds) i first_null =
     (if disk_number d = n \<and> disk_type d = ty then Inl ()
      else register_scan ty n ds (Suc i)
             (if disk_type d = EMPTY \<and> first_null = None then Some i else first_null))"

definition register_disk ::
  "disk_type_t \<Rightarrow> int \<Rightarrow> 'a \<Rightarrow> 'a rw_disk_t list \<Rightarrow> nat option \<times> 'a rw_disk_t list" where
  "register_disk ty n drv ds =
     (case register_scan ty n ds 0 None of
        Inl _ \<Rightarrow> (None, ds)
      | Inr None \<Rightarrow> (None, ds)
      | Inr (Some k) \<Rightarrow> (Some k, ds[k := \<lparr>disk_driver = Some drv, disk_type = ty, disk_number = n\<rparr>]))"

subsection \<open>The table stays a table\<close>

definition registered :: "'a rw_disk_t list \<Rightarrow> disk_type_t \<Rightarrow> int \<Rightarrow> nat \<Rightarrow> bool" where
  "registered ds ty n i \<longleftrightarrow> i < length ds \<and> disk_type (ds ! i) = ty \<and> disk_number (ds ! i) = n"

text \<open>No disk twice, every registered disk with its driver.\<close>

definition disks_ok :: "'a rw_disk_t list \<Rightarrow> bool" where
  "disks_ok ds \<longleftrightarrow> length ds = 10 \<and>
     (\<forall>i j n. registered ds AHCI n i \<and> registered ds AHCI n j \<longrightarrow> i = j) \<and>
     (\<forall>i n. registered ds AHCI n i \<longrightarrow> disk_driver (ds ! i) \<noteq> None)"

lemma register_scan_spec:
  "case register_scan ty n ds i fn of
     Inl _ \<Rightarrow> \<exists>k. registered ds ty n k
   | Inr r \<Rightarrow> (\<forall>k. \<not> registered ds ty n k) \<and>
       (case fn of
          Some f \<Rightarrow> r = Some f
        | None \<Rightarrow> (case r of
            None \<Rightarrow> \<forall>k < length ds. disk_type (ds ! k) \<noteq> EMPTY
          | Some k \<Rightarrow> i \<le> k \<and> k < i + length ds \<and> disk_type (ds ! (k - i)) = EMPTY \<and>
              (\<forall>j < k - i. disk_type (ds ! j) \<noteq> EMPTY)))"
proof (induction ty n ds i fn rule: register_scan.induct)
  case (1 ty n i fn)
  then show ?case by (auto simp: registered_def split: option.splits)
next
  case (2 ty n d ds i fn)
  have reg: "registered (d # ds) ty n k \<longleftrightarrow>
    (case k of 0 \<Rightarrow> disk_type d = ty \<and> disk_number d = n | Suc m \<Rightarrow> registered ds ty n m)" for k
    by (cases k) (auto simp: registered_def)
  show ?case
  proof (cases "disk_number d = n \<and> disk_type d = ty")
    case True
    then have "registered (d # ds) ty n 0" by (simp add: reg)
    with True show ?thesis by auto
  next
    case False
    let ?fn = "if disk_type d = EMPTY \<and> fn = None then Some i else fn"
    note ih = "2.IH" [OF False]
    show ?thesis
    proof (cases "register_scan ty n ds (Suc i) ?fn")
      case (Inl u)
      with ih obtain k where "registered ds ty n k" by auto
      with Inl False show ?thesis by (auto simp: reg intro: exI [of _ "Suc k"])
    next
      case (Inr r)
      with ih have nr: "\<forall>k. \<not> registered ds ty n k" by simp
      with False have "\<not> registered (d # ds) ty n k" for k by (cases k) (auto simp: reg)
      moreover have "case fn of Some f \<Rightarrow> r = Some f
        | None \<Rightarrow> (case r of
            None \<Rightarrow> \<forall>k < length (d # ds). disk_type ((d # ds) ! k) \<noteq> EMPTY
          | Some k \<Rightarrow> i \<le> k \<and> k < i + length (d # ds) \<and> disk_type ((d # ds) ! (k - i)) = EMPTY \<and>
              (\<forall>j < k - i. disk_type ((d # ds) ! j) \<noteq> EMPTY))"
      proof (cases "fn = None \<and> disk_type d \<noteq> EMPTY")
        case True
        show ?thesis
        proof (cases r)
          case None
          with True ih Inr show ?thesis by (auto simp: less_Suc_eq_0_disj)
        next
          case (Some k)
          with True ih Inr have "Suc i \<le> k" "k < Suc i + length ds" "disk_type (ds ! (k - Suc i)) = EMPTY"
            "\<forall>j < k - Suc i. disk_type (ds ! j) \<noteq> EMPTY" by auto
          moreover from this have "k - i = Suc (k - Suc i)" by simp
          ultimately show ?thesis using True Some by (auto simp: less_Suc_eq_0_disj)
        qed
      next
        case False
        with ih Inr show ?thesis by (cases fn) auto
      qed
      moreover have "register_scan ty n (d # ds) i fn = Inr r"
        by (simp only: register_scan.simps if_not_P [OF False] Inr)
      ultimately show ?thesis by simp
    qed
  qed
qed

text \<open>A sequence of registrations.\<close>

fun register_all :: "(int \<times> 'a) list \<Rightarrow> 'a rw_disk_t list \<Rightarrow> 'a rw_disk_t list" where
  "register_all [] ds = ds"
| "register_all ((n, drv) # rs) ds = register_all rs (snd (register_disk AHCI n drv ds))"

lemma boot_disks_ok: "disks_ok boot_disks"
  by (auto simp: disks_ok_def registered_def boot_disks_def)

lemma register_disk_cases:
  assumes ok: "disks_ok ds"
  shows "if (\<exists>i. registered ds AHCI n i) \<or> (\<forall>i < 10. disk_type (ds ! i) \<noteq> EMPTY)
    then register_disk AHCI n drv ds = (None, ds)
    else \<exists>k ds'. register_disk AHCI n drv ds = (Some k, ds') \<and> disks_ok ds' \<and> registered ds' AHCI n k \<and>
      disk_type (ds ! k) = EMPTY \<and> disk_driver (ds' ! k) = Some drv \<and> (\<forall>j. j \<noteq> k \<longrightarrow> ds' ! j = ds ! j)"
proof -
  from ok have l: "length ds = 10" by (simp add: disks_ok_def)
  note sp = register_scan_spec [where ty = AHCI and n = n and ds = ds and i = 0 and fn = None]
  show ?thesis
  proof (cases "register_scan AHCI n ds 0 None")
    case (Inl u)
    with sp have "\<exists>i. registered ds AHCI n i" by simp
    with Inl show ?thesis by (simp add: register_disk_def)
  next
    case (Inr r)
    with sp have nr: "\<forall>k. \<not> registered ds AHCI n k" by simp
    show ?thesis
    proof (cases r)
      case None
      with Inr sp l have "\<forall>i < 10. disk_type (ds ! i) \<noteq> EMPTY" by simp
      with Inr None show ?thesis by (simp add: register_disk_def)
    next
      case (Some k)
      with Inr sp l have k: "k < 10" "disk_type (ds ! k) = EMPTY" by simp_all
      let ?ds = "ds[k := \<lparr>disk_driver = Some drv, disk_type = AHCI, disk_number = n\<rparr>]"
      have "disks_ok ?ds"
        using ok nr k l unfolding disks_ok_def registered_def by (auto simp: nth_list_update)
      with Inr Some k nr l show ?thesis
        by (auto simp: register_disk_def registered_def nth_list_update)
    qed
  qed
qed

text \<open>C23: The disk table never holds a disk twice. After any sequence of registrations from the
  boot state every registered disk occurs once and has its driver; one more registration of a
  number that is present, or with all ten entries taken, changes nothing and returns NULL, and
  any other takes an empty entry, leaves the rest as it is and returns the entry with the driver in it.\<close>

theorem register_disk_invariant:
  fixes rs :: "(int \<times> 'a) list"
  defines "ds \<equiv> register_all rs boot_disks"
  shows "disks_ok ds \<and>
    (if (\<exists>i. registered ds AHCI n i) \<or> (\<forall>i < 10. disk_type (ds ! i) \<noteq> EMPTY)
     then register_disk AHCI n drv ds = (None, ds)
     else \<exists>k ds'. register_disk AHCI n drv ds = (Some k, ds') \<and> disks_ok ds' \<and> registered ds' AHCI n k \<and>
       disk_type (ds ! k) = EMPTY \<and> disk_driver (ds' ! k) = Some drv \<and> (\<forall>j. j \<noteq> k \<longrightarrow> ds' ! j = ds ! j))"
proof -
  have "disks_ok (register_all rs e)" if "disks_ok e" for e :: "'a rw_disk_t list"
    using that
  proof (induction rs arbitrary: e)
    case (Cons r rs)
    obtain m v where r: "r = (m, v)" by (cases r)
    have "disks_ok (snd (register_disk AHCI m v e))"
      using register_disk_cases [OF Cons.prems, of m v] Cons.prems by (auto split: if_splits)
    with Cons.IH r show ?case by simp
  qed simp
  with boot_disks_ok have "disks_ok ds" unfolding ds_def by blast
  with register_disk_cases [OF this, of n drv] show ?thesis by blast
qed

theorem register_disk_invariant_witness:
  "fst (register_disk AHCI 3 True (register_all [(3, False), (5, True)] boot_disks)) = None \<and>
   disks_ok (register_all [(3, False), (5, True)] boot_disks)"
proof -
  let ?ds = "register_all [(3, False), (5, True)] boot_disks"
  have "registered ?ds AHCI 3 0"
    by (simp add: registered_def register_disk_def boot_disks_def numeral_eq_Suc)
  then have "\<exists>i. registered ?ds AHCI 3 i" by blast
  with register_disk_invariant [of "[(3, False), (5, True)]" 3 True] show ?thesis by simp
qed

end
