(* ===== verification/Ahci.thy ===== *)
theory Ahci
  imports Hba_Regs Disk Fat_Data
begin

text \<open>
  The AHCI driver, \<^verbatim>\<open>src/drivers/disk/ahci\<close>. A port is its registers and the command list
  the driver fills in; memory and the rest of the controller are the field \<open>world\<close>. The
  controller works on its own: \<open>tick\<close> is what it does between two looks of the driver at a
  register, a parameter of every loop that polls. The loops that wait for the controller
  have no bound in the source, so they take fuel.
\<close>

record fis_h2d =
  fis_type :: u8
  fis_c :: bool
  fis_command :: u8
  lba0 :: u8
  lba1 :: u8
  lba2 :: u8
  device :: u8
  lba3 :: u8
  lba4 :: u8
  lba5 :: u8
  countl :: u8
  counth :: u8

definition blank_fis :: fis_h2d where
  "blank_fis = \<lparr>fis_type = 0, fis_c = False, fis_command = 0, lba0 = 0, lba1 = 0, lba2 = 0, device = 0,
     lba3 = 0, lba4 = 0, lba5 = 0, countl = 0, counth = 0\<rparr>"

record phy_region_desc =
  data_base_address :: u64
  data_byte_count :: u32
  intr_on_completion :: bool

definition blank_region :: phy_region_desc where
  "blank_region = \<lparr>data_base_address = 0, data_byte_count = 0, intr_on_completion = False\<rparr>"

text \<open>The page of a command table: after the first 128 bytes there is room for 248 regions.\<close>

record command_tbl =
  cmd_fis :: fis_h2d
  prdt :: "phy_region_desc list"

record command_hdr =
  cmdfis_length :: nat
  write_command :: bool
  prdt_length :: u16
  prdt_byte_count :: u32
  cmd_table :: command_tbl

record pio_setup =
  pio_fis_type :: u8
  pio_transfer_cnt :: u16
  pio_device :: u8
  pio_i :: bool
  pio_d :: bool

record 'w hba_port =
  interrupt_status :: u32
  command_status :: u32
  task_file_data :: u32
  sata_active :: u32
  command_issue :: u32
  cmd_list :: "command_hdr list"
  pio_setup_fis :: pio_setup
  world :: 'w

definition AHCI_ERR_DEV_BUSY :: int where "AHCI_ERR_DEV_BUSY = - 2"
definition AHCI_ERR_CONTROLLER_ERR :: int where "AHCI_ERR_CONTROLLER_ERR = - 3"
definition AHCI_SUCCESS :: int where "AHCI_SUCCESS = 0"
definition FIS_TYPE_REG_H2D :: u8 where "FIS_TYPE_REG_H2D = 0x27"
definition FIS_TYPE_PIO_SETUP :: u8 where "FIS_TYPE_PIO_SETUP = 0x5F"
definition SIGNATURE_ATA :: u32 where "SIGNATURE_ATA = 0x00000101"
definition AHCI_DEVICE_IDENTIFY_CMD :: u8 where "AHCI_DEVICE_IDENTIFY_CMD = 0xEC"

subsection \<open>Commands\<close>

text \<open>\<^verbatim>\<open>getSlot\<close>: the first slot that is neither active nor issued.\<close>

fun get_slot_from :: "u32 \<Rightarrow> nat \<Rightarrow> nat \<Rightarrow> int" where
  "get_slot_from taken slot 0 = - 1"
| "get_slot_from taken slot (Suc n) =
     (if push_bit slot 1 AND taken = 0 then int slot else get_slot_from taken (Suc slot) n)"

definition getSlot :: "'w hba_port \<Rightarrow> int" where
  "getSlot p = get_slot_from (sata_active p OR command_issue p) 0 32"

text \<open>
  \<^verbatim>\<open>run_command\<close>: at most 100000 looks at the task file, then the command is issued and the
  driver looks at the issue and status registers until the bit of the slot is gone.
\<close>

definition port_busy :: "'w hba_port \<Rightarrow> bool" where
  "port_busy p \<longleftrightarrow>
     get_field task_file_data_t_bits ''status_busy'' (task_file_data p) \<noteq> 0 \<and>
     get_field task_file_data_t_bits ''status_data_transfer_requested'' (task_file_data p) \<noteq> 0"

fun wait_ready :: "('w hba_port \<Rightarrow> 'w hba_port) \<Rightarrow> nat \<Rightarrow> 'w hba_port \<Rightarrow> bool \<times> 'w hba_port" where
  "wait_ready tick 0 p = (\<not> port_busy p, p)"
| "wait_ready tick (Suc n) p = (if port_busy p then wait_ready tick n (tick p) else (True, p))"

definition task_file_error :: "'w hba_port \<Rightarrow> bool" where
  "task_file_error p \<longleftrightarrow> get_field interrupt_sts_t_bits ''task_file_error_sts'' (interrupt_status p) \<noteq> 0"

definition issued :: "nat \<Rightarrow> 'w hba_port \<Rightarrow> bool" where
  "issued slot p \<longleftrightarrow> command_issue p AND push_bit slot 1 \<noteq> 0"

fun wait_done :: "('w hba_port \<Rightarrow> 'w hba_port) \<Rightarrow> nat \<Rightarrow> nat \<Rightarrow> 'w hba_port \<Rightarrow> (int \<times> 'w hba_port) res" where
  "wait_done tick 0 slot p = Inl Hang"
| "wait_done tick (Suc k) slot p =
     (if issued slot p
      then if task_file_error p then Inr (AHCI_ERR_CONTROLLER_ERR, p) else wait_done tick k slot (tick p)
      else Inr (AHCI_SUCCESS, p))"

text \<open>The issue register keeps the bits of other slots: a 0 written to it changes nothing.\<close>

definition issue :: "nat \<Rightarrow> 'w hba_port \<Rightarrow> 'w hba_port" where
  "issue slot p = p\<lparr>command_issue := command_issue p OR push_bit slot 1\<rparr>"

definition run_command ::
  "('w hba_port \<Rightarrow> 'w hba_port) \<Rightarrow> nat \<Rightarrow> nat \<Rightarrow> 'w hba_port \<Rightarrow> (int \<times> 'w hba_port) res" where
  "run_command tick fuel slot p =
     (case wait_ready tick 100000 p of
        (False, p) \<Rightarrow> Inr (AHCI_ERR_DEV_BUSY, p)
      | (True, p) \<Rightarrow> wait_done tick fuel slot (issue slot p))"

text \<open>The loop over all regions but the last: 8 KiB each.\<close>

fun fill_prdt :: "nat \<Rightarrow> nat \<Rightarrow> u64 \<Rightarrow> u32 \<Rightarrow> phy_region_desc list \<Rightarrow>
  (nat \<times> u64 \<times> u32 \<times> phy_region_desc list) res" where
  "fill_prdt 0 i buf n t = Inr (i, buf, n, t)"
| "fill_prdt (Suc k) i buf n t =
     (if i < length t
      then fill_prdt k (Suc i) (buf + 0x2000) (n - 16)
             (t[i := (t ! i)\<lparr>data_base_address := buf, data_byte_count := 8 * 1024 - 1, intr_on_completion := True\<rparr>])
      else Inl Out_of_bounds)"

definition prdt_entries :: "u32 \<Rightarrow> u16" where
  "prdt_entries n = of_nat (unat (ucast (drop_bit 4 (n - 1)) :: u16) + 1)"

text \<open>The part \<^verbatim>\<open>read\<close> and \<^verbatim>\<open>write\<close> share: the region table and the command FIS.\<close>

definition build_table :: "u8 \<Rightarrow> u64 \<Rightarrow> u32 \<Rightarrow> u64 \<Rightarrow> command_tbl \<Rightarrow> command_tbl res" where
  "build_table cmd lba n buf tbl =
     (let len = prdt_entries n;
          cleared = replicate 8 blank_region @ drop 8 (prdt tbl)
      in rbind (fill_prdt (unat len - 1) 0 buf n cleared) (\<lambda>(i, buf, n, t).
           if i < length t
           then let startl = ucast (lba AND 0xFFFF) :: u32; starth = ucast (drop_bit 32 lba) :: u32
                in Inr \<lparr>cmd_fis = blank_fis\<lparr>fis_type := FIS_TYPE_REG_H2D, fis_c := True, fis_command := cmd,
                          lba0 := ucast startl, lba1 := ucast (drop_bit 8 startl), lba2 := ucast (drop_bit 16 startl),
                          device := push_bit 6 1,
                          lba3 := ucast (drop_bit 24 startl), lba4 := ucast starth, lba5 := ucast (drop_bit 8 starth),
                          countl := ucast (n AND 0xFF), counth := ucast (drop_bit 8 n)\<rparr>,
                        prdt = t[i := (t ! i)\<lparr>data_base_address := buf,
                                 data_byte_count := take_bit 22 (push_bit 9 n - 1), intr_on_completion := True\<rparr>]\<rparr>
           else Inl Out_of_bounds))"

definition ahci_rw ::
  "('w hba_port \<Rightarrow> 'w hba_port) \<Rightarrow> nat \<Rightarrow> bool \<Rightarrow> u8 \<Rightarrow> u64 \<Rightarrow> u32 \<Rightarrow> u64 \<Rightarrow> 'w hba_port \<Rightarrow> (int \<times> 'w hba_port) res" where
  "ahci_rw tick fuel w cmd lba n buf p =
     (let p = p\<lparr>interrupt_status := 0\<rparr>; slot = getSlot p
      in if slot = - 1 then Inr (AHCI_ERR_DEV_BUSY, p)
         else if length (cmd_list p) \<le> nat slot then Inl Out_of_bounds
         else
           let hdr = (cmd_list p ! nat slot)\<lparr>cmdfis_length := 5, write_command := w, prdt_length := prdt_entries n\<rparr>
           in rbind (build_table cmd lba n buf (cmd_table hdr)) (\<lambda>t.
                run_command tick fuel (nat slot)
                  (p\<lparr>cmd_list := (cmd_list p)[nat slot := hdr\<lparr>cmd_table := t\<rparr>]\<rparr>)))"

definition ahci_read ::
  "('w hba_port \<Rightarrow> 'w hba_port) \<Rightarrow> nat \<Rightarrow> u64 \<Rightarrow> u32 \<Rightarrow> u64 \<Rightarrow> 'w hba_port \<Rightarrow> (int \<times> 'w hba_port) res" where
  "ahci_read tick fuel = ahci_rw tick fuel False 0x25"

definition ahci_write ::
  "('w hba_port \<Rightarrow> 'w hba_port) \<Rightarrow> nat \<Rightarrow> u64 \<Rightarrow> u32 \<Rightarrow> u64 \<Rightarrow> 'w hba_port \<Rightarrow> (int \<times> 'w hba_port) res" where
  "ahci_write tick fuel = ahci_rw tick fuel True 0xCA"

definition identifyDevice ::
  "('w hba_port \<Rightarrow> 'w hba_port) \<Rightarrow> nat \<Rightarrow> u64 \<Rightarrow> 'w hba_port \<Rightarrow> (int \<times> 'w hba_port) res" where
  "identifyDevice tick fuel buf p =
     (let slot = getSlot p
      in if slot = - 1 then Inr (AHCI_ERR_DEV_BUSY, p)
         else if length (cmd_list p) \<le> nat slot then Inl Out_of_bounds
         else
           let hdr = (cmd_list p ! nat slot)\<lparr>cmdfis_length := 5, prdt_length := 1, prdt_byte_count := 512\<rparr>;
               t = replicate 8 blank_region @ drop 8 (prdt (cmd_table hdr));
               tbl = \<lparr>cmd_fis = blank_fis\<lparr>fis_type := FIS_TYPE_REG_H2D, fis_c := True,
                          fis_command := AHCI_DEVICE_IDENTIFY_CMD, device := push_bit 6 1\<rparr>,
                      prdt = t[0 := \<lparr>data_base_address = buf, data_byte_count = 512, intr_on_completion = True\<rparr>]\<rparr>
           in run_command tick fuel (nat slot)
                (p\<lparr>cmd_list := (cmd_list p)[nat slot := hdr\<lparr>cmd_table := tbl\<rparr>],
                   pio_setup_fis := (pio_setup_fis p)\<lparr>pio_fis_type := FIS_TYPE_PIO_SETUP, pio_transfer_cnt := 0,
                     pio_device := push_bit 6 1, pio_i := True, pio_d := True\<rparr>\<rparr>))"

subsection \<open>Ports\<close>

definition cmd_flag :: "string \<Rightarrow> 'w hba_port \<Rightarrow> bool" where
  "cmd_flag f p \<longleftrightarrow> get_field command_status_t_bits f (command_status p) \<noteq> 0"

definition set_cmd_flag :: "string \<Rightarrow> u32 \<Rightarrow> 'w hba_port \<Rightarrow> 'w hba_port" where
  "set_cmd_flag f v p = p\<lparr>command_status := set_field command_status_t_bits f v (command_status p)\<rparr>"

fun wait_while :: "('w hba_port \<Rightarrow> bool) \<Rightarrow> ('w hba_port \<Rightarrow> 'w hba_port) \<Rightarrow> nat \<Rightarrow> 'w hba_port \<Rightarrow> 'w hba_port res" where
  "wait_while b tick 0 p = Inl Hang"
| "wait_while b tick (Suc k) p = (if b p then wait_while b tick k (tick p) else Inr p)"

text \<open>
  The constructor up to the partition table: stop the port, give it its command list and a
  table per slot (\<open>fresh\<close>, the pages as they come) and the page of its received frames (\<open>fis\<close> is
  the frame in it the driver ever writes), start it again.
\<close>

definition start_port ::
  "('w hba_port \<Rightarrow> 'w hba_port) \<Rightarrow> nat \<Rightarrow> command_hdr list \<Rightarrow> pio_setup \<Rightarrow> 'w hba_port \<Rightarrow> 'w hba_port res" where
  "start_port tick fuel fresh fis p =
     rbind (wait_while (\<lambda>p. cmd_flag ''FIS_recieve_running'' p \<or> cmd_flag ''cmd_list_running'' p) tick fuel
              (set_cmd_flag ''FIS_recieve_enable'' 0 (set_cmd_flag ''cmd_start'' 0 p))) (\<lambda>p.
     rbind (wait_while (cmd_flag ''cmd_list_running'') tick fuel (p\<lparr>cmd_list := fresh, pio_setup_fis := fis\<rparr>)) (\<lambda>p.
       Inr (set_cmd_flag ''cmd_start'' 1 (set_cmd_flag ''FIS_recieve_enable'' 1 p))))"

text \<open>\<^verbatim>\<open>probe_ports\<close>: the ports with an ATA disk that is present and active.\<close>

definition port_usable :: "u32 \<Rightarrow> u32 \<Rightarrow> bool" where
  "port_usable sig ssts \<longleftrightarrow>
     sig = SIGNATURE_ATA \<and> get_field sata_status_t_bits ''device_detection'' ssts = 3 \<and>
     get_field sata_status_t_bits ''interface_pm'' ssts = 1"

definition probe_ports :: "u32 \<Rightarrow> (nat \<Rightarrow> u32) \<Rightarrow> (nat \<Rightarrow> u32) \<Rightarrow> nat list" where
  "probe_ports implemented sig ssts =
     filter (\<lambda>i. implemented AND push_bit i 1 \<noteq> 0 \<and> port_usable (sig i) (ssts i)) [0..<32]"

subsection \<open>What a command asks for\<close>

text \<open>
  The bytes of memory the region table names, in the order of the transfer, and the address
  and count the FIS carries: 48 and 16 bits in the extended command, 28 and 8 bits in the
  other, a count of 0 standing for the whole range.
\<close>

definition region_addrs :: "phy_region_desc \<Rightarrow> nat list" where
  "region_addrs r = [unat (data_base_address r)..<unat (data_base_address r) + (unat (data_byte_count r) + 1)]"

definition transfer :: "u16 \<Rightarrow> phy_region_desc list \<Rightarrow> nat list" where
  "transfer len t = concat (map region_addrs (take (unat len) t))"

definition fis_lba :: "fis_h2d \<Rightarrow> nat" where
  "fis_lba f =
     (let low = unat (lba0 f) + 2 ^ 8 * unat (lba1 f) + 2 ^ 16 * unat (lba2 f)
      in if fis_command f = 0x25
         then low + 2 ^ 24 * unat (lba3 f) + 2 ^ 32 * unat (lba4 f) + 2 ^ 40 * unat (lba5 f)
         else low + 2 ^ 24 * (unat (device f) mod 16))"

definition fis_count :: "fis_h2d \<Rightarrow> nat" where
  "fis_count f =
     (if fis_command f = 0x25
      then (let n = unat (countl f) + 2 ^ 8 * unat (counth f) in if n = 0 then 2 ^ 16 else n)
      else if countl f = 0 then 2 ^ 8 else unat (countl f))"

lemma region_addrs_len:
  "unat (data_byte_count r) + 1 = n \<Longrightarrow> data_base_address r = b \<Longrightarrow> region_addrs r = [unat b..<unat b + n]"
  by (simp only: region_addrs_def)

lemma fill_prdt_spec:
  assumes "i + k \<le> length t" and "unat buf + 8192 * k < 2 ^ 64" and "16 * k \<le> unat n"
  shows "\<exists>t'. fill_prdt k i buf n t = Inr (i + k, buf + 0x2000 * of_nat k, n - 16 * of_nat k, t') \<and>
    length t' = length t \<and>
    concat (map region_addrs (take (i + k) t')) =
      concat (map region_addrs (take i t)) @ [unat buf..<unat buf + 8192 * k]"
  using assms
proof (induction k arbitrary: i buf n t)
  case (Suc k)
  let ?r = "(t ! i)\<lparr>data_base_address := buf, data_byte_count := 8 * 1024 - 1, intr_on_completion := True\<rparr>"
  have i: "i < length t" using Suc.prems by simp
  have ub: "unat (buf + 0x2000) = unat buf + 8192" using Suc.prems(2) by (subst unat_add_no) simp_all
  have un: "unat (n - 16) = unat n - 16" using Suc.prems(3) by (subst unat_sub_no32) simp_all
  have "Suc i + k \<le> length (t[i := ?r])" "unat (buf + 0x2000) + 8192 * k < 2 ^ 64" "16 * k \<le> unat (n - 16)"
    using Suc.prems ub un by simp_all
  from Suc.IH [OF this] ub obtain t' where
    t': "fill_prdt k (Suc i) (buf + 0x2000) (n - 16) (t[i := ?r]) =
      Inr (Suc i + k, buf + 0x2000 + 0x2000 * of_nat k, n - 16 - 16 * of_nat k, t')"
    "length t' = length t"
    "concat (map region_addrs (take (Suc i + k) t')) =
      concat (map region_addrs (take (Suc i) (t[i := ?r]))) @ [unat buf + 8192..<unat buf + 8192 + 8192 * k]"
    by auto
  have "region_addrs ?r = [unat buf..<unat buf + 8192]" by (rule region_addrs_len) simp_all
  then have "concat (map region_addrs (take (Suc i) (t[i := ?r]))) =
    concat (map region_addrs (take i t)) @ [unat buf..<unat buf + 8192]"
    using i by (simp add: take_Suc_update)
  moreover have "[unat buf..<unat buf + 8192] @ [unat buf + 8192..<unat buf + 8192 + 8192 * k] =
    [unat buf..<unat buf + 8192 * Suc k]"
    using upt_add_eq_append [of "unat buf" "unat buf + 8192" "8192 * k"] by (simp add: add.assoc)
  ultimately show ?case using t' i by (simp add: algebra_simps)
qed simp

text \<open>A region the controller accepts: word aligned, with an even number of bytes.\<close>

definition region_ok :: "phy_region_desc \<Rightarrow> bool" where
  "region_ok r \<longleftrightarrow> even (data_base_address r) \<and> odd (data_byte_count r) \<and> unat (data_byte_count r) < 2 ^ 22"

lemma take_Suc_regions:
  "i < length t \<Longrightarrow> \<forall>r \<in> set (take i t). region_ok r \<Longrightarrow> region_ok x \<Longrightarrow> \<forall>r \<in> set (take (Suc i) (t[i := x])). region_ok r"
  by (auto simp: take_Suc_update)

lemma fill_prdt_regions:
  "fill_prdt k i buf n t = Inr (i', buf', n', t') \<Longrightarrow> even buf \<Longrightarrow> \<forall>r \<in> set (take i t). region_ok r \<Longrightarrow>
   even buf' \<and> (\<forall>r \<in> set (take i' t'). region_ok r)"
proof (induction k arbitrary: i buf n t)
  case (Suc k)
  let ?r = "(t ! i)\<lparr>data_base_address := buf, data_byte_count := 8 * 1024 - 1, intr_on_completion := True\<rparr>"
  have i: "i < length t" and f: "fill_prdt k (Suc i) (buf + 0x2000) (n - 16) (t[i := ?r]) = Inr (i', buf', n', t')"
    using Suc.prems(1) by (auto split: if_splits)
  have "region_ok ?r" using Suc.prems(2) by (simp add: region_ok_def)
  with take_Suc_regions [OF i Suc.prems(3)] have "\<forall>r \<in> set (take (Suc i) (t[i := ?r])). region_ok r" .
  with Suc.IH [OF f] Suc.prems(2) show ?case by simp
qed simp

lemma prdt_entries_val:
  assumes "0 < unat n" and "unat n \<le> 3968"
  shows "unat (prdt_entries n) = (unat n - 1) div 16 + 1"
proof -
  have "unat (n - 1) = unat n - 1" using assms by (subst unat_sub_no32) simp_all
  then have "unat (drop_bit 4 (n - 1)) = (unat n - 1) div 16" by (simp add: drop_bit_eq_div unat_div)
  moreover have "(unat n - 1) div 16 < 2 ^ 15" using assms by simp
  ultimately have "unat (ucast (drop_bit 4 (n - 1)) :: u16) = (unat n - 1) div 16"
    by (simp add: unsigned_ucast_eq take_bit_nat_eq_self)
  moreover have "unat (of_nat m :: u16) = m" if "m < 2 ^ 16" for m
    using that by (simp add: unat_of_nat take_bit_nat_eq_self)
  moreover have "(unat n - 1) div 16 + 1 < 2 ^ 16" using assms by simp
  ultimately show ?thesis unfolding prdt_entries_def by (simp only:)
qed

text \<open>The whole of \<^verbatim>\<open>build_table\<close> for a request that fits the page of the table.\<close>

lemma fis_count_ext:
  "fis_command f = 0x25 \<Longrightarrow> countl f = ucast (n AND 0xFF) \<Longrightarrow> counth f = ucast (drop_bit 8 n) \<Longrightarrow>
   0 < unat n \<Longrightarrow> unat n < 2 ^ 16 \<Longrightarrow> fis_count f = unat (n :: u32)"
proof -
  assume f: "fis_command f = 0x25" "countl f = ucast (n AND 0xFF)" "counth f = ucast (drop_bit 8 n)"
    and n: "0 < unat n" "unat n < 2 ^ 16"
  have "n AND 0xFF = take_bit 8 n" using take_bit_eq_mask [of 8 n] by (simp add: mask_eq_exp_minus_1)
  then have "unat (countl f) = unat n mod 256"
    by (simp add: f unsigned_ucast_eq take_bit_eq_mod unat_mod)
  moreover have "unat (counth f) = unat n div 256"
    using n(2) by (simp add: f unsigned_ucast_eq drop_bit_eq_div unat_div take_bit_eq_mod)
  ultimately show ?thesis using n(1) f(1) by (simp add: fis_count_def Let_def)
qed

lemma unat_low16: "unat (ucast (lba AND 0xFFFF) :: u32) = unat (lba :: u64) mod 2 ^ 16"
proof -
  have "lba AND 0xFFFF = take_bit 16 lba" using take_bit_eq_mask [of 16 lba] by (simp add: mask_eq_exp_minus_1)
  then show ?thesis by (simp add: unsigned_ucast_eq take_bit_eq_mod unat_mod)
qed

lemma unat_low_byte: "unat (ucast w :: u8) = unat (w :: u32) mod 256"
  by (simp add: unsigned_ucast_eq take_bit_eq_mod)

lemma byte_join16: "x mod 256 + 256 * (x div 256 mod 256) = x mod 2 ^ 16" for x :: nat
  using mod_mult2_eq [of x 256 256] by simp

lemma fis_lba_ext:
  fixes lba :: u64
  assumes "fis_command f = 0x25" and "lba0 f = ucast startl" and "lba1 f = ucast (drop_bit 8 startl)"
    and "lba2 f = ucast (drop_bit 16 startl)" and "lba3 f = ucast (drop_bit 24 startl)"
    and "lba4 f = ucast starth" and "lba5 f = ucast (drop_bit 8 starth)"
    and sl: "startl = (ucast (lba AND 0xFFFF) :: u32)" and sh: "starth = (ucast (drop_bit 32 lba) :: u32)"
  shows "fis_lba f = unat lba mod 2 ^ 16 + 2 ^ 32 * (unat lba div 2 ^ 32 mod 2 ^ 16)"
proof -
  have l: "unat startl = unat lba mod 2 ^ 16" unfolding sl by (rule unat_low16)
  have h: "unat starth = unat lba div 2 ^ 32"
    using unat_u64_lt [of lba] by (simp add: sh unsigned_ucast_eq drop_bit_eq_div unat_div take_bit_eq_mod)
  have d: "unat (drop_bit 8 w) = unat w div 2 ^ 8" "unat (drop_bit 16 w) = unat w div 2 ^ 16"
    "unat (drop_bit 24 w) = unat w div 2 ^ 24" for w :: u32
    by (simp_all add: drop_bit_eq_div unat_div)
  have z: "unat lba mod 2 ^ 16 div 2 ^ 16 = 0" "unat lba mod 2 ^ 16 div 2 ^ 24 = 0" by simp_all
  show ?thesis
    using byte_join16 [of "unat lba mod 2 ^ 16"] byte_join16 [of "unat lba div 2 ^ 32"] assms(1-7)
    by (simp add: fis_lba_def Let_def unat_low_byte d l h)
qed

lemma fis_lba_28:
  fixes lba :: u64
  assumes "fis_command f = 0xCA" and "device f = push_bit 6 1" and "lba0 f = ucast startl"
    and "lba1 f = ucast (drop_bit 8 startl)" and "lba2 f = ucast (drop_bit 16 startl)"
    and "startl = (ucast (lba AND 0xFFFF) :: u32)"
  shows "fis_lba f = unat lba mod 2 ^ 16"
proof -
  have d: "unat (drop_bit 8 startl) = unat startl div 2 ^ 8" "unat (drop_bit 16 startl) = unat startl div 2 ^ 16"
    by (simp_all add: drop_bit_eq_div unat_div)
  have u: "unat startl = unat lba mod 2 ^ 16" unfolding assms(6) by (rule unat_low16)
  have "unat lba mod 2 ^ 16 div 2 ^ 16 = 0" by simp
  then show ?thesis
    using byte_join16 [of "unat lba mod 2 ^ 16"] assms(1-5)
    by (simp add: fis_lba_def Let_def unat_low_byte d u)
qed

lemma unat_push_9: "unat w \<le> 16 \<Longrightarrow> unat (push_bit 9 w) = 512 * unat w" for w :: u32
proof -
  assume "unat w \<le> 16"
  then have "unat (512 * w) = 512 * unat w" by (subst unat_mul_no32) simp_all
  then show ?thesis by (simp add: push_bit_eq_mult mult.commute)
qed

lemma build_table_spec:
  assumes n: "0 < unat n" "unat n \<le> 3968" and buf: "unat buf + 512 * unat n < 2 ^ 64"
    and len: "length (prdt tbl) = 248"
  shows "\<exists>t. build_table cmd lba n buf tbl = Inr t \<and> length (prdt t) = 248 \<and>
    transfer (prdt_entries n) (prdt t) = [unat buf..<unat buf + 512 * unat n] \<and>
    fis_command (cmd_fis t) = cmd \<and> fis_type (cmd_fis t) = FIS_TYPE_REG_H2D \<and> fis_c (cmd_fis t) \<and>
    bit (device (cmd_fis t)) 6 \<and> (even buf \<longrightarrow> (\<forall>r \<in> set (take (unat (prdt_entries n)) (prdt t)). region_ok r)) \<and>
    (cmd = 0x25 \<longrightarrow> fis_lba (cmd_fis t) = unat lba mod 2 ^ 16 + 2 ^ 32 * (unat lba div 2 ^ 32 mod 2 ^ 16)) \<and>
    (cmd = 0xCA \<longrightarrow> fis_lba (cmd_fis t) = unat lba mod 2 ^ 16) \<and>
    (cmd = 0x25 \<or> cmd = 0xCA \<longrightarrow> fis_count (cmd_fis t) = (unat n - 1) mod 16 + 1)"
proof -
  let ?k = "(unat n - 1) div 16" and ?r = "(unat n - 1) mod 16 + 1"
  let ?c = "replicate 8 blank_region @ drop 8 (prdt tbl)"
  have nk: "unat n = 16 * ?k + ?r" using n(1) mult_div_mod_eq [of 16 "unat n - 1"] by linarith
  have k: "0 + ?k \<le> length ?c" "?k < 248" "16 * ?k \<le> unat n" using n len nk by simp_all
  have bk: "unat buf + 8192 * ?k < 2 ^ 64" using buf nk by linarith
  from fill_prdt_spec [OF k(1) bk k(3)] obtain t where
    t: "fill_prdt ?k 0 buf n ?c = Inr (?k, buf + 0x2000 * of_nat ?k, n - 16 * of_nat ?k, t)" "length t = 248"
      "concat (map region_addrs (take ?k t)) = [unat buf..<unat buf + 8192 * ?k]"
    using len by auto
  let ?b = "buf + 0x2000 * of_nat ?k" and ?m = "n - 16 * of_nat ?k"
  have u1: "unat (0x2000 * of_nat ?k :: u64) = 8192 * ?k"
    using bk by (subst unat_mul_no) (simp_all add: unat_of_nat_u64)
  have ub: "unat ?b = unat buf + 8192 * ?k" using bk u1 by (subst unat_add_no) simp_all
  have u2: "unat (16 * of_nat ?k :: u32) = 16 * ?k"
    using n(2) by (subst unat_mul_no32) (simp_all add: unat_of_nat_u32)
  have "unat ?m = unat n - 16 * ?k" using k(3) u2 by (subst unat_sub_no32) simp_all
  also have "\<dots> = ?r" using nk by linarith
  finally have um: "unat ?m = ?r" .
  have r: "?r \<le> 16" "0 < ?r" by simp_all
  have p9: "unat (push_bit 9 ?m) = 512 * ?r"
    using unat_push_9 [of ?m] r(1) unfolding um by simp
  have "unat (push_bit 9 ?m - 1) = 512 * ?r - 1" using p9 r by (subst unat_sub_no32) simp_all
  then have bc: "unat (take_bit 22 (push_bit 9 ?m - 1)) = 512 * ?r - 1"
    using r by (simp add: unsigned_take_bit_eq take_bit_nat_eq_self)
  let ?last = "(t ! ?k)\<lparr>data_base_address := ?b, data_byte_count := take_bit 22 (push_bit 9 ?m - 1), intr_on_completion := True\<rparr>"
  let ?startl = "ucast (lba AND 0xFFFF) :: u32" and ?starth = "ucast (drop_bit 32 lba) :: u32"
  let ?f = "blank_fis\<lparr>fis_type := FIS_TYPE_REG_H2D, fis_c := True, fis_command := cmd,
    lba0 := ucast ?startl, lba1 := ucast (drop_bit 8 ?startl), lba2 := ucast (drop_bit 16 ?startl), device := push_bit 6 1,
    lba3 := ucast (drop_bit 24 ?startl), lba4 := ucast ?starth, lba5 := ucast (drop_bit 8 ?starth),
    countl := ucast (?m AND 0xFF), counth := ucast (drop_bit 8 ?m)\<rparr>"
  have "unat (prdt_entries n) - 1 = ?k" using prdt_entries_val [OF n] by simp
  then have bt: "build_table cmd lba n buf tbl = Inr \<lparr>cmd_fis = ?f, prdt = t[?k := ?last]\<rparr>"
    using t k(2) by (simp add: build_table_def Let_def)
  have lr: "region_addrs ?last = [unat ?b..<unat ?b + 512 * ?r]"
    by (rule region_addrs_len) (use bc r in simp_all)
  have "transfer (prdt_entries n) (t[?k := ?last]) = [unat buf..<unat buf + 8192 * ?k] @ [unat ?b..<unat ?b + 512 * ?r]"
    using t(2,3) k(2) lr unfolding transfer_def prdt_entries_val [OF n] by (simp add: take_Suc_update)
  also have "\<dots> = [unat buf..<unat buf + 512 * unat n]"
  proof -
    have "512 * unat n = 512 * (16 * ?k + ?r)" using nk by (rule arg_cong)
    also have "\<dots> = 8192 * ?k + 512 * ?r" by (simp only: distrib_left mult.assoc [symmetric])
    finally have "512 * unat n = 8192 * ?k + 512 * ?r" .
    then have e: "unat buf + 512 * unat n = unat buf + 8192 * ?k + 512 * ?r" by (simp only: add.assoc)
    show ?thesis unfolding ub e
      by (rule upt_add_eq_append [symmetric]) simp
  qed
  finally have tr: "transfer (prdt_entries n) (t[?k := ?last]) = [unat buf..<unat buf + 512 * unat n]" .
  have c1: "fis_count ?f = ?r" if "cmd = 0x25"
    using fis_count_ext [of ?f ?m] that um r by simp
  have c2: "fis_count ?f = ?r" if "cmd = 0xCA"
  proof -
    have "?m AND 0xFF = take_bit 8 ?m" using take_bit_eq_mask [of 8 ?m] by (simp add: mask_eq_exp_minus_1)
    then have "unat (ucast (?m AND 0xFF) :: u8) = ?r"
      using um r by (simp add: unsigned_ucast_eq take_bit_eq_mod unat_mod)
    then show ?thesis using that r by (auto simp: fis_count_def word_unat_eq_iff)
  qed
  have l1: "fis_lba ?f = unat lba mod 2 ^ 16 + 2 ^ 32 * (unat lba div 2 ^ 32 mod 2 ^ 16)" if "cmd = 0x25"
    by (rule fis_lba_ext [where startl = ?startl and starth = ?starth]) (simp_all add: that)
  have l2: "fis_lba ?f = unat lba mod 2 ^ 16" if "cmd = 0xCA"
    by (rule fis_lba_28 [where startl = ?startl]) (simp_all add: that)
  have ro: "\<forall>r \<in> set (take (unat (prdt_entries n)) (t[?k := ?last])). region_ok r" if e: "even buf"
  proof -
    have reg: "even ?b" "\<forall>r \<in> set (take ?k t). region_ok r" using fill_prdt_regions [OF t(1) e] by simp_all
    have "region_ok ?last" using reg(1) bc r by (simp add: region_ok_def even_take_bit_eq)
    then show ?thesis using take_Suc_regions [OF _ reg(2)] k(2) t(2) prdt_entries_val [OF n] by simp
  qed
  have b6: "bit (push_bit 6 1 :: u8) 6" by simp
  show ?thesis using bt t(2) tr c1 c2 l1 l2 ro b6 by auto
qed

subsection \<open>Running a command\<close>

text \<open>What the driver sees at its looks: the bit of the slot is set and no error is flagged at
  every look before the \<open>k\<close>th.\<close>

definition pending :: "('w hba_port \<Rightarrow> 'w hba_port) \<Rightarrow> nat \<Rightarrow> 'w hba_port \<Rightarrow> nat \<Rightarrow> bool" where
  "pending tick slot p k \<longleftrightarrow>
     (\<forall>j < k. issued slot ((tick ^^ j) p) \<and> \<not> task_file_error ((tick ^^ j) p))"

lemma pending_Suc: "pending tick slot p (Suc k) \<longleftrightarrow>
  issued slot p \<and> \<not> task_file_error p \<and> pending tick slot (tick p) k"
  by (auto simp: pending_def All_less_Suc2 funpow_swap1 simp del: funpow.simps)
    (simp_all add: funpow_swap1)

lemma wait_done_pending:
  "pending tick slot p k \<Longrightarrow> k < fuel \<Longrightarrow>
   wait_done tick fuel slot p = wait_done tick (fuel - k) slot ((tick ^^ k) p)"
proof (induction k arbitrary: fuel p)
  case (Suc k)
  then obtain f where f: "fuel = Suc f" "k < f" by (cases fuel) auto
  from Suc.prems(1) have "issued slot p" "\<not> task_file_error p" "pending tick slot (tick p) k"
    by (simp_all add: pending_Suc)
  with Suc.IH [of "tick p" f] f show ?case by (simp add: funpow_swap1)
qed (simp add: pending_def)

lemma wait_done_success:
  "pending tick slot p k \<Longrightarrow> \<not> issued slot ((tick ^^ k) p) \<Longrightarrow> k < fuel \<Longrightarrow>
   wait_done tick fuel slot p = Inr (AHCI_SUCCESS, (tick ^^ k) p)"
  using wait_done_pending [of tick slot p k fuel] by (cases "fuel - k") auto

lemma wait_done_error:
  "pending tick slot p k \<Longrightarrow> issued slot ((tick ^^ k) p) \<Longrightarrow> task_file_error ((tick ^^ k) p) \<Longrightarrow> k < fuel \<Longrightarrow>
   wait_done tick fuel slot p = Inr (AHCI_ERR_CONTROLLER_ERR, (tick ^^ k) p)"
  using wait_done_pending [of tick slot p k fuel] by (cases "fuel - k") auto

lemma wait_done_hangs: "pending tick slot p fuel \<Longrightarrow> wait_done tick fuel slot p = Inl Hang"
  by (induction fuel arbitrary: p) (simp_all add: pending_Suc)

lemma wait_ready_idle: "\<not> port_busy p \<Longrightarrow> wait_ready tick n p = (True, p)"
  by (cases n) simp_all

lemma first_look:
  assumes "\<not> pending tick slot p n"
  shows "\<exists>k < n. pending tick slot p k \<and> (\<not> issued slot ((tick ^^ k) p) \<or> task_file_error ((tick ^^ k) p))"
proof -
  let ?bad = "\<lambda>j. \<not> issued slot ((tick ^^ j) p) \<or> task_file_error ((tick ^^ j) p)"
  from assms obtain j where j: "j < n" "?bad j" by (auto simp: pending_def)
  from j(2) exists_least_iff [of ?bad] obtain k where k: "?bad k" "\<forall>i < k. \<not> ?bad i" by blast
  with j(2) have "k \<le> j" using not_less by blast
  with j(1) k show ?thesis unfolding pending_def by (intro exI [of _ k]) simp
qed

text \<open>C34: When a command ends. \<^verbatim>\<open>run_command\<close> on a port that is ready returns exactly when the
  controller at some look of the driver has cleared the bit of the slot or flagged a task file
  error; it returns success if at the first such look the bit is gone and a controller error
  otherwise, and when neither ever happens it hangs: the driver has no time limit.\<close>

theorem run_command_returns:
  assumes ready: "\<not> port_busy p" and q_def: "q = issue slot p"
  shows "(\<forall>k. pending tick slot q k \<longrightarrow>
      (\<not> issued slot ((tick ^^ k) q) \<longrightarrow> (\<forall>fuel > k. run_command tick fuel slot p = Inr (AHCI_SUCCESS, (tick ^^ k) q))) \<and>
      (issued slot ((tick ^^ k) q) \<and> task_file_error ((tick ^^ k) q) \<longrightarrow>
        (\<forall>fuel > k. run_command tick fuel slot p = Inr (AHCI_ERR_CONTROLLER_ERR, (tick ^^ k) q)))) \<and>
    ((\<exists>fuel r. run_command tick fuel slot p = Inr r) \<longleftrightarrow> (\<exists>k. \<not> pending tick slot q k))"
proof -
  have w: "wait_ready tick 100000 p = (True, p)"
    by (rule wait_ready_idle [OF ready])
  have run: "run_command tick fuel slot p = wait_done tick fuel slot q" for fuel
    by (simp add: run_command_def w q_def)
  have "(\<exists>fuel r. wait_done tick fuel slot q = Inr r) \<longleftrightarrow> (\<exists>k. \<not> pending tick slot q k)"
  proof
    assume "\<exists>fuel r. wait_done tick fuel slot q = Inr r"
    then show "\<exists>k. \<not> pending tick slot q k" using wait_done_hangs [of tick slot q] by (metis sum.distinct(1))
  next
    assume "\<exists>k. \<not> pending tick slot q k"
    then obtain n where "\<not> pending tick slot q n" ..
    from first_look [OF this] obtain k where k: "pending tick slot q k"
      "\<not> issued slot ((tick ^^ k) q) \<or> task_file_error ((tick ^^ k) q)" by blast
    then show "\<exists>fuel r. wait_done tick fuel slot q = Inr r"
      using wait_done_success [of tick slot q k "Suc k"] wait_done_error [of tick slot q k "Suc k"] by blast
  qed
  then show ?thesis unfolding run using wait_done_success wait_done_error by blast
qed

text \<open>A started port between commands: the command list and the receiving of frames are enabled and run,
  no interrupt is pending, no slot taken, the device not busy.\<close>

definition idle_port :: "command_hdr list \<Rightarrow> 'w \<Rightarrow> 'w hba_port" where
  "idle_port hdrs w =
     \<lparr>interrupt_status = 0, command_status = 0xC011, task_file_data = 0, sata_active = 0, command_issue = 0,
      cmd_list = hdrs, pio_setup_fis = \<lparr>pio_fis_type = 0, pio_transfer_cnt = 0, pio_device = 0, pio_i = False,
        pio_d = False\<rparr>, world = w\<rparr>"

theorem run_command_returns_witness:
  "run_command (\<lambda>p. p\<lparr>command_issue := 0\<rparr>) 5 3 (idle_port [] ()) =
     Inr (AHCI_SUCCESS, (issue 3 (idle_port [] ()))\<lparr>command_issue := 0\<rparr>)"
proof -
  let ?t = "\<lambda>p :: unit hba_port. p\<lparr>command_issue := 0\<rparr>" and ?q = "issue 3 (idle_port [] ())"
  have r: "\<not> port_busy (idle_port [] ())" by (simp add: port_busy_def get_field_def get_bits_def idle_port_def)
  have p: "pending ?t 3 ?q 1"
    by (simp add: pending_def issued_def task_file_error_def get_field_def get_bits_def issue_def idle_port_def)
  have d: "\<not> issued 3 ((?t ^^ 1) ?q)" by (simp add: issued_def)
  from run_command_returns [OF r refl, of ?t 3, THEN conjunct1, rule_format, OF p] d
  have "\<forall>fuel > 1. run_command ?t fuel 3 (idle_port [] ()) = Inr (AHCI_SUCCESS, (?t ^^ 1) ?q)" by blast
  then have "run_command ?t 5 3 (idle_port [] ()) = Inr (AHCI_SUCCESS, (?t ^^ 1) ?q)" by simp
  then show ?thesis by simp
qed

end
