(* ===== verification/Ahci_Disk.thy ===== *)
theory Ahci_Disk
  imports Ahci Fat_File
begin

text \<open>
  The driver over its controller. What the controller does with a command is not code of this
  repository: the locale \<open>ahci_controller\<close> states what the driver relies on, as the AHCI
  specification documents it. From it the reads and writes of the driver are a block device, as far
  as they are: up to sixteen sectors at a time, in the first 65536 sectors.
\<close>

subsection \<open>The contract of the controller\<close>

text \<open>
  A port is ready for a command when its command list and its receiving of frames are enabled, no slot
  is taken and the device is neither busy nor asking for data.
\<close>

definition port_running :: "'w hba_port \<Rightarrow> bool" where
  "port_running p \<longleftrightarrow> cmd_flag ''cmd_start'' p \<and> cmd_flag ''FIS_recieve_enable'' p"

definition device_idle :: "'w hba_port \<Rightarrow> bool" where
  "device_idle p \<longleftrightarrow> get_field task_file_data_t_bits ''status_busy'' (task_file_data p) = 0 \<and>
     get_field task_file_data_t_bits ''status_data_transfer_requested'' (task_file_data p) = 0"

definition port_ready :: "'w hba_port \<Rightarrow> bool" where
  "port_ready p \<longleftrightarrow> port_running p \<and> sata_active p = 0 \<and> command_issue p = 0 \<and> device_idle p"

text \<open>
  A command that is well formed and issued alone on such a port: a host-to-device register frame of five
  double words with its command bit, in LBA mode, and regions that are word aligned and hold an even
  number of bytes each.
\<close>

definition valid_command :: "nat \<Rightarrow> 'w hba_port \<Rightarrow> command_hdr \<Rightarrow> bool" where
  "valid_command slot p h \<longleftrightarrow>
     slot < 32 \<and> slot < length (cmd_list p) \<and> h = cmd_list p ! slot \<and>
     port_running p \<and> sata_active p = 0 \<and> command_issue p = push_bit slot 1 \<and> device_idle p \<and>
     interrupt_status p = 0 \<and> cmdfis_length h = 5 \<and>
     fis_type (cmd_fis (cmd_table h)) = 0x27 \<and> fis_c (cmd_fis (cmd_table h)) \<and> bit (device (cmd_fis (cmd_table h))) 6 \<and>
     unat (prdt_length h) \<le> length (prdt (cmd_table h)) \<and>
     (\<forall>r \<in> set (take (unat (prdt_length h)) (prdt (cmd_table h))). region_ok r)"

text \<open>The controller stores nothing in the headers but the number of bytes it has moved.\<close>

definition same_commands :: "'w hba_port \<Rightarrow> 'w hba_port \<Rightarrow> bool" where
  "same_commands p q \<longleftrightarrow>
     map (prdt_byte_count_update (\<lambda>_. 0)) (cmd_list p) = map (prdt_byte_count_update (\<lambda>_. 0)) (cmd_list q)"

text \<open>
  \<open>ram\<close> and \<open>sector\<close> are the bytes of memory (apart from the structures of the port) and the
  sectors of the medium in a state of the world, \<open>poke\<close> is the processor storing a buffer. The
  controller serves a valid command for sectors the medium has within \<open>latency\<close> looks of the
  driver and leaves the port ready: a read fills the first bytes its regions name with the sectors and
  touches nothing else, a write takes the first bytes its regions name and changes the sectors only.
\<close>

locale ahci_controller =
  fixes tick :: "'w hba_port \<Rightarrow> 'w hba_port" and ram :: "'w \<Rightarrow> nat \<Rightarrow> u8"
    and poke :: "nat \<Rightarrow> u8 list \<Rightarrow> 'w \<Rightarrow> 'w" and sector :: "'w \<Rightarrow> nat \<Rightarrow> u8 list" and capacity :: nat and latency :: nat
  assumes serve_read:
    "valid_command slot p h \<Longrightarrow> \<not> write_command h \<Longrightarrow> f = cmd_fis (cmd_table h) \<Longrightarrow> fis_command f = 0x25 \<Longrightarrow>
     fis_lba f + fis_count f \<le> capacity \<Longrightarrow>
     a = transfer (prdt_length h) (prdt (cmd_table h)) \<Longrightarrow> distinct a \<Longrightarrow> 512 * fis_count f \<le> length a \<Longrightarrow>
     \<exists>k < latency. pending tick slot p k \<and> port_ready ((tick ^^ k) p) \<and> same_commands ((tick ^^ k) p) p \<and>
       map (ram (world ((tick ^^ k) p))) (take (512 * fis_count f) a) =
         concat (map (sector (world p)) [fis_lba f..<fis_lba f + fis_count f]) \<and>
       (\<forall>x. x \<notin> set (take (512 * fis_count f) a) \<longrightarrow> ram (world ((tick ^^ k) p)) x = ram (world p) x) \<and>
       sector (world ((tick ^^ k) p)) = sector (world p)"
  and serve_write:
    "valid_command slot p h \<Longrightarrow> write_command h \<Longrightarrow> f = cmd_fis (cmd_table h) \<Longrightarrow> fis_command f = 0xCA \<Longrightarrow>
     fis_lba f + fis_count f \<le> capacity \<Longrightarrow>
     a = transfer (prdt_length h) (prdt (cmd_table h)) \<Longrightarrow> 512 * fis_count f \<le> length a \<Longrightarrow>
     \<exists>k < latency. pending tick slot p k \<and> port_ready ((tick ^^ k) p) \<and> same_commands ((tick ^^ k) p) p \<and>
       ram (world ((tick ^^ k) p)) = ram (world p) \<and>
       sector (world ((tick ^^ k) p)) =
         (\<lambda>i. if fis_lba f \<le> i \<and> i < fis_lba f + fis_count f
              then take 512 (drop (512 * (i - fis_lba f)) (map (ram (world p)) a)) else sector (world p) i)"
  and poke_ram: "i < length xs \<Longrightarrow> ram (poke x xs w) (x + i) = xs ! i"
  and poke_sector: "sector (poke x xs w) = sector w"
  and sector_length: "length (sector w i) = 512"

subsection \<open>The driver as a disk\<close>

text \<open>The bytes a read delivers at its buffer \<open>addr\<close>, and the world after a write of a buffer
  stored there; the port is idle before, with the headers \<open>hdrs\<close>.\<close>

definition ahci_dread ::
  "('w hba_port \<Rightarrow> 'w hba_port) \<Rightarrow> ('w \<Rightarrow> nat \<Rightarrow> u8) \<Rightarrow> nat \<Rightarrow> command_hdr list \<Rightarrow> u64 \<Rightarrow>
   'w \<Rightarrow> u64 \<Rightarrow> u32 \<Rightarrow> u8 list option" where
  "ahci_dread tick ram latency hdrs addr w lba n =
     (case ahci_read tick latency lba n addr (idle_port hdrs w) of
        Inl _ \<Rightarrow> None
      | Inr (s, p) \<Rightarrow>
          if s = AHCI_SUCCESS then Some (map (ram (world p)) [unat addr..<unat addr + 512 * unat n]) else None)"

definition ahci_dwrite ::
  "('w hba_port \<Rightarrow> 'w hba_port) \<Rightarrow> (nat \<Rightarrow> u8 list \<Rightarrow> 'w \<Rightarrow> 'w) \<Rightarrow> nat \<Rightarrow> command_hdr list \<Rightarrow> u64 \<Rightarrow>
   'w \<Rightarrow> u32 \<Rightarrow> u32 \<Rightarrow> u8 list \<Rightarrow> 'w" where
  "ahci_dwrite tick poke latency hdrs addr w lba n xs =
     (case ahci_write tick latency (ucast lba) n addr (idle_port hdrs (poke (unat addr) xs w)) of
        Inl _ \<Rightarrow> w | Inr (s, p) \<Rightarrow> world p)"

text \<open>The ranges the driver addresses correctly.\<close>

definition small_range :: "nat \<Rightarrow> u32 \<Rightarrow> u32 \<Rightarrow> bool" where
  "small_range capacity l n \<longleftrightarrow>
     0 < unat n \<and> unat n \<le> 16 \<and> unat l + unat n \<le> 2 ^ 16 \<and> unat l + unat n \<le> capacity"

text \<open>The room a command of the driver needs: a header of its own, and the table behind it as long as its page.\<close>

definition has_table :: "command_hdr list \<Rightarrow> bool" where
  "has_table hdrs \<longleftrightarrow> hdrs \<noteq> [] \<and> length (prdt (cmd_table (hdrs ! 0))) = 248"

lemma get_slot_free: "0 < k \<Longrightarrow> get_slot_from 0 slot k = int slot"
  by (cases k) simp_all

lemma idle_ready [simp]: "port_ready (idle_port hdrs w)" "cmd_list (idle_port hdrs w) = hdrs" "world (idle_port hdrs w) = w"
  by (simp_all add: port_ready_def port_running_def device_idle_def cmd_flag_def get_field_def get_bits_def idle_port_def
      command_status_t_bits_def task_file_data_t_bits_def)

lemma device_idle_not_busy: "device_idle p \<Longrightarrow> \<not> port_busy p"
  by (simp add: device_idle_def port_busy_def)

lemma ready_not_issued: "port_ready p \<Longrightarrow> \<not> issued slot p"
  by (simp add: port_ready_def issued_def)

lemma same_commands_table:
  assumes "same_commands q p"
  shows "has_table (cmd_list q) \<longleftrightarrow> has_table (cmd_list p)"
    and "i < length (cmd_list p) \<Longrightarrow> prdt_length (cmd_list q ! i) = prdt_length (cmd_list p ! i) \<and>
      cmd_table (cmd_list q ! i) = cmd_table (cmd_list p ! i)"
proof -
  have len: "length (cmd_list q) = length (cmd_list p)"
    using assms map_eq_imp_length_eq unfolding same_commands_def by blast
  have nth: "prdt_length (cmd_list q ! i) = prdt_length (cmd_list p ! i) \<and> cmd_table (cmd_list q ! i) = cmd_table (cmd_list p ! i)"
    if "i < length (cmd_list p)" for i
  proof -
    have "(cmd_list q ! i)\<lparr>prdt_byte_count := 0\<rparr> = (cmd_list p ! i)\<lparr>prdt_byte_count := 0\<rparr>"
      using assms that len unfolding same_commands_def by (metis nth_map)
    then show ?thesis by (metis command_hdr.select_convs(3,5) command_hdr.surjective command_hdr.update_convs(4))
  qed
  show "has_table (cmd_list q) \<longleftrightarrow> has_table (cmd_list p)"
    using len nth [of 0] by (cases "cmd_list p = []") (auto simp: has_table_def)
  show "prdt_length (cmd_list q ! i) = prdt_length (cmd_list p ! i) \<and>
      cmd_table (cmd_list q ! i) = cmd_table (cmd_list p ! i)" if "i < length (cmd_list p)"
    using nth [OF that] .
qed

text \<open>On a ready port a request is the command of \<open>build_table_spec\<close> in slot 0, valid and issued alone.\<close>

lemma rw_ready:
  assumes q: "port_ready q" and h: "has_table (cmd_list q)"
    and n: "0 < unat n" "unat n \<le> 3968" and buf: "unat addr + 512 * unat n < 2 ^ 64" "even addr"
  shows "\<exists>p hd f. ahci_rw tick fuel w cmd lba n addr q = wait_done tick fuel 0 p \<and> valid_command 0 p hd \<and> world p = world q \<and>
    has_table (cmd_list p) \<and> write_command hd = w \<and> f = cmd_fis (cmd_table hd) \<and> fis_command f = cmd \<and>
    transfer (prdt_length hd) (prdt (cmd_table hd)) = [unat addr..<unat addr + 512 * unat n] \<and>
    (cmd = 0x25 \<longrightarrow> fis_lba f = unat lba mod 2 ^ 16 + 2 ^ 32 * (unat lba div 2 ^ 32 mod 2 ^ 16)) \<and>
    (cmd = 0xCA \<longrightarrow> fis_lba f = unat lba mod 2 ^ 16) \<and>
    (cmd = 0x25 \<or> cmd = 0xCA \<longrightarrow> fis_count f = (unat n - 1) mod 16 + 1)"
proof -
  let ?h = "(cmd_list q ! 0)\<lparr>cmdfis_length := 5, write_command := w, prdt_length := prdt_entries n\<rparr>"
  from h have h': "cmd_list q \<noteq> []" "length (prdt (cmd_table (cmd_list q ! 0))) = 248" by (simp_all add: has_table_def)
  from build_table_spec [OF n buf(1) h'(2), of cmd lba] buf(2) obtain t where
    t: "build_table cmd lba n addr (cmd_table (cmd_list q ! 0)) = Inr t" "length (prdt t) = 248"
      "transfer (prdt_entries n) (prdt t) = [unat addr..<unat addr + 512 * unat n]"
      "fis_command (cmd_fis t) = cmd" "fis_type (cmd_fis t) = FIS_TYPE_REG_H2D" "fis_c (cmd_fis t)" "bit (device (cmd_fis t)) 6"
      "\<forall>r \<in> set (take (unat (prdt_entries n)) (prdt t)). region_ok r"
      "cmd = 0x25 \<longrightarrow> fis_lba (cmd_fis t) = unat lba mod 2 ^ 16 + 2 ^ 32 * (unat lba div 2 ^ 32 mod 2 ^ 16)"
      "cmd = 0xCA \<longrightarrow> fis_lba (cmd_fis t) = unat lba mod 2 ^ 16"
      "cmd = 0x25 \<or> cmd = 0xCA \<longrightarrow> fis_count (cmd_fis t) = (unat n - 1) mod 16 + 1" by blast
  let ?q = "q\<lparr>interrupt_status := 0, cmd_list := (cmd_list q)[0 := ?h\<lparr>cmd_table := t\<rparr>]\<rparr>"
  have slot: "getSlot (q\<lparr>interrupt_status := 0\<rparr>) = 0"
    using q by (simp add: getSlot_def port_ready_def get_slot_free)
  have nb: "\<not> port_busy ?q" using q by (simp add: port_ready_def device_idle_def port_busy_def)
  have "ahci_rw tick fuel w cmd lba n addr q = run_command tick fuel 0 ?q"
    using h'(1) t(1) by (simp add: ahci_rw_def Let_def slot)
  also have "\<dots> = wait_done tick fuel 0 (issue 0 ?q)"
    by (simp add: run_command_def wait_ready_idle [OF nb])
  finally have run: "ahci_rw tick fuel w cmd lba n addr q = wait_done tick fuel 0 (issue 0 ?q)" .
  have fits: "unat (prdt_entries n) \<le> 248" unfolding prdt_entries_val [OF n] using n(2) by simp
  have "valid_command 0 (issue 0 ?q) (?h\<lparr>cmd_table := t\<rparr>)"
    using q h'(1) t fits
    by (simp add: valid_command_def port_ready_def port_running_def device_idle_def cmd_flag_def issue_def FIS_TYPE_REG_H2D_def)
  then show ?thesis
    by (intro exI [of _ "issue 0 ?q"] exI [of _ "?h\<lparr>cmd_table := t\<rparr>"])
      (use run t h'(1) in \<open>simp add: issue_def has_table_def\<close>)
qed

context ahci_controller
begin

lemma read_delivers:
  assumes q: "port_ready q" and h: "has_table (cmd_list q)"
    and n: "0 < unat n" "unat n \<le> 3968" and buf: "unat addr + 512 * unat n < 2 ^ 64" "even addr"
    and c: "c = (unat n - 1) mod 16 + 1" and l: "l = unat lba mod 2 ^ 16 + 2 ^ 32 * (unat lba div 2 ^ 32 mod 2 ^ 16)"
    and cap: "l + c \<le> capacity"
  shows "\<exists>p. ahci_read tick latency lba n addr q = Inr (AHCI_SUCCESS, p) \<and> port_ready p \<and> has_table (cmd_list p) \<and>
    transfer (prdt_length (cmd_list p ! 0)) (prdt (cmd_table (cmd_list p ! 0))) = [unat addr..<unat addr + 512 * unat n] \<and>
    fis_count (cmd_fis (cmd_table (cmd_list p ! 0))) = c \<and>
    map (ram (world p)) [unat addr..<unat addr + 512 * c] = concat (map (sector (world q)) [l..<l + c]) \<and>
    (\<forall>x. x < unat addr \<or> unat addr + 512 * c \<le> x \<longrightarrow> ram (world p) x = ram (world q) x) \<and> sector (world p) = sector (world q)"
proof -
  from rw_ready [OF q h n buf, where tick = tick and fuel = latency and w = False and cmd = "0x25" and lba = lba] obtain p hd f where
    p: "ahci_rw tick latency False 0x25 lba n addr q = wait_done tick latency 0 p" "valid_command 0 p hd" "world p = world q"
      "has_table (cmd_list p)" "\<not> write_command hd" "f = cmd_fis (cmd_table hd)" "fis_command f = 0x25"
      "transfer (prdt_length hd) (prdt (cmd_table hd)) = [unat addr..<unat addr + 512 * unat n]"
      "fis_lba f = l" "fis_count f = c"
    by (auto simp: c l)
  have cn: "c \<le> unat n" using n(1) mod_less_eq_dividend [of "unat n - 1" 16] unfolding c by linarith
  have tk: "take (512 * c) [unat addr..<unat addr + 512 * unat n] = [unat addr..<unat addr + 512 * c]"
    using cn by (simp add: take_upt)
  have fit: "512 * fis_count f \<le> length [unat addr..<unat addr + 512 * unat n]" using cn p(10) by simp
  have cap': "fis_lba f + fis_count f \<le> capacity" using cap p(9,10) by simp
  from serve_read [OF p(2,5,6,7) cap' p(8) [symmetric] _ fit] obtain k where
    k: "k < latency" "pending tick 0 p k" "port_ready ((tick ^^ k) p)" "same_commands ((tick ^^ k) p) p"
      "map (ram (world ((tick ^^ k) p))) [unat addr..<unat addr + 512 * c] = concat (map (sector (world q)) [l..<l + c])"
      "\<forall>x. x \<notin> set [unat addr..<unat addr + 512 * c] \<longrightarrow> ram (world ((tick ^^ k) p)) x = ram (world q) x"
      "sector (world ((tick ^^ k) p)) = sector (world q)"
    unfolding p(3) p(9) p(10) tk by auto
  from wait_done_success [OF k(2) ready_not_issued [OF k(3)] k(1)] p(1)
  have "ahci_read tick latency lba n addr q = Inr (AHCI_SUCCESS, (tick ^^ k) p)"
    by (simp add: ahci_read_def)
  moreover have "hd = cmd_list p ! 0" "0 < length (cmd_list p)" using p(2) by (simp_all add: valid_command_def)
  ultimately show ?thesis using k(3,5-7) same_commands_table [OF k(4)] p(4,6,8,10) by auto
qed

lemma write_delivers:
  assumes q: "port_ready q" and h: "has_table (cmd_list q)"
    and n: "0 < unat n" "unat n \<le> 3968" and buf: "unat addr + 512 * unat n < 2 ^ 64" "even addr"
    and c: "c = (unat n - 1) mod 16 + 1" and l: "l = unat lba mod 2 ^ 16" and cap: "l + c \<le> capacity"
  shows "\<exists>p. ahci_write tick latency lba n addr q = Inr (AHCI_SUCCESS, p) \<and> port_ready p \<and> has_table (cmd_list p) \<and>
    ram (world p) = ram (world q) \<and>
    sector (world p) = (\<lambda>i. if l \<le> i \<and> i < l + c
      then take 512 (drop (512 * (i - l)) (map (ram (world q)) [unat addr..<unat addr + 512 * unat n])) else sector (world q) i)"
proof -
  from rw_ready [OF q h n buf, where tick = tick and fuel = latency and w = True and cmd = "0xCA" and lba = lba] obtain p hd f where
    p: "ahci_rw tick latency True 0xCA lba n addr q = wait_done tick latency 0 p" "valid_command 0 p hd" "world p = world q"
      "has_table (cmd_list p)" "write_command hd" "f = cmd_fis (cmd_table hd)" "fis_command f = 0xCA"
      "transfer (prdt_length hd) (prdt (cmd_table hd)) = [unat addr..<unat addr + 512 * unat n]"
      "fis_lba f = l" "fis_count f = c"
    by (auto simp: c l)
  have cn: "c \<le> unat n" using n(1) mod_less_eq_dividend [of "unat n - 1" 16] unfolding c by linarith
  have fit: "512 * fis_count f \<le> length [unat addr..<unat addr + 512 * unat n]" using cn p(10) by simp
  have cap': "fis_lba f + fis_count f \<le> capacity" using cap p(9,10) by simp
  from serve_write [OF p(2,5,6,7) cap' p(8) [symmetric] fit] obtain k where
    k: "k < latency" "pending tick 0 p k" "port_ready ((tick ^^ k) p)" "same_commands ((tick ^^ k) p) p"
      "ram (world ((tick ^^ k) p)) = ram (world q)"
      "sector (world ((tick ^^ k) p)) = (\<lambda>i. if l \<le> i \<and> i < l + c
        then take 512 (drop (512 * (i - l)) (map (ram (world q)) [unat addr..<unat addr + 512 * unat n])) else sector (world q) i)"
    unfolding p(3) p(9) p(10) by auto
  from wait_done_success [OF k(2) ready_not_issued [OF k(3)] k(1)] p(1)
  have "ahci_write tick latency lba n addr q = Inr (AHCI_SUCCESS, (tick ^^ k) p)"
    by (simp add: ahci_write_def)
  with k(3,5,6) same_commands_table(1) [OF k(4)] p(4) show ?thesis by auto
qed

text \<open>A transfer the driver does not cut, on any ready port.\<close>

lemma small_rangeD:
  assumes "small_range capacity l n" and addr: "unat addr + 8192 < 2 ^ 64"
  shows "0 < unat n" "unat n \<le> 3968" "unat addr + 512 * unat n < 2 ^ 64" "unat n = (unat n - 1) mod 16 + 1"
    "unat l = unat (ucast l :: u64) mod 2 ^ 16 + 2 ^ 32 * (unat (ucast l :: u64) div 2 ^ 32 mod 2 ^ 16)"
    "unat l = unat (ucast l :: u64) mod 2 ^ 16" "unat l + unat n \<le> capacity"
proof -
  from assms have n: "0 < unat n" "unat n \<le> 16" "unat l + unat n \<le> 2 ^ 16" and c: "unat l + unat n \<le> capacity"
    by (simp_all add: small_range_def)
  then show "0 < unat n" "unat n \<le> 3968" "unat addr + 512 * unat n < 2 ^ 64" "unat n = (unat n - 1) mod 16 + 1"
    "unat l + unat n \<le> capacity" using addr by simp_all
  have "unat l < 2 ^ 16" using n by linarith
  then show "unat l = unat (ucast l :: u64) mod 2 ^ 16 + 2 ^ 32 * (unat (ucast l :: u64) div 2 ^ 32 mod 2 ^ 16)"
    "unat l = unat (ucast l :: u64) mod 2 ^ 16" by simp_all
qed

lemma read_small:
  assumes q: "port_ready q" "has_table (cmd_list q)" and r: "small_range capacity l n"
    and a: "unat addr + 8192 < 2 ^ 64" "even addr"
  shows "\<exists>p. ahci_read tick latency (ucast l) n addr q = Inr (AHCI_SUCCESS, p) \<and> port_ready p \<and> has_table (cmd_list p) \<and>
    map (ram (world p)) [unat addr..<unat addr + 512 * unat n] = concat (map (sector (world q)) [unat l..<unat l + unat n]) \<and>
    sector (world p) = sector (world q)"
  using read_delivers [OF q small_rangeD(1,2,3) [OF r a(1)] a(2) small_rangeD(4,5) [OF r a(1)]] small_rangeD(7) [OF r a(1)] by blast

lemma write_small:
  assumes q: "port_ready q" "has_table (cmd_list q)" and r: "small_range capacity l n"
    and a: "unat addr + 8192 < 2 ^ 64" "even addr" and xs: "map (ram (world q)) [unat addr..<unat addr + 512 * unat n] = xs"
  shows "\<exists>p. ahci_write tick latency (ucast l) n addr q = Inr (AHCI_SUCCESS, p) \<and> port_ready p \<and> has_table (cmd_list p) \<and>
    sector (world p) =
      (\<lambda>i. if unat l \<le> i \<and> i < unat l + unat n then take 512 (drop (512 * (i - unat l)) xs) else sector (world q) i)"
  using write_delivers [OF q small_rangeD(1,2,3) [OF r a(1)] a(2) small_rangeD(4,6) [OF r a(1)]] small_rangeD(7) [OF r a(1)] xs by blast

end

text \<open>The driver with a buffer and a command list over such a controller.\<close>

locale ahci_disk = ahci_controller +
  fixes hdrs :: "command_hdr list" and addr :: u64
  assumes headers: "has_table hdrs" and buffer: "unat addr + 8192 < 2 ^ 64" "even addr"
begin

lemma dread_small:
  assumes "small_range capacity l n"
  shows "ahci_dread tick ram latency hdrs addr w (ucast l) n =
    Some (concat (map (sector w) [unat l..<unat l + unat n]))"
  using read_small [of "idle_port hdrs w", unfolded idle_ready(2,3), OF idle_ready(1) headers assms buffer] by (auto simp: ahci_dread_def)

lemma poke_buffer: "length xs = n \<Longrightarrow> map (ram (poke a xs w)) [a..<a + n] = xs"
  using poke_ram [of _ xs a w] by (intro nth_equalityI) simp_all

lemma dwrite_small:
  assumes "small_range capacity l n" and len: "length xs = 512 * unat n"
  shows "sector (ahci_dwrite tick poke latency hdrs addr w l n xs) =
    (\<lambda>i. if unat l \<le> i \<and> i < unat l + unat n then take 512 (drop (512 * (i - unat l)) xs) else sector w i)"
  using write_small [of "idle_port hdrs (poke (unat addr) xs w)", unfolded idle_ready(2,3), OF idle_ready(1) headers assms(1) buffer
      poke_buffer [OF len]]
  by (auto simp: ahci_dwrite_def poke_sector)

end

text \<open>Where the driver addresses correctly it is the disk the file system asks for.\<close>

context ahci_disk
begin

lemma ahci_device:
  "block_device (ahci_dread tick ram latency hdrs addr) (ahci_dwrite tick poke latency hdrs addr) (small_range capacity)"
proof
  fix l n :: u32 and d :: 'a
  assume "small_range capacity l n"
  then show "\<exists>xs. ahci_dread tick ram latency hdrs addr d (ucast l) n = Some xs \<and> length xs = 512 * unat n"
    by (simp add: dread_small length_concat comp_def sum_list_triv sector_length)
next
  fix l n :: u32 and d :: 'a and xs :: "u8 list"
  assume g: "small_range capacity l n" and len: "length xs = 512 * unat n"
  have "map (\<lambda>i. take 512 (drop (512 * (i - unat l)) xs)) [unat l..<unat l + unat n] =
    map (\<lambda>i. take 512 (drop (512 * i) xs)) [0..<unat n]"
    by (rule list_eq_nthI) simp_all
  moreover have "map (sector (ahci_dwrite tick poke latency hdrs addr d l n xs)) [unat l..<unat l + unat n] =
    map (\<lambda>i. take 512 (drop (512 * (i - unat l)) xs)) [unat l..<unat l + unat n]"
    by (simp add: dwrite_small [OF g len])
  ultimately show "ahci_dread tick ram latency hdrs addr (ahci_dwrite tick poke latency hdrs addr d l n xs) (ucast l) n = Some xs"
    using len by (simp add: dread_small [OF g] concat_slices)
next
  fix l n l' n' :: u32 and d :: 'a and xs :: "u8 list"
  assume g: "small_range capacity l n" "small_range capacity l' n'" and len: "length xs = 512 * unat n"
    and dj: "sector_range l n \<inter> sector_range l' n' = {}"
  have "\<not> (unat l \<le> i \<and> i < unat l + unat n)" if "unat l' \<le> i" "i < unat l' + unat n'" for i
    using dj that unfolding sector_range_def by (metis atLeastLessThan_iff disjoint_iff)
  then have "map (sector (ahci_dwrite tick poke latency hdrs addr d l n xs)) [unat l'..<unat l' + unat n'] =
    map (sector d) [unat l'..<unat l' + unat n']"
    by (intro map_cong refl) (auto simp add: dwrite_small [OF g(1) len])
  then show "ahci_dread tick ram latency hdrs addr (ahci_dwrite tick poke latency hdrs addr d l n xs) (ucast l') n' =
    ahci_dread tick ram latency hdrs addr d (ucast l') n'"
    by (simp only: dread_small [OF g(2)])
qed

end

sublocale ahci_disk \<subseteq> device: block_device
  "ahci_dread tick ram latency hdrs addr" "ahci_dwrite tick poke latency hdrs addr" "small_range capacity"
  by (rule ahci_device)

subsection \<open>A controller that serves at once\<close>

text \<open>The contract can be kept: memory and medium as two functions, a command carried out at
  the first look.\<close>

type_synonym sim_world = "(nat \<Rightarrow> u8) \<times> (nat \<Rightarrow> u8 list)"

definition sim_ram :: "sim_world \<Rightarrow> nat \<Rightarrow> u8" where "sim_ram w = fst w"
definition sim_sector :: "sim_world \<Rightarrow> nat \<Rightarrow> u8 list" where "sim_sector w = ram_sector (snd w)"

definition sim_poke :: "nat \<Rightarrow> u8 list \<Rightarrow> sim_world \<Rightarrow> sim_world" where
  "sim_poke a xs w = (\<lambda>x. if a \<le> x \<and> x < a + length xs then xs ! (x - a) else fst w x, snd w)"

fun store_all :: "(nat \<Rightarrow> u8) \<Rightarrow> nat list \<Rightarrow> u8 list \<Rightarrow> nat \<Rightarrow> u8" where
  "store_all m (a # as) (b # bs) = (store_all m as bs)(a := b)"
| "store_all m as bs = m"

lemma store_all_other: "x \<notin> set as \<Longrightarrow> store_all m as bs x = m x"
  by (induction m as bs rule: store_all.induct) auto

lemma store_all_map: "distinct as \<Longrightarrow> length as = length bs \<Longrightarrow> map (store_all m as bs) as = bs"
  by (induction m as bs rule: store_all.induct) (simp_all del: fun_upd_apply add: map_fun_upd fun_upd_same)

definition sim_serve :: "command_hdr \<Rightarrow> sim_world \<Rightarrow> sim_world" where
  "sim_serve h w =
     (let f = cmd_fis (cmd_table h); a = transfer (prdt_length h) (prdt (cmd_table h)) in
      if write_command h
      then (fst w, \<lambda>i. if fis_lba f \<le> i \<and> i < fis_lba f + fis_count f
                       then take 512 (drop (512 * (i - fis_lba f)) (map (fst w) a)) else snd w i)
      else (store_all (fst w) (take (512 * fis_count f) a)
              (concat (map (sim_sector w) [fis_lba f..<fis_lba f + fis_count f])), snd w))"

definition sim_tick :: "sim_world hba_port \<Rightarrow> sim_world hba_port" where
  "sim_tick p =
     (case find (bit (command_issue p)) [0..<32] of
        None \<Rightarrow> p
      | Some slot \<Rightarrow>
          if port_running p
          then p\<lparr>command_issue := 0, world := sim_serve (cmd_list p ! slot) (world p)\<rparr> else p)"

lemma bit_slot: "slot < 32 \<Longrightarrow> bit (push_bit slot 1 :: u32) i \<longleftrightarrow> i = slot"
  by (auto simp: bit_push_bit_iff bit_1_iff simp del: push_bit_of_1)

lemma sim_tick_one:
  assumes "valid_command slot p h"
  shows "sim_tick p = p\<lparr>command_issue := 0, world := sim_serve h (world p)\<rparr>"
proof -
  from assms have s: "slot < 32" "command_issue p = push_bit slot 1" "port_running p" "h = cmd_list p ! slot"
    by (simp_all add: valid_command_def)
  have b: "bit (command_issue p) i \<longleftrightarrow> i = slot" for i unfolding s(2) by (rule bit_slot [OF s(1)])
  have "find (bit (command_issue p)) [0..<32] = Some slot"
    unfolding find_Some_iff by (rule exI [of _ slot]) (use s(1) in \<open>auto simp: b nth_upt\<close>)
  then show ?thesis by (simp add: sim_tick_def s(3,4))
qed

lemma sim_served:
  assumes v: "valid_command slot p h"
  shows "pending sim_tick slot p 1" and "port_ready (sim_tick p)" and "same_commands (sim_tick p) p"
proof -
  from v have s: "slot < 32" "command_issue p = push_bit slot 1" "interrupt_status p = 0" by (simp_all add: valid_command_def)
  have "bit (push_bit slot 1 :: u32) slot" using bit_slot [OF s(1)] by blast
  then have "push_bit slot (1 :: u32) \<noteq> 0" by (metis bit_0_eq bot_apply bot_bool_def)
  with s(2) have "issued slot p" by (simp add: issued_def)
  moreover have "\<not> task_file_error p" by (simp add: task_file_error_def s(3) get_field_def get_bits_def)
  ultimately show "pending sim_tick slot p 1" by (simp add: pending_def)
  show "port_ready (sim_tick p)"
    using v by (simp add: sim_tick_one [OF v] valid_command_def port_ready_def port_running_def cmd_flag_def device_idle_def)
  show "same_commands (sim_tick p) p" by (simp add: sim_tick_one [OF v] same_commands_def)
qed

lemma sim_controller: "ahci_controller sim_tick sim_ram sim_poke sim_sector capacity 2"
proof
  fix slot h f and p :: "sim_world hba_port" and a :: "nat list"
  assume v: "valid_command slot p h"
    and h: "\<not> write_command h" "f = cmd_fis (cmd_table h)" "a = transfer (prdt_length h) (prdt (cmd_table h))" "distinct a"
      "512 * fis_count f \<le> length a"
  let ?a = "take (512 * fis_count f) a" let ?w = "world p"
  let ?x = "concat (map (sim_sector ?w) [fis_lba f..<fis_lba f + fis_count f])"
  have len: "length ?a = length ?x"
    using h(5) by (simp add: sim_sector_def length_concat comp_def sum_list_triv)
  have w: "world (sim_tick p) = (store_all (fst ?w) ?a ?x, snd ?w)"
    unfolding sim_tick_one [OF v] using h(1-3) by (simp add: sim_serve_def Let_def)
  have "map (sim_ram (world (sim_tick p))) ?a = ?x"
    using store_all_map [OF _ len] h(4) unfolding w sim_ram_def by simp
  moreover have "\<forall>x. x \<notin> set ?a \<longrightarrow> sim_ram (world (sim_tick p)) x = sim_ram ?w x"
    unfolding w sim_ram_def by (simp add: store_all_other)
  moreover have "sim_sector (world (sim_tick p)) = sim_sector ?w" unfolding w by (simp add: sim_sector_def fun_eq_iff)
  ultimately show "\<exists>k < 2. pending sim_tick slot p k \<and> port_ready ((sim_tick ^^ k) p) \<and> same_commands ((sim_tick ^^ k) p) p \<and>
       map (sim_ram (world ((sim_tick ^^ k) p))) ?a = ?x \<and>
       (\<forall>x. x \<notin> set ?a \<longrightarrow> sim_ram (world ((sim_tick ^^ k) p)) x = sim_ram (world p) x) \<and>
       sim_sector (world ((sim_tick ^^ k) p)) = sim_sector (world p)"
    using sim_served [OF v] by (intro exI [of _ 1]) simp
next
  fix slot h f and p :: "sim_world hba_port" and a :: "nat list"
  assume v: "valid_command slot p h"
    and h: "write_command h" "f = cmd_fis (cmd_table h)" "a = transfer (prdt_length h) (prdt (cmd_table h))"
      "512 * fis_count f \<le> length a"
  have "length (take 512 (drop (512 * (i - fis_lba f)) (map (fst (world p)) a))) = 512"
    if "fis_lba f \<le> i" "i < fis_lba f + fis_count f" for i
  proof -
    have "512 * Suc (i - fis_lba f) \<le> 512 * fis_count f" using that by (intro mult_le_mono2) simp
    with h(4) show ?thesis by simp
  qed
  then have "sim_sector (world (sim_tick p)) = (\<lambda>i. if fis_lba f \<le> i \<and> i < fis_lba f + fis_count f
    then take 512 (drop (512 * (i - fis_lba f)) (map (sim_ram (world p)) a)) else sim_sector (world p) i)"
    unfolding sim_tick_one [OF v] using h(1-3)
    by (auto simp: sim_serve_def Let_def sim_sector_def sim_ram_def ram_sector_def fun_eq_iff)
  moreover have "sim_ram (world (sim_tick p)) = sim_ram (world p)"
    unfolding sim_tick_one [OF v] using h(1) by (simp add: sim_serve_def Let_def sim_ram_def)
  ultimately show "\<exists>k < 2. pending sim_tick slot p k \<and> port_ready ((sim_tick ^^ k) p) \<and> same_commands ((sim_tick ^^ k) p) p \<and>
       sim_ram (world ((sim_tick ^^ k) p)) = sim_ram (world p) \<and>
       sim_sector (world ((sim_tick ^^ k) p)) =
         (\<lambda>i. if fis_lba f \<le> i \<and> i < fis_lba f + fis_count f
              then take 512 (drop (512 * (i - fis_lba f)) (map (sim_ram (world p)) a)) else sim_sector (world p) i)"
    using sim_served [OF v] by (intro exI [of _ 1]) simp
next
  fix i a and xs :: "u8 list" and w
  assume "i < length xs"
  then show "sim_ram (sim_poke a xs w) (a + i) = xs ! i" by (simp add: sim_ram_def sim_poke_def)
next
  fix a and xs :: "u8 list" and w
  show "sim_sector (sim_poke a xs w) = sim_sector w" by (simp add: sim_sector_def sim_poke_def fun_eq_iff)
next
  fix w i
  show "length (sim_sector w i) = 512" by (simp add: sim_sector_def)
qed

definition sim_hdrs :: "command_hdr list" where
  "sim_hdrs = replicate 32 \<lparr>cmdfis_length = 0, write_command = False, prdt_length = 0, prdt_byte_count = 0,
     cmd_table = \<lparr>cmd_fis = blank_fis, prdt = replicate 248 blank_region\<rparr>\<rparr>"

lemma sim_hdrs_ok: "has_table sim_hdrs"
  by (simp add: sim_hdrs_def has_table_def)

interpretation sim: ahci_disk sim_tick sim_ram sim_poke sim_sector "2 ^ 20" 2 sim_hdrs "0x100000"
  by (intro ahci_disk.intro sim_controller ahci_disk_axioms.intro sim_hdrs_ok) simp_all

subsection \<open>Properties of the driver\<close>

text \<open>C5: The driver is the disk the file system needs, on the ranges it can address. On every port that
  is started and idle and over any controller that serves valid commands, reading one to sixteen sectors
  among the first 65536 that the disk has returns them in full, and writing stores exactly them; both
  leave the port ready for the next request. So, with the buffer at an even address, reads and writes are a
  block device: what is written is read back, and ranges that do not meet do not disturb each other.\<close>

theorem ahci_is_block_device:
  assumes "ahci_disk tick ram poke sector capacity latency hdrs addr"
  shows "block_device (ahci_dread tick ram latency hdrs addr) (ahci_dwrite tick poke latency hdrs addr) (small_range capacity) \<and>
    (\<forall>q l n. port_ready q \<and> has_table (cmd_list q) \<and> small_range capacity l n \<longrightarrow>
      (\<exists>p. ahci_read tick latency (ucast l) n addr q = Inr (AHCI_SUCCESS, p) \<and> port_ready p \<and> has_table (cmd_list p) \<and>
        ahci_dread tick ram latency hdrs addr (world q) (ucast l) n = Some (map (ram (world p)) [unat addr..<unat addr + 512 * unat n]) \<and>
        map (ram (world p)) [unat addr..<unat addr + 512 * unat n] = concat (map (sector (world q)) [unat l..<unat l + unat n]) \<and>
        sector (world p) = sector (world q)) \<and>
      (\<exists>p. ahci_write tick latency (ucast l) n addr q = Inr (AHCI_SUCCESS, p) \<and> port_ready p \<and> has_table (cmd_list p) \<and>
        (\<forall>i. sector (world p) i =
          (if unat l \<le> i \<and> i < unat l + unat n
           then take 512 (drop (512 * (i - unat l)) (map (ram (world q)) [unat addr..<unat addr + 512 * unat n]))
           else sector (world q) i))))"
proof -
  note c = ahci_disk.axioms(1) [OF assms] and buf = ahci_disk.buffer [OF assms]
  show ?thesis
    using ahci_disk.ahci_device [OF assms] ahci_controller.read_small [OF c _ _ _ buf] ahci_disk.dread_small [OF assms]
      ahci_controller.write_small [OF c _ _ _ buf refl]
    by (auto simp: fun_eq_iff) metis+
qed

theorem ahci_is_block_device_witness:
  "(\<exists>w. ahci_dread sim_tick sim_ram 2 sim_hdrs 0x100000
     (ahci_dwrite sim_tick sim_poke 2 sim_hdrs 0x100000 w 7 1 (replicate 512 9)) 7 1 = Some (replicate 512 9)) \<and>
   (\<exists>p. ahci_read sim_tick 2 7 1 0x100000 (idle_port sim_hdrs (\<lambda>_. 0, \<lambda>_. replicate 512 9)) = Inr (AHCI_SUCCESS, p) \<and>
     sim_ram (world p) 0x100000 = 9)"
proof -
  have g: "small_range (2 ^ 20) 7 1" by (simp add: small_range_def)
  have c: "(ucast (7 :: u32) :: u64) = 7" by simp
  note d = ahci_is_block_device [OF sim.ahci_disk_axioms]
  let ?w = "(\<lambda>_. 0, \<lambda>_. replicate 512 9)"
  have "port_ready (idle_port sim_hdrs ?w) \<and> has_table (cmd_list (idle_port sim_hdrs ?w)) \<and> small_range (2 ^ 20) 7 1"
    using g sim_hdrs_ok by simp
  from d [THEN conjunct2, rule_format, OF this, THEN conjunct1] obtain p where
    p: "ahci_read sim_tick 2 7 1 0x100000 (idle_port sim_hdrs ?w) = Inr (AHCI_SUCCESS, p)"
      "map (sim_ram (world p)) [0x100000..<0x100000 + 512] = sim_sector ?w 7"
    unfolding c by auto
  have "[0x100000..<0x100000 + 512 :: nat] = 0x100000 # [0x100001..<0x100000 + 512]" by (subst upt_rec) simp
  moreover have "sim_sector ?w 7 = 9 # replicate 511 9" by (simp add: sim_sector_def ram_sector_def numeral_eq_Suc)
  ultimately have "sim_ram (world p) 0x100000 = 9" using p(2) by simp
  with p(1) block_device.read_written [OF d [THEN conjunct1] g, of "replicate 512 9"] c show ?thesis by auto
qed

text \<open>C39: Long transfers are cut short without notice. On a port that is ready, a read of up to 3968 sectors
  hands the controller a region table for the whole buffer but the count of its last region only: it
  reports success, fills as many sectors as that count says, from an address that has
  lost the bits 16 to 31 of the one asked for, and leaves the rest of the buffer as it was. A
  write stores as many sectors, from the front of the buffer and from the low 16 bits of the address on,
  and no more.\<close>

theorem ahci_cuts_transfers:
  assumes c: "ahci_controller tick ram poke sector capacity latency"
    and q: "port_ready q" "has_table (cmd_list q)"
    and n: "0 < unat n" "unat n \<le> 3968" and buf: "unat addr + 512 * unat n < 2 ^ 64" "even addr"
    and m: "m = (unat n - 1) mod 16 + 1" and l: "l = unat lba mod 2 ^ 16 + 2 ^ 32 * (unat lba div 2 ^ 32 mod 2 ^ 16)"
    and cap: "l + m \<le> capacity"
  shows "(\<exists>p. ahci_read tick latency lba n addr q = Inr (AHCI_SUCCESS, p) \<and>
      transfer (prdt_length (cmd_list p ! 0)) (prdt (cmd_table (cmd_list p ! 0))) = [unat addr..<unat addr + 512 * unat n] \<and>
      fis_count (cmd_fis (cmd_table (cmd_list p ! 0))) = m \<and>
      map (ram (world p)) [unat addr..<unat addr + 512 * m] = concat (map (sector (world q)) [l..<l + m]) \<and>
      (\<forall>x \<ge> unat addr + 512 * m. ram (world p) x = ram (world q) x)) \<and>
    (\<exists>p. ahci_write tick latency lba n addr q = Inr (AHCI_SUCCESS, p) \<and>
      (\<forall>i. sector (world p) i =
        (if unat lba mod 2 ^ 16 \<le> i \<and> i < unat lba mod 2 ^ 16 + m
         then map (ram (world q)) [unat addr + 512 * (i - unat lba mod 2 ^ 16)..<unat addr + 512 * (i - unat lba mod 2 ^ 16) + 512]
         else sector (world q) i)))"
proof -
  from ahci_controller.read_delivers [OF c q n buf m l cap] obtain p where
    r: "ahci_read tick latency lba n addr q = Inr (AHCI_SUCCESS, p)"
      "transfer (prdt_length (cmd_list p ! 0)) (prdt (cmd_table (cmd_list p ! 0))) = [unat addr..<unat addr + 512 * unat n]"
      "fis_count (cmd_fis (cmd_table (cmd_list p ! 0))) = m"
      "map (ram (world p)) [unat addr..<unat addr + 512 * m] = concat (map (sector (world q)) [l..<l + m])"
      "\<forall>x. x < unat addr \<or> unat addr + 512 * m \<le> x \<longrightarrow> ram (world p) x = ram (world q) x" by blast
  let ?l = "unat lba mod 2 ^ 16"
  have "?l + m \<le> capacity" using cap l by linarith
  from ahci_controller.write_delivers [OF c q n buf m refl this] obtain p' where
    w: "ahci_write tick latency lba n addr q = Inr (AHCI_SUCCESS, p')"
      "sector (world p') = (\<lambda>i. if ?l \<le> i \<and> i < ?l + m
        then take 512 (drop (512 * (i - ?l)) (map (ram (world q)) [unat addr..<unat addr + 512 * unat n])) else sector (world q) i)"
    by blast
  have "take 512 (drop (512 * (i - ?l)) [unat addr..<unat addr + 512 * unat n]) =
      [unat addr + 512 * (i - ?l)..<unat addr + 512 * (i - ?l) + 512]" if "?l \<le> i" "i < ?l + m" for i
  proof -
    have "m \<le> unat n" using n(1) mod_less_eq_dividend [of "unat n - 1" 16] unfolding m by linarith
    with that have "512 * (i - ?l) + 512 \<le> 512 * unat n" by linarith
    then show ?thesis by (simp add: drop_upt take_upt)
  qed
  then have "\<forall>i. sector (world p') i = (if ?l \<le> i \<and> i < ?l + m
      then map (ram (world q)) [unat addr + 512 * (i - ?l)..<unat addr + 512 * (i - ?l) + 512] else sector (world q) i)"
    unfolding w(2) by (simp add: take_map drop_map)
  with r w(1) show ?thesis by blast
qed

theorem ahci_cuts_transfers_witness:
  "\<exists>p. ahci_read sim_tick 2 0x12345 17 0x100000 (idle_port sim_hdrs (\<lambda>_. 0, \<lambda>_. replicate 512 9)) =
       Inr (AHCI_SUCCESS, p) \<and>
     map (sim_ram (world p)) [0x100000..<0x100000 + 512] = sim_sector (\<lambda>_. 0, \<lambda>_. replicate 512 9) 0x2345 \<and>
     sim_ram (world p) (0x100000 + 600) = 0"
proof -
  let ?q = "idle_port sim_hdrs (\<lambda>_. 0, \<lambda>_. replicate 512 9)"
  have m: "1 = (unat (17 :: u32) - 1) mod 16 + 1" by simp
  have l: "0x2345 = unat (0x12345 :: u64) mod 2 ^ 16 + 2 ^ 32 * (unat (0x12345 :: u64) div 2 ^ 32 mod 2 ^ 16)" by simp
  have n: "0 < unat (17 :: u32)" "unat (17 :: u32) \<le> 3968"
    "unat (0x100000 :: u64) + 512 * unat (17 :: u32) < 2 ^ 64" "even (0x100000 :: u64)" by simp_all
  have q: "port_ready ?q" "has_table (cmd_list ?q)" using sim_hdrs_ok by simp_all
  have cap: "0x2345 + 1 \<le> (2 ^ 20 :: nat)" by simp
  from ahci_cuts_transfers [OF sim_controller q n m l cap, THEN conjunct1] obtain p where
    p: "ahci_read sim_tick 2 0x12345 17 0x100000 ?q = Inr (AHCI_SUCCESS, p)"
      "map (sim_ram (world p)) [unat (0x100000 :: u64)..<unat (0x100000 :: u64) + 512 * 1] =
         concat (map (sim_sector (\<lambda>_. 0, \<lambda>_. replicate 512 9)) [0x2345..<0x2345 + 1])"
      "\<forall>x \<ge> unat (0x100000 :: u64) + 512 * 1. sim_ram (world p) x = sim_ram (\<lambda>_. 0, \<lambda>_. replicate 512 9) x"
    unfolding idle_ready by blast
  have "sim_ram (world p) (0x100000 + 600) = 0" using p(3) by (simp add: sim_ram_def)
  with p(1,2) show ?thesis by simp
qed

end
