(* ===== verification/Gpt.thy ===== *)
theory Gpt
  imports Fat_Chain
begin

text \<open>
  The partition table, \<^verbatim>\<open>include/drivers/fs/gpt.h\<close> and \<^verbatim>\<open>AHCIDevice::read_gpt\<close> of
  \<^verbatim>\<open>src/drivers/disk/ahci/ahci_driver.cpp\<close>: the header sector and the entries behind it, in
  one buffer of four pages that come with arbitrary contents. \<open>dread\<close> is the read of the
  driver into the place of the buffer that it is given; it changes the state of the disk, and a buffer
  it fails on stays as it was. The loop over the sectors of the table takes fuel; 32 is always enough, because the
  buffer ends first.
\<close>

type_synonym guid_t = "u16 list"

definition cmp_guid :: "guid_t \<Rightarrow> guid_t \<Rightarrow> bool" where
  "cmp_guid a b = list_all (\<lambda>i. a ! i = b ! i) [0..<8]"

definition gpt_hdr_layout :: layout where
  "gpt_hdr_layout =
     [(''signature'', 8), (''gpt_revision'', 4), (''hdr_size'', 4), (''checksum'', 4), (''rsv0'', 4),
      (''hdr_lba'', 8), (''alt_hdr_lba'', 8), (''first_usable_block'', 8), (''last_usable_block'', 8),
      (''disk_guid'', 16), (''lba_part_entry_arr'', 8), (''part_entry_count'', 4),
      (''part_entry_size'', 4), (''checksum_part_entry'', 4), (''pad'', 512 - 0x5C)]"

definition gpt_entry_layout :: layout where
  "gpt_entry_layout =
     [(''partition_guid'', 16), (''unique_partition_guid'', 16), (''starting_lba'', 8),
      (''ending_lba'', 8), (''attrib'', 8), (''parition_name'', 72)]"

text \<open>\<^verbatim>\<open>gpt_part_data\<close>: the entries follow the header.\<close>

definition entry_off :: "nat \<Rightarrow> nat" where
  "entry_off i = layout_size gpt_hdr_layout + i * layout_size gpt_entry_layout"

definition starting_lba :: "u8 list \<Rightarrow> nat \<Rightarrow> u64 res" where
  "starting_lba buf i =
     (if length buf < entry_off i + offset_of gpt_entry_layout ''starting_lba'' + 8 then Inl Out_of_bounds
      else Inr (rd64 buf (entry_off i + offset_of gpt_entry_layout ''starting_lba'')))"

definition part_entry_lba :: "u8 list \<Rightarrow> u64" where
  "part_entry_lba buf = rd64 buf (offset_of gpt_hdr_layout ''lba_part_entry_arr'')"

definition entry_sectors :: "u8 list \<Rightarrow> u32" where
  "entry_sectors buf =
     (rd32 buf (offset_of gpt_hdr_layout ''part_entry_count'') *
      rd32 buf (offset_of gpt_hdr_layout ''part_entry_size'')) div 0x200"

text \<open>The inner loop: log an entry, step to the next, return when that one is empty.\<close>

fun gpt_four :: "nat \<Rightarrow> u8 list \<Rightarrow> nat \<Rightarrow> (bool \<times> nat) res" where
  "gpt_four 0 buf cur = Inr (False, cur)"
| "gpt_four (Suc k) buf cur =
     rbind (starting_lba buf (Suc cur)) (\<lambda>s. if s = 0 then Inr (True, Suc cur) else gpt_four k buf (Suc cur))"

type_synonym 'd sector_read = "'d \<Rightarrow> nat \<Rightarrow> u64 \<Rightarrow> u32 \<Rightarrow> (u8 list option \<times> 'd) res"

definition read_part ::
  "'d sector_read \<Rightarrow> 'd \<Rightarrow> u64 \<Rightarrow> u32 \<Rightarrow> nat \<Rightarrow> u8 list \<Rightarrow> (u8 list \<times> 'd) res" where
  "read_part dread d lba n off buf =
     (if length buf < off + 512 * unat n then Inl Out_of_bounds
      else rbind (dread d off lba n) (\<lambda>(r, d).
             Inr (case r of None \<Rightarrow> buf | Some xs \<Rightarrow> put_at off xs buf, d)))"

fun gpt_loop ::
  "'d sector_read \<Rightarrow> nat \<Rightarrow> 'd \<Rightarrow> u32 \<Rightarrow> nat \<Rightarrow> u8 list \<Rightarrow> (u8 list \<times> 'd) res" where
  "gpt_loop dread 0 d lba cur buf = Inl Hang"
| "gpt_loop dread (Suc k) d lba cur buf =
     (if ucast lba < (ucast (entry_sectors buf) + part_entry_lba buf :: u64)
      then rbind (read_part dread d (ucast lba) 1 (entry_off cur) buf) (\<lambda>(buf, d).
           rbind (gpt_four 4 buf cur) (\<lambda>(stop, cur).
             if stop then Inr (buf, d) else gpt_loop dread k d (lba + 1) cur buf))
      else Inr (buf, d))"

definition read_gpt :: "'d sector_read \<Rightarrow> nat \<Rightarrow> 'd \<Rightarrow> u8 list \<Rightarrow> (u8 list \<times> 'd) res" where
  "read_gpt dread fuel d buf =
     rbind (read_part dread d 1 1 0 buf) (\<lambda>(buf, d).
       gpt_loop dread fuel d (ucast (part_entry_lba buf)) 0 buf)"

subsection \<open>What is read\<close>

lemma gpt_sizes [simp]:
  "layout_size gpt_hdr_layout = 512" "layout_size gpt_entry_layout = 128"
  "offset_of gpt_entry_layout ''starting_lba'' = 32" "offset_of gpt_hdr_layout ''lba_part_entry_arr'' = 72"
  "offset_of gpt_hdr_layout ''part_entry_count'' = 80" "offset_of gpt_hdr_layout ''part_entry_size'' = 84"
  by (simp_all add: layout_size_def gpt_hdr_layout_def gpt_entry_layout_def)

lemma cmp_guid_eq: "length a = 8 \<Longrightarrow> length b = 8 \<Longrightarrow> cmp_guid a b \<longleftrightarrow> a = b"
  by (auto simp: cmp_guid_def list_all_iff intro: list_eq_nthI)

text \<open>A full round of the inner loop steps over four entries; the index it leaves is the
  number of entries read.\<close>

lemma gpt_four_cur: "gpt_four k buf cur = Inr (False, cur') \<Longrightarrow> cur' = cur + k"
  by (induction k buf cur rule: gpt_four.induct) (auto simp: rbind_eq_Inr split: if_splits)

lemma gpt_four_empty:
  assumes "0 < k" and "cur < n" and "n \<le> cur + k" and "starting_lba buf n = Inr 0"
    and "length buf \<ge> entry_off n + 40"
  shows "\<exists>c. gpt_four k buf cur = Inr (True, c)"
  using assms
proof (induction k buf cur rule: gpt_four.induct)
  case (2 k buf cur)
  have "length buf \<ge> entry_off (Suc cur) + 40"
    using 2(3,6) by (simp add: entry_off_def)
  then obtain s where s: "starting_lba buf (Suc cur) = Inr s" by (simp add: starting_lba_def)
  show ?case
  proof (cases "s = 0")
    case False
    with s 2(5) have "n \<noteq> Suc cur" by auto
    with 2(3,4) have "0 < k" "Suc cur < n" "n \<le> Suc cur + k" by simp_all
    with "2.IH" [OF s False] 2(5,6) s False show ?thesis by simp
  qed (simp add: s)
qed simp

lemma rd64_cong: "(\<And>j. i \<le> j \<Longrightarrow> j < i + 8 \<Longrightarrow> xs ! j = ys ! j) \<Longrightarrow> rd64 xs i = rd64 ys i"
  by (simp add: rd64_def rd32_def rd16_def)

lemma rd64_append: "i + 8 \<le> length xs \<Longrightarrow> rd64 (xs @ ys) i = rd64 xs i"
  by (rule rd64_cong) (simp add: nth_append)

lemma rd32_append: "i + 4 \<le> length xs \<Longrightarrow> rd32 (xs @ ys) i = rd32 xs i"
  by (simp add: rd32_def rd16_def nth_append)

lemma rd64_zeros:
  assumes "length xs \<le> i" and "i + 8 \<le> length xs + n"
  shows "rd64 (xs @ replicate n 0) i = 0"
proof -
  have "rd64 (xs @ replicate n 0) i = rd64 (replicate (i + 8) 0) i"
    using assms by (intro rd64_cong) (simp add: nth_append)
  also have "\<dots> = 0" by (simp add: rd64_def rd32_def rd16_def del: replicate.simps)
  finally show ?thesis .
qed

text \<open>Every round moves on by 512 bytes of the buffer, so the loop never runs out of 32 rounds unless
  a read of the driver hangs.\<close>

lemma read_part_length:
  assumes "\<And>d off l xs d'. dread d off l n = Inr (Some xs, d') \<Longrightarrow> length xs = 512 * unat n"
    and "read_part dread d l n off buf = Inr (buf', d')"
  shows "length buf' = length buf"
  using assms by (auto simp: read_part_def rbind_eq_Inr split: if_splits option.splits)

lemma gpt_loop_ends:
  assumes "\<And>d off l xs d'. dread d off l 1 = Inr (Some xs, d') \<Longrightarrow> length xs = 512"
    and "\<And>d off l. dread d off l 1 \<noteq> Inl Hang"
    and "length buf < 512 * (k + 2) + 128 * cur"
  shows "gpt_loop dread (Suc k) d lba cur buf \<noteq> Inl Hang"
  using assms(3)
proof (induction k arbitrary: d lba cur buf)
  case 0
  then have "read_part dread d (ucast lba) 1 (entry_off cur) buf = Inl Out_of_bounds"
    by (simp add: read_part_def entry_off_def)
  then show ?case by simp
next
  case (Suc k)
  have nh: "gpt_four m b c \<noteq> Inl Hang" for m b c
    by (induction m b c rule: gpt_four.induct) (auto simp: rbind_eq_Inl starting_lba_def)
  have rh: "read_part dread d l 1 off b \<noteq> Inl Hang" for d l off b
    using assms(2) by (auto simp: read_part_def rbind_eq_Inl split: prod.splits)
  show ?case
  proof
    assume h: "gpt_loop dread (Suc (Suc k)) d lba cur buf = Inl Hang"
    then obtain b d' stop c where b: "read_part dread d (ucast lba) 1 (entry_off cur) buf = Inr (b, d')"
        "gpt_four 4 b cur = Inr (stop, c)" "\<not> stop" "gpt_loop dread (Suc k) d' (lba + 1) c b = Inl Hang"
      by (subst (asm) gpt_loop.simps(2))
        (auto simp del: gpt_loop.simps simp: rbind_eq_Inl nh rh split: if_splits prod.splits)
    have "c = cur + 4" using b(2,3) gpt_four_cur [of 4 b cur c] by simp
    moreover have "length b = length buf" using read_part_length [of dread 1, OF _ b(1)] assms(1) by simp
    ultimately have "length b < 512 * (k + 2) + 128 * c" using Suc.prems by simp
    from Suc.IH [OF this] b(4) show False by blast
  qed
qed

text \<open>The entry tested to end the loop is the one after those just read. Where the page of the fifth
  entry comes with a starting address of zero, reading the partition table ends after the first sector of
  the table, whatever the table holds: the buffer then is the header, the first four entries and what it was
  before.\<close>

lemma read_gpt_four_only:
  assumes buf: "length buf = 16384" "rd64 buf 1056 = 0"
    and hdr: "dread d 0 1 1 = Inr (Some hdr, d')" "length hdr = 512"
    and tbl: "dread d' 512 (part_entry_lba hdr) 1 = Inr (Some tab, d'')" "length tab = 512"
    and lba: "part_entry_lba hdr < 2 ^ 32" and n: "entry_sectors hdr \<noteq> 0"
    and fuel: "0 < fuel"
  shows "read_gpt dread fuel d buf = Inr (hdr @ tab @ drop 1024 buf, d'')"
proof -
  obtain k where k: "fuel = Suc k" using fuel by (cases fuel) auto
  let ?b = "hdr @ drop 512 buf" and ?c = "hdr @ tab @ drop 1024 buf"
  have b: "read_part dread d 1 1 0 buf = Inr (?b, d')"
    using buf(1) hdr by (simp add: read_part_def put_at_def)
  have pe: "part_entry_lba ?b = part_entry_lba hdr"
    using hdr(2) by (simp add: part_entry_lba_def rd64_append)
  have es: "entry_sectors ?b = entry_sectors hdr"
    using hdr(2) by (simp add: entry_sectors_def rd32_append)
  have uc: "(ucast (ucast (part_entry_lba hdr) :: u32) :: u64) = part_entry_lba hdr"
    using lba by (simp add: word_unat_eq_iff unsigned_ucast_eq unsigned_take_bit_eq take_bit_nat_eq_self word_less_nat_alt)
  have "unat (entry_sectors hdr) < 2 ^ 32" using unsigned_less [of "entry_sectors hdr"] by simp
  moreover have "0 < unat (entry_sectors hdr)" using n by (simp add: word_unat_eq_iff)
  moreover have "unat (part_entry_lba hdr) < 2 ^ 32" using lba by (simp add: word_less_nat_alt)
  ultimately have go: "part_entry_lba hdr < ucast (entry_sectors hdr) + part_entry_lba hdr"
    by (simp add: word_less_nat_alt unat_add_no)
  have r: "read_part dread d' (part_entry_lba hdr) 1 (entry_off 0) ?b = Inr (?c, d'')"
    using buf(1) hdr(2) tbl by (simp add: read_part_def entry_off_def put_at_def)
  have "rd64 ?c 1056 = rd64 buf 1056"
    using buf(1) hdr(2) tbl(2) by (intro rd64_cong) (auto simp: nth_append)
  then have "starting_lba ?c 4 = Inr 0"
    using buf hdr(2) tbl(2) by (simp add: starting_lba_def entry_off_def)
  then obtain c where "gpt_four 4 ?c 0 = Inr (True, c)"
    using gpt_four_empty [of 4 0 4 ?c] buf(1) hdr(2) tbl(2) by (auto simp: entry_off_def)
  with b pe es uc go r k show ?thesis by (simp add: read_gpt_def)
qed

text \<open>A disk of five partitions in two sectors of entries.\<close>

definition five_hdr :: "u8 list" where
  "five_hdr = put_at 72 (le64 2 @ le32 8 @ le32 128) (replicate 512 0)"

end
