(* ===== verification/Disk_Start.thy ===== *)
theory Disk_Start
  imports Ahci_Disk Gpt Disk
begin

text \<open>
  How disks come up: the constructor of \<^verbatim>\<open>AHCIDevice\<close> in
  \<^verbatim>\<open>src/drivers/disk/ahci/ahci_driver.cpp\<close>, which registers the disk, restarts its port and reads the
  partition table through it, and the loop of \<^verbatim>\<open>probe_ports\<close> in \<^verbatim>\<open>ahci_init.cpp\<close> that makes a
  device for each usable port. The driver pointer in the table of disks is the number of the
  port. \<open>fresh\<close> are the pages of the command lists, \<open>fis\<close> those of the received frames and \<open>junk\<close>
  those of the partition tables, at the addresses \<open>addr\<close>; they come as the page allocator hands them
  out.
\<close>

record ahci_device =
  dev_port_num :: nat
  dev_gpt :: "u8 list"

record 'w disks =
  disk_table :: "nat rw_disk_t list"
  hba_ports :: "nat \<Rightarrow> 'w hba_port"
  devices :: "nat \<Rightarrow> ahci_device option"
  device_count :: u8

text \<open>A read of the device itself, into its table of partitions.\<close>

definition port_dread ::
  "('w hba_port \<Rightarrow> 'w hba_port) \<Rightarrow> ('w \<Rightarrow> nat \<Rightarrow> u8) \<Rightarrow> nat \<Rightarrow> u64 \<Rightarrow> 'w hba_port sector_read" where
  "port_dread tick ram fuel a p off lba n =
     (let dst = a + of_nat off in
      rbind (ahci_read tick fuel lba n dst p) (\<lambda>(s, q).
        Inr (if s = AHCI_SUCCESS then Some (map (ram (world q)) [unat dst..<unat dst + 512 * unat n]) else None, q)))"

text \<open>The loop over the sectors of the partition table ends within 32 rounds (\<open>gpt_loop_ends\<close>).\<close>

definition AHCIDevice ::
  "('w hba_port \<Rightarrow> 'w hba_port) \<Rightarrow> ('w \<Rightarrow> nat \<Rightarrow> u8) \<Rightarrow> nat \<Rightarrow> (nat \<Rightarrow> command_hdr list) \<Rightarrow> (nat \<Rightarrow> pio_setup) \<Rightarrow>
   (nat \<Rightarrow> nat \<Rightarrow> u8) \<Rightarrow> (nat \<Rightarrow> u64) \<Rightarrow> nat \<Rightarrow> 'w disks \<Rightarrow> 'w disks res" where
  "AHCIDevice tick ram fuel fresh fis junk addr i s =
     (let ds = snd (register_disk AHCI (int i) i (disk_table s))
      in rbind (start_port tick fuel (fresh i) (fis i) (hba_ports s i)) (\<lambda>p.
         rbind (read_gpt (port_dread tick ram fuel (addr i)) 32 p (pages (junk i) 4)) (\<lambda>(g, p).
           Inr (s\<lparr>disk_table := ds, hba_ports := (hba_ports s)(i := p),
                  devices := (devices s)(i \<mapsto> \<lparr>dev_port_num = i, dev_gpt = g\<rparr>)\<rparr>))))"

definition start_disks ::
  "('w hba_port \<Rightarrow> 'w hba_port) \<Rightarrow> ('w \<Rightarrow> nat \<Rightarrow> u8) \<Rightarrow> nat \<Rightarrow> (nat \<Rightarrow> command_hdr list) \<Rightarrow> (nat \<Rightarrow> pio_setup) \<Rightarrow>
   (nat \<Rightarrow> nat \<Rightarrow> u8) \<Rightarrow> (nat \<Rightarrow> u64) \<Rightarrow> nat list \<Rightarrow> 'w disks \<Rightarrow> 'w disks res" where
  "start_disks tick ram fuel fresh fis junk addr ports s =
     for_each (\<lambda>i s. rbind (AHCIDevice tick ram fuel fresh fis junk addr i s) (\<lambda>s.
         Inr (s\<lparr>device_count := device_count s + 1\<rparr>)))
       ports (s\<lparr>device_count := 0\<rparr>)"

subsection \<open>The table of disks fills from the front\<close>

definition disk_of :: "nat \<Rightarrow> nat rw_disk_t" where
  "disk_of i = \<lparr>disk_driver = Some i, disk_type = AHCI, disk_number = int i\<rparr>"

definition table_of :: "nat list \<Rightarrow> nat rw_disk_t list" where
  "table_of ps = map (\<lambda>k. if k < length ps then disk_of (ps ! k) else \<lparr>disk_driver = None, disk_type = EMPTY, disk_number = 0\<rparr>) [0..<10]"

lemma table_of_nth [simp]:
  "length (table_of ps) = 10"
  "k < 10 \<Longrightarrow> table_of ps ! k = (if k < length ps then disk_of (ps ! k) else \<lparr>disk_driver = None, disk_type = EMPTY, disk_number = 0\<rparr>)"
  by (simp_all add: table_of_def)

lemma table_of_Nil: "table_of [] = boot_disks"
  by (simp add: table_of_def boot_disks_def map_replicate_const)

lemma register_next:
  assumes "i \<notin> set ps"
  shows "snd (register_disk AHCI (int i) i (table_of ps)) = table_of (ps @ [i])"
proof -
  note sp = register_scan_spec [where ty = AHCI and n = "int i" and ds = "table_of ps" and i = 0 and fn = None]
  have fresh: "\<not> registered (table_of ps) AHCI (int i) k" for k
    using assms by (auto simp: registered_def disk_of_def split: if_splits)
  then obtain r where r: "register_scan AHCI (int i) (table_of ps) 0 None = Inr r"
    using sp by (auto split: sum.splits)
  show ?thesis
  proof (cases r)
    case None
    with sp r have "\<forall>k < 10. disk_type (table_of ps ! k) \<noteq> EMPTY" by simp
    then have "10 \<le> length ps" by (auto simp: disk_of_def not_less [symmetric])
    then have "table_of (ps @ [i]) = table_of ps" by (intro nth_equalityI) (simp_all add: nth_append)
    then show ?thesis using r None by (simp add: register_disk_def)
  next
    case (Some k)
    with sp r have k: "k < 10" "disk_type (table_of ps ! k) = EMPTY" "\<forall>j < k. disk_type (table_of ps ! j) \<noteq> EMPTY"
      by (simp_all del: table_of_nth(2))
    then have "length ps \<le> k" by (simp add: disk_of_def not_less [symmetric] split: if_splits)
    moreover have "\<not> length ps < k"
    proof
      assume "length ps < k"
      with k(3) have "disk_type (table_of ps ! length ps) \<noteq> EMPTY" by blast
      then show False using \<open>length ps < k\<close> k(1) by simp
    qed
    ultimately have "k = length ps" by simp
    then have "(table_of ps)[k := disk_of i] = table_of (ps @ [i])"
      using k(1) by (intro nth_equalityI) (auto simp: nth_list_update nth_append)
    then show ?thesis using r Some by (simp add: register_disk_def disk_of_def)
  qed
qed

subsection \<open>A port that is stopped starts\<close>

definition stopped :: "'w hba_port \<Rightarrow> bool" where
  "stopped p \<longleftrightarrow> sata_active p = 0 \<and> command_issue p = 0 \<and> device_idle p \<and>
     \<not> cmd_flag ''FIS_recieve_running'' p \<and> \<not> cmd_flag ''cmd_list_running'' p"

lemma running_flags:
  assumes "f \<in> {''FIS_recieve_running'', ''cmd_list_running''}" and "g \<in> {''cmd_start'', ''FIS_recieve_enable''}"
  shows "cmd_flag f (set_cmd_flag g v p) \<longleftrightarrow> cmd_flag f p"
proof -
  have o: "offset_of command_status_t_bits ''cmd_start'' = 0" "width_of command_status_t_bits ''cmd_start'' = 1"
    "offset_of command_status_t_bits ''FIS_recieve_enable'' = 4" "width_of command_status_t_bits ''FIS_recieve_enable'' = 1"
    "offset_of command_status_t_bits ''FIS_recieve_running'' = 14" "width_of command_status_t_bits ''FIS_recieve_running'' = 1"
    "offset_of command_status_t_bits ''cmd_list_running'' = 15" "width_of command_status_t_bits ''cmd_list_running'' = 1"
    by (simp_all add: command_status_t_bits_def)
  have "get_field command_status_t_bits f (set_field command_status_t_bits g v w) = get_field command_status_t_bits f w" for w
    unfolding get_field_def set_field_def using assms
    by (elim insertE emptyE) (simp_all only: o, simp_all add: get_set_bits_other)
  then show ?thesis by (simp add: cmd_flag_def set_cmd_flag_def)
qed

lemma start_flags:
  "port_running (set_cmd_flag ''cmd_start'' 1 (set_cmd_flag ''FIS_recieve_enable'' 1 p))"
proof -
  have o: "offset_of command_status_t_bits ''cmd_start'' = 0" "width_of command_status_t_bits ''cmd_start'' = 1"
    "offset_of command_status_t_bits ''FIS_recieve_enable'' = 4" "width_of command_status_t_bits ''FIS_recieve_enable'' = 1"
    by (simp_all add: command_status_t_bits_def)
  show ?thesis
    by (simp add: port_running_def cmd_flag_def set_cmd_flag_def get_field_def set_field_def o get_set_bits get_set_bits_other)
qed

lemma start_port_stopped:
  assumes "stopped p" and "0 < fuel"
  obtains q where "start_port tick fuel hdrs fis p = Inr q" and "port_ready q" and "cmd_list q = hdrs" and "world q = world p"
proof -
  obtain k where k: "fuel = Suc k" using assms(2) by (cases fuel) auto
  let ?p = "set_cmd_flag ''FIS_recieve_enable'' 0 (set_cmd_flag ''cmd_start'' 0 p)"
  let ?q = "set_cmd_flag ''cmd_start'' 1 (set_cmd_flag ''FIS_recieve_enable'' 1 (?p\<lparr>cmd_list := hdrs, pio_setup_fis := fis\<rparr>))"
  have r: "\<not> cmd_flag ''FIS_recieve_running'' ?p" "\<not> cmd_flag ''cmd_list_running'' ?p"
    using assms(1) by (simp_all add: stopped_def running_flags)
  then have "\<not> cmd_flag ''cmd_list_running'' (?p\<lparr>cmd_list := hdrs, pio_setup_fis := fis\<rparr>)" by (simp add: cmd_flag_def)
  then have "start_port tick fuel hdrs fis p = Inr ?q" using r by (simp add: start_port_def k)
  moreover have "port_running ?q" by (rule start_flags)
  then have "port_ready ?q"
    using assms(1) by (simp add: stopped_def port_ready_def set_cmd_flag_def device_idle_def)
  ultimately show ?thesis using that by (simp add: set_cmd_flag_def)
qed

subsection \<open>The partition table through the port\<close>

context ahci_controller
begin

lemma port_reads_sector:
  assumes q: "port_ready q" "has_table (cmd_list q)"
    and a: "unat a + off + 512 < 2 ^ 64" "even a" "even off" and lba: "unat lba < 2 ^ 16" "unat lba < capacity"
  shows "\<exists>p. port_dread tick ram latency a q off lba 1 = Inr (Some (sector (world q) (unat lba)), p) \<and>
    port_ready p \<and> has_table (cmd_list p) \<and> sector (world p) = sector (world q)"
proof -
  let ?d = "a + of_nat off :: u64"
  have "unat (of_nat off :: u64) = off" using a(1) by (intro unat_of_nat_u64) linarith
  then have ua: "unat ?d = unat a + off" using a(1) by (subst unat_add_no) simp_all
  have l: "unat lba = unat lba mod 2 ^ 16 + 2 ^ 32 * (unat lba div 2 ^ 32 mod 2 ^ 16)" using lba(1) by simp
  have ev: "even ?d" using a(2,3) by simp
  obtain p where "ahci_read tick latency lba 1 ?d q = Inr (AHCI_SUCCESS, p)" "port_ready p" "has_table (cmd_list p)"
      "map (ram (world p)) [unat ?d..<unat ?d + 512 * 1] = concat (map (sector (world q)) [unat lba..<unat lba + 1])"
      "sector (world p) = sector (world q)"
    using read_delivers [OF q _ _ _ ev _ l, of 1 1] a(1) lba(2) ua by auto
  then show ?thesis by (simp add: port_dread_def Let_def)
qed

lemma port_reads_gpt:
  assumes q: "port_ready q" "has_table (cmd_list q)"
    and a: "unat a + 1024 < 2 ^ 64" "even a" and lba: "unat (part_entry_lba (sector (world q) 1)) < 2 ^ 16"
    and cap: "1 < capacity" "unat (part_entry_lba (sector (world q) 1)) < capacity"
    and n: "entry_sectors (sector (world q) 1) \<noteq> 0" and buf: "length buf = 16384" "rd64 buf 1056 = 0"
  shows "\<exists>p. read_gpt (port_dread tick ram latency a) 32 q buf =
      Inr (sector (world q) 1 @ sector (world q) (unat (part_entry_lba (sector (world q) 1))) @ drop 1024 buf, p) \<and>
    port_ready p \<and> has_table (cmd_list p) \<and> sector (world p) = sector (world q)"
proof -
  have l1: "unat (1 :: u64) < 2 ^ 16" "unat (1 :: u64) < capacity" using cap(1) by simp_all
  obtain p where p: "port_dread tick ram latency a q 0 1 1 = Inr (Some (sector (world q) 1), p)" "port_ready p"
      "has_table (cmd_list p)" "sector (world p) = sector (world q)"
    using port_reads_sector [OF q, of a 0 1] a l1 by auto
  obtain p' where p': "port_dread tick ram latency a p 512 (part_entry_lba (sector (world q) 1)) 1 =
        Inr (Some (sector (world q) (unat (part_entry_lba (sector (world q) 1)))), p')"
      "port_ready p'" "has_table (cmd_list p')" "sector (world p') = sector (world q)"
    using port_reads_sector [OF p(2,3), of a 512 "part_entry_lba (sector (world q) 1)"] a lba cap(2) p(4) by auto
  have "part_entry_lba (sector (world q) 1) < 2 ^ 32" using lba by (simp add: word_less_nat_alt)
  from read_gpt_four_only [where dread = "port_dread tick ram latency a", OF buf p(1) sector_length p'(1) sector_length this n, of 32] p'
  show ?thesis by auto
qed

end

subsection \<open>Every usable port becomes a disk\<close>

text \<open>What a disk must hold to have a partition table the driver can find.\<close>

definition has_gpt :: "nat \<Rightarrow> (nat \<Rightarrow> u8 list) \<Rightarrow> bool" where
  "has_gpt capacity m \<longleftrightarrow> 1 < capacity \<and> unat (part_entry_lba (m 1)) < capacity \<and>
     unat (part_entry_lba (m 1)) < 2 ^ 16 \<and> entry_sectors (m 1) \<noteq> 0"

definition gpt_sector :: "(nat \<Rightarrow> u8 list) \<Rightarrow> u8 list" where
  "gpt_sector m = m (unat (part_entry_lba (m 1)))"

text \<open>What the pages of a device must be: tables of commands, and a place for the partitions at an even
  address where the fifth entry has the starting address zero.\<close>

definition pages_usable :: "command_hdr list \<Rightarrow> (nat \<Rightarrow> u8) \<Rightarrow> u64 \<Rightarrow> bool" where
  "pages_usable hdrs junk a \<longleftrightarrow> has_table hdrs \<and> unat a + 1024 < 2 ^ 64 \<and> even a \<and> rd64 (pages junk 4) 1056 = 0"

text \<open>The device of port \<open>i\<close> over the medium \<open>m\<close>: it has seen the first four entries of the table and
  takes the table to end there.\<close>

definition device_ready :: "nat \<Rightarrow> (nat \<Rightarrow> u8 list) \<Rightarrow> ahci_device \<Rightarrow> bool" where
  "device_ready i m d \<longleftrightarrow> dev_port_num d = i \<and>
     (\<forall>e < 4. starting_lba (dev_gpt d) e = Inr (rd64 (gpt_sector m) (128 * e + 32))) \<and> starting_lba (dev_gpt d) 4 = Inr 0"

lemma rd64_behind: "length xs = 512 \<Longrightarrow> i + 8 \<le> length ys \<Longrightarrow> rd64 (xs @ ys @ zs) (512 + i) = rd64 ys i"
proof -
  have d: "rd64 zs (n + i) = rd64 (drop n zs) i" if "n \<le> length zs" for n and zs :: "u8 list"
    by (simp only: rd64_def rd32_def rd16_def nth_drop [OF that] add.assoc)
  show "length xs = 512 \<Longrightarrow> i + 8 \<le> length ys \<Longrightarrow> rd64 (xs @ ys @ zs) (512 + i) = rd64 ys i"
    using d [of 512 "xs @ ys @ zs"] rd64_append [of i ys zs] by simp
qed

context ahci_controller
begin

lemma device_starts:
  assumes p: "stopped (hba_ports s i)" and gpt: "has_gpt capacity (sector (world (hba_ports s i)))"
    and u: "pages_usable (fresh i) (junk i) (addr i)" and l: "0 < latency"
  shows "\<exists>q d. AHCIDevice tick ram latency fresh fis junk addr i s =
      Inr (s\<lparr>disk_table := snd (register_disk AHCI (int i) i (disk_table s)), hba_ports := (hba_ports s)(i := q),
             devices := (devices s)(i \<mapsto> d)\<rparr>) \<and> device_ready i (sector (world (hba_ports s i))) d \<and>
    port_ready q \<and> has_table (cmd_list q) \<and> sector (world q) = sector (world (hba_ports s i))"
proof -
  let ?m = "sector (world (hba_ports s i))" let ?z = "drop 1024 (pages (junk i) 4)"
  obtain p' where p': "start_port tick latency (fresh i) (fis i) (hba_ports s i) = Inr p'" "port_ready p'" "cmd_list p' = fresh i"
      "world p' = world (hba_ports s i)" using start_port_stopped [OF p l] by blast
  obtain q where q: "read_gpt (port_dread tick ram latency (addr i)) 32 p' (pages (junk i) 4) = Inr (?m 1 @ gpt_sector ?m @ ?z, q)"
      "port_ready q" "has_table (cmd_list q)" "sector (world q) = ?m"
    using port_reads_gpt [OF p'(2), of "addr i" "pages (junk i) 4"] p'(3,4) u gpt
    by (auto simp: has_gpt_def gpt_sector_def pages_usable_def)
  have len: "length (?m 1) = 512" "length (gpt_sector ?m) = 512" by (simp_all add: sector_length gpt_sector_def)
  have "starting_lba (?m 1 @ gpt_sector ?m @ ?z) e = Inr (rd64 (gpt_sector ?m) (128 * e + 32))" if "e < 4" for e
    using rd64_behind [OF len(1), of "e * 128 + 32" "gpt_sector ?m" ?z] that len
    by (simp add: starting_lba_def entry_off_def mult.commute)
  moreover have "rd64 (?m 1 @ gpt_sector ?m @ ?z) 1056 = rd64 (pages (junk i) 4) 1056"
    using len by (intro rd64_cong) (auto simp: nth_append)
  then have "starting_lba (?m 1 @ gpt_sector ?m @ ?z) 4 = Inr 0"
    using len u by (simp add: starting_lba_def entry_off_def pages_usable_def)
  ultimately have "device_ready i ?m \<lparr>dev_port_num = i, dev_gpt = ?m 1 @ gpt_sector ?m @ ?z\<rparr>"
    by (simp add: device_ready_def)
  then show ?thesis
    using p'(1) q by (intro exI [of _ q] exI [of _ "\<lparr>dev_port_num = i, dev_gpt = ?m 1 @ gpt_sector ?m @ ?z\<rparr>"])
      (simp add: AHCIDevice_def Let_def)
qed

lemma devices_start:
  assumes "distinct (seen @ ps)" and "disk_table s = table_of seen"
    and "\<forall>i \<in> set ps. stopped (hba_ports s i) \<and> has_gpt capacity (sector (world (hba_ports s i)))"
    and u: "\<forall>i. pages_usable (fresh i) (junk i) (addr i)" and l: "0 < latency"
  shows "\<exists>s'. for_each (\<lambda>i s. rbind (AHCIDevice tick ram latency fresh fis junk addr i s) (\<lambda>s.
        Inr (s\<lparr>device_count := device_count s + 1\<rparr>))) ps s = Inr s' \<and>
    device_count s' = device_count s + of_nat (length ps) \<and> disk_table s' = table_of (seen @ ps) \<and>
    (\<forall>i \<in> set ps. (\<exists>d. devices s' i = Some d \<and> device_ready i (sector (world (hba_ports s i))) d) \<and>
       port_ready (hba_ports s' i) \<and> has_table (cmd_list (hba_ports s' i)) \<and>
       sector (world (hba_ports s' i)) = sector (world (hba_ports s i))) \<and>
    (\<forall>i. i \<notin> set ps \<longrightarrow> devices s' i = devices s i \<and> hba_ports s' i = hba_ports s i)"
  using assms(1-3)
proof (induction ps arbitrary: s seen)
  case (Cons i ps)
  obtain q d where d: "AHCIDevice tick ram latency fresh fis junk addr i s =
      Inr (s\<lparr>disk_table := snd (register_disk AHCI (int i) i (disk_table s)), hba_ports := (hba_ports s)(i := q),
             devices := (devices s)(i \<mapsto> d)\<rparr>)" "device_ready i (sector (world (hba_ports s i))) d"
      "port_ready q" "has_table (cmd_list q)" "sector (world q) = sector (world (hba_ports s i))"
    using device_starts [of s i fresh junk addr fis] Cons.prems(3) u l by auto
  let ?s = "s\<lparr>disk_table := snd (register_disk AHCI (int i) i (disk_table s)), hba_ports := (hba_ports s)(i := q),
    devices := (devices s)(i \<mapsto> d), device_count := device_count s + 1\<rparr>"
  have "disk_table ?s = table_of (seen @ [i])"
    using register_next [of i seen] Cons.prems(1,2) by simp
  moreover have "\<forall>j \<in> set ps. stopped (hba_ports ?s j) \<and> has_gpt capacity (sector (world (hba_ports ?s j)))"
    using Cons.prems(1,3) by auto
  ultimately obtain s' where s': "for_each (\<lambda>i s. rbind (AHCIDevice tick ram latency fresh fis junk addr i s) (\<lambda>s.
        Inr (s\<lparr>device_count := device_count s + 1\<rparr>))) ps ?s = Inr s'"
      "device_count s' = device_count ?s + of_nat (length ps)" "disk_table s' = table_of ((seen @ [i]) @ ps)"
      "\<forall>j \<in> set ps. (\<exists>d. devices s' j = Some d \<and> device_ready j (sector (world (hba_ports ?s j))) d) \<and>
        port_ready (hba_ports s' j) \<and> has_table (cmd_list (hba_ports s' j)) \<and>
        sector (world (hba_ports s' j)) = sector (world (hba_ports ?s j))"
      "\<forall>j. j \<notin> set ps \<longrightarrow> devices s' j = devices ?s j \<and> hba_ports s' j = hba_ports ?s j"
    using Cons.IH [of "seen @ [i]" ?s] Cons.prems(1) by auto
  have "(\<exists>d. devices s' j = Some d \<and> device_ready j (sector (world (hba_ports s j))) d) \<and>
      port_ready (hba_ports s' j) \<and> has_table (cmd_list (hba_ports s' j)) \<and>
      sector (world (hba_ports s' j)) = sector (world (hba_ports s j))" if "j \<in> set (i # ps)" for j
  proof (cases "j = i")
    case True
    then show ?thesis using s'(5) d(2-5) Cons.prems(1) by simp
  next
    case False
    then show ?thesis using s'(4) [rule_format, of j] that by simp
  qed
  moreover have "\<forall>j. j \<notin> set (i # ps) \<longrightarrow> devices s' j = devices s j \<and> hba_ports s' j = hba_ports s j" using s'(5) by simp
  ultimately show ?case using d(1) s'(1-3) by (intro exI [of _ s']) (simp add: add.assoc)
qed simp

end

lemma probe_ports_distinct: "distinct (probe_ports implemented sig ssts)"
  by (simp add: probe_ports_def)

text \<open>C21: Every usable port becomes a disk. On controllers that serve valid commands, with the ports stopped,
  a partition table on each disk and pages as they are needed (in the pages for the partitions the starting
  address of the fifth entry must come as zero), the loop of \<^verbatim>\<open>probe_ports\<close> ends with a device for each port
  that has an active ATA disk, and each of these ports is started and idle and its medium as it was. The
  table of disks then holds the first ten of them, in order and each with its own driver, and each device has
  read the starts of the first four partitions of its disk; on such pages a fifth partition is not seen.\<close>

theorem usable_ports_become_disks:
  assumes c: "ahci_controller tick ram poke sector capacity latency" and l: "0 < latency"
    and boot: "disk_table s = boot_disks" and ps: "ps = probe_ports implemented sig ssts"
    and ports: "\<forall>i \<in> set ps. stopped (hba_ports s i) \<and> has_gpt capacity (sector (world (hba_ports s i)))"
    and u: "\<forall>i. pages_usable (fresh i) (junk i) (addr i)"
  shows "\<exists>s'. start_disks tick ram latency fresh fis junk addr ps s = Inr s' \<and> device_count s' = of_nat (length ps) \<and>
    length (disk_table s') = 10 \<and>
    (\<forall>k < 10. if k < length ps
       then disk_table s' ! k = \<lparr>disk_driver = Some (ps ! k), disk_type = AHCI, disk_number = int (ps ! k)\<rparr>
       else disk_type (disk_table s' ! k) = EMPTY) \<and>
    (\<forall>i \<in> set ps. (\<exists>d. devices s' i = Some d \<and> device_ready i (sector (world (hba_ports s i))) d) \<and>
       port_ready (hba_ports s' i) \<and> sector (world (hba_ports s' i)) = sector (world (hba_ports s i)))"
proof -
  from ahci_controller.devices_start [OF c, where s = "s\<lparr>device_count := 0\<rparr>" and seen = "[]" and ps = ps and fis = fis, OF _ _ _ u l] obtain s' where
    s': "start_disks tick ram latency fresh fis junk addr ps s = Inr s'" "device_count s' = of_nat (length ps)"
      "disk_table s' = table_of ps"
      "\<forall>i \<in> set ps. (\<exists>d. devices s' i = Some d \<and> device_ready i (sector (world (hba_ports s i))) d) \<and>
       port_ready (hba_ports s' i) \<and> sector (world (hba_ports s' i)) = sector (world (hba_ports s i))"
    using boot ports ps probe_ports_distinct by (auto simp: start_disks_def table_of_Nil)
  then show ?thesis by (intro exI [of _ s']) (simp add: disk_of_def)
qed

text \<open>One disk on port 3, with two sectors of entries from sector 2 on; the port is idle and not started.\<close>

definition one_disk :: "sim_world disks" where
  "one_disk = \<lparr>disk_table = boot_disks,
     hba_ports = \<lambda>_. (idle_port [] (\<lambda>_. 0, \<lambda>i. if i = 1 then five_hdr else replicate 512 7))\<lparr>command_status := 0\<rparr>,
     devices = \<lambda>_. None, device_count = 0\<rparr>"

definition blank_pio :: pio_setup where
  "blank_pio = \<lparr>pio_fis_type = 0, pio_transfer_cnt = 0, pio_device = 0, pio_i = False, pio_d = False\<rparr>"

lemma one_disk_gpt: "stopped (hba_ports one_disk i)" "has_gpt (2 ^ 20) (sim_sector (world (hba_ports one_disk i)))"
proof -
  show "stopped (hba_ports one_disk i)"
    by (simp add: one_disk_def stopped_def device_idle_def) (simp add: cmd_flag_def idle_port_def get_field_def get_bits_def)
  have s: "sim_sector (world (hba_ports one_disk i)) 1 = five_hdr"
    by (simp add: one_disk_def idle_port_def sim_sector_def ram_sector_def five_hdr_def)
  have "part_entry_lba five_hdr = 2" "entry_sectors five_hdr = 2"
    by (simp_all add: part_entry_lba_def entry_sectors_def five_hdr_def put_at_def rd64_def rd32_def rd16_def
      le64_def le32_def le16_def nth_append)
  then show "has_gpt (2 ^ 20) (sim_sector (world (hba_ports one_disk i)))" by (simp add: has_gpt_def s del: One_nat_def)
qed

lemma zero_pages_usable: "pages_usable sim_hdrs (\<lambda>_. 0) 0x100000"
  using sim_hdrs_ok by (simp add: pages_usable_def pages_def rd64_def rd32_def rd16_def)

theorem usable_ports_become_disks_witness:
  "\<exists>s' d. start_disks sim_tick sim_ram 2 (\<lambda>_. sim_hdrs) (\<lambda>_. blank_pio) (\<lambda>_ _. 0) (\<lambda>_. 0x100000) [3] one_disk = Inr s' \<and>
    disk_table s' ! 0 = \<lparr>disk_driver = Some 3, disk_type = AHCI, disk_number = 3\<rparr> \<and>
    devices s' 3 = Some d \<and> starting_lba (dev_gpt d) 4 = Inr 0"
proof -
  have ps: "[3] = probe_ports 8 (\<lambda>_. SIGNATURE_ATA) (\<lambda>_. 0x103)"
    by (simp add: probe_ports_def upt_rec port_usable_def get_field_def get_bits_def sata_status_t_bits_def)
  have b: "disk_table one_disk = boot_disks" by (simp add: one_disk_def)
  show ?thesis
    using usable_ports_become_disks [OF sim.ahci_controller_axioms _ b ps, of "\<lambda>_. sim_hdrs" "\<lambda>_ _. 0" "\<lambda>_. 0x100000" "\<lambda>_. blank_pio"]
      one_disk_gpt zero_pages_usable
    by (auto simp: device_ready_def)
qed

end
