(* ===== verification/Driver_Test.thy ===== *)
theory Driver_Test
  imports Ahci_Disk Fat_File Disk Gpt
begin

text \<open>
  The two tests of \<^verbatim>\<open>src/tests/drivers/test_disk.cpp\<close>, which assert what they read back. The
  disk is reached through its entry in the table of disks, the file system through the chains
  of \<open>Fat_Chain\<close>; \<open>junk\<close> is what the page allocator hands out. A page holds 512 words.
\<close>

definition buf_word :: "u8 list \<Rightarrow> nat \<Rightarrow> u64 res" where
  "buf_word buf i = (if 8 * i + 8 \<le> length buf then Inr (rd64 buf (8 * i)) else Inl Out_of_bounds)"

definition set_buf_word :: "nat \<Rightarrow> u64 \<Rightarrow> u8 list \<Rightarrow> u8 list res" where
  "set_buf_word i w buf = (if 8 * i + 8 \<le> length buf then Inr (put_at (8 * i) (le64 w) buf) else Inl Out_of_bounds)"

definition clear_page :: "u8 list \<Rightarrow> u8 list" where
  "clear_page buf = put_at 0 (replicate 0x1000 0) buf"

subsection \<open>The disk test\<close>

definition test_read ::
  "('a \<Rightarrow> u64 \<Rightarrow> u32 \<Rightarrow> 'd \<Rightarrow> u8 list option) \<Rightarrow> 'a rw_disk_t \<Rightarrow> u64 \<Rightarrow> u64 \<Rightarrow> u8 list \<Rightarrow> 'd \<Rightarrow> u8 list res" where
  "test_read drd cur lba num buf d =
     (if length buf < 512 * unat (ucast num :: u32) then Inl Out_of_bounds
      else rbind (disk_read drd cur lba (ucast num) d) (\<lambda>r.
             Inr (case r of None \<Rightarrow> buf | Some xs \<Rightarrow> put_at 0 xs buf)))"

definition test_write ::
  "('a \<Rightarrow> u64 \<Rightarrow> u32 \<Rightarrow> u8 list \<Rightarrow> 'd \<Rightarrow> 'd) \<Rightarrow> 'a rw_disk_t \<Rightarrow> u64 \<Rightarrow> u64 \<Rightarrow> u8 list \<Rightarrow> 'd \<Rightarrow> 'd res" where
  "test_write dwr cur lba num buf d =
     (if length buf < 512 * unat (ucast num :: u32) then Inl Out_of_bounds
      else disk_write dwr cur (ucast lba) (ucast num) (take (512 * unat (ucast num :: u32)) buf) d)"

definition testDiskDriver ::
  "('a \<Rightarrow> u64 \<Rightarrow> u32 \<Rightarrow> 'd \<Rightarrow> u8 list option) \<Rightarrow> ('a \<Rightarrow> u64 \<Rightarrow> u32 \<Rightarrow> u8 list \<Rightarrow> 'd \<Rightarrow> 'd) \<Rightarrow>
   (nat \<Rightarrow> u8) \<Rightarrow> (nat \<Rightarrow> u8) \<Rightarrow> 'a rw_disk_t \<Rightarrow> 'd \<Rightarrow> 'd res" where
  "testDiskDriver drd dwr junk junk' cur d =
     (let lba = 0; num = 4; buf = pages junk 1; data = pages junk' 1
      in rbind (set_buf_word 21 0xAA55AA55 buf) (\<lambda>buf.
         rbind (test_read drd cur lba num data d) (\<lambda>data.
         rbind (test_write dwr cur lba num buf d) (\<lambda>d.
         rbind (test_read drd cur lba num (clear_page buf) d) (\<lambda>buf.
         rbind (buf_word buf 21) (\<lambda>w.
         rbind (kassert (w = 0xAA55AA55)) (\<lambda>_.
           test_write dwr cur lba num data d)))))))"

lemma length_clear_page [simp]: "length buf = 4096 \<Longrightarrow> length (clear_page buf) = 4096"
  by (simp add: clear_page_def put_at_def)

lemma buf_word_set:
  assumes "8 * i + 8 \<le> length buf"
  shows "rd64 (put_at (8 * i) (le64 w) buf) (8 * i) = w"
  using assms rd64_at [of "take (8 * i) buf" w "drop (8 * i + 8) buf"] by (simp add: put_at_def min_def)

lemma rd64_zero_page: "i + 8 \<le> n \<Longrightarrow> rd64 (replicate n 0) i = 0"
  by (simp add: rd64_def rd32_def rd16_def)

context block_device
begin

lemma test_passes:
  assumes g: "good 0 4" and cur: "disk_type cur = AHCI" "disk_driver cur = Some drv"
    and drd: "\<And>l n d. drd drv l n d = dread d l n" and dwr: "\<And>l n xs d. dwr drv (ucast l) n xs d = dwrite d l n xs"
  shows "\<exists>d'. testDiskDriver drd dwr junk junk' cur d = Inr d' \<and> dread d' 0 4 = dread d 0 4 \<and>
    (\<forall>l n. good l n \<and> 4 \<le> unat l \<longrightarrow> dread d' (ucast l) n = dread d (ucast l) n)"
proof -
  let ?buf = "put_at 168 (le64 0xAA55AA55) (pages junk (Suc 0))"
  obtain old where old: "dread d 0 4 = Some old" "length old = 2048" using read_length [OF g, of d] by auto
  let ?d = "dwrite d 0 4 (take 2048 ?buf)" let ?e = "dwrite ?d 0 4 old"
  have new: "dread ?d 0 4 = Some (take 2048 ?buf)" using read_written [OF g, of "take 2048 ?buf"] by simp
  have restored: "dread ?e 0 4 = Some old" using read_written [OF g, of old] old(2) by simp
  have keep: "dread ?e (ucast l) n = dread d (ucast l) n" if "good l n" "4 \<le> unat l" for l n
  proof -
    have "sector_range 0 4 \<inter> sector_range l n = {}" using that(2) by (auto simp: sector_range_def)
    then show ?thesis using read_other [OF g that(1)] old(2) by simp
  qed
  have word: "rd64 (put_at 0 (take 2048 ?buf) (clear_page ?buf)) 168 = 0xAA55AA55"
  proof -
    have "rd64 (take 2048 ?buf) 168 = rd64 ?buf 168"
      using rd64_append [of 168 "take 2048 ?buf" "drop 2048 ?buf"] by simp
    also have "\<dots> = 0xAA55AA55" using buf_word_set [of 21 "pages junk (Suc 0)" "0xAA55AA55"] by simp
    finally show ?thesis
      using rd64_append [of 168 "take 2048 ?buf" "drop 2048 (clear_page ?buf)"] by (simp add: put_at_def clear_page_def)
  qed
  have data: "take 2048 (put_at 0 old (pages junk' (Suc 0))) = old" using old(2) by (simp add: put_at_def)
  have d4: "dwr drv 0 4 xs e = dwrite e 0 4 xs" for xs e using dwr [of 0 4 xs e] by simp
  have "testDiskDriver drd dwr junk junk' cur d = Inr ?e"
    using word by (simp add: testDiskDriver_def Let_def set_buf_word_def buf_word_def test_read_def test_write_def disk_read_def
        disk_write_def cur drd d4 old new data)
  then show ?thesis using restored old(1) keep by auto
qed

end

lemma other_disk_fails_test:
  assumes "disk_type cur \<noteq> AHCI \<or> disk_driver cur = None"
  shows "testDiskDriver drd dwr junk junk' cur d = Inl (if disk_type cur = AHCI then Null_deref else Assert_fail)"
proof (cases "disk_type cur")
  case EMPTY
  then show ?thesis
    by (simp add: testDiskDriver_def Let_def set_buf_word_def buf_word_def test_read_def test_write_def disk_read_def
        disk_write_def) (simp add: clear_page_def put_at_def rd64_zero_page)
next
  case AHCI
  with assms show ?thesis
    by (simp add: testDiskDriver_def Let_def set_buf_word_def test_read_def disk_read_def)
qed

subsection \<open>The file system test\<close>

definition testFATDriver ::
  "('d \<Rightarrow> u64 \<Rightarrow> u32 \<Rightarrow> u8 list option) \<Rightarrow> ('d \<Rightarrow> u32 \<Rightarrow> u32 \<Rightarrow> u8 list \<Rightarrow> 'd) \<Rightarrow> nat \<Rightarrow> (nat \<Rightarrow> u8) \<Rightarrow>
   fat_part \<Rightarrow> 'd \<Rightarrow> (fat_part \<times> 'd) res" where
  "testFATDriver dread dwrite fuel junk p d =
     rbind (set_buf_word 567 0xAA55AA55 (pages junk 1)) (\<lambda>data.
     rbind (write_cluster_chain dread dwrite data 0x1000 NO_START p d) (\<lambda>(cluster, p, d).
     rbind (read_cluster_chain dread fuel p d (clear_page data) (of_int cluster)) (\<lambda>(_, data).
     rbind (buf_word data 567) (\<lambda>w.
     rbind (kassert (w = 0xAA55AA55)) (\<lambda>_.
     rbind (set_buf_word 67 0x6767 data) (\<lambda>data.
     rbind (write_cluster_chain dread dwrite data 0x1000 (of_int cluster) p d) (\<lambda>(_, p, d).
       Inr (p, d))))))))"

text \<open>The file system test never gets to the file system: word 567 lies behind its page.\<close>

lemma fat_test_faults: "testFATDriver dread dwrite fuel junk p d = Inl Out_of_bounds"
  by (simp add: testFATDriver_def set_buf_word_def)

subsection \<open>The disk test on the driver\<close>

context ahci_disk
begin

lemma same_sectors:
  assumes cap: "4 \<le> capacity" and first: "ahci_dread tick ram latency hdrs addr w' 0 4 = ahci_dread tick ram latency hdrs addr w 0 4"
    and rest: "\<forall>l n. small_range capacity l n \<and> 4 \<le> unat l \<longrightarrow>
      ahci_dread tick ram latency hdrs addr w' (ucast l) n = ahci_dread tick ram latency hdrs addr w (ucast l) n"
    and i: "i < 2 ^ 16" "i < capacity"
  shows "sector w' i = sector w i"
proof (cases "i < 4")
  case True
  have "[0..<4] = [0, 1, 2, 3 :: nat]" by (simp add: upt_rec)
  then have "sector w' 0 @ sector w' 1 @ sector w' 2 @ sector w' 3 = sector w 0 @ sector w 1 @ sector w 2 @ sector w 3"
    using first dread_small [of 0 4] cap by (simp add: small_range_def)
  then have "sector w' j = sector w j" if "j \<in> {0, 1, 2, 3}" for j
    using that by (auto simp: append_eq_append_conv sector_length)
  moreover have "i \<in> {0, 1, 2, 3}" using True by auto
  ultimately show ?thesis by blast
next
  case False
  have u: "unat (of_nat i :: u32) = i" using i(1) by (simp add: unat_of_nat take_bit_nat_eq_self)
  have g: "small_range capacity (of_nat i) 1" using i by (simp add: small_range_def u)
  then show ?thesis using rest [rule_format, of "of_nat i" 1] False by (simp add: dread_small u)
qed

end

text \<open>C22: The disk test passes on the driver and leaves the disk as it found it. Over a controller that serves
  valid commands, for an entry of the table of disks with its driver and a disk of at least four sectors, the
  sectors that are read, overwritten, read back and restored hold what they held, and so do all others the
  driver can address; each request finds the port started and idle, as the one before left it
  (\<open>ahci_is_block_device\<close>). For an empty entry, whose reads and writes do nothing, the assertion fails; an
  entry without a driver is a NULL dereference.\<close>

theorem disk_test_passes:
  assumes dev: "ahci_disk tick ram poke sector capacity latency hdrs addr" and cap: "4 \<le> capacity"
    and drd: "drd = (\<lambda>_ l n w. ahci_dread tick ram latency hdrs addr w l n)"
    and dwr: "dwr = (\<lambda>_ l n xs w. ahci_dwrite tick poke latency hdrs addr w (ucast l) n xs)"
  shows "if disk_type cur = AHCI \<and> disk_driver cur \<noteq> None
    then \<exists>w'. testDiskDriver drd dwr junk junk' cur w = Inr w' \<and>
      (\<forall>i < min (2 ^ 16) capacity. sector w' i = sector w i)
    else testDiskDriver drd dwr junk junk' cur w = Inl (if disk_type cur = AHCI then Null_deref else Assert_fail)"
proof (cases "disk_type cur = AHCI \<and> disk_driver cur \<noteq> None")
  case True
  then obtain drv where cur: "disk_type cur = AHCI" "disk_driver cur = Some drv" by auto
  have g: "small_range capacity 0 4" using cap by (simp add: small_range_def)
  obtain w' where w': "testDiskDriver drd dwr junk junk' cur w = Inr w'"
      "ahci_dread tick ram latency hdrs addr w' 0 4 = ahci_dread tick ram latency hdrs addr w 0 4"
      "\<forall>l n. small_range capacity l n \<and> 4 \<le> unat l \<longrightarrow>
        ahci_dread tick ram latency hdrs addr w' (ucast l) n = ahci_dread tick ram latency hdrs addr w (ucast l) n"
    using block_device.test_passes [OF ahci_disk.ahci_device [OF dev] g cur, of drd dwr junk junk' w] by (auto simp: drd dwr)
  then have "sector w' i = sector w i" if "i < 2 ^ 16" "i < capacity" for i
    by (intro ahci_disk.same_sectors [OF dev cap _ _ that]) simp_all
  with True w'(1) show ?thesis by auto
next
  case False
  then show ?thesis using other_disk_fails_test [of cur drd dwr junk junk' w] by auto
qed

theorem disk_test_passes_witness:
  "\<exists>w'. testDiskDriver (\<lambda>_ l n w. ahci_dread sim_tick sim_ram 2 sim_hdrs 0x100000 w l n)
      (\<lambda>_ l n xs w. ahci_dwrite sim_tick sim_poke 2 sim_hdrs 0x100000 w (ucast l) n xs) (\<lambda>_. 0) (\<lambda>_. 0)
      \<lparr>disk_driver = Some (), disk_type = AHCI, disk_number = 0\<rparr> (\<lambda>_. 0, \<lambda>_. [7]) = Inr w' \<and>
    sim_sector w' 3 = 7 # replicate 511 0"
proof -
  have "sim_sector (\<lambda>_. 0, \<lambda>_. [7]) 3 = 7 # replicate 511 0"
    by (simp add: sim_sector_def ram_sector_def take_Cons' replicate_append_same)
  then show ?thesis
    using disk_test_passes [OF sim.ahci_disk_axioms _ refl refl,
        of "\<lparr>disk_driver = Some (), disk_type = AHCI, disk_number = 0\<rparr>" "\<lambda>_. 0" "\<lambda>_. 0" "(\<lambda>_. 0, \<lambda>_. [7])"]
    by auto
qed

end
