(* ===== verification/Page_Alloc.thy ===== *)
theory Page_Alloc
  imports Prelude
begin

text \<open>
  The allocator of physical pages, \<^verbatim>\<open>src/kernel/mem/paging/page_allocator.cpp\<close>: a list of
  memory segments with pointers in both directions. The entries live in a store from
  addresses to entries; an entry that \<^verbatim>\<open>kfree\<close> has released is gone from the store, and
  reading it is \<open>Out_of_bounds\<close>. Entries come from \<^verbatim>\<open>kcalloc\<close>, which is taken to succeed. The
  walks over the list take fuel, more than the list is long. Log lines are not modelled.
\<close>

definition FREE :: u8 where "FREE = 0x0"
definition USED :: u8 where "USED = 0xA"
definition page_sz :: u64 where "page_sz = 0x1000"

record memory_segment_t =
  seg_start :: u64
  seg_size :: u64
  seg_type :: u8

record page_list_entry_t =
  memory :: memory_segment_t
  next_entry :: "nat option"
  prev_entry :: "nat option"

text \<open>The head of the list is the entry 0; \<open>fresh_entry\<close> is the next address \<^verbatim>\<open>kcalloc\<close> returns.\<close>

record page_allocator =
  page_list :: "nat \<rightharpoonup> page_list_entry_t"
  fresh_entry :: nat
  pa_lock :: bool

definition zero_entry :: page_list_entry_t where
  "zero_entry = \<lparr>memory = \<lparr>seg_start = 0, seg_size = 0, seg_type = 0\<rparr>, next_entry = None, prev_entry = None\<rparr>"

definition boot_allocator :: page_allocator where
  "boot_allocator = \<lparr>page_list = [0 \<mapsto> zero_entry], fresh_entry = 1, pa_lock = False\<rparr>"

definition get_entry :: "page_allocator \<Rightarrow> nat option \<Rightarrow> page_list_entry_t res" where
  "get_entry s p =
     (case p of None \<Rightarrow> Inl Null_deref
      | Some i \<Rightarrow> (case page_list s i of None \<Rightarrow> Inl Out_of_bounds | Some e \<Rightarrow> Inr e))"

definition set_entry :: "nat \<Rightarrow> page_list_entry_t \<Rightarrow> page_allocator \<Rightarrow> page_allocator" where
  "set_entry i e s = s\<lparr>page_list := (page_list s)(i \<mapsto> e)\<rparr>"

definition pa_acquire :: "page_allocator \<Rightarrow> page_allocator res" where
  "pa_acquire s = (if pa_lock s then Inl Deadlock else Inr (s\<lparr>pa_lock := True\<rparr>))"

definition pa_release :: "page_allocator \<Rightarrow> page_allocator" where
  "pa_release s = s\<lparr>pa_lock := False\<rparr>"

subsection \<open>The memory map\<close>

record limine_memmap_entry =
  mm_base :: u64
  mm_length :: u64
  mm_type :: u64

text \<open>One round of the loop: fill the current entry, append an empty one.\<close>

definition segment_of :: "limine_memmap_entry \<Rightarrow> memory_segment_t" where
  "segment_of m = \<lparr>seg_start = mm_base m, seg_size = mm_length m div page_sz, seg_type = ucast (mm_type m)\<rparr>"

fun init_loop :: "limine_memmap_entry list \<Rightarrow> nat \<Rightarrow> page_list_entry_t \<Rightarrow> page_allocator \<Rightarrow> page_allocator" where
  "init_loop [] cur e s = set_entry cur e s"
| "init_loop (m # ms) cur e s =
     init_loop ms (fresh_entry s) (zero_entry\<lparr>prev_entry := Some cur\<rparr>)
       ((set_entry cur (e\<lparr>memory := segment_of m, next_entry := Some (fresh_entry s)\<rparr>) s)
          \<lparr>fresh_entry := Suc (fresh_entry s)\<rparr>)"

definition initialize_page_allocator :: "limine_memmap_entry list \<Rightarrow> page_allocator \<Rightarrow> page_allocator res" where
  "initialize_page_allocator ms s =
     rbind (pa_acquire s) (\<lambda>s. rbind (get_entry s (Some 0)) (\<lambda>e. Inr (pa_release (init_loop ms 0 e s))))"

subsection \<open>Allocating\<close>

fun alloc_loop :: "nat \<Rightarrow> u64 \<Rightarrow> nat option \<Rightarrow> page_allocator \<Rightarrow> (u64 \<times> page_allocator) res" where
  "alloc_loop 0 n cur s = Inl Hang"
| "alloc_loop (Suc k) n None s = Inr (0, s)"
| "alloc_loop (Suc k) n (Some i) s =
     rbind (get_entry s (Some i)) (\<lambda>e.
       if seg_type (memory e) = FREE \<and> seg_size (memory e) = n
       then Inr (seg_start (memory e), set_entry i (e\<lparr>memory := (memory e)\<lparr>seg_type := USED\<rparr>\<rparr>) s)
       else if seg_type (memory e) = FREE \<and> seg_size (memory e) > n
       then let new = fresh_entry s;
                rest = seg_size (memory e) - n;
                start = seg_start (memory e) + rest * page_sz
            in Inr (start,
                 (set_entry i (e\<lparr>memory := (memory e)\<lparr>seg_size := rest\<rparr>, next_entry := Some new\<rparr>)
                   (set_entry new \<lparr>memory = \<lparr>seg_start = start, seg_size = n, seg_type = USED\<rparr>,
                      next_entry = next_entry e, prev_entry = Some i\<rparr> s))
                 \<lparr>fresh_entry := Suc new\<rparr>)
       else alloc_loop k n (next_entry e) s)"

definition allocate_pages :: "nat \<Rightarrow> u64 \<Rightarrow> page_allocator \<Rightarrow> (u64 \<times> page_allocator) res" where
  "allocate_pages fuel n s =
     rbind (pa_acquire s) (\<lambda>s. rbind (alloc_loop fuel n (Some 0) s) (\<lambda>(a, s). Inr (a, pa_release s)))"

subsection \<open>Freeing\<close>

text \<open>
  \<^verbatim>\<open>combine_segments\<close> adds the size of the second segment to the first and releases its entry,
  without taking it out of the list.
\<close>

definition combine_segments :: "nat \<Rightarrow> nat \<Rightarrow> page_allocator \<Rightarrow> page_allocator res" where
  "combine_segments a b s =
     rbind (kassert (a \<noteq> b)) (\<lambda>_.
     rbind (get_entry s (Some a)) (\<lambda>ea. rbind (get_entry s (Some b)) (\<lambda>eb.
     rbind (kassert (seg_type (memory ea) = seg_type (memory eb))) (\<lambda>_.
       if next_entry ea = Some b \<and> prev_entry eb = Some a
       then Inr (s\<lparr>page_list := (page_list s)(a \<mapsto> ea\<lparr>memory := (memory ea)\<lparr>seg_size := seg_size (memory ea) + seg_size (memory eb)\<rparr>\<rparr>,
                                       b := None)\<rparr>)
       else if prev_entry ea = Some b \<and> next_entry eb = Some a
       then Inr (s\<lparr>page_list := (page_list s)(b \<mapsto> eb\<lparr>memory := (memory eb)\<lparr>seg_size := seg_size (memory eb) + seg_size (memory ea)\<rparr>\<rparr>,
                                       a := None)\<rparr>)
       else Inr s))))"

fun find_page :: "nat \<Rightarrow> u64 \<Rightarrow> nat option \<Rightarrow> page_allocator \<Rightarrow> nat option res" where
  "find_page 0 a cur s = Inl Hang"
| "find_page (Suc k) a None s = Inr None"
| "find_page (Suc k) a (Some i) s =
     rbind (get_entry s (Some i)) (\<lambda>e.
       if seg_start (memory e) = a then Inr (Some i) else find_page k a (next_entry e) s)"

definition free_pages :: "nat \<Rightarrow> u64 \<Rightarrow> page_allocator \<Rightarrow> page_allocator res" where
  "free_pages fuel a s =
     rbind (pa_acquire s) (\<lambda>s.
     rbind (kassert (a mod page_sz = 0)) (\<lambda>_.
     rbind (find_page fuel a (Some 0) s) (\<lambda>p.
       case p of
         None \<Rightarrow> Inl Assert_fail
       | Some i \<Rightarrow>
           rbind (get_entry s (Some i)) (\<lambda>e.
             if seg_type (memory e) \<noteq> USED then Inr (pa_release s)
             else
               let s = set_entry i (e\<lparr>memory := (memory e)\<lparr>seg_type := FREE\<rparr>\<rparr>) s
               in rbind (get_entry s (prev_entry e)) (\<lambda>pe.
                    if seg_type (memory pe) = FREE
                    then rbind (combine_segments i (the (prev_entry e)) s) (\<lambda>s. Inr (pa_release s))
                    else Inr (pa_release s))))))"

subsection \<open>The list as a list of segments\<close>

text \<open>The specification: the segments in the order of the list.\<close>

fun seg_alloc :: "u64 \<Rightarrow> memory_segment_t list \<Rightarrow> (u64 \<times> memory_segment_t list) option" where
  "seg_alloc n [] = None"
| "seg_alloc n (m # xs) =
     (if seg_type m = FREE \<and> seg_size m = n then Some (seg_start m, m\<lparr>seg_type := USED\<rparr> # xs)
      else if seg_type m = FREE \<and> seg_size m > n
      then let start = seg_start m + (seg_size m - n) * page_sz
           in Some (start, m\<lparr>seg_size := seg_size m - n\<rparr> #
                \<lparr>seg_start = start, seg_size = n, seg_type = USED\<rparr> # xs)
      else map_option (\<lambda>(a, ys). (a, m # ys)) (seg_alloc n xs))"

fun linked :: "(nat \<rightharpoonup> page_list_entry_t) \<Rightarrow> nat option \<Rightarrow> nat list \<Rightarrow> bool" where
  "linked st p [] \<longleftrightarrow> p = None"
| "linked st p (i # ids) \<longleftrightarrow> p = Some i \<and> (case st i of None \<Rightarrow> False | Some e \<Rightarrow> linked st (next_entry e) ids)"

definition segs :: "(nat \<rightharpoonup> page_list_entry_t) \<Rightarrow> nat list \<Rightarrow> memory_segment_t list" where
  "segs st ids = map (\<lambda>i. memory (the (st i))) ids"

text \<open>The allocator is at rest and its list is the entries \<open>ids\<close>.\<close>

definition pa_list :: "page_allocator \<Rightarrow> nat list \<Rightarrow> bool" where
  "pa_list s ids \<longleftrightarrow> \<not> pa_lock s \<and> linked (page_list s) (Some 0) ids \<and> distinct ids \<and>
     (\<forall>i \<in> set ids. i < fresh_entry s)"

lemma linked_upd [simp]: "i \<notin> set ids \<Longrightarrow> linked (st(i := e)) p ids = linked st p ids"
  by (induction ids arbitrary: p) (auto split: option.splits)

lemma segs_upd [simp]: "i \<notin> set ids \<Longrightarrow> segs (st(i := e)) ids = segs st ids"
  by (auto simp: segs_def)

lemma segs_Cons [simp]: "segs st (i # ids) = memory (the (st i)) # segs st ids"
  by (simp add: segs_def)

lemma segs_Nil [simp]: "segs st [] = []"
  by (simp add: segs_def)

text \<open>The loop does to the list what the specification does to the segments.\<close>

lemma alloc_loop_refines:
  assumes "linked (page_list s) p ids" and "distinct ids" and "\<forall>i \<in> set ids. i < fresh_entry s" and "length ids < fuel"
  shows "case seg_alloc n (segs (page_list s) ids) of
      None \<Rightarrow> alloc_loop fuel n p s = Inr (0, s)
    | Some (a, ys) \<Rightarrow> \<exists>s' ids'. alloc_loop fuel n p s = Inr (a, s') \<and> linked (page_list s') p ids' \<and>
        distinct ids' \<and> (\<forall>i \<in> set ids'. i < fresh_entry s') \<and> segs (page_list s') ids' = ys \<and>
        pa_lock s' = pa_lock s \<and> fresh_entry s \<le> fresh_entry s' \<and>
        set ids' \<subseteq> set ids \<union> {fresh_entry s} \<and>
        (\<forall>j. j \<notin> set ids \<union> {fresh_entry s} \<longrightarrow> page_list s' j = page_list s j)"
  using assms
proof (induction ids arbitrary: p fuel)
  case Nil
  then show ?case by (cases fuel) auto
next
  case (Cons i ids)
  obtain k where k: "fuel = Suc k" using Cons.prems(4) by (cases fuel) auto
  obtain e where e: "page_list s i = Some e" "linked (page_list s) (next_entry e) ids" and p: "p = Some i"
    using Cons.prems(1) by (auto split: option.splits)
  have ni: "i \<notin> set ids" "distinct ids" using Cons.prems(2) by auto
  have fr: "fresh_entry s \<notin> set (i # ids)" "i \<noteq> fresh_entry s" "\<forall>j \<in> set ids. j < fresh_entry s"
    using Cons.prems(3) by auto
  note go = k p e(1) get_entry_def
  consider (exact) "seg_type (memory e) = FREE" "seg_size (memory e) = n"
    | (split) "seg_type (memory e) = FREE" "seg_size (memory e) > n" "seg_size (memory e) \<noteq> n"
    | (skip) "\<not> (seg_type (memory e) = FREE \<and> seg_size (memory e) = n)"
        "\<not> (seg_type (memory e) = FREE \<and> seg_size (memory e) > n)" by auto
  then show ?case
  proof cases
    case exact
    let ?s = "set_entry i (e\<lparr>memory := (memory e)\<lparr>seg_type := USED\<rparr>\<rparr>) s"
    have "alloc_loop fuel n p s = Inr (seg_start (memory e), ?s)" using exact by (simp add: go)
    moreover have "linked (page_list ?s) p (i # ids)" using e ni p by (simp add: set_entry_def)
    ultimately show ?thesis
      using exact e ni Cons.prems(3) by (auto simp: set_entry_def intro!: exI [of _ ?s] exI [of _ "i # ids"])
  next
    case split
    let ?rest = "seg_size (memory e) - n" and ?new = "fresh_entry s"
    let ?start = "seg_start (memory e) + ?rest * page_sz"
    let ?s = "(set_entry i (e\<lparr>memory := (memory e)\<lparr>seg_size := ?rest\<rparr>, next_entry := Some ?new\<rparr>)
                   (set_entry ?new \<lparr>memory = \<lparr>seg_start = ?start, seg_size = n, seg_type = USED\<rparr>,
                      next_entry = next_entry e, prev_entry = Some i\<rparr> s)) \<lparr>fresh_entry := Suc ?new\<rparr>"
    have "alloc_loop fuel n p s = Inr (?start, ?s)" using split by (simp add: go Let_def)
    moreover have "linked (page_list ?s) p (i # ?new # ids)" using e ni p fr by (simp add: set_entry_def)
    moreover have "segs (page_list ?s) (i # ?new # ids) =
      (memory e)\<lparr>seg_size := ?rest\<rparr> # \<lparr>seg_start = ?start, seg_size = n, seg_type = USED\<rparr> # segs (page_list s) ids"
      using ni fr by (simp add: set_entry_def)
    moreover have "seg_alloc n (segs (page_list s) (i # ids)) = Some (?start,
      (memory e)\<lparr>seg_size := ?rest\<rparr> # \<lparr>seg_start = ?start, seg_size = n, seg_type = USED\<rparr> # segs (page_list s) ids)"
      using split e(1) by (simp add: Let_def)
    moreover have "distinct (i # ?new # ids)" "\<forall>j \<in> set (i # ?new # ids). j < fresh_entry ?s"
      "pa_lock ?s = pa_lock s" "fresh_entry s \<le> fresh_entry ?s"
      "set (i # ?new # ids) \<subseteq> set (i # ids) \<union> {fresh_entry s}"
      "\<forall>j. j \<notin> set (i # ids) \<union> {fresh_entry s} \<longrightarrow> page_list ?s j = page_list s j"
      using ni fr Cons.prems(3) by (auto simp: set_entry_def)
    ultimately show ?thesis by (simp only: option.case prod.case) blast
  next
    case skip
    have al: "alloc_loop fuel n p s = alloc_loop k n (next_entry e) s"
      using skip by (auto simp: go simp del: alloc_loop.simps(1))
    have "length ids < k" using Cons.prems(4) k by simp
    from Cons.IH [OF e(2) ni(2) fr(3) this] show ?thesis
    proof (cases "seg_alloc n (segs (page_list s) ids)")
      case None
      with Cons.IH [OF e(2) ni(2) fr(3) \<open>length ids < k\<close>] al skip e show ?thesis by (auto simp: Let_def)
    next
      case (Some r)
      obtain a ys where r: "r = (a, ys)" by (cases r)
      from Cons.IH [OF e(2) ni(2) fr(3) \<open>length ids < k\<close>] Some r obtain s' ids' where
        s': "alloc_loop k n (next_entry e) s = Inr (a, s')" "linked (page_list s') (next_entry e) ids'"
          "distinct ids'" "\<forall>i \<in> set ids'. i < fresh_entry s'" "segs (page_list s') ids' = ys"
          "pa_lock s' = pa_lock s" "fresh_entry s \<le> fresh_entry s'" "set ids' \<subseteq> set ids \<union> {fresh_entry s}"
          "\<forall>j. j \<notin> set ids \<union> {fresh_entry s} \<longrightarrow> page_list s' j = page_list s j" by auto
      have same: "page_list s' i = Some e" using s'(9) ni(1) fr(2) e(1) by simp
      have "i \<notin> set ids'" using s'(8) ni(1) fr(2) by auto
      moreover have "i < fresh_entry s'" using s'(7) Cons.prems(3) by simp
      ultimately have "\<exists>s' ids'. alloc_loop fuel n p s = Inr (a, s') \<and> linked (page_list s') p ids' \<and>
        distinct ids' \<and> (\<forall>i \<in> set ids'. i < fresh_entry s') \<and> segs (page_list s') ids' = memory e # ys \<and>
        pa_lock s' = pa_lock s \<and> fresh_entry s \<le> fresh_entry s' \<and>
        set ids' \<subseteq> set (i # ids) \<union> {fresh_entry s} \<and>
        (\<forall>j. j \<notin> set (i # ids) \<union> {fresh_entry s} \<longrightarrow> page_list s' j = page_list s j)"
        using al s' same p by (intro exI [of _ s'] exI [of _ "i # ids'"]) auto
      moreover have "seg_alloc n (segs (page_list s) (i # ids)) = Some (a, memory e # ys)"
        using Some r skip e(1) by (auto simp: Let_def)
      ultimately show ?thesis by (simp del: segs_Cons)
    qed
  qed
qed

subsection \<open>Pages\<close>

text \<open>The bytes of a run of pages, segments that do not wrap and do not meet, and the bytes the
  free ones hold.\<close>

definition page_run :: "u64 \<Rightarrow> u64 \<Rightarrow> nat set" where
  "page_run a n = {unat a..<unat a + 4096 * unat n}"

definition page_set :: "memory_segment_t \<Rightarrow> nat set" where
  "page_set m = page_run (seg_start m) (seg_size m)"

fun seg_apart :: "memory_segment_t list \<Rightarrow> bool" where
  "seg_apart [] \<longleftrightarrow> True"
| "seg_apart (m # xs) \<longleftrightarrow> unat (seg_start m) + 4096 * unat (seg_size m) \<le> 2 ^ 64 \<and>
     (\<forall>x \<in> set xs. page_set m \<inter> page_set x = {}) \<and> seg_apart xs"

definition free_part :: "memory_segment_t list \<Rightarrow> nat set" where
  "free_part xs = \<Union> (page_set ` {m \<in> set xs. seg_type m = FREE})"

definition all_part :: "memory_segment_t list \<Rightarrow> nat set" where
  "all_part xs = \<Union> (page_set ` set xs)"

lemma free_part_simps [simp]:
  "free_part [] = {}"
  "free_part (m # xs) = (if seg_type m = FREE then page_set m else {}) \<union> free_part xs"
  by (auto simp: free_part_def)

lemma all_part_simps [simp]: "all_part [] = {}" "all_part (m # xs) = page_set m \<union> all_part xs"
  by (auto simp: all_part_def)

lemma free_part_sub: "free_part xs \<subseteq> all_part xs"
  by (auto simp: free_part_def all_part_def)

lemma seg_apart_Cons: "seg_apart (m # xs) \<longleftrightarrow> unat (seg_start m) + 4096 * unat (seg_size m) \<le> 2 ^ 64 \<and>
  page_set m \<inter> all_part xs = {} \<and> seg_apart xs"
  by (auto simp: all_part_def)

declare seg_apart.simps(2) [simp del] seg_apart_Cons [simp]

lemma seg_split:
  assumes "unat (seg_start m) + 4096 * unat (seg_size m) \<le> 2 ^ 64" and "n < seg_size m"
  shows "unat (seg_start m + (seg_size m - n) * page_sz) = unat (seg_start m) + 4096 * (unat (seg_size m) - unat n) \<or>
    unat n = 0"
    and "unat n \<noteq> 0 \<Longrightarrow> page_run (seg_start m + (seg_size m - n) * page_sz) n =
      {unat (seg_start m) + 4096 * (unat (seg_size m) - unat n)..<unat (seg_start m) + 4096 * unat (seg_size m)}"
    and "page_set (m\<lparr>seg_size := seg_size m - n\<rparr>) =
      {unat (seg_start m)..<unat (seg_start m) + 4096 * (unat (seg_size m) - unat n)}"
proof -
  have n: "unat n < unat (seg_size m)" using assms(2) by (simp add: word_less_nat_alt)
  have d: "unat (seg_size m - n) = unat (seg_size m) - unat n" using n by (simp add: unat_sub_no)
  then show "page_set (m\<lparr>seg_size := seg_size m - n\<rparr>) =
      {unat (seg_start m)..<unat (seg_start m) + 4096 * (unat (seg_size m) - unat n)}"
    by (simp add: page_set_def page_run_def)
  have pz: "unat page_sz = 4096" by (simp add: page_sz_def)
  have m: "unat ((seg_size m - n) * page_sz) = 4096 * (unat (seg_size m) - unat n)" if "unat n \<noteq> 0"
    using assms(1) n that by (subst unat_mul_no) (simp_all add: d pz)
  have st: "unat (seg_start m + (seg_size m - n) * page_sz) = unat (seg_start m) + 4096 * (unat (seg_size m) - unat n)"
    if "unat n \<noteq> 0"
    using assms(1) n that by (subst unat_add_no) (simp_all add: m)
  then show "unat (seg_start m + (seg_size m - n) * page_sz) = unat (seg_start m) + 4096 * (unat (seg_size m) - unat n) \<or>
    unat n = 0" by blast
  show "page_run (seg_start m + (seg_size m - n) * page_sz) n =
      {unat (seg_start m) + 4096 * (unat (seg_size m) - unat n)..<unat (seg_start m) + 4096 * unat (seg_size m)}"
    if "unat n \<noteq> 0"
  proof -
    have "unat (seg_start m) + 4096 * (unat (seg_size m) - unat n) + 4096 * unat n =
      unat (seg_start m) + 4096 * unat (seg_size m)" using n by simp
    then show ?thesis by (simp only: page_run_def st [OF that])
  qed
qed

text \<open>A granted run is taken out of the free part; the segments cover what they covered.\<close>

lemma seg_alloc_part:
  assumes "seg_apart xs" and "seg_alloc n xs = Some (a, ys)" and "unat n \<noteq> 0"
  shows "seg_apart ys \<and> page_run a n \<subseteq> free_part xs \<and> free_part ys = free_part xs - page_run a n \<and>
    all_part ys = all_part xs"
  using assms
proof (induction n xs arbitrary: ys rule: seg_alloc.induct)
  case (2 n m xs)
  have ap: "unat (seg_start m) + 4096 * unat (seg_size m) \<le> 2 ^ 64" "page_set m \<inter> all_part xs = {}" "seg_apart xs"
    using "2.prems"(1) by simp_all
  have fs: "free_part xs \<subseteq> all_part xs" by (rule free_part_sub)
  consider (exact) "seg_type m = FREE" "seg_size m = n"
    | (split) "seg_type m = FREE" "seg_size m \<noteq> n" "n < seg_size m"
    | (skip) "\<not> (seg_type m = FREE \<and> seg_size m = n)" "\<not> (seg_type m = FREE \<and> n < seg_size m)" by blast
  then show ?case
  proof cases
    case exact
    with "2.prems"(2) have r: "a = seg_start m" "ys = m\<lparr>seg_type := USED\<rparr> # xs" by auto
    have ps: "page_set (m\<lparr>seg_type := USED\<rparr>) = page_set m" by (simp add: page_set_def)
    have pr: "page_run a n = page_set m" using r exact by (simp add: page_set_def)
    have ff: "free_part ys = free_part xs" by (simp add: r USED_def FREE_def)
    show ?thesis using ap fs r ps pr ff exact by auto
  next
    case split
    let ?start = "seg_start m + (seg_size m - n) * page_sz"
    let ?u = "\<lparr>seg_start = ?start, seg_size = n, seg_type = USED\<rparr>" and ?m = "m\<lparr>seg_size := seg_size m - n\<rparr>"
    from split "2.prems"(2) have r: "a = ?start" "ys = ?m # ?u # xs" by (auto simp: Let_def)
    have n: "unat n < unat (seg_size m)" using split by (simp add: word_less_nat_alt)
    note sp = seg_split [OF ap(1) split(3)]
    have pu: "page_set ?u = page_run a n" using r by (simp add: page_set_def)
    have un: "page_set m = page_set ?m \<union> page_run a n" "page_set ?m \<inter> page_run a n = {}"
      using n by (auto simp: sp(2) [OF "2.prems"(3)] sp(3) r page_set_def [of m] page_run_def [of "seg_start m"])
    have "unat ?start + 4096 * unat n \<le> 2 ^ 64" using sp(1) "2.prems"(3) ap(1) n by auto
    moreover have "unat (seg_start m) + 4096 * unat (seg_size m - n) \<le> 2 ^ 64"
      using ap(1) n by (simp add: unat_sub_no)
    ultimately have "seg_apart ys" using ap un pu r by auto
    moreover have "free_part ys = free_part xs \<union> page_set ?m" using split by (simp add: r USED_def FREE_def Un_commute)
    moreover have "all_part ys = all_part (m # xs)" using un pu by (auto simp: r)
    moreover have "free_part (m # xs) = page_set ?m \<union> page_run a n \<union> free_part xs" using un split by simp
    ultimately show ?thesis using un(2) ap(2) fs un(1) by blast
  next
    case skip
    with "2.prems"(2) obtain zs where z: "seg_alloc n xs = Some (a, zs)" "ys = m # zs" by (auto simp: Let_def)
    from "2.IH" [OF skip ap(3) z(1) "2.prems"(3)]
    have ih: "seg_apart zs" "page_run a n \<subseteq> free_part xs" "free_part zs = free_part xs - page_run a n" "all_part zs = all_part xs"
      by simp_all
    have "page_set m \<inter> page_run a n = {}" using ap(2) ih(2) fs by blast
    then show ?thesis using ih ap z(2) by auto
  qed
qed simp

lemma seg_alloc_None: "seg_alloc n xs = None \<longleftrightarrow> (\<forall>m \<in> set xs. seg_type m = FREE \<longrightarrow> seg_size m < n)"
  by (induction n xs rule: seg_alloc.induct) (auto simp: Let_def not_less_iff_gr_or_eq)

subsection \<open>Sequences of requests\<close>

lemma allocate_pages_refines:
  assumes "pa_list s ids" and "length ids < fuel"
  shows "case seg_alloc n (segs (page_list s) ids) of
      None \<Rightarrow> allocate_pages fuel n s = Inr (0, s)
    | Some (a, ys) \<Rightarrow> \<exists>s' ids'. allocate_pages fuel n s = Inr (a, s') \<and> pa_list s' ids' \<and>
        segs (page_list s') ids' = ys \<and> length ids' \<le> Suc (length ids)"
proof -
  let ?s = "s\<lparr>pa_lock := True\<rparr>"
  have l: "\<not> pa_lock s" "pa_acquire s = Inr ?s" and unl: "pa_release ?s = s"
    using assms(1) by (simp_all add: pa_list_def pa_acquire_def pa_release_def)
  have pre: "linked (page_list ?s) (Some 0) ids" "distinct ids" "\<forall>i \<in> set ids. i < fresh_entry ?s"
    using assms(1) by (simp_all add: pa_list_def)
  show ?thesis
  proof (cases "seg_alloc n (segs (page_list s) ids)")
    case None
    with alloc_loop_refines [OF pre assms(2), of n] l unl show ?thesis by (simp add: allocate_pages_def)
  next
    case (Some r)
    obtain a ys where r: "r = (a, ys)" by (cases r)
    from alloc_loop_refines [OF pre assms(2), of n] Some r obtain s' ids' where
      s': "alloc_loop fuel n (Some 0) ?s = Inr (a, s')" "linked (page_list s') (Some 0) ids'" "distinct ids'"
        "\<forall>i \<in> set ids'. i < fresh_entry s'" "segs (page_list s') ids' = ys" "set ids' \<subseteq> set ids \<union> {fresh_entry s}"
      by auto
    have "length ids' \<le> Suc (length ids)"
      using card_mono [OF _ s'(6)] card_insert_le_m1 [of "length ids + 1" "set ids" "fresh_entry s"]
        distinct_card [OF s'(3)] distinct_card [OF pre(2)] by (auto simp: card_insert_if split: if_splits)
    moreover have "allocate_pages fuel n s = Inr (a, pa_release s')"
      using l s'(1) by (simp add: allocate_pages_def)
    moreover have "pa_list (pa_release s') ids'" using s' by (simp add: pa_list_def pa_release_def)
    moreover have "segs (page_list (pa_release s')) ids' = ys" using s'(5) by (simp add: pa_release_def)
    ultimately show ?thesis using Some r by auto
  qed
qed

fun alloc_all :: "nat \<Rightarrow> u64 list \<Rightarrow> page_allocator \<Rightarrow> (u64 list \<times> page_allocator) res" where
  "alloc_all fuel [] s = Inr ([], s)"
| "alloc_all fuel (n # ns) s =
     rbind (allocate_pages fuel n s) (\<lambda>(a, s). rbind (alloc_all fuel ns s) (\<lambda>(rs, s). Inr (a # rs, s)))"

text \<open>Every run that is granted lies in the free part of the segments at the start, and no two
  runs meet.\<close>

definition grants_ok :: "nat set \<Rightarrow> u64 list \<Rightarrow> u64 list \<Rightarrow> bool" where
  "grants_ok U ns rs \<longleftrightarrow> length rs = length ns \<and>
     (\<forall>i < length ns. rs ! i \<noteq> 0 \<longrightarrow> page_run (rs ! i) (ns ! i) \<subseteq> U) \<and>
     (\<forall>i j. i < j \<and> j < length ns \<and> rs ! i \<noteq> 0 \<and> rs ! j \<noteq> 0 \<longrightarrow>
        page_run (rs ! i) (ns ! i) \<inter> page_run (rs ! j) (ns ! j) = {})"

lemma grants_ok_Cons:
  assumes "grants_ok V ns rs" and "V \<subseteq> U" and "a \<noteq> 0 \<Longrightarrow> page_run a n \<subseteq> U \<and> page_run a n \<inter> V = {}"
  shows "grants_ok U (n # ns) (a # rs)"
  unfolding grants_ok_def
proof (intro conjI allI impI)
  show "length (a # rs) = length (n # ns)" using assms(1) by (simp add: grants_ok_def)
  fix i assume i: "i < length (n # ns)" "(a # rs) ! i \<noteq> 0"
  show "page_run ((a # rs) ! i) ((n # ns) ! i) \<subseteq> U"
  proof (cases i)
    case 0
    with assms(3) i show ?thesis by simp
  next
    case (Suc m)
    with i assms(1) have "page_run (rs ! m) (ns ! m) \<subseteq> V" by (simp add: grants_ok_def)
    with assms(2) Suc show ?thesis by auto
  qed
next
  fix i j assume ij: "i < j \<and> j < length (n # ns) \<and> (a # rs) ! i \<noteq> 0 \<and> (a # rs) ! j \<noteq> 0"
  then obtain k where k: "j = Suc k" "k < length ns" "rs ! k \<noteq> 0" by (cases j) auto
  then have kV: "page_run (rs ! k) (ns ! k) \<subseteq> V" using assms(1) by (simp add: grants_ok_def)
  show "page_run ((a # rs) ! i) ((n # ns) ! i) \<inter> page_run ((a # rs) ! j) ((n # ns) ! j) = {}"
  proof (cases i)
    case 0
    with assms(3) ij k kV show ?thesis by auto
  next
    case (Suc m)
    with ij k assms(1) show ?thesis by (simp add: grants_ok_def)
  qed
qed

lemma alloc_all_ok:
  assumes "pa_list s ids" and "length ids + length ns < fuel" and "seg_apart (segs (page_list s) ids)"
    and "0 \<notin> set ns"
  shows "\<exists>rs s'. alloc_all fuel ns s = Inr (rs, s') \<and> grants_ok (free_part (segs (page_list s) ids)) ns rs"
  using assms
proof (induction ns arbitrary: s ids)
  case Nil
  then show ?case by (simp add: grants_ok_def)
next
  case (Cons n ns)
  let ?xs = "segs (page_list s) ids"
  have f: "length ids < fuel" using Cons.prems(2) by simp
  have n: "unat n \<noteq> 0" using Cons.prems(4) by (auto simp: word_unat_eq_iff)
  show ?case
  proof (cases "seg_alloc n ?xs")
    case None
    then have a: "allocate_pages fuel n s = Inr (0, s)" using allocate_pages_refines [OF Cons.prems(1) f, of n] by simp
    from Cons.IH [OF Cons.prems(1) _ Cons.prems(3)] Cons.prems(2,4) obtain rs s' where
      "alloc_all fuel ns s = Inr (rs, s')" "grants_ok (free_part ?xs) ns rs" by auto
    with a grants_ok_Cons [of "free_part ?xs" ns rs _ 0 n] show ?thesis by auto
  next
    case (Some r)
    obtain a ys where r: "r = (a, ys)" by (cases r)
    from allocate_pages_refines [OF Cons.prems(1) f, of n] Some r obtain s1 ids1 where
      s1: "allocate_pages fuel n s = Inr (a, s1)" "pa_list s1 ids1" "segs (page_list s1) ids1 = ys"
        "length ids1 \<le> Suc (length ids)" by auto
    from seg_alloc_part [OF Cons.prems(3) Some [unfolded r] n]
    have p: "seg_apart ys" "page_run a n \<subseteq> free_part ?xs" "free_part ys = free_part ?xs - page_run a n" by simp_all
    have "length ids1 + length ns < fuel" using s1(4) Cons.prems(2) by simp
    from Cons.IH [OF s1(2) this] p(1) s1(3) Cons.prems(4) obtain rs s' where
      rs: "alloc_all fuel ns s1 = Inr (rs, s')" "grants_ok (free_part ys) ns rs" by auto
    have "grants_ok (free_part ?xs) (n # ns) (a # rs)"
      by (rule grants_ok_Cons [OF rs(2)]) (use p in auto)
    with rs(1) s1(1) show ?thesis by simp
  qed
qed

text \<open>The list that the memory map gives: a segment per region and an empty one at the end.\<close>

lemma init_loop_list:
  assumes "init_loop ms cur e s = t" and "cur < fresh_entry s"
    and "memory e = memory zero_entry" and "next_entry e = None"
  shows "\<exists>ids. pa_lock t = pa_lock s \<and> linked (page_list t) (Some cur) (cur # ids) \<and> distinct (cur # ids) \<and>
    segs (page_list t) (cur # ids) = map segment_of ms @ [memory zero_entry] \<and>
    (\<forall>i \<in> set ids. fresh_entry s \<le> i) \<and> (\<forall>i \<in> set (cur # ids). i < fresh_entry t) \<and>
    length ids = length ms \<and> (\<forall>i < fresh_entry s. i \<noteq> cur \<longrightarrow> page_list t i = page_list s i)"
  using assms
proof (induction ms arbitrary: cur e s)
  case Nil
  from Nil.prems(1) have t: "t = set_entry cur e s" by simp
  show ?case unfolding t using Nil.prems(2-) by (intro exI [of _ "[]"]) (simp add: set_entry_def)
next
  case (Cons m ms)
  define new where "new = fresh_entry s"
  define c where "c = e\<lparr>memory := segment_of m, next_entry := Some new\<rparr>"
  define s0 where "s0 = (set_entry cur c s)\<lparr>fresh_entry := Suc new\<rparr>"
  have t: "init_loop ms new (zero_entry\<lparr>prev_entry := Some cur\<rparr>) s0 = t"
    using Cons.prems(1) by (simp add: new_def c_def s0_def)
  have s0: "fresh_entry s0 = Suc new" "pa_lock s0 = pa_lock s" "page_list s0 = (page_list s)(cur \<mapsto> c)"
    by (simp_all add: s0_def set_entry_def)
  have "new < fresh_entry s0" by (simp add: s0)
  from Cons.IH [OF t this] obtain ids where ih:
    "pa_lock t = pa_lock s" "linked (page_list t) (Some new) (new # ids)" "distinct (new # ids)"
    "segs (page_list t) (new # ids) = map segment_of ms @ [memory zero_entry]"
    "\<forall>i \<in> set ids. Suc new \<le> i" "\<forall>i \<in> set (new # ids). i < fresh_entry t" "length ids = length ms"
    "\<forall>i < Suc new. i \<noteq> new \<longrightarrow> page_list t i = page_list s0 i"
    by (auto simp: s0 zero_entry_def)
  have lt: "cur < new" using Cons.prems(2) by (simp add: new_def)
  have cur: "page_list t cur = Some c" using ih(8) lt by (simp add: s0)
  have c: "next_entry c = Some new" "memory c = segment_of m" by (simp_all add: c_def)
  have "cur \<notin> set (new # ids)" using ih(5) lt by auto
  moreover have "linked (page_list t) (Some cur) (cur # new # ids)" using cur ih(2) c by simp
  moreover have "segs (page_list t) (cur # new # ids) = map segment_of (m # ms) @ [memory zero_entry]"
    using ih(4) cur c by simp
  moreover have "\<forall>i \<in> set (new # ids). fresh_entry s \<le> i" using ih(5) by (auto simp: new_def)
  moreover have "\<forall>i \<in> set (cur # new # ids). i < fresh_entry t" using ih(6) lt by auto
  moreover have "\<forall>i < fresh_entry s. i \<noteq> cur \<longrightarrow> page_list t i = page_list s i"
    using ih(8) by (simp add: s0 new_def)
  ultimately show ?case using ih(1,3,7)
    by (intro exI [of _ "new # ids"]) simp
qed

lemma init_loop_head:
  "cur < fresh_entry s \<Longrightarrow>
   page_list (init_loop (m # ms) cur e s) cur = Some (e\<lparr>memory := segment_of m, next_entry := Some (fresh_entry s)\<rparr>)"
proof -
  have keep: "i < fresh_entry s \<Longrightarrow> i \<noteq> cur \<Longrightarrow> page_list (init_loop ms cur e s) i = page_list s i" for ms cur e s i
    by (induction ms arbitrary: cur e s) (simp_all add: set_entry_def)
  assume "cur < fresh_entry s"
  then show ?thesis by (simp add: keep set_entry_def)
qed

text \<open>The allocator after boot.\<close>

lemma initialize_list:
  "\<exists>s ids. initialize_page_allocator ms boot_allocator = Inr s \<and> pa_list s ids \<and>
     segs (page_list s) ids = map segment_of ms @ [memory zero_entry] \<and> length ids = Suc (length ms) \<and>
     (\<forall>m ms'. ms = m # ms' \<longrightarrow> page_list s 0 = Some \<lparr>memory = segment_of m, next_entry = Some 1, prev_entry = None\<rparr>)"
proof -
  let ?s = "boot_allocator\<lparr>pa_lock := True\<rparr>"
  define t where "t = init_loop ms 0 zero_entry ?s"
  have b: "0 < fresh_entry ?s" "next_entry zero_entry = None" by (simp_all add: boot_allocator_def zero_entry_def)
  from init_loop_list [OF t_def [symmetric] b(1) refl b(2)] obtain ids where
    i: "linked (page_list t) (Some 0) (0 # ids)" "distinct (0 # ids)"
      "segs (page_list t) (0 # ids) = map segment_of ms @ [memory zero_entry]"
      "\<forall>i \<in> set (0 # ids). i < fresh_entry t" "length ids = length ms" by blast
  have "initialize_page_allocator ms boot_allocator = Inr (pa_release t)"
    by (simp add: t_def initialize_page_allocator_def pa_acquire_def get_entry_def boot_allocator_def)
  moreover have "page_list t 0 = Some \<lparr>memory = segment_of m, next_entry = Some 1, prev_entry = None\<rparr>"
    if "ms = m # ms'" for m ms'
    using init_loop_head [OF b(1), of m ms' zero_entry] that by (simp add: t_def zero_entry_def boot_allocator_def)
  moreover have "pa_list (pa_release t) (0 # ids)" using i by (simp add: pa_list_def pa_release_def)
  moreover have "page_list (pa_release t) = page_list t" by (simp add: pa_release_def)
  ultimately show ?thesis using i(3,5) by (intro exI [of _ "pa_release t"] exI [of _ "0 # ids"]) auto
qed

lemma seg_apart_tail: "seg_apart (xs @ [memory zero_entry]) \<longleftrightarrow> seg_apart xs"
  and free_tail: "free_part (xs @ [memory zero_entry]) = free_part xs"
proof -
  have z: "page_set (memory zero_entry) = {}" "unat (seg_start (memory zero_entry)) + 4096 * unat (seg_size (memory zero_entry)) = 0"
    by (simp_all add: page_set_def page_run_def zero_entry_def)
  have a: "all_part (xs @ [memory zero_entry]) = all_part xs" for xs
    using z by (auto simp: all_part_def)
  show "seg_apart (xs @ [memory zero_entry]) \<longleftrightarrow> seg_apart xs"
    by (induction xs) (simp_all add: z a)
  show "free_part (xs @ [memory zero_entry]) = free_part xs"
    using z by (auto simp: free_part_def)
qed

text \<open>C3: Physical pages are never handed out twice. When the regions of the memory map
  do not overlap, any sequence of requests of one page or more after boot is answered without a fault, every run
  that is granted lies in the usable regions, and no two runs granted meet.\<close>

theorem page_runs_disjoint:
  assumes "seg_apart (map segment_of ms)" and "0 \<notin> set ns" and "length ms + length ns + 1 < fuel"
  shows "\<exists>s0 rs s. initialize_page_allocator ms boot_allocator = Inr s0 \<and> alloc_all fuel ns s0 = Inr (rs, s) \<and>
    grants_ok (free_part (map segment_of ms)) ns rs"
proof -
  obtain s0 ids where s0: "initialize_page_allocator ms boot_allocator = Inr s0" "pa_list s0 ids"
    "segs (page_list s0) ids = map segment_of ms @ [memory zero_entry]" "length ids = Suc (length ms)"
    using initialize_list [of ms] by blast
  have "length ids + length ns < fuel" using assms(3) s0(4) by simp
  from alloc_all_ok [OF s0(2) this _ assms(2)] assms(1) s0 show ?thesis by (auto simp: seg_apart_tail free_tail)
qed

theorem page_runs_disjoint_witness:
  "\<exists>s0 rs s. initialize_page_allocator [\<lparr>mm_base = 0x1000, mm_length = 0x3000, mm_type = 0\<rparr>] boot_allocator = Inr s0 \<and>
     alloc_all 5 [1, 2] s0 = Inr (rs, s) \<and> grants_ok {0x1000..<0x4000} [1, 2] rs"
proof -
  let ?ms = "[\<lparr>mm_base = 0x1000, mm_length = 0x3000, mm_type = 0\<rparr>]"
  have s: "map segment_of ?ms = [\<lparr>seg_start = 0x1000, seg_size = 3, seg_type = 0\<rparr>]"
    by (simp add: segment_of_def page_sz_def)
  have f: "free_part [\<lparr>seg_start = 0x1000, seg_size = 3, seg_type = 0\<rparr>] = {0x1000..<0x4000}"
    by (simp add: FREE_def page_set_def page_run_def)
  have "seg_apart (map segment_of ?ms)" "0 \<notin> set [1, 2 :: u64]" "length ?ms + length [1, 2 :: u64] + 1 < (5 :: nat)"
    by (simp_all only: s) simp_all
  from page_runs_disjoint [OF this, unfolded s f] show ?thesis .
qed

text \<open>A freed run leaves a dangling entry in the list. Releasing a run that was split off the first
  region of the map gives its pages back to that region, but the entry that is released with
  them stays linked: from then on a request that the first region cannot satisfy, and every
  release of another page, runs into freed memory.\<close>

lemma freed_entry_stays_linked:
  assumes m: "seg_type (segment_of m) = FREE" "mm_base m mod page_sz = 0" "unat (mm_base m) + unat (mm_length m) \<le> 2 ^ 64"
    and n: "0 < n" "n < seg_size (segment_of m)" and fuel: "2 \<le> fuel"
  shows "\<exists>s0 a s1 s2. initialize_page_allocator (m # ms) boot_allocator = Inr s0 \<and>
    allocate_pages fuel n s0 = Inr (a, s1) \<and> free_pages fuel a s1 = Inr s2 \<and>
    map_option memory (page_list s2 0) = Some (segment_of m) \<and>
    (\<forall>k > seg_size (segment_of m). allocate_pages fuel k s2 = Inl Out_of_bounds) \<and>
    (\<forall>b. b mod page_sz = 0 \<and> b \<noteq> mm_base m \<longrightarrow> free_pages fuel b s2 = Inl Out_of_bounds)"
proof -
  obtain s0 ids where s0: "initialize_page_allocator (m # ms) boot_allocator = Inr s0" "pa_list s0 ids"
    "segs (page_list s0) ids = map segment_of (m # ms) @ [memory zero_entry]"
    "page_list s0 0 = Some \<lparr>memory = segment_of m, next_entry = Some 1, prev_entry = None\<rparr>"
    using initialize_list [of "m # ms"] by blast
  obtain j where j: "fuel = Suc (Suc j)" using fuel by (auto dest: le_Suc_ex simp: numeral_2_eq_2)
  define f where "f = fresh_entry s0"
  define rest where "rest = seg_size (segment_of m) - n"
  define a where "a = mm_base m + rest * page_sz"
  have "0 \<in> set ids" using s0(2,3) by (cases ids) (auto simp: pa_list_def)
  then have f: "f \<noteq> 0" using s0(2) by (auto simp: pa_list_def f_def)
  have lk: "\<not> pa_lock s0" using s0(2) by (simp add: pa_list_def)
  have st: "seg_start (segment_of m) = mm_base m" by (simp add: segment_of_def)
  have pz: "unat page_sz = 4096" by (simp add: page_sz_def)
  have sz: "unat (seg_size (segment_of m)) = unat (mm_length m) div 4096"
    by (simp add: segment_of_def unat_div pz)
  then have sz4: "4096 * unat (seg_size (segment_of m)) \<le> unat (mm_length m)" by simp
  have nn: "0 < unat n" "unat n < unat (seg_size (segment_of m))"
    using n by (simp_all add: word_less_nat_alt)
  have r: "unat rest = unat (seg_size (segment_of m)) - unat n" using nn by (simp add: rest_def unat_sub_no)
  have rl: "0 < unat rest" "unat rest < unat (seg_size (segment_of m))" using r nn by simp_all
  have rp: "unat (rest * page_sz) = 4096 * unat rest" using rl sz4 m(3) by (subst unat_mul_no) (simp_all add: pz)
  have ua: "unat a = unat (mm_base m) + 4096 * unat rest"
    using rl sz4 m(3) by (simp only: a_def, subst unat_add_no) (simp_all add: rp)
  have am: "a mod page_sz = 0" using m(2) ua by (simp add: word_unat_eq_iff unat_mod pz)
  have an: "a \<noteq> mm_base m" using ua rl by auto
  define e0 where "e0 = \<lparr>memory = (segment_of m)\<lparr>seg_size := rest\<rparr>, next_entry = Some f, prev_entry = None :: nat option\<rparr>"
  define e1 where "e1 = \<lparr>memory = \<lparr>seg_start = a, seg_size = n, seg_type = USED\<rparr>, next_entry = Some (1 :: nat), prev_entry = Some 0\<rparr>"
  define s1 where "s1 = s0\<lparr>page_list := (page_list s0)(f \<mapsto> e1, 0 \<mapsto> e0), fresh_entry := Suc f\<rparr>"
  have rs: "rest + n = seg_size (segment_of m)" by (simp add: rest_def)
  have al: "allocate_pages fuel n s0 = Inr (a, s1)"
    using n m(1) s0(4) lk
    by (simp add: allocate_pages_def pa_acquire_def pa_release_def get_entry_def set_entry_def j Let_def st s1_def e0_def e1_def
        a_def rest_def f_def)
  define e2 where "e2 = \<lparr>memory = segment_of m, next_entry = Some f, prev_entry = None :: nat option\<rparr>"
  define s2 where "s2 = s1\<lparr>page_list := (page_list s1)(0 \<mapsto> e2, f := None)\<rparr>"
  have fd: "find_page fuel a (Some 0) (s1\<lparr>pa_lock := True\<rparr>) = Inr (Some f)"
    using f an by (simp add: j get_entry_def s1_def e0_def e1_def st)
  have fr: "free_pages fuel a s1 = Inr s2"
    using f an am lk m(1) rs
    by (simp add: free_pages_def pa_acquire_def fd [unfolded s1_def e0_def e1_def USED_def, simplified] pa_release_def get_entry_def set_entry_def combine_segments_def
        s1_def s2_def e0_def e1_def e2_def USED_def FREE_def)
  have l2: "page_list s2 0 = Some e2" "page_list s2 f = None" "\<not> pa_lock s2"
    using f lk by (simp_all add: s2_def s1_def)
  have big: "allocate_pages fuel k s2 = Inl Out_of_bounds" if "seg_size (segment_of m) < k" for k
  proof -
    have "seg_size (segment_of m) \<noteq> k" "\<not> k < seg_size (segment_of m)" using that by auto
    then show ?thesis using l2 by (simp add: allocate_pages_def pa_acquire_def get_entry_def j e2_def)
  qed
  have other: "free_pages fuel b s2 = Inl Out_of_bounds" if "b mod page_sz = 0" "b \<noteq> mm_base m" for b
    using that l2 by (simp add: free_pages_def pa_acquire_def get_entry_def j e2_def st)
  show ?thesis using s0(1) al fr big other l2(1) by (auto simp: e2_def)
qed

end
