(* ===== verification/Paging.thy ===== *)
theory Paging
  imports Kernel_Heap
begin

text \<open>
  The page tables, \<^verbatim>\<open>src/kernel/mem/paging/page.cpp\<close>: four levels of 512 entries of 8 bytes.
  \<open>pmem\<close> is memory as the entries see it. New tables come from \<^verbatim>\<open>kmalloc\<close> on the kernel heap;
  \<open>pg_frames\<close> and \<open>pg_stamp\<close> are the nested calls the stack holds and the time stamp of its log
  lines (\<open>Kernel_Heap\<close>). The log lines of this file are not modelled.
\<close>

record paging =
  cr3 :: u64
  pmem :: "u64 \<Rightarrow> u64"
  pg_heap :: heap
  pg_frames :: nat
  pg_stamp :: "u8 list"

definition PRESENT :: u64 where "PRESENT = push_bit 0 1"
definition WRITABLE :: u64 where "WRITABLE = push_bit 1 1"
definition PT_BITS_OFFSET :: nat where "PT_BITS_OFFSET = 12"
definition PD_BITS_OFFSET :: nat where "PD_BITS_OFFSET = 21"
definition PDPT_BITS_OFFSET :: nat where "PDPT_BITS_OFFSET = 30"
definition PM4LT_BITS_OFFSET :: nat where "PM4LT_BITS_OFFSET = 39"

definition pt_index :: "nat \<Rightarrow> u64 \<Rightarrow> u64" where
  "pt_index off v = drop_bit off v AND 0x1FF"

text \<open>The address of an entry and the table an entry names.\<close>

definition pte_addr :: "u64 \<Rightarrow> u64 \<Rightarrow> u64" where
  "pte_addr t i = t + 8 * i"

definition frame :: "u64 \<Rightarrow> u64" where
  "frame e = e AND NOT 0xFFF"

definition absent :: "u64 \<Rightarrow> bool" where
  "absent e \<longleftrightarrow> NOT e AND PRESENT \<noteq> 0"

definition getPageEntry :: "paging \<Rightarrow> u64 \<Rightarrow> u64 option" where
  "getPageEntry s v =
     (let PM4LE = pmem s (pte_addr (frame (cr3 s)) (pt_index PM4LT_BITS_OFFSET v))
      in if absent PM4LE then None
         else let PDPTE = pmem s (pte_addr (frame PM4LE) (pt_index PDPT_BITS_OFFSET v))
              in if absent PDPTE then None
                 else let PDE = pmem s (pte_addr (frame PDPTE) (pt_index PD_BITS_OFFSET v))
                      in if absent PDE then None else Some (frame PDE))"

definition getPhysicalAddress :: "paging \<Rightarrow> u64 \<Rightarrow> u64" where
  "getPhysicalAddress s v =
     (case getPageEntry s v of
        None \<Rightarrow> 0
      | Some pt \<Rightarrow>
          (let e = pmem s (pte_addr pt (pt_index PT_BITS_OFFSET v))
           in if absent e then 0 else frame e OR (v AND 0xFFF)))"

text \<open>One level of \<^verbatim>\<open>map_page\<close>: the table an entry names, made when the entry is 0. The block
  is not cleared; when the heap has none the next access is to a table at NULL.\<close>

definition next_table :: "u64 \<Rightarrow> paging \<Rightarrow> (u64 \<times> paging) res" where
  "next_table a s =
     (if pmem s a = 0
      then rbind (kmalloc (pg_frames s) (pg_stamp s) 32768 (pg_heap s)) (\<lambda>(t, h).
             if t = 0 then Inl Null_deref
             else Inr (t, s\<lparr>pmem := (pmem s)(a := t OR PRESENT OR WRITABLE), pg_heap := h\<rparr>))
      else Inr (frame (pmem s a), s))"

definition map_page :: "u64 \<Rightarrow> u64 \<Rightarrow> paging \<Rightarrow> paging res" where
  "map_page v p s =
     rbind (next_table (pte_addr (frame (cr3 s)) (pt_index PM4LT_BITS_OFFSET v)) s) (\<lambda>(PDPT, s).
     rbind (next_table (pte_addr PDPT (pt_index PDPT_BITS_OFFSET v)) s) (\<lambda>(PD, s).
     rbind (next_table (pte_addr PD (pt_index PD_BITS_OFFSET v)) s) (\<lambda>(PT, s).
       Inr (s\<lparr>pmem := (pmem s)(pte_addr PT (pt_index PT_BITS_OFFSET v) := frame p OR PRESENT OR WRITABLE)\<rparr>))))"

definition unmap_page :: "u64 \<Rightarrow> paging \<Rightarrow> paging" where
  "unmap_page v s =
     (case getPageEntry s v of
        None \<Rightarrow> s
      | Some pt \<Rightarrow> s\<lparr>pmem := (pmem s)(pte_addr pt (pt_index PT_BITS_OFFSET v) := 0)\<rparr>)"

text \<open>The loops over ranges. The counter of the first is an \<^verbatim>\<open>int\<close>: behind the page number
  2147483647 it overflows. The ones that compare addresses never end when the end lies in the last
  page of the address space, so they take fuel.\<close>

fun map_pages_loop :: "u64 \<Rightarrow> u64 \<Rightarrow> nat \<Rightarrow> paging \<Rightarrow> paging res" where
  "map_pages_loop v p 0 s = Inr s"
| "map_pages_loop v p (Suc n) s = rbind (map_page v p s) (map_pages_loop (v + 0x1000) (p + 0x1000) n)"

definition map_pages :: "u64 \<Rightarrow> u64 \<Rightarrow> u64 \<Rightarrow> paging \<Rightarrow> paging res" where
  "map_pages v p count s =
     (if unat count < 2 ^ 31 then map_pages_loop v p (unat count) s
      else rbind (map_pages_loop v p (2 ^ 31) s) (\<lambda>_. Inl Signed_overflow))"

fun map_range_loop :: "nat \<Rightarrow> u64 \<Rightarrow> u64 \<Rightarrow> u64 \<Rightarrow> paging \<Rightarrow> paging res" where
  "map_range_loop 0 v vend p s = Inl Hang"
| "map_range_loop (Suc k) v vend p s =
     (if v < vend then rbind (map_page v p s) (map_range_loop k (v + 0x1000) vend (p + 0x1000)) else Inr s)"

definition map_range :: "nat \<Rightarrow> u64 \<Rightarrow> u64 \<Rightarrow> u64 \<Rightarrow> u64 \<Rightarrow> paging \<Rightarrow> paging res" where
  "map_range fuel v vend p pend s =
     rbind (kassert (v - vend = p - pend)) (\<lambda>_. map_range_loop fuel v vend p s)"

fun unmap_pages :: "nat \<Rightarrow> u64 \<Rightarrow> u64 \<Rightarrow> paging \<Rightarrow> paging res" where
  "unmap_pages 0 v vend s = Inl Hang"
| "unmap_pages (Suc k) v vend s =
     (if v < vend then unmap_pages k (v + 0x1000) vend (unmap_page v s) else Inr s)"

subsection \<open>Entries and tables\<close>

definition aligned :: "u64 \<Rightarrow> bool" where
  "aligned t \<longleftrightarrow> take_bit 12 t = 0"

lemma absent_bit: "absent e \<longleftrightarrow> \<not> bit e 0"
  by (simp add: absent_def PRESENT_def and_one_eq mod_2_eq_odd bit_0)

lemma frame_push: "frame e = push_bit 12 (drop_bit 12 e)"
proof -
  have m: "(0xFFF :: u64) = mask 12" by (simp add: mask_eq_exp_minus_1)
  show ?thesis unfolding frame_def m by (intro bit_word_eqI) (auto simp: bit_simps)
qed

lemma aligned_frame [simp]: "aligned (frame e)"
  unfolding aligned_def frame_push by (rule bit_word_eqI) (auto simp: bit_simps)

lemma frame_flags: "aligned t \<Longrightarrow> frame (t OR PRESENT OR WRITABLE) = t"
proof -
  assume a: "aligned t"
  have "bit t n \<Longrightarrow> 12 \<le> n" for n
  proof (rule ccontr)
    assume "bit t n" "\<not> 12 \<le> n"
    then have "bit (take_bit 12 t) n" by (simp add: bit_simps)
    with a show False by (simp add: aligned_def)
  qed
  then show ?thesis unfolding frame_push PRESENT_def WRITABLE_def
    by (intro bit_word_eqI) (auto simp: bit_simps simp del: push_bit_of_1)
qed

lemma flags_present [simp]: "bit (t OR PRESENT OR WRITABLE) 0"
  by (simp add: PRESENT_def bit_simps)

lemma flags_nonzero [simp]: "t OR PRESENT OR WRITABLE \<noteq> 0"
  using flags_present [of t] by (metis bit_0_eq bot_fun_def bot_bool_def)

lemma index_less: "unat (pt_index k v) < 512"
proof -
  have "pt_index k v = take_bit 9 (drop_bit k v)"
    using take_bit_eq_mask [of 9 "drop_bit k v"] by (simp add: pt_index_def mask_eq_exp_minus_1)
  then show ?thesis by (simp add: take_bit_eq_mod unat_mod)
qed

lemma pte_addr_inj:
  assumes "aligned t" "aligned t'" "unat i < 512" "unat i' < 512" and "pte_addr t i = pte_addr t' i'"
  shows "t = t' \<and> i = i'"
proof -
  have al: "\<exists>q. unat x = 4096 * q" if "aligned x" for x
  proof -
    have "unat x mod 4096 = 0" using that by (simp add: aligned_def word_unat_eq_iff unat_mod take_bit_eq_mod)
    then show ?thesis by auto
  qed
  have sl: "unat (pte_addr x j) = unat x + 8 * unat j" if x: "aligned x" "unat j < 512" for x j
  proof -
    obtain q where q: "unat x = 4096 * q" using al [OF x(1)] by blast
    have "unat x < 2 ^ 64" by (rule unat_u64_lt)
    with q have "q < 2 ^ 52" by simp
    then have "unat x + 8 * unat j < 2 ^ 64" using q x(2) by simp
    then show ?thesis using x(2) unfolding pte_addr_def by (subst unat_add_no; subst unat_mul_no) simp_all
  qed
  obtain q q' where q: "unat t = 4096 * q" "unat t' = 4096 * q'" using al assms(1,2) by blast
  have e: "4096 * q + 8 * unat i = 4096 * q' + 8 * unat i'"
    using sl [OF assms(1,3)] sl [OF assms(2,4)] assms(5) q by simp
  have "q = (4096 * q + 8 * unat i) div 4096" using assms(3) by simp
  also have "\<dots> = q'" using assms(4) by (simp add: e)
  finally have "q = q'" .
  with e q show ?thesis by (simp add: word_unat_eq_iff)
qed

subsection \<open>The tree of tables\<close>

text \<open>
  The table that a path of indices leads to, the last index first; the leaf entries below it.
  In a tree of tables no two paths lead to the same table, and an entry that is not 0 is
  marked present.
\<close>

fun tab :: "(u64 \<Rightarrow> u64) \<Rightarrow> u64 \<Rightarrow> u64 list \<Rightarrow> u64 option" where
  "tab m r [] = Some r"
| "tab m r (i # p) =
     (case tab m r p of
        None \<Rightarrow> None
      | Some t \<Rightarrow> if m (pte_addr t i) = 0 then None else Some (frame (m (pte_addr t i))))"

definition vpath :: "u64 list \<Rightarrow> bool" where
  "vpath p \<longleftrightarrow> length p \<le> 3 \<and> (\<forall>i \<in> set p. unat i < 512)"

definition page_tree :: "(u64 \<Rightarrow> u64) \<Rightarrow> u64 \<Rightarrow> bool" where
  "page_tree m r \<longleftrightarrow> aligned r \<and>
     (\<forall>p q t. vpath p \<and> vpath q \<and> tab m r p = Some t \<and> tab m r q = Some t \<longrightarrow> p = q) \<and>
     (\<forall>p t i. vpath (i # p) \<and> tab m r p = Some t \<longrightarrow> m (pte_addr t i) = 0 \<or> bit (m (pte_addr t i)) 0)"

definition pages_ok :: "paging \<Rightarrow> bool" where
  "pages_ok s \<longleftrightarrow> page_tree (pmem s) (frame (cr3 s))"

definition path_of :: "u64 \<Rightarrow> u64 list" where
  "path_of v = [pt_index PD_BITS_OFFSET v, pt_index PDPT_BITS_OFFSET v, pt_index PM4LT_BITS_OFFSET v]"

definition leaf :: "(u64 \<Rightarrow> u64) \<Rightarrow> u64 \<Rightarrow> u64 list \<Rightarrow> u64 \<Rightarrow> u64" where
  "leaf m r q j = (case tab m r q of None \<Rightarrow> 0 | Some t \<Rightarrow> m (pte_addr t j))"

lemma vpath_Cons: "vpath (i # p) \<longleftrightarrow> unat i < 512 \<and> length p < 3 \<and> vpath p"
  by (auto simp: vpath_def)

lemma vpath_path_of [simp]: "vpath (path_of v)" "length (path_of v) = 3"
  by (simp_all add: vpath_def path_of_def index_less)

lemma aligned_tab: "aligned r \<Longrightarrow> tab m r p = Some t \<Longrightarrow> aligned t"
  by (cases p) (auto split: option.splits if_splits)

lemma page_treeD:
  assumes "page_tree m r"
  shows "aligned r" and "vpath p \<Longrightarrow> vpath q \<Longrightarrow> tab m r p = Some t \<Longrightarrow> tab m r q = Some t \<Longrightarrow> p = q"
    and "vpath (i # p) \<Longrightarrow> tab m r p = Some t \<Longrightarrow> m (pte_addr t i) \<noteq> 0 \<Longrightarrow> bit (m (pte_addr t i)) 0"
  using assms unfolding page_tree_def by blast+

text \<open>A pte_addr belongs to one table of the tree.\<close>

lemma tree_pte_inj:
  assumes "page_tree m r" "vpath p" "vpath q" "tab m r p = Some t" "tab m r q = Some t'"
    and "unat i < 512" "unat j < 512" "pte_addr t i = pte_addr t' j"
  shows "p = q \<and> i = j"
proof -
  have "aligned t" "aligned t'" using assms(4,5) aligned_tab page_treeD(1) [OF assms(1)] by blast+
  from pte_addr_inj [OF this assms(6-8)] have "t = t'" "i = j" by simp_all
  with page_treeD(2) [OF assms(1-3)] assms(4,5) show ?thesis by simp
qed

text \<open>Writing a leaf entry leaves the tree as it is.\<close>

lemma tab_leaf_write:
  assumes t: "page_tree m r" and P: "vpath P" "length P = 3" "tab m r P = Some T" and i: "unat i < 512" and q: "vpath q"
  shows "tab (m(pte_addr T i := x)) r q = tab m r q"
  using q
proof (induction q)
  case (Cons j q)
  have q: "vpath q" "unat j < 512" "length q < 3" using Cons.prems by (simp_all add: vpath_Cons)
  show ?case
  proof (cases "tab m r q")
    case None
    with Cons.IH [OF q(1)] show ?thesis by simp
  next
    case (Some t')
    have "pte_addr t' j \<noteq> pte_addr T i"
      using tree_pte_inj [OF t q(1) P(1) Some P(3) q(2) i] q(3) P(2) by auto
    with Some Cons.IH [OF q(1)] show ?thesis by simp
  qed
qed simp

lemma leaf_write:
  assumes t: "page_tree m r" and P: "vpath P" "length P = 3" "tab m r P = Some T" and i: "unat i < 512"
    and q: "vpath q" "unat j < 512"
  shows "leaf (m(pte_addr T i := x)) r q j = (if q = P \<and> j = i then x else leaf m r q j)"
proof (cases "tab m r q")
  case None
  then show ?thesis using tab_leaf_write [OF t P i q(1)] P(3) by (auto simp: leaf_def)
next
  case (Some t')
  show ?thesis
  proof (cases "q = P \<and> j = i")
    case True
    then show ?thesis using tab_leaf_write [OF t P i q(1)] P(3) by (simp add: leaf_def)
  next
    case False
    then have "pte_addr t' j \<noteq> pte_addr T i" using tree_pte_inj [OF t q(1) P(1) Some P(3) q(2) i] by auto
    then show ?thesis using tab_leaf_write [OF t P i q(1)] Some False by (auto simp: leaf_def)
  qed
qed

lemma tree_leaf_write:
  assumes t: "page_tree m r" and P: "vpath P" "length P = 3" "tab m r P = Some T" and i: "unat i < 512"
  shows "page_tree (m(pte_addr T i := x)) r"
proof -
  let ?m = "m(pte_addr T i := x)"
  note same = tab_leaf_write [OF t P i]
  have "?m (pte_addr t' j) = 0 \<or> bit (?m (pte_addr t' j)) 0" if "vpath (j # p)" "tab ?m r p = Some t'" for p t' j
  proof -
    have v: "vpath p" "unat j < 512" "length p < 3" using that(1) by (simp_all add: vpath_Cons)
    have s: "tab m r p = Some t'" using that(2) same [OF v(1)] by simp
    have "pte_addr t' j \<noteq> pte_addr T i" using tree_pte_inj [OF t v(1) P(1) s P(3) v(2) i] v(3) P(2) by auto
    with page_treeD(3) [OF t that(1) s] show ?thesis by auto
  qed
  moreover have "p = q" if "vpath p" "vpath q" "tab ?m r p = Some t'" "tab ?m r q = Some t'" for p q t'
    using page_treeD(2) [OF t that(1,2)] that same by simp
  ultimately show ?thesis using page_treeD(1) [OF t] unfolding page_tree_def by blast
qed

text \<open>One level of \<^verbatim>\<open>map_page\<close> where there is a table, and all of it where there is a table for the
  page.\<close>

lemma next_table_there:
  "tab (pmem s) r p = Some T \<Longrightarrow> tab (pmem s) r (i # p) = Some t \<Longrightarrow> next_table (pte_addr T i) s = Inr (t, s)"
  by (auto simp: next_table_def split: if_splits)

lemma map_page_there:
  assumes "tab (pmem s) (frame (cr3 s)) (path_of v) = Some T"
  shows "map_page v p s =
    Inr (s\<lparr>pmem := (pmem s)(pte_addr T (pt_index PT_BITS_OFFSET v) := frame p OR PRESENT OR WRITABLE)\<rparr>)"
proof -
  let ?r = "frame (cr3 s)"
  let ?a = "pt_index PM4LT_BITS_OFFSET v" and ?b = "pt_index PDPT_BITS_OFFSET v" and ?c = "pt_index PD_BITS_OFFSET v"
  have t3: "tab (pmem s) ?r [?c, ?b, ?a] = Some T" using assms by (simp add: path_of_def)
  then obtain t2 where t2: "tab (pmem s) ?r [?b, ?a] = Some t2"
    by (cases "tab (pmem s) ?r [?b, ?a]") (simp_all add: tab.simps(2) [of _ _ ?c] del: tab.simps)
  then obtain t1 where t1: "tab (pmem s) ?r [?a] = Some t1"
    by (cases "tab (pmem s) ?r [?a]") (simp_all add: tab.simps(2) [of _ _ ?b] del: tab.simps)
  have t0: "tab (pmem s) ?r [] = Some ?r" by simp
  show ?thesis
    unfolding map_page_def next_table_there [OF t0 t1] rbind_Inr prod.case next_table_there [OF t1 t2] next_table_there [OF t2 t3] ..
qed

text \<open>\<^verbatim>\<open>getPhysicalAddress\<close> reads the leaf entry of the address.\<close>

lemma absent_zero [simp]: "absent 0"
  by (simp add: absent_bit)

lemma getPageEntry_tab:
  assumes "page_tree (pmem s) (frame (cr3 s))"
  shows "getPageEntry s v = tab (pmem s) (frame (cr3 s)) (path_of v)"
proof -
  let ?m = "pmem s" and ?r = "frame (cr3 s)"
  have ab: "absent (?m (pte_addr t i)) \<longleftrightarrow> ?m (pte_addr t i) = 0" if "vpath (i # p)" "tab ?m ?r p = Some t" for p t i
    using page_treeD(3) [OF assms that] by (auto simp: absent_bit)
  have v: "vpath [a]" "vpath [b, a]" "vpath [c, b, a]"
    if "a = pt_index PM4LT_BITS_OFFSET v" "b = pt_index PDPT_BITS_OFFSET v" "c = pt_index PD_BITS_OFFSET v" for a b c
    using index_less that by (auto simp: vpath_def)
  show ?thesis
    using ab [OF v(1)] ab [OF v(2)] ab [OF v(3)]
    by (auto simp: getPageEntry_def Let_def path_of_def split: option.splits)
qed

lemma getPhysicalAddress_leaf:
  assumes "page_tree (pmem s) (frame (cr3 s))"
  shows "getPhysicalAddress s v =
    (let e = leaf (pmem s) (frame (cr3 s)) (path_of v) (pt_index PT_BITS_OFFSET v)
     in if absent e then 0 else frame e OR (v AND 0xFFF))"
  by (simp add: getPhysicalAddress_def getPageEntry_tab [OF assms] leaf_def Let_def split: option.splits)

subsection \<open>Mapping and unmapping\<close>

text \<open>The page of an address, as far as the tables see it: bits 12 to 47.\<close>

definition same_page :: "u64 \<Rightarrow> u64 \<Rightarrow> bool" where
  "same_page v w \<longleftrightarrow> path_of v = path_of w \<and> pt_index PT_BITS_OFFSET v = pt_index PT_BITS_OFFSET w"

text \<open>Writing a leaf changes one translation.\<close>

lemma leaf_write_translates:
  assumes tr: "page_tree (pmem s) (frame (cr3 s))" and t: "tab (pmem s) (frame (cr3 s)) (path_of v) = Some T"
    and s': "s' = s\<lparr>pmem := (pmem s)(pte_addr T (pt_index PT_BITS_OFFSET v) := x)\<rparr>"
  shows "page_tree (pmem s') (frame (cr3 s'))"
    and "tab (pmem s') (frame (cr3 s')) (path_of w) = tab (pmem s) (frame (cr3 s)) (path_of w)"
    and "getPhysicalAddress s' w =
      (if same_page v w then if absent x then 0 else frame x OR (w AND 0xFFF) else getPhysicalAddress s w)"
proof -
  show tr': "page_tree (pmem s') (frame (cr3 s'))"
    unfolding s' using tree_leaf_write [OF tr vpath_path_of t index_less] by simp
  show "tab (pmem s') (frame (cr3 s')) (path_of w) = tab (pmem s) (frame (cr3 s)) (path_of w)"
    unfolding s' using tab_leaf_write [OF tr vpath_path_of t index_less] by simp
  have "leaf (pmem s') (frame (cr3 s')) (path_of w) (pt_index PT_BITS_OFFSET w) =
    (if same_page v w then x else leaf (pmem s) (frame (cr3 s)) (path_of w) (pt_index PT_BITS_OFFSET w))"
    unfolding s' using leaf_write [OF tr vpath_path_of t index_less, of "path_of w" "pt_index PT_BITS_OFFSET w"] index_less
    by (auto simp: same_page_def)
  then show "getPhysicalAddress s' w =
      (if same_page v w then if absent x then 0 else frame x OR (w AND 0xFFF) else getPhysicalAddress s w)"
    by (simp add: getPhysicalAddress_leaf [OF tr] getPhysicalAddress_leaf [OF tr'])
qed

lemma unmap_page_step:
  assumes ok: "pages_ok s"
  shows "pages_ok (unmap_page v s) \<and> pg_heap (unmap_page v s) = pg_heap s \<and>
    (\<forall>w. getPhysicalAddress (unmap_page v s) w = (if same_page v w then 0 else getPhysicalAddress s w))"
proof (cases "tab (pmem s) (frame (cr3 s)) (path_of v)")
  case None
  have tr: "page_tree (pmem s) (frame (cr3 s))" using ok by (simp add: pages_ok_def)
  then have "unmap_page v s = s" using None by (simp add: unmap_page_def getPageEntry_tab)
  moreover have "getPhysicalAddress s w = 0" if "same_page v w" for w
    using that None by (simp add: getPhysicalAddress_leaf [OF tr] same_page_def leaf_def)
  ultimately show ?thesis using ok by simp
next
  case (Some t)
  have tr: "page_tree (pmem s) (frame (cr3 s))" using ok by (simp add: pages_ok_def)
  let ?s = "s\<lparr>pmem := (pmem s)(pte_addr t (pt_index PT_BITS_OFFSET v) := 0)\<rparr>"
  have "unmap_page v s = ?s" using Some by (simp add: unmap_page_def getPageEntry_tab [OF tr])
  then show ?thesis using leaf_write_translates [OF tr Some, of ?s 0] by (simp add: pages_ok_def)
qed

text \<open>Pages by number.\<close>

definition pageno :: "u64 \<Rightarrow> nat" where
  "pageno v = unat v div 4096 mod 2 ^ 36"

lemma pt_index_bits: "pt_index k v = take_bit 9 (drop_bit k v)"
  using take_bit_eq_mask [of 9 "drop_bit k v"] by (simp add: pt_index_def mask_eq_exp_minus_1)

lemma pageno_bits: "pageno v = unat (take_bit 36 (drop_bit 12 v))"
  by (simp add: pageno_def take_bit_eq_mod drop_bit_eq_div unat_mod unat_div)

lemma same_page_iff: "same_page v w \<longleftrightarrow> pageno v = pageno w"
proof -
  have "same_page v w \<longleftrightarrow> take_bit 36 (drop_bit 12 v) = take_bit 36 (drop_bit 12 w)"
  proof
    assume s: "same_page v w"
    then have e: "take_bit 9 (drop_bit k v) = take_bit 9 (drop_bit k w)" if "k \<in> {12, 21, 30, 39}" for k
      using that by (auto simp: same_page_def path_of_def pt_index_bits PT_BITS_OFFSET_def PD_BITS_OFFSET_def
          PDPT_BITS_OFFSET_def PM4LT_BITS_OFFSET_def)
    have b: "bit v (k + n) = bit w (k + n)" if "k \<in> {12, 21, 30, 39}" "n < 9" for k n
      using e [OF that(1)] that(2) by (auto simp: bit_eq_iff bit_simps dest: spec [of _ n])
    show "take_bit 36 (drop_bit 12 v) = take_bit 36 (drop_bit 12 w)"
    proof (rule bit_word_eqI)
      fix n
      show "bit (take_bit 36 (drop_bit 12 v)) n = bit (take_bit 36 (drop_bit 12 w)) n"
        using b [of 12 n] b [of 21 "n - 9"] b [of 30 "n - 18"] b [of 39 "n - 27"]
        by (cases "n < 9"; cases "n < 18"; cases "n < 27") (auto simp: bit_simps)
    qed
  next
    assume e: "take_bit 36 (drop_bit 12 v) = take_bit 36 (drop_bit 12 w)"
    have b: "bit v (12 + n) = bit w (12 + n)" if "n < 36" for n
      using e that by (auto simp: bit_eq_iff bit_simps dest: spec [of _ n])
    have "take_bit 9 (drop_bit k v) = take_bit 9 (drop_bit k w)" if "12 \<le> k" "k \<le> 39" for k
    proof (rule bit_word_eqI)
      fix n
      show "bit (take_bit 9 (drop_bit k v)) n = bit (take_bit 9 (drop_bit k w)) n"
        using b [of "k - 12 + n"] that by (auto simp: bit_simps)
    qed
    then show "same_page v w"
      by (simp add: same_page_def path_of_def pt_index_bits PT_BITS_OFFSET_def PD_BITS_OFFSET_def
          PDPT_BITS_OFFSET_def PM4LT_BITS_OFFSET_def)
  qed
  then show ?thesis by (simp add: pageno_bits word_unat_eq_iff)
qed

lemma pageno_add: "pageno (v + 0x1000 * of_nat k) = (pageno v + k) mod 2 ^ 36"
proof -
  have "unat (v + 0x1000 * of_nat k) = (unat v + 4096 * k) mod (4096 * 2 ^ 52)"
    by (simp add: unat_word_ariths unat_of_nat take_bit_eq_mod mod_simps)
  also have "\<dots> div 4096 = (unat v div 4096 + k) mod 2 ^ 52"
    by (subst mod_mult2_eq) (simp add: add.commute)
  finally have d: "unat (v + 0x1000 * of_nat k) div 4096 = (unat v div 4096 + k) mod 2 ^ 52" .
  have "(2 :: nat) ^ 36 dvd 2 ^ 52" by (rule le_imp_power_dvd) simp
  then have "(unat v div 4096 + k) mod 2 ^ 52 mod 2 ^ 36 = (unat v div 4096 + k) mod 2 ^ 36" by (rule mod_mod_cancel)
  with d show ?thesis by (simp only: pageno_def mod_add_left_eq)
qed

lemma mod_step_zero:
  fixes x k M :: nat
  assumes "x < M" and "k < M" and "(x + k) mod M = x"
  shows "k = 0"
proof (cases "x + k < M")
  case False
  then have "(x + k) mod M = (x + k - M) mod M" by (simp add: le_mod_geq)
  also have "\<dots> = x + k - M" using assms(1,2) by simp
  finally show ?thesis using assms by simp
qed (use assms(3) in simp)

lemma same_page_next: "k < 2 ^ 36 \<Longrightarrow> same_page v (v + 0x1000 * of_nat k) \<Longrightarrow> k = 0"
  using mod_step_zero [of "pageno v" "2 ^ 36" k] by (simp add: same_page_iff pageno_add pageno_def [of v])

text \<open>A run of pages, each mapped where it should be, everything else as it was.\<close>

definition has_tables :: "paging \<Rightarrow> u64 \<Rightarrow> nat \<Rightarrow> bool" where
  "has_tables s v n \<longleftrightarrow> (\<forall>k < n. tab (pmem s) (frame (cr3 s)) (path_of (v + 0x1000 * of_nat k)) \<noteq> None)"

lemma map_pages_step:
  assumes "pages_ok s" and "has_tables s v n" and "n \<le> 2 ^ 36"
  shows "\<exists>s'. map_pages_loop v p n s = Inr s' \<and> pages_ok s' \<and> pg_heap s' = pg_heap s \<and>
    (\<forall>k w. k < n \<and> same_page (v + 0x1000 * of_nat k) w \<longrightarrow>
       getPhysicalAddress s' w = frame (p + 0x1000 * of_nat k) OR (w AND 0xFFF)) \<and>
    (\<forall>w. (\<forall>k < n. \<not> same_page (v + 0x1000 * of_nat k) w) \<longrightarrow> getPhysicalAddress s' w = getPhysicalAddress s w)"
  using assms
proof (induction n arbitrary: v p s)
  case 0
  then show ?case by simp
next
  case (Suc n)
  have sh: "x + 0x1000 + 0x1000 * of_nat k = x + 0x1000 * of_nat (Suc k)" for x :: u64 and k
    by (simp add: algebra_simps)
  obtain T where T: "tab (pmem s) (frame (cr3 s)) (path_of v) = Some T"
    using Suc.prems(2) [unfolded has_tables_def, rule_format, of 0] by auto
  define s1 where "s1 = s\<lparr>pmem := (pmem s)(pte_addr T (pt_index PT_BITS_OFFSET v) := frame p OR PRESENT OR WRITABLE)\<rparr>"
  note w = leaf_write_translates [OF Suc.prems(1) [unfolded pages_ok_def] T s1_def]
  have m1: "map_page v p s = Inr s1" unfolding s1_def by (rule map_page_there [OF T])
  have s1: "pages_ok s1" "pg_heap s1 = pg_heap s" using w(1) by (simp_all add: pages_ok_def s1_def)
  have g1: "getPhysicalAddress s1 x = (if same_page v x then frame p OR (x AND 0xFFF) else getPhysicalAddress s x)" for x
    using w(3) [of x] by (simp add: absent_bit frame_flags)
  have "has_tables s1 (v + 0x1000) n"
    using Suc.prems(2) unfolding has_tables_def w(2) sh by (metis Suc_less_eq)
  from Suc.IH [OF s1(1) this, of "p + 0x1000"] Suc.prems(3) obtain s' where
    s': "map_pages_loop (v + 0x1000) (p + 0x1000) n s1 = Inr s'" "pages_ok s'" "pg_heap s' = pg_heap s"
      "\<And>k w. k < n \<Longrightarrow> same_page (v + 0x1000 + 0x1000 * of_nat k) w \<Longrightarrow>
         getPhysicalAddress s' w = frame (p + 0x1000 + 0x1000 * of_nat k) OR (w AND 0xFFF)"
      "\<And>w. (\<forall>k < n. \<not> same_page (v + 0x1000 + 0x1000 * of_nat k) w) \<Longrightarrow> getPhysicalAddress s' w = getPhysicalAddress s1 w"
    using s1(2) by auto
  have r: "map_pages_loop v p (Suc n) s = Inr s'" using m1 s'(1) by simp
  have hit: "getPhysicalAddress s' w = frame (p + 0x1000 * of_nat k) OR (w AND 0xFFF)"
    if k: "k < Suc n" "same_page (v + 0x1000 * of_nat k) w" for k w
  proof (cases k)
    case (Suc j)
    then show ?thesis using s'(4) [of j w] k by (simp only: sh)
  next
    case 0
    then have vw: "pageno v = pageno w" using k(2) by (simp add: same_page_iff)
    have "\<not> same_page (v + 0x1000 * of_nat (Suc j)) w" if "j < n" for j
      using same_page_next [of "Suc j" v] that Suc.prems(3) vw by (auto simp: same_page_iff simp del: of_nat_Suc)
    then have "\<forall>j < n. \<not> same_page (v + 0x1000 + 0x1000 * of_nat j) w" by (simp only: sh) blast
    then have "getPhysicalAddress s' w = getPhysicalAddress s1 w" by (rule s'(5))
    then show ?thesis using 0 vw g1 by (simp add: same_page_iff)
  qed
  have miss: "getPhysicalAddress s' w = getPhysicalAddress s w"
    if w: "\<forall>k < Suc n. \<not> same_page (v + 0x1000 * of_nat k) w" for w
  proof -
    have "\<not> same_page v w" using w [rule_format, of 0] by simp
    moreover have "\<forall>k < n. \<not> same_page (v + 0x1000 * of_nat (Suc k)) w" using w by (simp del: of_nat_Suc)
    then have "getPhysicalAddress s' w = getPhysicalAddress s1 w" by (intro s'(5)) (simp only: sh)
    ultimately show ?thesis using g1 by simp
  qed
  show ?case using r s'(2,3) hit miss by blast
qed

text \<open>C4: What is mapped is translated. On a tree of page tables that has a table for every page of the run,
  mapping fewer than 2147483648 pages succeeds, takes nothing from the heap, keeps the tree, sends every
  address of the run to its place in the physical run, and changes the translation of no other address;
  unmapping a page afterwards undoes that page and no other. (Pages without a table are the subject of
  \<open>heap_tables_are_lost\<close>.)\<close>

theorem mapped_pages_translate:
  assumes ok: "pages_ok s" and tables: "has_tables s v (unat n)" and n: "unat n < 2 ^ 31"
  shows "\<exists>s'. map_pages v p n s = Inr s' \<and> pages_ok s' \<and> pg_heap s' = pg_heap s \<and>
    (\<forall>k w. k < unat n \<and> pageno w = (pageno v + k) mod 2 ^ 36 \<longrightarrow>
       getPhysicalAddress s' w = frame (p + 0x1000 * of_nat k) OR (w AND 0xFFF)) \<and>
    (\<forall>w. (\<forall>k < unat n. pageno w \<noteq> (pageno v + k) mod 2 ^ 36) \<longrightarrow> getPhysicalAddress s' w = getPhysicalAddress s w) \<and>
    (\<forall>x. pages_ok (unmap_page x s') \<and>
       (\<forall>w. getPhysicalAddress (unmap_page x s') w = (if pageno w = pageno x then 0 else getPhysicalAddress s' w)))"
proof -
  have "unat n \<le> 2 ^ 36" using n by simp
  from map_pages_step [OF ok tables this, of p] obtain s' where
    s': "map_pages_loop v p (unat n) s = Inr s'" "pages_ok s'" "pg_heap s' = pg_heap s"
      "\<forall>k w. k < unat n \<and> same_page (v + 0x1000 * of_nat k) w \<longrightarrow>
         getPhysicalAddress s' w = frame (p + 0x1000 * of_nat k) OR (w AND 0xFFF)"
      "\<forall>w. (\<forall>k < unat n. \<not> same_page (v + 0x1000 * of_nat k) w) \<longrightarrow> getPhysicalAddress s' w = getPhysicalAddress s w"
    by blast
  have e: "same_page (v + 0x1000 * of_nat k) w \<longleftrightarrow> pageno w = (pageno v + k) mod 2 ^ 36" for k w
    by (auto simp: same_page_iff pageno_add)
  have u: "same_page x w \<longleftrightarrow> pageno w = pageno x" for x w
    by (auto simp: same_page_iff)
  have un: "\<forall>x. pages_ok (unmap_page x s') \<and>
    (\<forall>w. getPhysicalAddress (unmap_page x s') w = (if pageno w = pageno x then 0 else getPhysicalAddress s' w))"
    using unmap_page_step [OF s'(2)] by (simp add: u)
  have "map_pages v p n s = Inr s'" using s'(1) n by (simp add: map_pages_def)
  then show ?thesis using s'(2,3) s'(4,5) [unfolded e] un by blast
qed

text \<open>A heap as the boot loader leaves it, and page tables for the first two megabytes.\<close>

definition fresh_heap :: heap where
  "fresh_heap = \<lparr>heapOffset = 0xFFFF800000013E80, heapBlkcount = 130, memoryBitmap = H_BORDER # replicate 129 H_FREE,
     heap_lock = SPIN_UNLOCKED, hmem = \<lambda>_. 0\<rparr>"

definition flat_pages :: paging where
  "flat_pages = \<lparr>cr3 = 0x1000, pmem = (\<lambda>_. 0)(0x1000 := 0x2003, 0x2000 := 0x3003, 0x3000 := 0x4003),
     pg_heap = fresh_heap, pg_frames = 2, pg_stamp = []\<rparr>"

lemma flat_entry:
  assumes "T \<in> {0x1000, 0x2000, 0x3000, 0x4000}" and "unat i < 512"
  shows "pmem flat_pages (pte_addr T i) = (if i = 0 \<and> T \<noteq> 0x4000 then T + 0x1003 else 0)"
proof -
  have al: "aligned 0x1000" "aligned 0x2000" "aligned 0x3000" "aligned T"
    using assms(1) by (auto simp: aligned_def take_bit_eq_mod)
  have e: "pte_addr T i = t \<longleftrightarrow> T = t \<and> i = 0" if "aligned t" for t
    using pte_addr_inj [OF al(4) that assms(2), of 0] by (auto simp: pte_addr_def)
  have m: "pmem flat_pages a = (if a = 0x3000 then 0x4003 else if a = 0x2000 then 0x3003 else if a = 0x1000 then 0x2003 else 0)" for a
    by (simp add: flat_pages_def)
  show ?thesis unfolding m e [OF al(1)] e [OF al(2)] e [OF al(3)] using assms(1)
    by (cases "i = 0") auto
qed

definition flat_tables :: "u64 list" where
  "flat_tables = [0x1000, 0x2000, 0x3000, 0x4000]"

lemma flat_tables [simp]: "length flat_tables = 4" "distinct flat_tables" "set flat_tables = {0x1000, 0x2000, 0x3000, 0x4000}"
  by (simp_all add: flat_tables_def)

lemma flat_next: "n < 3 \<Longrightarrow> flat_tables ! n \<noteq> 0x4000 \<and> frame (flat_tables ! n + 0x1003) = flat_tables ! Suc n \<and>
    flat_tables ! n + 0x1003 \<noteq> 0"
proof -
  assume "n < 3"
  then have "n = 0 \<or> n = 1 \<or> n = 2" by linarith
  then show ?thesis by (elim disjE) (simp_all add: flat_tables_def frame_def)
qed

lemma flat_nth: "n < 4 \<Longrightarrow> flat_tables ! n \<in> {0x1000, 0x2000, 0x3000, 0x4000}"
  using nth_mem [of n flat_tables] by simp

lemma flat_tab:
  "vpath q \<Longrightarrow> tab (pmem flat_pages) 0x1000 q = (if set q \<subseteq> {0} then Some (flat_tables ! length q) else None)"
proof (induction q)
  case Nil
  then show ?case by (simp add: flat_tables_def)
next
  case (Cons i q)
  then have v: "unat i < 512" "length q < 3" "vpath q" by (simp_all add: vpath_Cons)
  have "flat_tables ! length q \<in> {0x1000, 0x2000, 0x3000, 0x4000}" using v(2) by (intro flat_nth) simp
  from flat_entry [OF this v(1)] flat_next [OF v(2)] Cons.IH [OF v(3)] show ?case
    by (cases "i = 0") simp_all
qed

lemma flat_pages_ok: "pages_ok flat_pages" "frame (cr3 flat_pages) = 0x1000"
proof -
  show f: "frame (cr3 flat_pages) = 0x1000" by (simp add: flat_pages_def frame_def)
  have "p = q" if h: "vpath p" "vpath q" "tab (pmem flat_pages) 0x1000 p = Some t" "tab (pmem flat_pages) 0x1000 q = Some t" for p q t
  proof -
    from h have z: "set p \<subseteq> {0}" "set q \<subseteq> {0}"
      and e: "flat_tables ! length p = flat_tables ! length q"
      by (simp_all add: flat_tab split: if_splits)
    have "length p = length q" using e h(1,2) by (simp add: vpath_def nth_eq_iff_index_eq)
    then show ?thesis using z by (induction p q rule: list_induct2) auto
  qed
  moreover have "pmem flat_pages (pte_addr t i) = 0 \<or> bit (pmem flat_pages (pte_addr t i)) 0"
    if h: "vpath (i # p)" "tab (pmem flat_pages) 0x1000 p = Some t" for p t i
  proof -
    have v: "vpath p" "unat i < 512" "length p < 3" using h(1) by (simp_all add: vpath_Cons)
    then have "t \<in> {0x1000, 0x2000, 0x3000, 0x4000}"
      using h(2) flat_tab [OF v(1)] flat_nth [of "length p"] by (simp split: if_splits)
    with flat_entry [OF this v(2)] show ?thesis by (auto simp: bit_0)
  qed
  moreover have "aligned 0x1000" by (simp add: aligned_def take_bit_eq_mod)
  ultimately show "pages_ok flat_pages" unfolding pages_ok_def f page_tree_def by blast
qed

theorem mapped_pages_translate_witness:
  "\<exists>s. map_pages 0x145000 0xABC000 2 flat_pages = Inr s \<and> getPhysicalAddress s 0x146678 = 0xABD678 \<and> pg_heap s = fresh_heap"
proof -
  have p: "path_of (0x145000 + 0x1000 * of_nat k) = [0, 0, 0]" if "k < 2" for k
    using that by (auto simp: path_of_def pt_index_def PD_BITS_OFFSET_def PDPT_BITS_OFFSET_def PM4LT_BITS_OFFSET_def less_2_cases_iff)
  have v: "vpath [0, 0, 0]" by (simp add: vpath_def)
  have t: "has_tables flat_pages 0x145000 (unat (2 :: u64))"
    using p flat_tab [OF v] by (auto simp: has_tables_def flat_pages_ok(2) simp del: tab.simps)
  have n: "unat (2 :: u64) < 2 ^ 31" by simp
  have k: "1 < unat (2 :: u64) \<and> pageno 0x146678 = (pageno 0x145000 + 1) mod 2 ^ 36" by (simp add: pageno_def)
  have h: "pg_heap flat_pages = fresh_heap" by (simp add: flat_pages_def)
  have f: "frame (0xABC000 + 0x1000 * of_nat 1) OR (0x146678 AND 0xFFF) = 0xABD678" by (simp add: frame_def)
  from mapped_pages_translate [OF flat_pages_ok(1) t n, of "0xABC000"] obtain s where
    "map_pages 0x145000 0xABC000 2 flat_pages = Inr s" "pg_heap s = pg_heap flat_pages"
    "\<forall>k w. k < unat (2 :: u64) \<and> pageno w = (pageno 0x145000 + k) mod 2 ^ 36 \<longrightarrow>
       getPhysicalAddress s w = frame (0xABC000 + 0x1000 * of_nat k) OR (w AND 0xFFF)" by blast
  with k f h show ?thesis by metis
qed

subsection \<open>Tables from the kernel heap\<close>

text \<open>The data of the heap begin 128 bytes behind a multiple of 256, and blocks are 256 bytes.\<close>

lemma kmalloc_unaligned:
  assumes wf: "heap_wf h" and sz: "sz \<noteq> 0" and k: "kmalloc d stamp sz h = Inr (t, h')" and t: "t \<noteq> 0"
    and off: "heapOffset h = heapOffset (heapInit hhdm boot_blkcount m)" and hh: "unat hhdm mod 256 = 0"
  shows "\<not> aligned t"
proof
  assume al: "aligned t"
  obtain b where b: "t = blk_addr h b" using k wf sz t by (cases rule: kmalloc_cases) auto
  have "unat t = (unat hhdm + 65536 + 16000 + 256 * b) mod (2 ^ 64)"
    by (simp add: b blk_addr_def off heapInit_def Let_def boot_blkcount_def heapBlksize_def unat_word_ariths
        unat_of_nat take_bit_eq_mod mod_simps mult.commute)
  then have "unat t mod 256 = (unat hhdm + 65536 + 16000 + 256 * b) mod (2 ^ 64) mod 256" by simp
  also have "\<dots> = (unat hhdm + 65536 + 16000 + 256 * b) mod 256"
    by (rule mod_mod_cancel) simp
  also have "unat hhdm + 65536 + 16000 + 256 * b = unat hhdm + 128 + (b + 318) * 256" by simp
  also have "\<dots> mod 256 = (unat hhdm + 128) mod 256" by (rule mod_mult_self1)
  also have "\<dots> = (unat hhdm mod 256 + 128) mod 256" by (simp only: mod_add_left_eq)
  finally have "unat t mod 256 = 128" using hh by simp
  moreover have "unat t mod 4096 = 0" using al by (simp add: aligned_def word_unat_eq_iff unat_mod take_bit_eq_mod)
  then obtain q where "unat t = 4096 * q" by auto
  then have "unat t mod 256 = 0" using mod_mult_self1_is_0 [of 256 "16 * q"] by simp
  ultimately show False by simp
qed

text \<open>Two tables that do not overlap share no entry.\<close>

definition clear_of :: "u64 \<Rightarrow> u64 \<Rightarrow> bool" where
  "clear_of u w \<longleftrightarrow> unat u + 4096 \<le> 2 ^ 64 \<and> unat w + 4096 \<le> 2 ^ 64 \<and>
     (unat u + 4096 \<le> unat w \<or> unat w + 4096 \<le> unat u)"

lemma clear_ptes: "clear_of u w \<Longrightarrow> unat i < 512 \<Longrightarrow> unat j < 512 \<Longrightarrow> pte_addr u i \<noteq> pte_addr w j"
proof
  assume c: "clear_of u w" "unat i < 512" "unat j < 512" and e: "pte_addr u i = pte_addr w j"
  have sl: "unat (pte_addr x k) = unat x + 8 * unat k" if "unat x + 4096 \<le> 2 ^ 64" "unat k < 512" for x k
    using that unfolding pte_addr_def by (subst unat_add_no; subst unat_mul_no) simp_all
  have "unat u + 8 * unat i = unat w + 8 * unat j"
    using arg_cong [OF e, of unat] c by (simp add: clear_of_def sl)
  with c show False by (auto simp: clear_of_def)
qed

text \<open>C40: Page tables made by the kernel are lost. When the page directory of an address exists and has no table
  for it, \<^verbatim>\<open>map_page\<close> takes one from the kernel heap. The heap hands out no page-aligned block, so the
  entry is filled in in the block while the walk looks in the page the block begins in: whatever
  physical page is asked for, the address translates to what that page happens to hold at the place.\<close>

theorem heap_tables_are_lost:
  assumes ok: "pages_ok s" and wf: "heap_wf (pg_heap s)"
    and off: "heapOffset (pg_heap s) = heapOffset (heapInit hhdm boot_blkcount m)" and hh: "unat hhdm mod 4096 = 0"
    and dir: "tab (pmem s) (frame (cr3 s)) [pt_index PDPT_BITS_OFFSET v, pt_index PM4LT_BITS_OFFSET v] = Some d"
    and empty: "pmem s (pte_addr d (pt_index PD_BITS_OFFSET v)) = 0"
    and room: "find_run 128 0 0 (memoryBitmap (pg_heap s)) = Some b" and fr: "0 < pg_frames s"
    and t_def: "t = blk_addr (pg_heap s) (Suc b - 128)"
    and apart: "\<forall>q T. vpath q \<and> tab (pmem s) (frame (cr3 s)) q = Some T \<longrightarrow> clear_of t T \<and> frame t \<noteq> T"
  shows "\<not> aligned t \<and> (\<exists>s'. map_page v p s = Inr s' \<and>
    getPhysicalAddress s' v =
      (let e = pmem s (pte_addr (frame t) (pt_index PT_BITS_OFFSET v)) in if absent e then 0 else frame e OR (v AND 0xFFF)))"
proof -
  let ?r = "frame (cr3 s)"
  let ?i4 = "pt_index PM4LT_BITS_OFFSET v" and ?i3 = "pt_index PDPT_BITS_OFFSET v"
    and ?i2 = "pt_index PD_BITS_OFFSET v" and ?i1 = "pt_index PT_BITS_OFFSET v"
  have tr: "page_tree (pmem s) ?r" using ok by (simp add: pages_ok_def)
  have ix: "unat ?i4 < 512" "unat ?i3 < 512" "unat ?i2 < 512" "unat ?i1 < 512" by (rule index_less)+
  have vp: "vpath []" "vpath [?i4]" "vpath [?i3, ?i4]" using ix by (auto simp: vpath_def)
  obtain d1 where d1: "tab (pmem s) ?r [?i4] = Some d1" using dir by (cases "tab (pmem s) ?r [?i4]") simp_all
  have nz: "pmem s (pte_addr ?r ?i4) \<noteq> 0" "pmem s (pte_addr d1 ?i3) \<noteq> 0"
    and fd: "frame (pmem s (pte_addr ?r ?i4)) = d1" "frame (pmem s (pte_addr d1 ?i3)) = d"
    using d1 dir by (auto split: if_splits)
  have pr: "bit (pmem s (pte_addr ?r ?i4)) 0" "bit (pmem s (pte_addr d1 ?i3)) 0"
    using page_treeD(3) [OF tr vp(2) _ nz(1)] page_treeD(3) [OF tr vp(3) d1 nz(2)] by simp_all
  obtain n where n: "pg_frames s = Suc n" using fr by (cases "pg_frames s") auto
  have hb: "unat (heap_blocks 32768) = 128" by (subst unat_heap_blocks) simp_all
  define h' where "h' = (pg_heap s)\<lparr>memoryBitmap := heap_claim 128 b (memoryBitmap (pg_heap s))\<rparr>"
  have km: "kmalloc (pg_frames s) (pg_stamp s) 32768 (pg_heap s) = Inr (t, h')"
    using kmalloc_found [OF wf, of 32768 b n "pg_stamp s"] room unfolding n t_def h'_def hb by simp
  have "Suc b - 128 \<le> heapBlkcount (pg_heap s)"
    using find_run_first(2) [OF room] heap_wfD(1) [OF wf] by simp
  then have t0: "t \<noteq> 0" unfolding t_def by (rule blk_addr_nonzero [OF wf])
  have "unat hhdm mod 4096 mod 256 = unat hhdm mod 256" by (rule mod_mod_cancel) simp
  then have "unat hhdm mod 256 = 0" using hh by simp
  with kmalloc_unaligned [OF wf _ km t0 off] have na: "\<not> aligned t" by simp
  then have ft: "frame t \<noteq> t" using aligned_frame [of t] by metis
  have ap: "clear_of t ?r" "clear_of t d1" "clear_of t d" "frame t \<noteq> d"
    using apart vp d1 dir by (metis tab.simps(1))+
  let ?a = "pte_addr d ?i2" and ?b = "pte_addr t ?i1"
  let ?s = "s\<lparr>pmem := (pmem s)(?a := t OR PRESENT OR WRITABLE, ?b := frame p OR PRESENT OR WRITABLE), pg_heap := h'\<rparr>"
  have run: "map_page v p s = Inr ?s"
    using km t0 nz fd empty by (simp add: map_page_def next_table_def)
  have al: "aligned d" using aligned_tab [OF page_treeD(1) [OF tr] dir] .
  have b: "?b \<noteq> pte_addr ?r ?i4" "?b \<noteq> pte_addr d1 ?i3" "?b \<noteq> ?a" "?b \<noteq> pte_addr (frame t) ?i1"
    using clear_ptes [OF ap(1) ix(4,1)] clear_ptes [OF ap(2) ix(4,2)] clear_ptes [OF ap(3) ix(4,3)] ft
    by (simp_all add: pte_addr_def)
  have "d \<noteq> ?r" "d \<noteq> d1"
    using page_treeD(2) [OF tr vp(3,1) dir] page_treeD(2) [OF tr vp(3,2) dir] d1 by auto
  then have a: "?a \<noteq> pte_addr ?r ?i4" "?a \<noteq> pte_addr d1 ?i3" "?a \<noteq> pte_addr (frame t) ?i1"
    using pte_addr_inj [OF al] aligned_tab [OF page_treeD(1) [OF tr] d1] ix ap(4) by (metis aligned_frame)+
  have "frame (t OR PRESENT OR WRITABLE) = frame t"
    unfolding frame_push PRESENT_def WRITABLE_def
    by (rule bit_word_eqI) (auto simp: bit_simps simp del: push_bit_of_1)
  then have "getPhysicalAddress ?s v =
      (let e = pmem s (pte_addr (frame t) ?i1) in if absent e then 0 else frame e OR (v AND 0xFFF))"
    using a b pr fd by (simp add: getPhysicalAddress_def getPageEntry_def absent_bit Let_def)
  with na run show ?thesis by blast
qed

text \<open>The address 0x345000 is behind the two megabytes that have a table.\<close>

lemma fresh_heap_wf: "heap_wf fresh_heap"
proof -
  have "(H_BORDER # replicate 129 H_FREE) ! i = (if i = 0 then H_BORDER else H_FREE)" if "i < 130" for i
    using that by (cases i) auto
  then show ?thesis by (auto simp: heap_wf_def bitmap_wf_def fresh_heap_def)
qed

lemma find_run_replicate:
  "found < n \<Longrightarrow> n \<le> found + k \<Longrightarrow> find_run n i found (replicate k H_FREE) = Some (i + (n - found) - 1)"
  by (induction k arbitrary: i found) auto

theorem heap_tables_are_lost_witness:
  "\<exists>s'. map_page 0x345000 0xABC000 flat_pages = Inr s' \<and> getPhysicalAddress s' 0x345000 = 0"
proof -
  let ?t = "blk_addr fresh_heap 1" and ?d = "0x3000 :: u64"
  have h: "pg_heap flat_pages = fresh_heap" "pg_frames flat_pages = 2" by (simp_all add: flat_pages_def)
  have ix: "pt_index PDPT_BITS_OFFSET 0x345000 = 0" "pt_index PM4LT_BITS_OFFSET 0x345000 = 0"
    "pt_index PD_BITS_OFFSET 0x345000 = 1" "pt_index PT_BITS_OFFSET 0x345000 = 0x145"
    by (simp_all add: pt_index_def PDPT_BITS_OFFSET_def PM4LT_BITS_OFFSET_def PD_BITS_OFFSET_def PT_BITS_OFFSET_def)
  have off: "heapOffset (pg_heap flat_pages) = heapOffset (heapInit 0xFFFF800000000000 boot_blkcount (\<lambda>_. 0))"
    by (simp add: h fresh_heap_def heapInit_def Let_def boot_blkcount_def)
  have hh: "unat (0xFFFF800000000000 :: u64) mod 4096 = 0" by simp
  have v: "vpath [0, 0]" by (simp add: vpath_def)
  have dir: "tab (pmem flat_pages) (frame (cr3 flat_pages))
      [pt_index PDPT_BITS_OFFSET 0x345000, pt_index PM4LT_BITS_OFFSET 0x345000] = Some ?d"
    unfolding ix flat_pages_ok(2) using flat_tab [OF v] by (simp add: flat_tables_def)
  have e: "pmem flat_pages (pte_addr ?d (pt_index PD_BITS_OFFSET 0x345000)) = 0"
    unfolding ix using flat_entry [of ?d 1] by simp
  have room: "find_run 128 0 0 (memoryBitmap (pg_heap flat_pages)) = Some 128"
    using find_run_replicate [of 0 128 129 1] by (simp add: h fresh_heap_def)
  have t: "blk_addr (pg_heap flat_pages) (Suc 128 - 128) = 0xFFFF800000013F80"
    by (simp add: h blk_addr_def fresh_heap_def heapBlksize_def)
  have apart: "\<forall>q T. vpath q \<and> tab (pmem flat_pages) (frame (cr3 flat_pages)) q = Some T \<longrightarrow>
      clear_of 0xFFFF800000013F80 T \<and> frame 0xFFFF800000013F80 \<noteq> T"
  proof (intro allI impI)
    fix q T
    assume a: "vpath q \<and> tab (pmem flat_pages) (frame (cr3 flat_pages)) q = Some T"
    then have "vpath q" "length q < 4" by (simp_all add: vpath_def)
    with a have "T \<in> {0x1000, 0x2000, 0x3000, 0x4000}"
      using flat_tab [of q] flat_nth [of "length q"] by (simp add: flat_pages_ok(2) split: if_splits)
    then show "clear_of 0xFFFF800000013F80 T \<and> frame 0xFFFF800000013F80 \<noteq> T"
      by (auto simp: clear_of_def frame_def)
  qed
  have z: "pmem flat_pages (pte_addr (frame 0xFFFF800000013F80) (pt_index PT_BITS_OFFSET 0x345000)) = 0"
    unfolding ix by (simp add: flat_pages_def pte_addr_def frame_def)
  show ?thesis
    using heap_tables_are_lost [OF flat_pages_ok(1) _ off hh dir e room _ t [symmetric] apart, of "0xABC000"] fresh_heap_wf z
    by (simp add: h)
qed

end
