(* ===== verification/Procs.thy ===== *)
theory Procs
  imports DString Spinlock
begin

text \<open>
  Processes, streams and timers: \<^verbatim>\<open>src/kernel/proc/task.cpp\<close>, \<^verbatim>\<open>src/stdlib/timer.cpp\<close> and
  their headers. A process is named by its place in the task list. Calling the entry point
  of a process and calling a timer handler leave the code modelled here: \<open>yeild\<close> returns the
  process it enters, \<open>call_timers\<close> the handlers it calls, in order.
\<close>

subsection \<open>Processes\<close>

record process_t =
  pid :: nat
  main_addr :: u64
  started :: bool
  exited :: bool
  exit_code :: int

type_synonym task_list = "process_t option list"

definition boot_tasks :: task_list where
  "boot_tasks = replicate 100 None"

text \<open>\<^verbatim>\<open>while (task_list[pid++] != NULL);\<close> has no bound; \<open>raw\<close> is the object as \<^verbatim>\<open>new\<close> leaves it.\<close>

fun free_pid :: "task_list \<Rightarrow> nat \<Rightarrow> nat res" where
  "free_pid [] i = Inl Out_of_bounds"
| "free_pid (t # ts) i = (if t = None then Inr i else free_pid ts (Suc i))"

definition create_task :: "process_t \<Rightarrow> task_list \<Rightarrow> (nat \<times> task_list) res" where
  "create_task raw tasks =
     rbind (free_pid tasks 0) (\<lambda>i. Inr (i, tasks[i := Some (raw\<lparr>pid := i, exited := False, started := False\<rparr>)]))"

text \<open>The search from the end of the list; \<open>None\<close> stands for the index -1.\<close>

fun next_pid :: "nat \<Rightarrow> nat \<Rightarrow> task_list \<Rightarrow> nat option" where
  "next_pid 0 p tasks = None"
| "next_pid (Suc k) p tasks =
     (case tasks ! k of
        Some t \<Rightarrow> if k \<noteq> p \<and> \<not> started t then Some k else next_pid k p tasks
      | None \<Rightarrow> next_pid k p tasks)"

definition yeild :: "nat \<Rightarrow> int \<Rightarrow> task_list \<Rightarrow> (nat \<times> task_list) res" where
  "yeild p code tasks =
     (case tasks ! p of
        None \<Rightarrow> Inl Null_deref
      | Some t \<Rightarrow>
          (case next_pid 100 p tasks of
             None \<Rightarrow> Inl Out_of_bounds
           | Some q \<Rightarrow> Inr (q, tasks[p := Some (t\<lparr>exit_code := code, exited := True\<rparr>),
                                q := map_option (\<lambda>u. u\<lparr>started := True\<rparr>) (tasks ! q)])))"

definition unstarted :: "task_list \<Rightarrow> nat set" where
  "unstarted tasks = {i. i < length tasks \<and> (case tasks ! i of None \<Rightarrow> False | Some t \<Rightarrow> \<not> started t)}"

lemma free_pid_spec:
  "free_pid tasks i = (if None \<in> set tasks then Inr (i + length (takeWhile (\<lambda>t. t \<noteq> None) tasks)) else Inl Out_of_bounds)"
  by (induction tasks i rule: free_pid.induct) auto

lemma next_pid_spec:
  "k \<le> length tasks \<Longrightarrow> next_pid k p tasks =
     (if unstarted tasks \<inter> {..<k} - {p} = {} then None else Some (Max (unstarted tasks \<inter> {..<k} - {p})))"
proof (induction k)
  case (Suc k)
  let ?U = "\<lambda>k. unstarted tasks \<inter> {..<k} - {p}"
  show ?case
  proof (cases "k \<in> unstarted tasks \<and> k \<noteq> p")
    case True
    then have e: "?U (Suc k) = insert k (?U k)" by (auto simp: lessThan_Suc)
    have "Max (insert k (?U k)) = k" by (rule Max_eqI) auto
    with True e Suc.prems show ?thesis by (auto simp: unstarted_def split: option.splits)
  next
    case False
    then have "?U (Suc k) = ?U k" by (auto simp: lessThan_Suc)
    with False Suc show ?thesis by (auto simp: unstarted_def split: option.splits)
  qed
qed simp

lemma unstarted_finite [simp]: "finite (unstarted tasks)"
  by (simp add: unstarted_def)

text \<open>A chain of \<^verbatim>\<open>yeild\<close>s, each by the process the one before it entered.\<close>

fun yield_run :: "nat \<Rightarrow> int \<Rightarrow> nat \<Rightarrow> task_list \<Rightarrow> (nat list \<times> task_list) res" where
  "yield_run 0 code p tasks = Inr ([], tasks)"
| "yield_run (Suc n) code p tasks =
     rbind (yeild p code tasks) (\<lambda>(q, tasks). rbind (yield_run n code q tasks) (\<lambda>(qs, tasks). Inr (q # qs, tasks)))"

text \<open>One \<^verbatim>\<open>yeild\<close>: the unstarted task with the highest number is entered, the caller excepted.\<close>

lemma yeild_eq:
  assumes "length tasks = 100" and "tasks ! p = Some t"
  shows "yeild p code tasks =
    (if unstarted tasks - {p} = {} then Inl Out_of_bounds
     else let q = Max (unstarted tasks - {p})
          in Inr (q, tasks[p := Some (t\<lparr>exit_code := code, exited := True\<rparr>),
                           q := map_option (\<lambda>u. u\<lparr>started := True\<rparr>) (tasks ! q)]))"
proof -
  have "unstarted tasks \<inter> {..<100} - {p} = unstarted tasks - {p}" using assms(1) by (auto simp: unstarted_def)
  then show ?thesis using next_pid_spec [of 100 tasks p] assms by (simp add: yeild_def Let_def)
qed

lemma yeild_step:
  assumes len: "length tasks = 100" and p: "p < 100" "tasks ! p \<noteq> None"
  shows "if unstarted tasks - {p} = {} then yeild p code tasks = Inl Out_of_bounds
    else \<exists>tasks'. yeild p code tasks = Inr (Max (unstarted tasks - {p}), tasks') \<and> length tasks' = 100 \<and>
      unstarted tasks' = unstarted tasks - {Max (unstarted tasks - {p})} \<and> (\<forall>i < 100. tasks' ! i = None \<longleftrightarrow> tasks ! i = None)"
proof -
  obtain t where t: "tasks ! p = Some t" using p(2) by auto
  show ?thesis
  proof (cases "unstarted tasks - {p} = {}")
    case True
    then show ?thesis by (simp add: yeild_eq [OF len t])
  next
    case False
    define q where "q = Max (unstarted tasks - {p})"
    have "q \<in> unstarted tasks - {p}" unfolding q_def using False by (intro Max_in) simp_all
    then obtain u where u: "q < 100" "q \<noteq> p" "tasks ! q = Some u" "\<not> started u"
      using len by (auto simp: unstarted_def split: option.splits)
    let ?tasks = "tasks[p := Some (t\<lparr>exit_code := code, exited := True\<rparr>), q := Some (u\<lparr>started := True\<rparr>)]"
    have "yeild p code tasks = Inr (q, ?tasks)" using False u by (simp add: yeild_eq [OF len t] q_def [symmetric])
    moreover have "unstarted ?tasks = unstarted tasks - {q}"
      using len p u t by (auto simp: unstarted_def nth_list_update split: option.splits if_splits)
    moreover have "\<forall>i < 100. ?tasks ! i = None \<longleftrightarrow> tasks ! i = None"
      using len p u t by (auto simp: nth_list_update)
    ultimately show ?thesis using False len unfolding q_def [symmetric] by auto
  qed
qed

text \<open>C38: Every task is entered at most once, and then the kernel runs off its task list. \<^verbatim>\<open>yeild\<close>
  marks its caller as exited and enters, among the tasks other than the caller that were never started, the one with
  the highest number; when there is none it reads the entry -1. A caller that was not started itself can
  be entered after it has exited. In any chain of \<^verbatim>\<open>yeild\<close>s, each by the task entered last,
  the tasks entered are different and were not started before, so no chain is longer than the number of
  unstarted tasks.\<close>

theorem yield_chain_ends:
  assumes "length tasks = 100" and "p < 100" and t: "tasks ! p = Some t"
  shows "yeild p code tasks =
    (if unstarted tasks - {p} = {} then Inl Out_of_bounds
     else let q = Max (unstarted tasks - {p})
          in Inr (q, tasks[p := Some (t\<lparr>exit_code := code, exited := True\<rparr>),
                           q := map_option (\<lambda>u. u\<lparr>started := True\<rparr>) (tasks ! q)])) \<and>
    (\<forall>q tasks'. yeild p code tasks = Inr (q, tasks') \<and> \<not> started t \<longrightarrow>
       q \<noteq> p \<and> tasks' ! p = Some (t\<lparr>exit_code := code, exited := True\<rparr>) \<and> p \<in> unstarted tasks') \<and>
    (case yield_run n code p tasks of
      Inl e \<Rightarrow> e = Out_of_bounds
    | Inr (qs, tasks') \<Rightarrow> length qs = n \<and> distinct qs \<and> set qs \<subseteq> unstarted tasks \<and> unstarted tasks' = unstarted tasks - set qs) \<and>
    (n > card (unstarted tasks) \<longrightarrow> yield_run n code p tasks = Inl Out_of_bounds)"
proof -
  have some: "tasks ! p \<noteq> None" using t by simp
  have main: "case yield_run n code p tasks of
      Inl e \<Rightarrow> e = Out_of_bounds
    | Inr (qs, tasks') \<Rightarrow> length qs = n \<and> distinct qs \<and> set qs \<subseteq> unstarted tasks \<and> unstarted tasks' = unstarted tasks - set qs"
    using assms(1,2) some
  proof (induction n arbitrary: p tasks)
    case (Suc n)
    show ?case
    proof (cases "unstarted tasks - {p} = {}")
      case True
      with yeild_step [OF Suc.prems, of code] show ?thesis by simp
    next
      case False
      define q where "q = Max (unstarted tasks - {p})"
      have q: "q \<in> unstarted tasks" unfolding q_def using False Max_in [of "unstarted tasks - {p}"] by auto
      from yeild_step [OF Suc.prems, of code] False obtain tasks1 where
        tasks1: "yeild p code tasks = Inr (q, tasks1)" "length tasks1 = 100" "unstarted tasks1 = unstarted tasks - {q}"
          "\<forall>i < 100. tasks1 ! i = None \<longleftrightarrow> tasks ! i = None" by (auto simp: q_def)
      have "q < 100" "tasks1 ! q \<noteq> None" using q tasks1(4) Suc.prems(1) by (auto simp: unstarted_def)
      from Suc.IH [OF tasks1(2) this] tasks1 q show ?thesis by (auto split: sum.splits)
    qed
  qed simp
  moreover have "yield_run n code p tasks = Inl Out_of_bounds" if "n > card (unstarted tasks)"
  proof (cases "yield_run n code p tasks")
    case (Inr r)
    obtain qs tasks' where r: "r = (qs, tasks')" by (cases r)
    with main Inr have q: "length qs = n" "distinct qs" "set qs \<subseteq> unstarted tasks" by auto
    have "card (set qs) \<le> card (unstarted tasks)" by (rule card_mono) (use q(3) in simp_all)
    with q that show ?thesis by (simp add: distinct_card)
  qed (use main in simp)
  moreover have "q \<noteq> p \<and> tasks' ! p = Some (t\<lparr>exit_code := code, exited := True\<rparr>) \<and> p \<in> unstarted tasks'"
    if y: "yeild p code tasks = Inr (q, tasks')" and "\<not> started t" for q tasks'
  proof -
    have ne: "unstarted tasks - {p} \<noteq> {}" and q: "q = Max (unstarted tasks - {p})"
      and tasks': "tasks' = tasks[p := Some (t\<lparr>exit_code := code, exited := True\<rparr>), q := map_option (\<lambda>u. u\<lparr>started := True\<rparr>) (tasks ! q)]"
      using y by (auto simp: yeild_eq [OF assms(1) t] Let_def split: if_splits)
    have "q \<noteq> p" using Max_in [OF _ ne] by (simp add: q)
    then show ?thesis using that(2) assms(1,2) by (simp add: tasks' unstarted_def)
  qed
  ultimately show ?thesis using yeild_eq [OF assms(1) t, of code] by blast
qed

definition idle_task :: "nat \<Rightarrow> process_t" where
  "idle_task i = \<lparr>pid = i, main_addr = 0, started = False, exited = False, exit_code = 0\<rparr>"

definition two_tasks :: task_list where
  "two_tasks = Some (idle_task 0) # Some (idle_task 1) # replicate 98 None"

theorem yield_chain_ends_witness:
  "(\<exists>ts. yeild 0 7 two_tasks = Inr (1, ts) \<and> 0 \<in> unstarted ts) \<and> yield_run 3 7 0 two_tasks = Inl Out_of_bounds"
proof -
  have u: "unstarted two_tasks = {0, 1}"
  proof (rule set_eqI)
    show "i \<in> unstarted two_tasks \<longleftrightarrow> i \<in> {0, 1}" for i
      by (cases i; cases "i - 1") (auto simp: unstarted_def two_tasks_def idle_task_def cong: conj_cong)
  qed
  have t: "length two_tasks = 100" "0 < (100 :: nat)" "two_tasks ! 0 = Some (idle_task 0)" "\<not> started (idle_task 0)"
    by (simp_all add: two_tasks_def idle_task_def)
  have e: "{0, 1} - {0 :: nat} = {1}" "{1 :: nat} \<noteq> {}" by auto
  from yield_chain_ends [OF t(1-3), of 7 3] u t(4) show ?thesis by (simp add: e Let_def)
qed

subsection \<open>Streams\<close>

record stream =
  stream_data :: "dstring option"
  rw_lock :: spinlock_t
  ack_update :: bool

text \<open>The part both \<^verbatim>\<open>stream_write\<close> share.\<close>

definition stream_put :: "(dstring \<Rightarrow> dstring res) \<Rightarrow> stream \<Rightarrow> stream res" where
  "stream_put put s =
     rbind (acquire_spinlock (rw_lock s)) (\<lambda>l.
     rbind (put (case stream_data s of None \<Rightarrow> string_new | Some d \<Rightarrow> d)) (\<lambda>d.
       Inr (s\<lparr>stream_data := Some d, ack_update := True, rw_lock := release_spinlock l\<rparr>)))"

definition stream_write :: "dstring \<Rightarrow> stream \<Rightarrow> stream res" where
  "stream_write str = stream_put (string_append str)"

definition stream_write_char :: "u8 \<Rightarrow> stream \<Rightarrow> stream res" where
  "stream_write_char c = stream_put (string_push_back c)"

definition stream_flush :: "stream \<Rightarrow> stream res" where
  "stream_flush s =
     rbind (acquire_spinlock (rw_lock s)) (\<lambda>l.
       Inr (s\<lparr>stream_data := None, ack_update := False, rw_lock := release_spinlock l\<rparr>))"

definition stream_read :: "stream \<Rightarrow> (dstring \<times> stream) res" where
  "stream_read s =
     rbind (acquire_spinlock (rw_lock s)) (\<lambda>l.
     rbind (case stream_data s of None \<Rightarrow> Inr string_new | Some d \<Rightarrow> string_copy d) (\<lambda>d.
       Inr (d, s\<lparr>ack_update := False, rw_lock := release_spinlock l\<rparr>)))"

text \<open>The specification: a stream is a text.\<close>

datatype stream_op = Write dstring | Put u8 | Flush

fun stream_step :: "stream_op \<Rightarrow> stream \<Rightarrow> stream res" where
  "stream_step (Write d) = stream_write d"
| "stream_step (Put c) = stream_write_char c"
| "stream_step Flush = stream_flush"

fun stream_run :: "stream_op list \<Rightarrow> stream \<Rightarrow> stream res" where
  "stream_run [] s = Inr s"
| "stream_run (x # xs) s = rbind (stream_step x s) (stream_run xs)"

fun text_step :: "stream_op \<Rightarrow> u8 list \<Rightarrow> u8 list" where
  "text_step (Write d) t = t @ stext d"
| "text_step (Put c) t = t @ [c]"
| "text_step Flush t = []"

fun op_ok :: "stream_op \<Rightarrow> bool" where
  "op_ok (Write d) \<longleftrightarrow> str_ok d"
| "op_ok (Put c) \<longleftrightarrow> c \<noteq> 0"
| "op_ok Flush \<longleftrightarrow> True"

definition stream_text :: "stream \<Rightarrow> u8 list" where
  "stream_text s = (case stream_data s of None \<Rightarrow> [] | Some d \<Rightarrow> stext d)"

definition stream_ok :: "stream \<Rightarrow> bool" where
  "stream_ok s \<longleftrightarrow> rw_lock s = SPIN_UNLOCKED \<and> (case stream_data s of None \<Rightarrow> True | Some d \<Rightarrow> str_ok d)"

text \<open>The number of characters an operation may add.\<close>

fun op_len :: "stream_op \<Rightarrow> nat" where
  "op_len (Write d) = length (stext d)"
| "op_len (Put c) = 1"
| "op_len Flush = 0"

lemma text_step_length: "length (text_step x t) \<le> length t + op_len x"
  by (cases x) simp_all

lemma stream_step_ok:
  assumes "stream_ok s" and "op_ok x" and len: "length (stream_text s) + op_len x < 2 ^ 31"
  shows "\<exists>s'. stream_step x s = Inr s' \<and> stream_ok s' \<and> stream_text s' = text_step x (stream_text s)"
proof -
  define d where "d = (case stream_data s of None \<Rightarrow> string_new | Some d \<Rightarrow> d)"
  have d: "str_ok d" "stext d = stream_text s" "rw_lock s = SPIN_UNLOCKED"
    using assms(1) string_new_ok by (auto simp: d_def stream_ok_def stream_text_def split: option.splits)
  show ?thesis
  proof (cases x)
    case (Write w)
    with string_append_ok [OF d(1)] assms(2) d len show ?thesis
      by (force simp: stream_write_def stream_put_def d_def [symmetric] stream_ok_def stream_text_def release_spinlock_def)
  next
    case (Put c)
    with string_push_back_ok [OF d(1)] str_okD(4) [OF d(1)] assms(2) d len show ?thesis
      by (force simp: stream_write_char_def stream_put_def d_def [symmetric] stream_ok_def stream_text_def
          release_spinlock_def)
  next
    case Flush
    with d show ?thesis by (simp add: stream_flush_def stream_ok_def stream_text_def release_spinlock_def)
  qed
qed

lemma stream_run_ok:
  "stream_ok s \<Longrightarrow> list_all op_ok xs \<Longrightarrow> length (stream_text s) + sum_list (map op_len xs) < 2 ^ 31 \<Longrightarrow>
   \<exists>s'. stream_run xs s = Inr s' \<and> stream_ok s' \<and> stream_text s' = fold text_step xs (stream_text s)"
proof (induction xs arbitrary: s)
  case (Cons x xs)
  then obtain s1 where "stream_step x s = Inr s1" "stream_ok s1" "stream_text s1 = text_step x (stream_text s)"
    using stream_step_ok [of s x] by auto
  with Cons.IH [of s1] Cons.prems(2,3) text_step_length [of x "stream_text s"] show ?case by auto
qed simp

text \<open>What is read is what was written since the last flush, and reading does not consume it, as long
  as fewer than \<open>2 ^ 31\<close> characters are written in all.\<close>

lemma stream_is_text:
  assumes "stream_ok s" and "list_all op_ok xs" and "length (stream_text s) + sum_list (map op_len xs) < 2 ^ 31"
  shows "\<exists>s1 d s2. stream_run xs s = Inr s1 \<and> stream_read s1 = Inr (d, s2) \<and>
    stext d = fold text_step xs (stream_text s) \<and> stream_ok s2 \<and> stream_text s2 = stream_text s1"
proof -
  obtain s1 where s1: "stream_run xs s = Inr s1" "stream_ok s1" "stream_text s1 = fold text_step xs (stream_text s)"
    using stream_run_ok [OF assms] by blast
  have u: "rw_lock s1 = SPIN_UNLOCKED" using s1(2) by (simp add: stream_ok_def)
  have "\<exists>d. (case stream_data s1 of None \<Rightarrow> Inr string_new | Some d \<Rightarrow> string_copy d) = Inr d \<and> stext d = stream_text s1"
  proof (cases "stream_data s1")
    case None
    then show ?thesis using string_new_ok by (simp add: stream_text_def)
  next
    case (Some d)
    then have "str_ok d" using s1(2) by (simp add: stream_ok_def)
    then have "str_size d \<le> str_cap d" by (rule str_okD(2))
    from string_resize_ok [OF \<open>str_ok d\<close> this] Some show ?thesis
      by (auto simp: stream_text_def string_copy_def string_resize_def rbind_def split: sum.splits)
  qed
  then obtain d where "stream_read s1 = Inr (d, s1\<lparr>ack_update := False, rw_lock := SPIN_UNLOCKED\<rparr>)" "stext d = stream_text s1"
    using u by (auto simp: stream_read_def release_spinlock_def)
  with s1 show ?thesis
    by (intro exI [of _ s1] exI [of _ d] exI [of _ "s1\<lparr>ack_update := False, rw_lock := SPIN_UNLOCKED\<rparr>"])
      (simp add: stream_ok_def stream_text_def)
qed

subsection \<open>Timers\<close>

record 'h timers =
  handlers :: "'h list"
  handler_cooldown :: "u64 list"
  reset_cooldown :: "u64 list"
  handler_count :: nat

definition register_timer :: "'h \<Rightarrow> u64 \<Rightarrow> 'h timers \<Rightarrow> 'h timers res" where
  "register_timer h delta s =
     (let i = handler_count s
      in if i < length (handlers s)
         then Inr (s\<lparr>handlers := (handlers s)[i := h], handler_cooldown := (handler_cooldown s)[i := delta],
                    reset_cooldown := (reset_cooldown s)[i := delta], handler_count := Suc i\<rparr>)
         else Inl Out_of_bounds)"

definition update_timers :: "'h timers \<Rightarrow> 'h timers" where
  "update_timers s = s\<lparr>handler_cooldown :=
     map (\<lambda>i. if i < handler_count s then handler_cooldown s ! i - 1 else handler_cooldown s ! i)
       [0..<length (handler_cooldown s)]\<rparr>"

text \<open>The counters are unsigned: \<^verbatim>\<open><= 0\<close> is \<^verbatim>\<open>== 0\<close>.\<close>

fun call_loop :: "nat list \<Rightarrow> 'h timers \<Rightarrow> 'h list \<times> 'h timers" where
  "call_loop [] s = ([], s)"
| "call_loop (i # is') s =
     (if handler_cooldown s ! i \<le> 0
      then let (hs, s') = call_loop is' (s\<lparr>handler_cooldown := (handler_cooldown s)[i := reset_cooldown s ! i]\<rparr>)
           in (handlers s ! i # hs, s')
      else call_loop is' s)"

definition call_timers :: "'h timers \<Rightarrow> 'h list \<times> 'h timers" where
  "call_timers s = call_loop [0..<handler_count s] s"

definition timers_ok :: "'h timers \<Rightarrow> bool" where
  "timers_ok s \<longleftrightarrow> length (handlers s) = 10 \<and> length (handler_cooldown s) = 10 \<and>
     length (reset_cooldown s) = 10 \<and> handler_count s \<le> 10"

lemma update_timers_pow:
  assumes "timers_ok s"
  shows "timers_ok ((update_timers ^^ k) s) \<and> handlers ((update_timers ^^ k) s) = handlers s \<and>
    handler_count ((update_timers ^^ k) s) = handler_count s \<and>
    (\<forall>i < handler_count s. handler_cooldown ((update_timers ^^ k) s) ! i = handler_cooldown s ! i - of_nat k)"
proof (induction k)
  case 0
  then show ?case using assms by simp
next
  case (Suc k)
  then show ?case by (auto simp: update_timers_def timers_ok_def)
qed

lemma call_loop_handlers:
  "distinct js \<Longrightarrow> \<forall>i \<in> set js. i < length (handler_cooldown s) \<Longrightarrow>
   fst (call_loop js s) = map (\<lambda>i. handlers s ! i) (filter (\<lambda>i. handler_cooldown s ! i = 0) js)"
proof (induction js arbitrary: s)
  case (Cons j js)
  let ?s = "s\<lparr>handler_cooldown := (handler_cooldown s)[j := reset_cooldown s ! j]\<rparr>"
  have "filter (\<lambda>i. handler_cooldown ?s ! i = 0) js = filter (\<lambda>i. handler_cooldown s ! i = 0) js"
  proof (rule filter_cong)
    fix x assume "x \<in> set js"
    then have "j \<noteq> x" using Cons.prems(1) by auto
    then show "handler_cooldown ?s ! x = 0 \<longleftrightarrow> handler_cooldown s ! x = 0" by simp
  qed simp
  moreover have "fst (call_loop js ?s) = map (\<lambda>i. handlers ?s ! i) (filter (\<lambda>i. handler_cooldown ?s ! i = 0) js)"
    using Cons.prems by (intro Cons.IH) auto
  moreover have "fst (call_loop js s) = map (\<lambda>i. handlers s ! i) (filter (\<lambda>i. handler_cooldown s ! i = 0) js)"
    using Cons.prems by (intro Cons.IH) auto
  ultimately show ?case by (simp add: case_prod_beta word_le_def uint_0_iff)
qed simp

text \<open>A handler is called only by a look that comes exactly as many ticks after its last call as
  it asked for: a look that comes later finds a counter that has wrapped.\<close>

lemma timers_need_exact_tick:
  assumes "timers_ok s"
  shows "fst (call_timers ((update_timers ^^ k) s)) =
    map (\<lambda>i. handlers s ! i) (filter (\<lambda>i. k mod 2 ^ 64 = unat (handler_cooldown s ! i)) [0..<handler_count s])"
proof -
  let ?t = "(update_timers ^^ k) s"
  note u = update_timers_pow [OF assms, of k]
  have z: "c - of_nat k = 0 \<longleftrightarrow> k mod 2 ^ 64 = unat c" for c :: u64
  proof -
    have "c - of_nat k = 0 \<longleftrightarrow> unat c = unat (of_nat k :: u64)" by (simp add: word_unat_eq_iff [symmetric])
    then show ?thesis by (auto simp: unat_of_nat take_bit_eq_mod)
  qed
  have "fst (call_timers ?t) = map (\<lambda>i. handlers ?t ! i) (filter (\<lambda>i. handler_cooldown ?t ! i = 0) [0..<handler_count ?t])"
    unfolding call_timers_def using u by (intro call_loop_handlers) (auto simp: timers_ok_def)
  also have "\<dots> = map (\<lambda>i. handlers s ! i) (filter (\<lambda>i. k mod 2 ^ 64 = unat (handler_cooldown s ! i)) [0..<handler_count s])"
    using u z by (auto intro!: map_cong filter_cong)
  finally show ?thesis .
qed

end
