(* ===== verification/Vfs.thy ===== *)
theory Vfs
  imports Fat_File Gpt Disk
begin

text \<open>
  Volumes and files: \<^verbatim>\<open>src/kernel/vfs/volume.cpp\<close> and \<^verbatim>\<open>src/kernel/vfs/file.cpp\<close>. A path is a
  drive digit, any character, a partition digit and a path inside the volume. \<open>dread\<close> is the
  read of the disk below a volume; a handle that a function fills in comes with whatever the
  caller left in it. Log lines are not modelled, and releasing the pages and the entry of a
  handle is the list of what is released.
\<close>

datatype FS_TYPE = RAW | FAT32

record disk_vol_t =
  filesys_type :: FS_TYPE
  vol_index :: int
  drive_number :: int
  gpt_partition_num :: int
  vol_driver :: "fat_part option"

definition MAX_VOL :: nat where "MAX_VOL = 10"

definition blank_vol :: disk_vol_t where
  "blank_vol = \<lparr>filesys_type = RAW, vol_index = 0, drive_number = 0, gpt_partition_num = 0, vol_driver = None\<rparr>"

definition vol_mgr_init :: "disk_vol_t list" where
  "vol_mgr_init = replicate MAX_VOL blank_vol"

text \<open>The first volume with these numbers, in a table of \<^verbatim>\<open>MAX_VOL\<close>.\<close>

fun find_vol :: "int \<Rightarrow> int \<Rightarrow> disk_vol_t list \<Rightarrow> disk_vol_t option" where
  "find_vol drive part [] = None"
| "find_vol drive part (v # vs) =
     (if drive_number v = drive \<and> gpt_partition_num v = part then Some v else find_vol drive part vs)"

definition get_vol_driver :: "int \<Rightarrow> int \<Rightarrow> disk_vol_t list \<Rightarrow> disk_vol_t option" where
  "get_vol_driver drive part vols = find_vol drive part vols"

fun free_vol :: "disk_vol_t list \<Rightarrow> nat \<Rightarrow> nat option" where
  "free_vol [] i = None"
| "free_vol (v # vs) i = (if vol_driver v = None then Some i else free_vol vs (Suc i))"

text \<open>\<open>mnt\<close> is \<^verbatim>\<open>mount_part(get_disk(drive), part)\<close>; the drive number is cut to 8 bits.\<close>

definition register_vol ::
  "(u8 \<Rightarrow> int \<Rightarrow> fat_part option res) \<Rightarrow> int \<Rightarrow> int \<Rightarrow> FS_TYPE \<Rightarrow> disk_vol_t list \<Rightarrow> disk_vol_t list res" where
  "register_vol mnt drive part fs vols =
     (case free_vol vols 0 of
        None \<Rightarrow> Inr vols
      | Some i \<Rightarrow>
          (let v = (vols ! i)\<lparr>drive_number := drive, gpt_partition_num := part, filesys_type := fs, vol_index := int i\<rparr>
           in case fs of
                FAT32 \<Rightarrow> rbind (mnt (of_int drive) part) (\<lambda>p. Inr (vols[i := v\<lparr>vol_driver := p\<rparr>]))
              | RAW \<Rightarrow> Inr (vols[i := v])))"

text \<open>Mounting a partition of a registered disk: the driver \<open>drv\<close> reads with \<open>drd drv\<close> and keeps
  the partition table \<open>gpt drv\<close>.\<close>

definition mount_drive ::
  "('a \<Rightarrow> 'd \<Rightarrow> u64 \<Rightarrow> u32 \<Rightarrow> u8 list option) \<Rightarrow> ('a \<Rightarrow> u8 list) \<Rightarrow> nat \<Rightarrow> (nat \<Rightarrow> u8) \<Rightarrow> 'a rw_disk_t list \<Rightarrow> 'd \<Rightarrow>
   u8 \<Rightarrow> int \<Rightarrow> fat_part option res" where
  "mount_drive drd gpt fuel junk ds d drive part =
     rbind (get_disk ds drive) (\<lambda>dsk.
     rbind (get_gpt gpt dsk) (\<lambda>g.
       case (g, disk_driver dsk) of
         (Some buf, Some drv) \<Rightarrow>
           (if part < 0 then Inl Out_of_bounds
            else rbind (starting_lba buf (nat part)) (\<lambda>lba. mount_part (drd drv) fuel junk lba d))
       | _ \<Rightarrow> Inl Null_deref))"

subsection \<open>Files\<close>

record file_handle =
  h_filepath :: dstring
  h_filesize :: u64
  h_data :: "u8 list option"
  h_entry :: "dirent option"
  h_attrib :: u8
  h_offset :: u64

text \<open>The digits are read as signed characters.\<close>

definition digit_of :: "u8 \<Rightarrow> int" where
  "digit_of c = sint c - 48"

text \<open>Looking a path up in a volume; without a driver the partition is NULL.\<close>

definition vol_lookup ::
  "('d \<Rightarrow> u64 \<Rightarrow> u32 \<Rightarrow> u8 list option) \<Rightarrow> nat \<Rightarrow> (nat \<Rightarrow> u8) \<Rightarrow> 'd \<Rightarrow> disk_vol_t \<Rightarrow> dstring \<Rightarrow> dirent option res" where
  "vol_lookup dread fuel junk d v path =
     (case vol_driver v of
        Some p \<Rightarrow> get_f32_file_entry dread fuel junk p d path
      | None \<Rightarrow> rbind (string_at path 0) (\<lambda>c. rbind (kassert (c = 47)) (\<lambda>_. Inl Null_deref)))"

definition path_volume :: "disk_vol_t list \<Rightarrow> dstring \<Rightarrow> (disk_vol_t \<times> dstring) res" where
  "path_volume vols path =
     rbind (string_at path 0) (\<lambda>a. rbind (string_at path 2) (\<lambda>b.
     rbind (substr_from 3 path) (\<lambda>vp.
       case get_vol_driver (digit_of a) (digit_of b) vols of
         None \<Rightarrow> Inl Null_deref
       | Some v \<Rightarrow> Inr (v, vp))))"

definition get_file_entry ::
  "('d \<Rightarrow> u64 \<Rightarrow> u32 \<Rightarrow> u8 list option) \<Rightarrow> nat \<Rightarrow> (nat \<Rightarrow> u8) \<Rightarrow> 'd \<Rightarrow> disk_vol_t list \<Rightarrow> dstring \<Rightarrow> file_handle \<Rightarrow>
   file_handle res" where
  "get_file_entry dread fuel junk d vols path h =
     rbind (path_volume vols path) (\<lambda>(v, vp).
       case filesys_type v of
         FAT32 \<Rightarrow>
           rbind (vol_lookup dread fuel junk d v vp) (\<lambda>r.
           rbind (string_copy path) (\<lambda>fp.
             case r of
               None \<Rightarrow> Inl Null_deref
             | Some e \<Rightarrow> Inr (h\<lparr>h_entry := Some e, h_data := None, h_filepath := fp,
                                 h_attrib := dir_attrib e, h_filesize := ucast (file_size e)\<rparr>)))
       | RAW \<Rightarrow> Inr h)"

text \<open>The case of a FAT volume falls through to the message of the other; the data stay.\<close>

definition read_file_data ::
  "('d \<Rightarrow> u64 \<Rightarrow> u32 \<Rightarrow> u8 list option) \<Rightarrow> nat \<Rightarrow> (nat \<Rightarrow> u8) \<Rightarrow> 'd \<Rightarrow> disk_vol_t list \<Rightarrow> file_handle \<Rightarrow> file_handle res" where
  "read_file_data dread fuel junk d vols h =
     rbind (path_volume vols (h_filepath h)) (\<lambda>(v, vp).
       case filesys_type v of
         FAT32 \<Rightarrow>
           (case (vol_driver v, h_entry h) of
              (Some p, Some e) \<Rightarrow>
                rbind (fat_read_file_entry dread fuel junk p d e) (\<lambda>bs. Inr (h\<lparr>h_data := Some bs\<rparr>))
            | _ \<Rightarrow> Inl Null_deref)
       | RAW \<Rightarrow> Inr h)"

definition fopen ::
  "('d \<Rightarrow> u64 \<Rightarrow> u32 \<Rightarrow> u8 list option) \<Rightarrow> nat \<Rightarrow> (nat \<Rightarrow> u8) \<Rightarrow> 'd \<Rightarrow> disk_vol_t list \<Rightarrow> file_handle \<Rightarrow> dstring \<Rightarrow>
   (int \<times> file_handle) res" where
  "fopen dread fuel junk d vols h path =
     rbind (get_file_entry dread fuel junk d vols path h) (\<lambda>h.
       Inr (if h_entry h = None then - 1 else 0, h))"

datatype release = Release_pages "u8 list" | Release_entry "dirent option"

definition fclose :: "file_handle \<Rightarrow> release list" where
  "fclose h = (case h_data h of None \<Rightarrow> [] | Some bs \<Rightarrow> [Release_pages bs]) @ [Release_entry (h_entry h)]"

text \<open>\<open>buf\<close> is the buffer of the caller.\<close>

definition fread ::
  "('d \<Rightarrow> u64 \<Rightarrow> u32 \<Rightarrow> u8 list option) \<Rightarrow> nat \<Rightarrow> (nat \<Rightarrow> u8) \<Rightarrow> 'd \<Rightarrow> disk_vol_t list \<Rightarrow> u8 list \<Rightarrow> u64 \<Rightarrow> file_handle \<Rightarrow>
   (u64 \<times> u8 list \<times> file_handle) res" where
  "fread dread fuel junk d vols buf n h =
     rbind (if h_data h = None then read_file_data dread fuel junk d vols h else Inr h) (\<lambda>h.
     let k = min n (h_filesize h - h_offset h)
     in if k = 0 then Inr (0, buf, h)
        else case h_data h of
               None \<Rightarrow> Inl Null_deref
             | Some bs \<Rightarrow>
                 if length bs < unat (h_offset h) + unat k \<or> length buf < unat k then Inl Out_of_bounds
                 else Inr (k, put_at 0 (take (unat k) (drop (unat (h_offset h)) bs)) buf, h))"

definition fwrite :: "u8 list \<Rightarrow> u64 \<Rightarrow> file_handle \<Rightarrow> u64 \<times> file_handle" where
  "fwrite buf n h = (n, h)"

definition SEEK_SET :: int where "SEEK_SET = - 1"
definition SEEK_CUR :: int where "SEEK_CUR = 0"
definition SEEK_END :: int where "SEEK_END = 1"

text \<open>The offset is a \<^verbatim>\<open>long\<close>, compared with the size as an unsigned number.\<close>

definition fseek :: "file_handle \<Rightarrow> u64 \<Rightarrow> int \<Rightarrow> int \<times> file_handle" where
  "fseek h off whence =
     (if whence = SEEK_SET then
        if off > h_filesize h then (1, h) else (0, h\<lparr>h_offset := off\<rparr>)
      else if whence = SEEK_CUR then
        if off + h_offset h > h_filesize h then (1, h) else (0, h\<lparr>h_offset := off + h_offset h\<rparr>)
      else if whence = SEEK_END then
        if off > h_filesize h then (1, h) else (0, h\<lparr>h_offset := h_filesize h - off\<rparr>)
      else (- 67, h))"

subsection \<open>What the operations do\<close>

lemma find_vol_first:
  "find_vol drive part vols = Some v \<longleftrightarrow>
   (\<exists>i < length vols. vols ! i = v \<and> drive_number v = drive \<and> gpt_partition_num v = part \<and>
     (\<forall>j < i. \<not> (drive_number (vols ! j) = drive \<and> gpt_partition_num (vols ! j) = part)))"
proof (induction vols)
  case (Cons w ws)
  show ?case
  proof (cases "drive_number w = drive \<and> gpt_partition_num w = part")
    case True
    then show ?thesis by (auto intro!: exI [of _ 0] elim: less_SucE dest: spec [of _ 0])
  next
    case False
    have "(\<exists>i < length (w # ws). (w # ws) ! i = v \<and> drive_number v = drive \<and> gpt_partition_num v = part \<and>
        (\<forall>j < i. \<not> (drive_number ((w # ws) ! j) = drive \<and> gpt_partition_num ((w # ws) ! j) = part))) \<longleftrightarrow>
      (\<exists>i < length ws. ws ! i = v \<and> drive_number v = drive \<and> gpt_partition_num v = part \<and>
        (\<forall>j < i. \<not> (drive_number (ws ! j) = drive \<and> gpt_partition_num (ws ! j) = part)))"
      using False by (subst Ex_less_Suc2 [of "length ws", simplified, folded length_Cons [of w ws]])
        (auto simp: All_less_Suc2)
    moreover have "find_vol drive part (w # ws) = find_vol drive part ws"
      by (simp only: find_vol.simps False if_False)
    ultimately show ?thesis by (simp only: Cons.IH)
  qed
qed simp

text \<open>A seek inside the file moves there; a position is never beyond the end.\<close>

lemma fseek_inside: "h_offset h \<le> h_filesize h \<Longrightarrow> h_offset (snd (fseek h off whence)) \<le> h_filesize h"
  by (auto simp: fseek_def word_le_nat_alt word_less_nat_alt unat_sub split: if_splits)

lemma substr_from_text:
  assumes "str_ok s" and "a \<le> length (stext s)"
  shows "\<exists>r. substr_from (int a) s = Inr r \<and> str_ok r \<and> stext r = drop a (stext s)"
proof -
  have l: "str_size s = length (stext s)" using str_okD(4) [OF assms(1)] by simp
  have "int (str_size s) - int a = int (length (stext s) - a)" using assms(2) l by simp
  moreover have "length (stext s) - a < 2 ^ 31" using str_okD(5) [OF assms(1)] l by linarith
  ultimately have n: "sint (word_of_int (int (str_size s) - int a) :: u32) = int (length (stext s) - a)"
    using sint_of_nat_u32 [of "length (stext s) - a"] by simp
  have "substr_from (int a) s =
    rbind (string_fill (length (stext s) - a) 32) (substr_loop 0 a (length (stext s) - a) (str_data s))"
    by (simp only: substr_from_def n) (simp add: Let_def)
  then show ?thesis using substr_loop_text [OF assms(1), of a "length (stext s) - a"] assms(2) l by simp
qed

lemma string_at_ok:
  assumes "str_ok s" and "i < length (stext s)"
  shows "string_at s i = Inr (stext s ! i)"
  using str_okD [OF assms(1)] holds_nth [OF str_okD(3) [OF assms(1)]] assms(2)
  by (simp add: string_at_def) (metis nth_take)

lemma path_volume_ok:
  assumes "str_ok path" and "stext path = a # c # b # rest"
  shows "\<exists>vp. str_ok vp \<and> stext vp = rest \<and> path_volume vols path =
    (case get_vol_driver (digit_of a) (digit_of b) vols of None \<Rightarrow> Inl Null_deref | Some v \<Rightarrow> Inr (v, vp))"
proof -
  have "string_at path 0 = Inr a" "string_at path 2 = Inr b"
    using string_at_ok [OF assms(1), of 0] string_at_ok [OF assms(1), of 2] assms(2) by simp_all
  moreover obtain vp where "substr_from 3 path = Inr vp" "str_ok vp" "stext vp = rest"
    using substr_from_text [OF assms(1), of 3] assms(2) by auto
  ultimately show ?thesis by (intro exI [of _ vp]) (simp add: path_volume_def)
qed

text \<open>Opening a file that is not there does not fail, it faults. A path whose digits name no volume
  makes \<^verbatim>\<open>fopen\<close> dereference NULL; so does a path that a mounted FAT volume does not have,
  before the test of \<^verbatim>\<open>fopen\<close> that would return -1. A file that is there is opened with its size
  and attributes, and with the offset the handle happened to hold.\<close>

lemma fopen_missing_faults:
  assumes "str_ok path" and "stext path = a # c # b # rest"
  shows "case get_vol_driver (digit_of a) (digit_of b) vols of
      None \<Rightarrow> fopen dread fuel junk d vols h path = Inl Null_deref
    | Some v \<Rightarrow>
        (case (filesys_type v, vol_driver v) of
           (FAT32, Some p) \<Rightarrow>
             (\<exists>vp. str_ok vp \<and> stext vp = rest \<and>
               (case get_f32_file_entry dread fuel junk p d vp of
                  Inl e \<Rightarrow> fopen dread fuel junk d vols h path = Inl e
                | Inr None \<Rightarrow> fopen dread fuel junk d vols h path = Inl Null_deref
                | Inr (Some e) \<Rightarrow> (\<exists>h'. fopen dread fuel junk d vols h path = Inr (0, h') \<and> h_entry h' = Some e \<and>
                    h_filesize h' = ucast (file_size e) \<and> h_attrib h' = dir_attrib e \<and>
                    h_data h' = None \<and> h_offset h' = h_offset h \<and> stext (h_filepath h') = stext path)))
         | (RAW, _) \<Rightarrow> fopen dread fuel junk d vols h path = Inr (if h_entry h = None then - 1 else 0, h)
         | _ \<Rightarrow> \<not> (\<exists>r. fopen dread fuel junk d vols h path = Inr r))"
proof -
  obtain vp where vp: "str_ok vp" "stext vp = rest" "path_volume vols path =
    (case get_vol_driver (digit_of a) (digit_of b) vols of None \<Rightarrow> Inl Null_deref | Some v \<Rightarrow> Inr (v, vp))"
    using path_volume_ok [OF assms] by blast
  obtain fp where fp: "string_copy path = Inr fp" "stext fp = stext path"
    using string_copy_ok [OF assms(1)] by blast
  show ?thesis
  proof (cases "get_vol_driver (digit_of a) (digit_of b) vols")
    case None
    then show ?thesis using vp(3) by (simp add: fopen_def get_file_entry_def)
  next
    case (Some v)
    have go: "fopen dread fuel junk d vols h path =
      rbind (case filesys_type v of
        FAT32 \<Rightarrow> rbind (vol_lookup dread fuel junk d v vp) (\<lambda>r. case r of
            None \<Rightarrow> Inl Null_deref
          | Some e \<Rightarrow> Inr (h\<lparr>h_entry := Some e, h_data := None, h_filepath := fp,
              h_attrib := dir_attrib e, h_filesize := ucast (file_size e)\<rparr>))
      | RAW \<Rightarrow> Inr h) (\<lambda>h. Inr (if h_entry h = None then - 1 else 0, h))"
      using vp(3) Some fp(1) by (cases "filesys_type v") (simp_all add: fopen_def get_file_entry_def)
    show ?thesis
    proof (cases "filesys_type v")
      case RAW
      then show ?thesis using go Some by simp
    next
      case FAT32
      show ?thesis
      proof (cases "vol_driver v")
        case None
        then show ?thesis using go Some FAT32 by (auto simp: vol_lookup_def rbind_eq_Inr)
      next
        case p: (Some p)
        have "case get_f32_file_entry dread fuel junk p d vp of
            Inl e \<Rightarrow> fopen dread fuel junk d vols h path = Inl e
          | Inr None \<Rightarrow> fopen dread fuel junk d vols h path = Inl Null_deref
          | Inr (Some e) \<Rightarrow> (\<exists>h'. fopen dread fuel junk d vols h path = Inr (0, h') \<and> h_entry h' = Some e \<and>
              h_filesize h' = ucast (file_size e) \<and> h_attrib h' = dir_attrib e \<and>
              h_data h' = None \<and> h_offset h' = h_offset h \<and> stext (h_filepath h') = stext path)"
          using go FAT32 p fp(2) by (simp add: vol_lookup_def split: sum.splits option.splits)
        with vp(1,2) Some FAT32 p show ?thesis by auto
      qed
    qed
  qed
qed

text \<open>Reading takes the bytes at the offset and does not move it: a second read returns the same.\<close>

lemma fread_does_not_advance:
  assumes h: "h_data h = None" "path_volume vols (h_filepath h) = Inr (v, vp)" "filesys_type v = FAT32"
      "vol_driver v = Some p" "h_entry h = Some e" "fat_read_file_entry dread fuel junk p d e = Inr bs"
    and off: "h_offset h \<le> h_filesize h" "unat (h_filesize h) \<le> length bs"
    and k: "k = min (unat n) (unat (h_filesize h) - unat (h_offset h))" "k \<le> length buf"
  shows "\<exists>h'. fread dread fuel junk d vols buf n h = Inr (of_nat k, put_at 0 (take k (drop (unat (h_offset h)) bs)) buf, h') \<and>
    h_offset h' = h_offset h \<and>
    fread dread fuel junk d vols buf n h' = Inr (of_nat k, put_at 0 (take k (drop (unat (h_offset h)) bs)) buf, h')"
proof -
  let ?h = "h\<lparr>h_data := Some bs\<rparr>"
  have rd: "read_file_data dread fuel junk d vols h = Inr ?h" using h by (simp add: read_file_data_def)
  have le: "unat (h_offset h) \<le> unat (h_filesize h)" using off(1) by (simp add: word_le_nat_alt)
  then have sub: "unat (h_filesize h - h_offset h) = unat (h_filesize h) - unat (h_offset h)"
    by (rule unat_sub_no)
  have uk: "unat (of_nat k :: u64) = k"
    using k(1) unat_u64_lt [of n] by (intro unat_of_nat_u64) auto
  have mn: "min n (h_filesize h - h_offset h) = of_nat k"
    by (simp only: word_unat_eq_iff uk) (simp add: k(1) min_def word_le_nat_alt sub)
  have fit: "unat (h_offset h) + k \<le> length bs" using k(1) le off(2) by linarith
  have z: "k = 0 \<Longrightarrow> put_at 0 (take k (drop (unat (h_offset h)) bs)) buf = buf" by (simp add: put_at_def)
  have z': "(of_nat k :: u64) = 0 \<longleftrightarrow> k = 0" using uk by (auto simp: word_unat_eq_iff)
  have "fread dread fuel junk d vols buf n h = Inr (of_nat k, put_at 0 (take k (drop (unat (h_offset h)) bs)) buf, ?h)"
    and "fread dread fuel junk d vols buf n ?h = Inr (of_nat k, put_at 0 (take k (drop (unat (h_offset h)) bs)) buf, ?h)"
    using rd mn uk fit k(2) z z' h(1) by (auto simp: fread_def Let_def)
  then show ?thesis by (intro exI [of _ ?h]) simp
qed

end
