(* ===== verification/Pci.thy ===== *)
theory Pci
  imports CString Bytes
begin

text \<open>
  The ACPI tables and the PCI bus: \<^verbatim>\<open>src/drivers/acpi/sdt.cpp\<close>, \<^verbatim>\<open>madt.cpp\<close> and
  \<^verbatim>\<open>src/drivers/pci/pci.cpp\<close>. Memory, the tables of the firmware and the configuration
  space included, is a function from addresses to bytes; structures are read out of it at the
  offsets of their packed layouts. Identity mapping and log lines are not modelled.
\<close>

type_synonym bytes = "u64 \<Rightarrow> u8"

definition at_mem :: "bytes \<Rightarrow> u64 \<Rightarrow> nat \<Rightarrow> u8 list" where
  "at_mem m a n = map (\<lambda>i. m (a + of_nat i)) [0..<n]"

definition field8 :: "bytes \<Rightarrow> layout \<Rightarrow> string \<Rightarrow> u64 \<Rightarrow> u8" where
  "field8 m l f a = rd8 (at_mem m (a + of_nat (offset_of l f)) 1) 0"

definition field16 :: "bytes \<Rightarrow> layout \<Rightarrow> string \<Rightarrow> u64 \<Rightarrow> u16" where
  "field16 m l f a = rd16 (at_mem m (a + of_nat (offset_of l f)) 2) 0"

definition field32 :: "bytes \<Rightarrow> layout \<Rightarrow> string \<Rightarrow> u64 \<Rightarrow> u32" where
  "field32 m l f a = rd32 (at_mem m (a + of_nat (offset_of l f)) 4) 0"

definition field64 :: "bytes \<Rightarrow> layout \<Rightarrow> string \<Rightarrow> u64 \<Rightarrow> u64" where
  "field64 m l f a = rd64 (at_mem m (a + of_nat (offset_of l f)) 8) 0"

subsection \<open>The tables of the firmware\<close>

definition SDT_HEADER_layout :: layout where
  "SDT_HEADER_layout =
     [(''signature'', 4), (''length'', 4), (''revision'', 1), (''checksum'', 1), (''OEMID'', 6),
      (''OEMTableID'', 8), (''OEMRevision'', 4), (''CreatorID'', 4), (''CreatorRevision'', 4)]"

definition RSDP_layout :: layout where
  "RSDP_layout =
     [(''signature'', 8), (''checksum'', 1), (''OEMID'', 6), (''revision'', 1), (''RSDTAddress'', 4),
      (''length'', 4), (''XSDTAddress'', 8), (''extendedChecksum'', 1), (''reserved'', 3)]"

definition XSDT_entry :: "bytes \<Rightarrow> u64 \<Rightarrow> nat \<Rightarrow> u64" where
  "XSDT_entry m xsdt i = rd64 (at_mem m (xsdt + of_nat (layout_size SDT_HEADER_layout + 8 * i)) 8) 0"

text \<open>The table addresses in the XSDT; the count is an \<^verbatim>\<open>int\<close> made of a 64-bit difference.\<close>

definition entry_count :: "bytes \<Rightarrow> u64 \<Rightarrow> int" where
  "entry_count m xsdt =
     sint (ucast ((ucast (field32 m SDT_HEADER_layout ''length'' xsdt) - 36) div 8 :: u64) :: u32)"

fun find_sdt :: "bytes \<Rightarrow> u8 list \<Rightarrow> nat \<Rightarrow> u64 list \<Rightarrow> u64 option res" where
  "find_sdt m sig len [] = Inr None"
| "find_sdt m sig len (h # hs) =
     rbind (strcmp_count (at_mem m h len) sig len) (\<lambda>same.
       if same then Inr (Some h) else find_sdt m sig len hs)"

definition findACPITable :: "bytes \<Rightarrow> u64 \<Rightarrow> u8 list \<Rightarrow> u64 option res" where
  "findACPITable m rsdp sig =
     rbind (strlen sig) (\<lambda>len.
       let xsdt = field64 m RSDP_layout ''XSDTAddress'' rsdp
       in find_sdt m sig len (map (XSDT_entry m xsdt) [0..<nat (entry_count m xsdt)]))"

text \<open>The MADT: local APICs in an array of 32, the last I/O APIC, at most twelve entries.\<close>

definition MADT_layout :: layout where
  "MADT_layout = [(''hdr'', 36), (''LAPIC_addr'', 4), (''LAPIC_flags'', 4), (''ptr'', 2)]"

record madt_state =
  local_apics :: "u64 list"
  ioapic_entry :: "u64 option"

definition evaluateMADTEntry :: "u8 \<Rightarrow> u64 \<Rightarrow> madt_state \<Rightarrow> madt_state res" where
  "evaluateMADTEntry ty e s =
     (if ty = 0 then if length (local_apics s) < 32 then Inr (s\<lparr>local_apics := local_apics s @ [e]\<rparr>) else Inl Out_of_bounds
      else if ty = 1 then Inr (s\<lparr>ioapic_entry := Some e\<rparr>)
      else Inr s)"

text \<open>\<open>k\<close> is what is left of the twelve entries.\<close>

fun madt_loop :: "bytes \<Rightarrow> u64 \<Rightarrow> nat \<Rightarrow> u64 \<Rightarrow> madt_state \<Rightarrow> madt_state res" where
  "madt_loop m madtEnd 0 p s = Inr s"
| "madt_loop m madtEnd (Suc k) p s =
     (if p < madtEnd \<and> m (p + 1) \<noteq> 0
      then rbind (evaluateMADTEntry (m p) p s) (madt_loop m madtEnd k (p + ucast (m (p + 1))))
      else Inr s)"

definition parse_madt :: "bytes \<Rightarrow> u64 \<Rightarrow> madt_state \<Rightarrow> (u64 \<times> madt_state) res" where
  "parse_madt m rsdp s =
     rbind (findACPITable m rsdp [65, 80, 73, 67, 0]) (\<lambda>t.
       case t of
         None \<Rightarrow> Inl Null_deref
       | Some a \<Rightarrow>
           rbind (madt_loop m (a + ucast (field32 m SDT_HEADER_layout ''length'' a)) 12
                    (a + of_nat (offset_of MADT_layout ''ptr'')) (s\<lparr>local_apics := []\<rparr>)) (\<lambda>s.
             Inr (ucast (field32 m MADT_layout ''LAPIC_addr'' a), s)))"

subsection \<open>The PCI bus\<close>

definition DEVICE_CONFIG_layout :: layout where
  "DEVICE_CONFIG_layout =
     [(''baseAddress'', 8), (''PCISegGroup'', 2), (''startBus'', 1), (''endBus'', 1), (''reserved'', 4)]"

definition dev_common_hdr_layout :: layout where
  "dev_common_hdr_layout =
     [(''vendor_id'', 2), (''device_id'', 2), (''command'', 2), (''status'', 2), (''revision_id'', 1),
      (''prog_ifb'', 1), (''subclass'', 1), (''class_code'', 1), (''cache_size'', 1),
      (''latency_timer'', 1), (''header_type'', 1), (''BIST'', 1)]"

definition device_t_layout :: layout where
  "device_t_layout =
     [(''hdr'', 16), (''BARS'', 24), (''cis_ptr'', 4), (''subsystem_vendor_id'', 2), (''subsystem_id'', 2),
      (''expansion_rom_addr'', 4), (''capabillities_ptr'', 1), (''rsv0'', 7), (''intr_line'', 1),
      (''intr_pin'', 1), (''min_grant'', 1), (''max_latency'', 1)]"

text \<open>The test at every level: the device id, not the vendor id.\<close>

definition pci_absent :: "bytes \<Rightarrow> u64 \<Rightarrow> bool" where
  "pci_absent m a \<longleftrightarrow>
     (let d = field16 m dev_common_hdr_layout ''device_id'' a in d = 0 \<or> d = 0xFFFF)"

definition general_device :: "bytes \<Rightarrow> u64 \<Rightarrow> bool" where
  "general_device m a \<longleftrightarrow> field8 m dev_common_hdr_layout ''header_type'' a AND 0xF = 0"

text \<open>The devices found so far go into an array of 128.\<close>

definition enumerate_function :: "bytes \<Rightarrow> u64 \<Rightarrow> nat \<Rightarrow> u64 list \<Rightarrow> u64 list res" where
  "enumerate_function m device_addr function devs =
     (let func_addr = device_addr + push_bit 12 (of_nat function)
      in if pci_absent m func_addr then Inr devs
         else if general_device m func_addr
         then if length devs < 128 then Inr (devs @ [func_addr]) else Inl Out_of_bounds
         else Inr devs)"

fun each :: "(nat \<Rightarrow> u64 list \<Rightarrow> u64 list res) \<Rightarrow> nat list \<Rightarrow> u64 list \<Rightarrow> u64 list res" where
  "each f [] devs = Inr devs"
| "each f (i # js) devs = rbind (f i devs) (each f js)"

definition enumerate_device :: "bytes \<Rightarrow> u64 \<Rightarrow> nat \<Rightarrow> u64 list \<Rightarrow> u64 list res" where
  "enumerate_device m bus_address dev devs =
     (let device_addr = bus_address + push_bit 15 (of_nat dev)
      in if pci_absent m device_addr then Inr devs else each (enumerate_function m device_addr) [0..<8] devs)"

definition enumerate_bus :: "bytes \<Rightarrow> u64 \<Rightarrow> nat \<Rightarrow> u64 list \<Rightarrow> u64 list res" where
  "enumerate_bus m base bus devs =
     (let busAddr = base + push_bit 20 (of_nat bus)
      in if pci_absent m busAddr then Inr devs else each (enumerate_device m busAddr) [0..<32] devs)"

definition config_addr :: "u64 \<Rightarrow> nat \<Rightarrow> u64" where
  "config_addr mcfg i = mcfg + 44 + of_nat (layout_size DEVICE_CONFIG_layout * i)"

definition enumerate_config :: "bytes \<Rightarrow> u64 \<Rightarrow> nat \<Rightarrow> u64 list \<Rightarrow> u64 list res" where
  "enumerate_config m mcfg i devs =
     (let c = config_addr mcfg i
      in each (enumerate_bus m (field64 m DEVICE_CONFIG_layout ''baseAddress'' c))
           [unat (field8 m DEVICE_CONFIG_layout ''startBus'' c)..<unat (field8 m DEVICE_CONFIG_layout ''endBus'' c)] devs)"

definition config_count :: "bytes \<Rightarrow> u64 \<Rightarrow> int" where
  "config_count m mcfg =
     sint (ucast ((ucast (field32 m SDT_HEADER_layout ''length'' mcfg) - 44) div 16 :: u64) :: u32)"

text \<open>\<open>devs\<close> is the array when there is one already.\<close>

definition enumerate_pci :: "bytes \<Rightarrow> u64 \<Rightarrow> u64 list option \<Rightarrow> u64 list res" where
  "enumerate_pci m rsdp devs =
     rbind (findACPITable m rsdp [77, 67, 70, 71, 0]) (\<lambda>t.
       case devs of
         Some ds \<Rightarrow> Inr ds
       | None \<Rightarrow>
           (case t of
              None \<Rightarrow> Inl Null_deref
            | Some mcfg \<Rightarrow> each (enumerate_config m mcfg) [0..<nat (config_count m mcfg)] []))"

definition get_pci_dev :: "bytes \<Rightarrow> u64 list \<Rightarrow> u16 \<Rightarrow> u16 \<Rightarrow> u64 option" where
  "get_pci_dev m devs vendor dev =
     find (\<lambda>a. field16 m dev_common_hdr_layout ''vendor_id'' a = vendor \<and>
       field16 m dev_common_hdr_layout ''device_id'' a = dev) devs"

definition get_pci_class :: "bytes \<Rightarrow> u64 list \<Rightarrow> u8 \<Rightarrow> u8 \<Rightarrow> u8 \<Rightarrow> u64 option" where
  "get_pci_class m devs cls sub prog =
     find (\<lambda>a. field8 m dev_common_hdr_layout ''class_code'' a = cls \<and>
       field8 m dev_common_hdr_layout ''subclass'' a = sub \<and>
       field8 m dev_common_hdr_layout ''prog_ifb'' a = prog) devs"

text \<open>Names for the log.\<close>

definition c_string :: "string \<Rightarrow> u8 list" where
  "c_string s = map of_char s @ [0]"

definition getVendorString :: "u16 \<Rightarrow> u8 list res" where
  "getVendorString v =
     (if v = 0x8086 then Inr (c_string ''Intel'')
      else if v = 0x1022 then Inr (c_string ''AMD'')
      else if v = 0x10DE then Inr (c_string ''NVIDIA'')
      else if v = 0x1234 then Inr (c_string ''QEMU'')
      else if v = 0x10EC then Inr (c_string ''Realtek'')
      else itoa (ucast v) 16)"

definition getDeviceName :: "u16 \<Rightarrow> u16 \<Rightarrow> u8 list res" where
  "getDeviceName v d =
     (if v = 0x8086 \<and> d = 0x29C0 then Inr (c_string ''Express DRAM Controller'')
      else if v = 0x8086 \<and> d = 0x2918 then Inr (c_string ''LPC Interface Controller'')
      else if v = 0x8086 \<and> d = 0x2922 then Inr (c_string ''6 Port ACHI Controller'')
      else if v = 0x8086 \<and> d = 0x2930 then Inr (c_string ''SMBus Controller'')
      else if v = 0x10EC \<and> d = 0x8139 then Inr (c_string ''RTL8139 Network Controller'')
      else if v = 0x10EC \<and> d = 0x8169 then Inr (c_string ''RTL8169 Network Controller'')
      else itoa (ucast d) 16)"

subsection \<open>What the scan finds\<close>

text \<open>The specification: the general devices of the buses, in order.\<close>

definition pci_functions :: "bytes \<Rightarrow> u64 \<Rightarrow> u64 list" where
  "pci_functions m da =
     filter (\<lambda>a. \<not> pci_absent m a \<and> general_device m a) (map (\<lambda>f. da + push_bit 12 (of_nat f)) [0..<8])"

definition pci_bus :: "bytes \<Rightarrow> u64 \<Rightarrow> u64 list" where
  "pci_bus m ba =
     (if pci_absent m ba then []
      else concat (map (\<lambda>d. let a = ba + push_bit 15 (of_nat d) in if pci_absent m a then [] else pci_functions m a) [0..<32]))"

definition pci_segment :: "bytes \<Rightarrow> u64 \<Rightarrow> u64 list" where
  "pci_segment m c =
     concat (map (\<lambda>b. pci_bus m (field64 m DEVICE_CONFIG_layout ''baseAddress'' c + push_bit 20 (of_nat b)))
       [unat (field8 m DEVICE_CONFIG_layout ''startBus'' c)..<unat (field8 m DEVICE_CONFIG_layout ''endBus'' c)])"

text \<open>An enumeration that appends what \<open>g\<close> lists, while there is room.\<close>

definition appends :: "(u64 list \<Rightarrow> u64 list res) \<Rightarrow> u64 list \<Rightarrow> bool" where
  "appends f xs \<longleftrightarrow> (\<forall>devs. length devs \<le> 128 \<longrightarrow>
     f devs = (if length devs + length xs \<le> 128 then Inr (devs @ xs) else Inl Out_of_bounds))"

lemma appendsI [intro?]:
  "(\<And>devs. length devs \<le> 128 \<Longrightarrow> f devs = (if length devs + length xs \<le> 128 then Inr (devs @ xs) else Inl Out_of_bounds)) \<Longrightarrow>
   appends f xs"
  by (simp add: appends_def)

lemma appendsD:
  "appends f xs \<Longrightarrow> length devs \<le> 128 \<Longrightarrow>
   f devs = (if length devs + length xs \<le> 128 then Inr (devs @ xs) else Inl Out_of_bounds)"
  by (simp add: appends_def)

lemma each_appends:
  "(\<And>i. i \<in> set js \<Longrightarrow> appends (f i) (g i)) \<Longrightarrow> appends (each f js) (concat (map g js))"
proof (induction js)
  case (Cons i js)
  have i: "appends (f i) (g i)" and r: "appends (each f js) (concat (map g js))" using Cons by simp_all
  show ?case
  proof
    fix devs :: "u64 list" assume "length devs \<le> 128"
    with appendsD [OF i this] appendsD [OF r, of "devs @ g i"]
    show "each f (i # js) devs = (if length devs + length (concat (map g (i # js))) \<le> 128
      then Inr (devs @ concat (map g (i # js))) else Inl Out_of_bounds)" by simp
  qed
qed (simp add: appends_def)

lemma function_appends:
  "appends (enumerate_function m da f)
     (filter (\<lambda>a. \<not> pci_absent m a \<and> general_device m a) [da + push_bit 12 (of_nat f)])"
  by (simp add: appends_def enumerate_function_def Let_def)

lemma functions_appends: "appends (each (enumerate_function m a) [0..<8]) (pci_functions m a)"
proof -
  have c: "filter P (map h js) = concat (map (\<lambda>i. filter P [h i]) js)" for P :: "u64 \<Rightarrow> bool" and h js
    by (induction js) auto
  show ?thesis unfolding pci_functions_def c by (rule each_appends) (rule function_appends)
qed

lemma device_appends:
  "appends (enumerate_device m ba d)
     (let a = ba + push_bit 15 (of_nat d) in if pci_absent m a then [] else pci_functions m a)"
  using functions_appends [of m "ba + push_bit 15 (of_nat d)"]
  by (simp add: appends_def enumerate_device_def Let_def)

lemma bus_appends: "appends (enumerate_bus m base b) (pci_bus m (base + push_bit 20 (of_nat b)))"
proof -
  have "appends (each (enumerate_device m a) [0..<32])
    (concat (map (\<lambda>d. let a = a + push_bit 15 (of_nat d) in if pci_absent m a then [] else pci_functions m a) [0..<32]))" for a
    by (rule each_appends) (rule device_appends)
  then show ?thesis by (simp add: appends_def enumerate_bus_def pci_bus_def Let_def)
qed

lemma config_appends: "appends (enumerate_config m mcfg i) (pci_segment m (config_addr mcfg i))"
  unfolding enumerate_config_def pci_segment_def Let_def by (rule each_appends) (rule bus_appends)

text \<open>C15: The scan of the PCI bus finds exactly the general devices of the buses it covers, in order:
  for every segment of the MCFG the buses from the first up to but without the last, on each bus
  that answers at device 0, for each device that answers at function 0, the functions whose
  device id is neither 0 nor 0xFFFF and whose header is that of a general device. More than 128
  of them overrun the array, and a machine without an MCFG makes the scan dereference NULL. A lookup
  by class among any devices returns the first that matches, or nothing when none does. (The
  configuration space is taken to be mapped already.)\<close>

theorem pci_scan_complete:
  "enumerate_pci m rsdp None =
     (case findACPITable m rsdp [77, 67, 70, 71, 0] of
        Inl f \<Rightarrow> Inl f
      | Inr None \<Rightarrow> Inl Null_deref
      | Inr (Some mcfg) \<Rightarrow>
          let found = concat (map (\<lambda>i. pci_segment m (config_addr mcfg i)) [0..<nat (config_count m mcfg)])
          in if length found \<le> 128 then Inr found else Inl Out_of_bounds) \<and>
   (let hit = (\<lambda>a. field8 m dev_common_hdr_layout ''class_code'' a = cls \<and>
         field8 m dev_common_hdr_layout ''subclass'' a = sub \<and> field8 m dev_common_hdr_layout ''prog_ifb'' a = prog)
    in case get_pci_class m devs cls sub prog of
         None \<Rightarrow> \<forall>i < length devs. \<not> hit (devs ! i)
       | Some a \<Rightarrow> \<exists>i < length devs. a = devs ! i \<and> hit (devs ! i) \<and> (\<forall>j < i. \<not> hit (devs ! j)))"
proof (intro conjI)
  have found: "each (enumerate_config m mcfg) js [] =
      (if length xs \<le> 128 then Inr xs else Inl Out_of_bounds)"
    if "xs = concat (map (\<lambda>i. pci_segment m (config_addr mcfg i)) js)" for mcfg js xs
    using appendsD [OF each_appends [OF config_appends [of m mcfg]], of "[]" "\<lambda>i. i" js] that by simp
  show "enumerate_pci m rsdp None =
     (case findACPITable m rsdp [77, 67, 70, 71, 0] of
        Inl f \<Rightarrow> Inl f
      | Inr None \<Rightarrow> Inl Null_deref
      | Inr (Some mcfg) \<Rightarrow>
          let found = concat (map (\<lambda>i. pci_segment m (config_addr mcfg i)) [0..<nat (config_count m mcfg)])
          in if length found \<le> 128 then Inr found else Inl Out_of_bounds)"
    by (simp add: enumerate_pci_def Let_def found [OF refl] split: sum.split option.split)
next
  show "let hit = (\<lambda>a. field8 m dev_common_hdr_layout ''class_code'' a = cls \<and>
         field8 m dev_common_hdr_layout ''subclass'' a = sub \<and> field8 m dev_common_hdr_layout ''prog_ifb'' a = prog)
    in case get_pci_class m devs cls sub prog of
         None \<Rightarrow> \<forall>i < length devs. \<not> hit (devs ! i)
       | Some a \<Rightarrow> \<exists>i < length devs. a = devs ! i \<and> hit (devs ! i) \<and> (\<forall>j < i. \<not> hit (devs ! j))"
    unfolding Let_def get_pci_class_def
    by (auto simp: find_None_iff find_Some_iff all_set_conv_all_nth split: option.split)
qed

text \<open>A machine with one segment, one bus and one device on it.\<close>

definition one_device :: bytes where
  "one_device a =
     (if 0x100010 \<le> a then 0
      else if a = 0x1019 then 0x20
      else if a = 0x2004 then 44
      else if a = 0x2025 then 0x30
      else if a = 0x3000 then 77 else if a = 0x3001 then 67 else if a = 0x3002 then 70 else if a = 0x3003 then 71
      else if a = 0x3004 then 60
      else if a = 0x302E then 0x10
      else if a = 0x3037 then 1
      else if a = 0x100002 then 0x22 else if a = 0x100003 then 0x29
      else if a = 0x10000A then 6 else if a = 0x10000B then 1
      else 0)"

lemma one_device_mcfg: "findACPITable one_device 0x1000 [77, 67, 70, 71, 0] = Inr (Some 0x3000)"
  by code_simp

lemma one_device_absent:
  assumes "16 \<le> k" and "k < 2 ^ 32"
  shows "pci_absent one_device (0x100000 + of_nat k)"
proof -
  have u: "unat (0x100000 + of_nat k + of_nat j :: u64) = 0x100000 + k + j" if "j < 16" for j
    using assms that by (simp add: unat_add_no unat_of_nat_u64)
  have z: "one_device (0x100000 + of_nat k + of_nat j) = 0" if "j < 16" for j
    using u [OF that] assms(1) by (simp add: one_device_def word_le_nat_alt)
  have e: "0x100000 + of_nat k + 2 + 1 = (0x100000 + of_nat k + of_nat 3 :: u64)" by simp
  show ?thesis using z [of 2] z [of 3]
    by (simp add: pci_absent_def field16_def at_mem_def rd16_def dev_common_hdr_layout_def upt_rec algebra_simps)
qed

lemma push_of_nat: "push_bit n (of_nat d :: u64) = of_nat (d * 2 ^ n)"
  by (simp add: push_bit_eq_mult)

lemma one_device_found:
  "concat (map (\<lambda>i. pci_segment one_device (config_addr 0x3000 i)) [0..<nat (config_count one_device 0x3000)]) = [0x100000]"
proof -
  have n: "nat (config_count one_device 0x3000) = 1" by code_simp
  have f: "field64 one_device DEVICE_CONFIG_layout ''baseAddress'' (config_addr 0x3000 0) = 0x100000"
    "unat (field8 one_device DEVICE_CONFIG_layout ''startBus'' (config_addr 0x3000 0)) = 0"
    "unat (field8 one_device DEVICE_CONFIG_layout ''endBus'' (config_addr 0x3000 0)) = 1" by code_simp+
  have p: "\<not> pci_absent one_device 0x100000" "general_device one_device 0x100000" by code_simp+
  have up: "[0..<8] = 0 # [1..<8]" "[0..<32] = 0 # [1..<32]" by (simp_all add: upt_rec)
  have d: "pci_absent one_device (0x100000 + of_nat k * 32768)" if "Suc 0 \<le> k" "k < 32" for k
    using one_device_absent [of "k * 2 ^ 15"] that by simp
  have g: "\<not> (\<not> pci_absent one_device (0x100000 + of_nat (k * 2 ^ 12)) \<and> q)" if "k \<in> set [1..<8]" for k q
    using one_device_absent [of "k * 2 ^ 12"] that by auto
  have fn: "pci_functions one_device 0x100000 = [0x100000]"
    unfolding pci_functions_def push_of_nat up using p g by (auto simp: filter_map comp_def filter_empty_conv)
  have "pci_bus one_device 0x100000 = [0x100000]"
    unfolding pci_bus_def push_of_nat up Let_def using p(1) d fn by auto
  then have "pci_segment one_device (config_addr 0x3000 0) = [0x100000]"
    by (simp add: pci_segment_def f)
  then show ?thesis by (simp add: n)
qed

theorem pci_scan_complete_witness:
  "enumerate_pci one_device 0x1000 None = Inr [0x100000] \<and>
   get_pci_class one_device [0x100000] 1 6 0 = Some 0x100000"
proof -
  have c: "field8 one_device dev_common_hdr_layout ''class_code'' 0x100000 = 1"
    "field8 one_device dev_common_hdr_layout ''subclass'' 0x100000 = 6"
    "field8 one_device dev_common_hdr_layout ''prog_ifb'' 0x100000 = 0" by code_simp+
  from pci_scan_complete [where m = one_device and rsdp = "0x1000" and cls = 1 and sub = 6 and prog = 0 and devs = "[0x100000]", unfolded one_device_mcfg] show ?thesis
    by (auto simp: one_device_found Let_def c split: option.splits dest: spec [of _ 0])
qed

end
