(* ===== verification/Framebuffer.thy ===== *)
theory Framebuffer
  imports Vfs Page_Alloc Paging
begin

text \<open>
  The screen: \<^verbatim>\<open>src/drivers/vga/fbuf.cpp\<close>, \<^verbatim>\<open>fonts.cpp\<close>, \<^verbatim>\<open>nic_icon.cpp\<close> and the classes of
  \<^verbatim>\<open>include/drivers/vga\<close>. The two frame buffers are lists of 32-bit pixels, as long as the
  memory behind their addresses; \<open>font_bitmap\<close> is what follows the header of the font in the
  buffer it was read into. A C++ \<^verbatim>\<open>int\<close> that meets an unsigned number is an \<open>u32\<close>, one that
  meets only \<^verbatim>\<open>int\<close>s is an \<open>int\<close> that must stay in its range. The log lines are not modelled.
\<close>

subsection \<open>State\<close>

text \<open>The fields of the boot loader's structure that the kernel reads.\<close>

record limine_framebuffer =
  fb_width :: u64
  fb_height :: u64
  fb_pitch :: u64
  red_mask_shift :: u8
  green_mask_shift :: u8
  blue_mask_shift :: u8

record PSF_header_t =
  psf_magic :: u32
  psf_version :: u32
  header_sz :: u32
  psf_flags :: u32
  glyph_count :: u32
  glyph_size :: u32
  font_height :: u32
  font_width :: u32

record vga =
  fbuf_info :: "limine_framebuffer option"
  g_framebuffer1 :: "u32 list"
  g_framebuffer2 :: "u32 list"
  g_framebuffer_dirty :: bool
  framebufferSize :: u64
  font_hdr :: "PSF_header_t option"
  font_bitmap :: "u8 list"
  fg_color :: u32
  bg_color :: u32

definition fbuf :: "vga \<Rightarrow> limine_framebuffer res" where
  "fbuf s = (case fbuf_info s of None \<Rightarrow> Inl Null_deref | Some f \<Rightarrow> Inr f)"

definition font :: "vga \<Rightarrow> PSF_header_t res" where
  "font s = (case font_hdr s of None \<Rightarrow> Inl Null_deref | Some h \<Rightarrow> Inr h)"

subsection \<open>Colours\<close>

definition shifted :: "u8 \<Rightarrow> u8 \<Rightarrow> u32 res" where
  "shifted c k = (if unat k < 32 then Inr (push_bit (unat k) (ucast c)) else Inl Bad_shift)"

definition Color :: "u8 \<Rightarrow> u8 \<Rightarrow> u8 \<Rightarrow> vga \<Rightarrow> u32 res" where
  "Color r g b s =
     rbind (fbuf s) (\<lambda>f.
     rbind (shifted b (blue_mask_shift f)) (\<lambda>x.
     rbind (shifted g (green_mask_shift f)) (\<lambda>y.
     rbind (shifted r (red_mask_shift f)) (\<lambda>z. Inr (x OR y OR z)))))"

definition set_foreground :: "u32 \<Rightarrow> vga \<Rightarrow> vga" where
  "set_foreground c s = s\<lparr>fg_color := c\<rparr>"

definition set_background :: "u32 \<Rightarrow> vga \<Rightarrow> vga" where
  "set_background c s = s\<lparr>bg_color := c\<rparr>"

subsection \<open>Pixels\<close>

definition put_word :: "nat \<Rightarrow> u32 \<Rightarrow> vga \<Rightarrow> vga res" where
  "put_word i c s =
     (if i < length (g_framebuffer2 s) then Inr (s\<lparr>g_framebuffer2 := (g_framebuffer2 s)[i := c]\<rparr>)
      else Inl Out_of_bounds)"

text \<open>\<^verbatim>\<open>x + y * fbuf_info->pitch / 4\<close>, computed in 64 bits and kept in 32.\<close>

definition pixel_index :: "u32 \<Rightarrow> u32 \<Rightarrow> limine_framebuffer \<Rightarrow> u32" where
  "pixel_index x y f = ucast (scast x + (scast y * fb_pitch f) div 4 :: u64)"

definition putpixel :: "u32 \<Rightarrow> u32 \<Rightarrow> u32 \<Rightarrow> vga \<Rightarrow> vga res" where
  "putpixel x y c s =
     rbind (fbuf s) (\<lambda>f.
     rbind (put_word (unat (pixel_index x y f)) c s) (\<lambda>s. Inr (s\<lparr>g_framebuffer_dirty := True\<rparr>)))"

text \<open>
  \<^verbatim>\<open>for (int i = a; i < a + n; i++)\<close> with an unsigned \<^verbatim>\<open>n\<close>: the comparison is unsigned, so a
  sum that wraps lies below \<open>a\<close> and the body does not run.
\<close>

definition span :: "u32 \<Rightarrow> u32 \<Rightarrow> u32 list res" where
  "span a n =
     (if 2 ^ 32 \<le> unat a + unat n then Inr []
      else if n \<noteq> 0 \<and> unat a < 2 ^ 31 \<and> 2 ^ 31 \<le> unat a + unat n then Inl Signed_overflow
      else Inr (map (\<lambda>k. a + of_nat k) [0..<unat n]))"

definition fillRect :: "u32 \<Rightarrow> u32 \<Rightarrow> u32 \<Rightarrow> u32 \<Rightarrow> u32 \<Rightarrow> vga \<Rightarrow> vga res" where
  "fillRect x y c w h s =
     rbind (fbuf s) (\<lambda>f.
     rbind (span y h) (\<lambda>rows.
     rbind (for_each (\<lambda>i s.
         rbind (span x w) (\<lambda>cols.
           for_each (\<lambda>k. put_word (unat (pixel_index x i f + of_nat k)) c) [0..<length cols] s)) rows s)
       (\<lambda>s. Inr (s\<lparr>g_framebuffer_dirty := True\<rparr>))))"

subsection \<open>The buffers as a whole\<close>

text \<open>\<^verbatim>\<open>memcpy\<close> and \<^verbatim>\<open>memset\<close> count bytes.\<close>

definition copy_words :: "nat \<Rightarrow> u32 list \<Rightarrow> u32 list \<Rightarrow> u32 list res" where
  "copy_words n src dst =
     (if 4 * length src < n \<or> 4 * length dst < n then Inl Out_of_bounds
      else Inr (bytes_words (put_at 0 (take n (words_bytes src)) (words_bytes dst))))"

definition clear_words :: "nat \<Rightarrow> u32 list \<Rightarrow> u32 list res" where
  "clear_words n dst =
     (if 4 * length dst < n then Inl Out_of_bounds
      else Inr (bytes_words (put_at 0 (replicate n 0) (words_bytes dst))))"

definition repaintScreen :: "vga \<Rightarrow> vga res" where
  "repaintScreen s =
     rbind (copy_words (unat (framebufferSize s)) (g_framebuffer2 s) (g_framebuffer1 s)) (\<lambda>b.
       Inr (s\<lparr>g_framebuffer1 := b, g_framebuffer_dirty := False\<rparr>))"

definition clearScreen :: "vga \<Rightarrow> vga res" where
  "clearScreen s =
     rbind (clear_words (unat (framebufferSize s)) (g_framebuffer2 s)) (\<lambda>b.
       Inr (s\<lparr>g_framebuffer2 := b, g_framebuffer_dirty := True\<rparr>))"

text \<open>\<open>hw\<close> is the memory behind the address the boot loader gives, \<open>junk\<close> what the pages held.\<close>

definition framebuffer_init ::
  "nat \<Rightarrow> limine_framebuffer \<Rightarrow> u32 list \<Rightarrow> (nat \<Rightarrow> u32) \<Rightarrow> page_allocator \<Rightarrow> paging \<Rightarrow> vga \<Rightarrow>
   (page_allocator \<times> paging \<times> vga) res" where
  "framebuffer_init fuel f hw junk pa pg s =
     (let sz = fb_width f + fb_height f * fb_pitch f; n = sz div 0x1000 + 1
      in rbind (allocate_pages fuel n pa) (\<lambda>(a, pa).
         rbind (map_pages a a n pg) (\<lambda>pg.
           Inr (pa, pg, s\<lparr>fbuf_info := Some f, framebufferSize := sz, g_framebuffer1 := hw,
                          g_framebuffer2 := map junk [0..<unat n * 0x400], g_framebuffer_dirty := True\<rparr>))))"

subsection \<open>Characters\<close>

text \<open>The glyph of a negative \<^verbatim>\<open>char\<close> is looked up almost 4 GB beyond the table.\<close>

definition glyph_start :: "u8 \<Rightarrow> PSF_header_t \<Rightarrow> nat" where
  "glyph_start ascii h = unat (scast ascii * glyph_size h)"

text \<open>\<^verbatim>\<open>*glyph & (1 << (width - x + start_x))\<close>: the \<open>k\<close>-th pixel of a row, counted from the left.\<close>

definition glyph_pixel :: "PSF_header_t \<Rightarrow> nat \<Rightarrow> u32 \<Rightarrow> u32 \<Rightarrow> u8 list \<Rightarrow> bool res" where
  "glyph_pixel h glyph x start_x bits =
     (if length bits \<le> glyph then Inl Out_of_bounds
      else let n = unat (font_width h - x + start_x)
           in if 32 \<le> n then Inl Bad_shift
              else Inr ((ucast (bits ! glyph) :: u32) AND push_bit n 1 \<noteq> 0))"

definition glyph_step :: "PSF_header_t \<Rightarrow> nat" where
  "glyph_step h = (let n = unat (font_width h div 8 + 1) in if font_width h mod 8 = 0 then n - 1 else n)"

definition put_glyph_row :: "PSF_header_t \<Rightarrow> u32 \<Rightarrow> u32 \<Rightarrow> nat \<Rightarrow> vga \<Rightarrow> vga res" where
  "put_glyph_row h start_x y glyph s =
     rbind (span start_x (font_width h)) (\<lambda>xs.
       for_each (\<lambda>x s.
         rbind (glyph_pixel h glyph x start_x (font_bitmap s)) (\<lambda>b.
           putpixel x y (if b then fg_color s else bg_color s) s)) xs s)"

definition putchar :: "u32 \<Rightarrow> u32 \<Rightarrow> u8 \<Rightarrow> vga \<Rightarrow> vga res" where
  "putchar start_x start_y ascii s =
     rbind (font s) (\<lambda>h.
     rbind (span start_y (font_height h)) (\<lambda>ys.
       for_each (\<lambda>k. put_glyph_row h start_x (ys ! k) (glyph_start ascii h + k * glyph_step h))
         [0..<length ys] s))"

text \<open>The comparison of \<^verbatim>\<open>x\<close> with the width of the screen is one of 64-bit unsigned numbers.\<close>

fun putstring :: "u8 list \<Rightarrow> u32 \<Rightarrow> u32 \<Rightarrow> vga \<Rightarrow> vga res" where
  "putstring [] x y s = Inl Out_of_bounds"
| "putstring (c # cs) x y s =
     (if c = 0 then Inr s
      else rbind (fbuf s) (\<lambda>f. rbind (font s) (\<lambda>h.
        let wrap = scast x \<ge> fb_width f \<or> c = 10;
            y' = (if wrap then y + font_height h else y);
            x' = (if wrap then 0 else x)
        in if c = 10 then putstring cs x' y' s
           else rbind (putchar x' y' c s) (putstring cs (x' + font_width h) y'))))"

subsection \<open>Loading the font\<close>

definition psf_header :: "u8 list \<Rightarrow> PSF_header_t" where
  "psf_header bs =
     \<lparr>psf_magic = rd32 bs 0, psf_version = rd32 bs 4, header_sz = rd32 bs 8, psf_flags = rd32 bs 12,
      glyph_count = rd32 bs 16, glyph_size = rd32 bs 20, font_height = rd32 bs 24, font_width = rd32 bs 28\<rparr>"

text \<open>\<^verbatim>\<open>"/bin/font.psf"\<close>.\<close>

definition font_path :: "u8 list" where
  "font_path = [47, 98, 105, 110, 47, 102, 111, 110, 116, 46, 112, 115, 102, 0]"

text \<open>The result of \<^verbatim>\<open>fopen\<close> is not looked at; \<open>h\<close> is what the handle on the stack held.\<close>

definition initialize_font ::
  "('d \<Rightarrow> u64 \<Rightarrow> u32 \<Rightarrow> u8 list option) \<Rightarrow> nat \<Rightarrow> (nat \<Rightarrow> u8) \<Rightarrow> 'd \<Rightarrow> disk_vol_t list \<Rightarrow> file_handle \<Rightarrow>
   nat \<Rightarrow> u8 list \<Rightarrow> heap \<Rightarrow> vga \<Rightarrow> (heap \<times> vga) res" where
  "initialize_font dread fuel junk d vols h depth stamp hp s =
     rbind (string_of font_path) (\<lambda>path.
     rbind (fopen dread fuel junk d vols h path) (\<lambda>(r, h).
     rbind (kcalloc depth stamp 1 (h_filesize h) hp) (\<lambda>(p, hp).
     rbind (fread dread fuel junk d vols (if p = 0 then [] else replicate (unat (h_filesize h)) 0) (h_filesize h) h)
       (\<lambda>(n, buf, h).
         if p = 0 then Inl Null_deref
         else if length buf < 32 then Inl Out_of_bounds
         else let hdr = psf_header buf;
                  s = s\<lparr>font_hdr := Some hdr, font_bitmap := drop (unat (header_sz hdr)) buf\<rparr>
              in rbind (Color 255 255 255 s) (\<lambda>white.
                 rbind (Color 0 0 0 s) (\<lambda>black.
                   Inr (hp, set_background black (set_foreground white s))))))))"


subsection \<open>Pictures\<close>

record nic_image =
  signature :: "u8 list"
  img_w :: u32
  img_h :: u32
  img_data :: "u32 list"

definition cint :: "int \<Rightarrow> int res" where
  "cint i = (if - (2 ^ 31) \<le> i \<and> i < 2 ^ 31 then Inr i else Inl Signed_overflow)"

text \<open>\<^verbatim>\<open>NIC-1.0\<close>.\<close>

definition NIC_SIGNATURE :: "u8 list" where
  "NIC_SIGNATURE = [78, 73, 67, 45, 49, 46, 48, 0]"

definition scaled_index :: "nic_image \<Rightarrow> int \<Rightarrow> int \<Rightarrow> int \<Rightarrow> int \<Rightarrow> u32" where
  "scaled_index img i j w h =
     (let I = (of_int i * img_h img) div of_int h; J = (of_int j * img_w img) div of_int w
      in I * img_w img + J)"

definition drawImage :: "nic_image \<Rightarrow> int \<Rightarrow> int \<Rightarrow> int \<Rightarrow> int \<Rightarrow> vga \<Rightarrow> vga res" where
  "drawImage img x y w h s =
     rbind (strcmp_count (signature img) NIC_SIGNATURE 7) (\<lambda>same.
       if \<not> same then Inr s
       else for_each (\<lambda>i s.
         rbind (cint (i + y)) (\<lambda>r.
         rbind (fbuf s) (\<lambda>f.
           let at = pixel_index (of_int x) (of_int r) f
           in for_each (\<lambda>j s.
                let n = unat (scaled_index img i j w h)
                in if length (img_data img) \<le> n then Inl Out_of_bounds
                   else let rgba = img_data img ! n
                        in if rgba AND 0xFF \<noteq> 0 then put_word (unat (at + of_int j)) rgba s else Inr s)
              [0..w - 1] s))) [0..h - 1] s)"

definition closeImage :: "nat \<Rightarrow> u64 \<Rightarrow> page_allocator \<Rightarrow> page_allocator res" where
  "closeImage fuel img pa = free_pages fuel img pa"

subsection \<open>What is written\<close>

text \<open>
  A drawing operation is the partial map of the pixels it writes: \<open>painted s t R\<close> says that \<open>t\<close>
  is \<open>s\<close> with the pixels of \<open>R\<close> drawn.
\<close>

definition painted :: "vga \<Rightarrow> vga \<Rightarrow> (nat \<rightharpoonup> u32) \<Rightarrow> bool" where
  "painted s t R \<longleftrightarrow>
     (\<exists>b d. t = s\<lparr>g_framebuffer2 := b, g_framebuffer_dirty := d\<rparr> \<and> length b = length (g_framebuffer2 s) \<and>
        (\<forall>i < length b. b ! i = (case R i of Some c \<Rightarrow> c | None \<Rightarrow> g_framebuffer2 s ! i)))"

lemma paintedI:
  "length b = length (g_framebuffer2 s) \<Longrightarrow>
   (\<And>i. i < length b \<Longrightarrow> b ! i = (case R i of Some c \<Rightarrow> c | None \<Rightarrow> g_framebuffer2 s ! i)) \<Longrightarrow>
   painted s (s\<lparr>g_framebuffer2 := b, g_framebuffer_dirty := d\<rparr>) R"
  unfolding painted_def by blast

lemma paintedE:
  assumes "painted s t R"
  obtains b d where "t = s\<lparr>g_framebuffer2 := b, g_framebuffer_dirty := d\<rparr>"
    and "length b = length (g_framebuffer2 s)"
    and "\<forall>i < length b. b ! i = (case R i of Some c \<Rightarrow> c | None \<Rightarrow> g_framebuffer2 s ! i)"
  using assms unfolding painted_def by blast

lemma keep_vga: "s\<lparr>g_framebuffer2 := g_framebuffer2 s, g_framebuffer_dirty := g_framebuffer_dirty s\<rparr> = (s :: vga)"
  by simp

lemma painted_refl [simp]: "painted s s Map.empty"
  using paintedI [of "g_framebuffer2 s" s Map.empty "g_framebuffer_dirty s"] by (simp add: keep_vga)

lemma painted_trans:
  assumes "painted s t R" and "painted t u Q"
  shows "painted s u (R ++ Q)"
proof -
  obtain b d where t: "t = s\<lparr>g_framebuffer2 := b, g_framebuffer_dirty := d\<rparr>" "length b = length (g_framebuffer2 s)"
    "\<forall>i < length b. b ! i = (case R i of Some c \<Rightarrow> c | None \<Rightarrow> g_framebuffer2 s ! i)"
    using assms(1) by (rule paintedE)
  obtain b' d' where u: "u = t\<lparr>g_framebuffer2 := b', g_framebuffer_dirty := d'\<rparr>" "length b' = length (g_framebuffer2 t)"
    "\<forall>i < length b'. b' ! i = (case Q i of Some c \<Rightarrow> c | None \<Rightarrow> g_framebuffer2 t ! i)"
    using assms(2) by (rule paintedE)
  have l: "length b' = length (g_framebuffer2 s)" using t(1,2) u(2) by simp
  have "painted s (s\<lparr>g_framebuffer2 := b', g_framebuffer_dirty := d'\<rparr>) (R ++ Q)"
  proof (rule paintedI [OF l])
    fix i
    assume "i < length b'"
    then show "b' ! i = (case (R ++ Q) i of Some c \<Rightarrow> c | None \<Rightarrow> g_framebuffer2 s ! i)"
      using u(3) [rule_format, of i] t(3) [rule_format, of i] l t(1,2) by (cases "Q i") (simp_all add: map_add_def)
  qed
  then show ?thesis using t(1) u(1) by simp
qed

lemma painted_same [simp]:
  assumes "painted s t R"
  shows "fbuf_info t = fbuf_info s" "font_hdr t = font_hdr s" "font_bitmap t = font_bitmap s"
    "fg_color t = fg_color s" "bg_color t = bg_color s" "length (g_framebuffer2 t) = length (g_framebuffer2 s)"
    "framebufferSize t = framebufferSize s" "g_framebuffer1 t = g_framebuffer1 s"
proof -
  obtain b d where "t = s\<lparr>g_framebuffer2 := b, g_framebuffer_dirty := d\<rparr>" "length b = length (g_framebuffer2 s)"
    using assms unfolding painted_def by blast
  then show "fbuf_info t = fbuf_info s" "font_hdr t = font_hdr s" "font_bitmap t = font_bitmap s"
    "fg_color t = fg_color s" "bg_color t = bg_color s" "length (g_framebuffer2 t) = length (g_framebuffer2 s)"
    "framebufferSize t = framebufferSize s" "g_framebuffer1 t = g_framebuffer1 s"
    by simp_all
qed

lemma painted_fbuf [simp]: "painted s t R \<Longrightarrow> fbuf t = fbuf s"
  by (simp add: fbuf_def)

lemma painted_font [simp]: "painted s t R \<Longrightarrow> font t = font s"
  by (simp add: font_def)

lemma painted_dirty: "painted s t R \<Longrightarrow> painted s (t\<lparr>g_framebuffer_dirty := d\<rparr>) R"
  by (elim paintedE) (simp add: paintedI)

lemma painted_nth:
  "painted s t R \<Longrightarrow> i < length (g_framebuffer2 s) \<Longrightarrow>
   g_framebuffer2 t ! i = (case R i of Some c \<Rightarrow> c | None \<Rightarrow> g_framebuffer2 s ! i)"
  by (elim paintedE) simp

lemma put_word_painted:
  assumes "i < length (g_framebuffer2 s)"
  shows "\<exists>t. put_word i c s = Inr t \<and> painted s t [i \<mapsto> c]"
proof -
  have "painted s (s\<lparr>g_framebuffer2 := (g_framebuffer2 s)[i := c], g_framebuffer_dirty := g_framebuffer_dirty s\<rparr>) [i \<mapsto> c]"
    by (rule paintedI) (auto simp: nth_list_update assms)
  then show ?thesis using assms by (simp add: put_word_def)
qed

text \<open>A loop draws one layer after the other.\<close>

fun layers :: "(nat \<Rightarrow> nat \<rightharpoonup> u32) \<Rightarrow> nat \<Rightarrow> nat \<rightharpoonup> u32" where
  "layers Q 0 = Map.empty"
| "layers Q (Suc k) = layers Q k ++ Q k"

lemma for_each_painted:
  assumes "\<And>k t R. k < n \<Longrightarrow> painted s t R \<Longrightarrow> \<exists>u. f k t = Inr u \<and> painted t u (Q k)"
  shows "\<exists>t. for_each f [0..<n] s = Inr t \<and> painted s t (layers Q n)"
proof (rule for_each_upt_rule [where P = "\<lambda>k t. painted s t (layers Q k)"])
  fix k t
  assume "k < n" "painted s t (layers Q k)"
  then show "\<exists>u. f k t = Inr u \<and> painted s u (layers Q (Suc k))"
    using assms by (metis layers.simps(2) painted_trans)
qed simp

lemma layers_None: "layers Q n i = None \<longleftrightarrow> (\<forall>k < n. Q k i = None)"
  by (induction n) (auto simp: less_Suc_eq)

lemma layers_Some:
  assumes "k < n" and "Q k i = Some c" and "\<And>j. j < n \<Longrightarrow> j \<noteq> k \<Longrightarrow> Q j i = None"
  shows "layers Q n i = Some c"
  using assms
proof (induction n)
  case (Suc n)
  then show ?case
  proof (cases "k = n")
    case True
    then show ?thesis using Suc.prems(2) by (simp add: map_add_Some_iff)
  next
    case False
    then have "layers Q n i = Some c" using Suc by (metis less_antisym less_SucI)
    moreover have "Q n i = None" using Suc.prems(3) False by blast
    ultimately show ?thesis by (simp add: map_add_Some_iff)
  qed
qed simp

text \<open>The layers of a rectangle: row \<open>r\<close> of stride \<open>P\<close> from \<open>base\<close>, column \<open>j\<close> with colour \<open>col r j\<close>.\<close>

lemma layers_row:
  "layers (\<lambda>j. [base + j \<mapsto> col j]) w = (\<lambda>i. if base \<le> i \<and> i < base + w then Some (col (i - base)) else None)"
proof
  fix i
  show "layers (\<lambda>j. [base + j \<mapsto> col j]) w i = (if base \<le> i \<and> i < base + w then Some (col (i - base)) else None)"
  proof (cases "base \<le> i \<and> i < base + w")
    case True
    then have "layers (\<lambda>j. [base + j \<mapsto> col j]) w i = Some (col (i - base))"
      by (intro layers_Some [of "i - base"]) auto
    with True show ?thesis by simp
  next
    case False
    then have "layers (\<lambda>j. [base + j \<mapsto> col j]) w i = None" by (auto simp: layers_None)
    with False show ?thesis by (simp only: if_False)
  qed
qed

definition rect :: "nat \<Rightarrow> nat \<Rightarrow> nat \<Rightarrow> nat \<Rightarrow> nat \<Rightarrow> (nat \<Rightarrow> nat \<Rightarrow> u32) \<Rightarrow> nat \<rightharpoonup> u32" where
  "rect P x y w h col i =
     (let c = i mod P; r = i div P
      in if x \<le> c \<and> c < x + w \<and> y \<le> r \<and> r < y + h then Some (col (r - y) (c - x)) else None)"

lemma layers_rect:
  assumes "x + w \<le> P"
  shows "layers (\<lambda>r. layers (\<lambda>j. [(y + r) * P + x + j \<mapsto> col r j]) w) h = rect P x y w h col"
proof
  fix i
  have row: "(y + r) * P + x \<le> i \<and> i < (y + r) * P + x + w \<longleftrightarrow>
      i div P = y + r \<and> x \<le> i mod P \<and> i mod P < x + w" for r
  proof (cases "P = 0")
    case True
    then show ?thesis using assms by simp
  next
    case False
    have i: "i = i div P * P + i mod P" by simp
    show ?thesis
    proof
      assume a: "(y + r) * P + x \<le> i \<and> i < (y + r) * P + x + w"
      define d where "d = i - (y + r) * P"
      have d: "i = (y + r) * P + d" "x \<le> d" "d < x + w" using a by (auto simp: d_def)
      then have "d < P" using assms by simp
      then show "i div P = y + r \<and> x \<le> i mod P \<and> i mod P < x + w" using d by (simp add: False)
    next
      assume a: "i div P = y + r \<and> x \<le> i mod P \<and> i mod P < x + w"
      then have "i = (y + r) * P + i mod P" using i by metis
      with a show "(y + r) * P + x \<le> i \<and> i < (y + r) * P + x + w" by linarith
    qed
  qed
  have off: "i - ((y + r) * P + x) = i mod P - x" if "i div P = y + r" for r
  proof -
    have "i = (y + r) * P + i mod P" using that div_mult_mod_eq [of i P] by metis
    then show ?thesis by linarith
  qed
  show "layers (\<lambda>r. layers (\<lambda>j. [(y + r) * P + x + j \<mapsto> col r j]) w) h i = rect P x y w h col i"
  proof (cases "x \<le> i mod P \<and> i mod P < x + w \<and> y \<le> i div P \<and> i div P < y + h")
    case True
    have "layers (\<lambda>r. layers (\<lambda>j. [(y + r) * P + x + j \<mapsto> col r j]) w) h i = Some (col (i div P - y) (i mod P - x))"
    proof (rule layers_Some [of "i div P - y"])
      show "i div P - y < h" using True by linarith
      have "i div P = y + (i div P - y)" using True by linarith
      then show "layers (\<lambda>j. [(y + (i div P - y)) * P + x + j \<mapsto> col (i div P - y) j]) w i
          = Some (col (i div P - y) (i mod P - x))"
        using True row [of "i div P - y"] off [of "i div P - y"] by (simp add: layers_row)
      show "layers (\<lambda>j. [(y + r) * P + x + j \<mapsto> col r j]) w i = None" if "r < h" "r \<noteq> i div P - y" for r
        using that True row [of r] by (auto simp: layers_row)
    qed
    then show ?thesis using True by (simp add: rect_def Let_def)
  next
    case False
    have "layers (\<lambda>r. layers (\<lambda>j. [(y + r) * P + x + j \<mapsto> col r j]) w) h i = None"
      unfolding layers_None layers_row using False row by auto
    then show ?thesis using False by (auto simp: rect_def Let_def)
  qed
qed


subsection \<open>Drawing on a screen that fits\<close>

text \<open>
  \<open>screen s P N\<close>: the screen is set up with rows of \<open>P\<close> pixels and \<open>N\<close> rows of memory, small
  enough for the arithmetic of the code.
\<close>

definition screen :: "vga \<Rightarrow> nat \<Rightarrow> nat \<Rightarrow> bool" where
  "screen s P N \<longleftrightarrow>
     (\<exists>f. fbuf_info s = Some f \<and> fb_pitch f = of_nat (4 * P)) \<and>
     N * P \<le> length (g_framebuffer2 s) \<and> N * P < 2 ^ 31 \<and> N < 2 ^ 31 \<and> P < 2 ^ 29"

lemma screen_painted: "painted s t R \<Longrightarrow> screen t P N = screen s P N"
  by (simp add: screen_def)

lemma scast_u32_u64: "unat x < 2 ^ 31 \<Longrightarrow> (scast (x :: u32) :: u64) = of_nat (unat x)"
  using sint_of_nat_u32 [of "unat x"] by (simp add: scast_eq)

lemma pixel_index_screen:
  assumes "fb_pitch f = of_nat (4 * P)" and "c < P" and "r < N" and "N * P < 2 ^ 31" and "N < 2 ^ 31" and "P < 2 ^ 29"
  shows "unat (pixel_index (of_nat c) (of_nat r) f) = r * P + c"
proof -
  have rc: "r * P + c < N * P"
  proof -
    have "r * P + c < Suc r * P" using assms(2) by simp
    also have "\<dots> \<le> N * P" using assms(3) by (intro mult_right_mono) simp_all
    finally show ?thesis .
  qed
  have u: "unat (of_nat c :: u32) = c" "unat (of_nat r :: u32) = r"
    using assms by (simp_all add: unat_of_nat_u32)
  have m: "r * (4 * P) < 2 ^ 64"
  proof -
    have "r * (4 * P) \<le> 4 * (N * P)" using assms(3) by simp
    also have "\<dots> < 2 ^ 64" using assms(4) by simp
    finally show ?thesis .
  qed
  have "scast (of_nat r :: u32) * fb_pitch f = (of_nat (r * (4 * P)) :: u64)"
    using u assms by (simp add: scast_u32_u64)
  moreover have "unat ((of_nat (r * (4 * P)) :: u64) div 4) = r * P"
    using unat_div_distrib [of "of_nat (r * (4 * P)) :: u64" 4] unat_of_nat_u64 [OF m] by simp
  ultimately have d: "(scast (of_nat r :: u32) * fb_pitch f) div 4 = (of_nat (r * P) :: u64)"
    by (metis of_nat_unat_id)
  have lt: "r * P + c < 2 ^ 64" using rc assms(4) by simp
  have "scast (of_nat c :: u32) + (scast (of_nat r :: u32) * fb_pitch f) div 4 = (of_nat (r * P + c) :: u64)"
    unfolding d using u assms by (simp add: scast_u32_u64)
  then have "unat (pixel_index (of_nat c) (of_nat r) f) = unat (ucast (of_nat (r * P + c) :: u64) :: u32)"
    by (simp only: pixel_index_def)
  also have "\<dots> = r * P + c"
    using rc assms(4) unat_of_nat_u64 [OF lt] by (simp add: unsigned_ucast_eq take_bit_nat_eq_self)
  finally show ?thesis .
qed

lemma span_inside:
  assumes "a + n < 2 ^ 31"
  shows "span (of_nat a) (of_nat n) = Inr (map (\<lambda>k. of_nat (a + k)) [0..<n])"
proof -
  have "unat (of_nat a :: u32) = a" "unat (of_nat n :: u32) = n" using assms by (simp_all add: unat_of_nat_u32)
  then show ?thesis using assms by (auto simp: span_def)
qed


lemma screenD:
  assumes "screen s P N"
  obtains f where "fbuf_info s = Some f" and "fbuf s = Inr f"
    and "\<And>c r. c < P \<Longrightarrow> r < N \<Longrightarrow> unat (pixel_index (of_nat c) (of_nat r) f) = r * P + c"
    and "\<And>c r. c < P \<Longrightarrow> r < N \<Longrightarrow> r * P + c < length (g_framebuffer2 s)"
    and "P < 2 ^ 29" and "N < 2 ^ 31" and "N * P < 2 ^ 31"
proof -
  from assms obtain f where f: "fbuf_info s = Some f" "fb_pitch f = of_nat (4 * P)"
    and b: "N * P \<le> length (g_framebuffer2 s)" "N * P < 2 ^ 31" "N < 2 ^ 31" "P < 2 ^ 29"
    unfolding screen_def by blast
  have "r * P + c < length (g_framebuffer2 s)" if "c < P" "r < N" for c r
  proof -
    have "r * P + c < Suc r * P" using that(1) by simp
    also have "\<dots> \<le> N * P" using that(2) by (intro mult_right_mono) simp_all
    finally show ?thesis using b(1) by simp
  qed
  moreover have "unat (pixel_index (of_nat c) (of_nat r) f) = r * P + c" if "c < P" "r < N" for c r
    using pixel_index_screen [OF f(2) that b(2,3,4)] .
  ultimately show thesis using f b by (intro that) (simp_all add: fbuf_def)
qed

lemma putpixel_painted:
  assumes "screen s P N" and "c < P" and "r < N"
  shows "\<exists>t. putpixel (of_nat c) (of_nat r) col s = Inr t \<and> painted s t [r * P + c \<mapsto> col]"
proof -
  obtain f where f: "fbuf s = Inr f" "unat (pixel_index (of_nat c) (of_nat r) f) = r * P + c"
    "r * P + c < length (g_framebuffer2 s)"
    using screenD [OF assms(1)] assms(2,3) by metis
  obtain t where "put_word (r * P + c) col s = Inr t" "painted s t [r * P + c \<mapsto> col]"
    using put_word_painted [OF f(3)] by blast
  then show ?thesis using f by (simp add: putpixel_def painted_dirty)
qed

lemma fillRect_painted:
  assumes "screen s P N" and "x + w \<le> P" and "y + h \<le> N"
  shows "\<exists>t. fillRect (of_nat x) (of_nat y) c (of_nat w) (of_nat h) s = Inr t \<and>
    painted s t (rect P x y w h (\<lambda>_ _. c))"
proof -
  obtain f where f: "fbuf s = Inr f" "P < 2 ^ 29" "N < 2 ^ 31" "N * P < 2 ^ 31"
    and idx: "\<And>c r. c < P \<Longrightarrow> r < N \<Longrightarrow> unat (pixel_index (of_nat c) (of_nat r) f) = r * P + c"
    and len: "\<And>c r. c < P \<Longrightarrow> r < N \<Longrightarrow> r * P + c < length (g_framebuffer2 s)"
    using assms(1) by (rule screenD) blast
  have rows: "span (of_nat y) (of_nat h) = Inr (map (\<lambda>k. of_nat (y + k)) [0..<h])"
    using span_inside [of y h] assms(3) f by simp
  have cols: "span (of_nat x) (of_nat w) = Inr (map (\<lambda>k. of_nat (x + k)) [0..<w])"
    using span_inside [of x w] assms(2) f by simp
  define row where "row i t = for_each (\<lambda>k. put_word (unat (pixel_index (of_nat x) (of_nat (y + i)) f + of_nat k)) c) [0..<w] t"
    for i t
  have "\<exists>t. for_each row [0..<h] s = Inr t \<and> painted s t (layers (\<lambda>r. layers (\<lambda>j. [(y + r) * P + x + j \<mapsto> c]) w) h)"
  proof (rule for_each_painted)
    fix i t R
    assume i: "i < h" and p: "painted s t R"
    show "\<exists>u. row i t = Inr u \<and> painted t u (layers (\<lambda>j. [(y + i) * P + x + j \<mapsto> c]) w)"
      unfolding row_def
    proof (rule for_each_painted)
      fix k t' R'
      assume k: "k < w" and p': "painted t t' R'"
      have c: "x + k < P" "x < P" "y + i < N" using k i assms(2,3) by simp_all
      have l: "(y + i) * P + (x + k) < length (g_framebuffer2 s)" using len [OF c(1,3)] .
      have lt: "(y + i) * P + (x + k) < 2 ^ 31"
      proof -
        have "(y + i) * P + (x + k) < Suc (y + i) * P" using c(1) by simp
        also have "\<dots> \<le> N * P" using c(3) by (intro mult_right_mono) simp_all
        finally show ?thesis using f(4) by simp
      qed
      have "pixel_index (of_nat x) (of_nat (y + i)) f = of_nat ((y + i) * P + x)"
        using idx [OF c(2,3)] by (metis of_nat_unat_id)
      then have "unat (pixel_index (of_nat x) (of_nat (y + i)) f + of_nat k) = (y + i) * P + x + k"
        using lt unat_of_nat_u32 [of "(y + i) * P + x + k"] by (simp flip: of_nat_add of_nat_mult)
      then show "\<exists>u. put_word (unat (pixel_index (of_nat x) (of_nat (y + i)) f + of_nat k)) c t' = Inr u \<and>
          painted t' u [(y + i) * P + x + k \<mapsto> c]"
        using put_word_painted [of "(y + i) * P + x + k" t' c] l p p' by (simp add: add.assoc)
    qed
  qed
  then obtain t where t: "for_each row [0..<h] s = Inr t" "painted s t (rect P x y w h (\<lambda>_ _. c))"
    using layers_rect [OF assms(2), of y "\<lambda>_ _. c" h] by auto
  have "fillRect (of_nat x) (of_nat y) c (of_nat w) (of_nat h) s =
      rbind (for_each row [0..<h] s) (\<lambda>s. Inr (s\<lparr>g_framebuffer_dirty := True\<rparr>))"
    by (simp add: fillRect_def f(1) rows cols for_each_map row_def [abs_def])
  then show ?thesis using t by (simp add: painted_dirty)
qed

text \<open>Column \<open>j\<close> of a row of a glyph: bit \<open>width - j\<close> of its first byte.\<close>

definition glyph_bit :: "PSF_header_t \<Rightarrow> u8 list \<Rightarrow> u8 \<Rightarrow> nat \<Rightarrow> nat \<Rightarrow> bool" where
  "glyph_bit h bits ascii r j = bit (bits ! (glyph_start ascii h + r * glyph_step h)) (unat (font_width h) - j)"

lemma glyph_pixel_bit:
  assumes "glyph < length bits" and "j < unat (font_width h)" and "unat (font_width h) < 32" and "x + j < 2 ^ 31"
  shows "glyph_pixel h glyph (of_nat (x + j)) (of_nat x) bits = Inr (bit (bits ! glyph) (unat (font_width h) - j))"
proof -
  have "font_width h - of_nat (x + j) + of_nat x = of_nat (unat (font_width h) - j)"
    using assms(2) by (simp add: of_nat_diff)
  moreover have "unat (of_nat (unat (font_width h) - j) :: u32) = unat (font_width h) - j"
    using assms(3) by (simp add: unat_of_nat_u32)
  moreover have "(ucast (b :: u8) :: u32) AND push_bit n 1 \<noteq> 0 \<longleftrightarrow> bit b n" if "n < 32" for b n
    using that by (simp add: bit_ucast_iff del: push_bit_of_1 flip: bit_iff_and_push_bit_not_eq_0)
  ultimately show ?thesis using assms(1,3) by (simp add: glyph_pixel_def Let_def)
qed


lemma put_glyph_row_painted:
  assumes "screen s P N" and "x + unat (font_width h) \<le> P" and "r < N" and "unat (font_width h) < 32"
    and "glyph < length (font_bitmap s)"
  shows "\<exists>t. put_glyph_row h (of_nat x) (of_nat r) glyph s = Inr t \<and>
    painted s t (layers (\<lambda>j. [r * P + x + j \<mapsto>
      if bit (font_bitmap s ! glyph) (unat (font_width h) - j) then fg_color s else bg_color s]) (unat (font_width h)))"
proof -
  have P: "P < 2 ^ 29" using assms(1) by (simp add: screen_def)
  have cols: "span (of_nat x) (font_width h) = Inr (map (\<lambda>k. of_nat (x + k)) [0..<unat (font_width h)])"
    using span_inside [of x "unat (font_width h)"] assms(2) P by simp
  define body where "body k t = rbind (glyph_pixel h glyph (of_nat (x + k)) (of_nat x) (font_bitmap t))
      (\<lambda>b. putpixel (of_nat (x + k)) (of_nat r) (if b then fg_color t else bg_color t) t)" for k t
  have "\<exists>t. for_each body [0..<unat (font_width h)] s = Inr t \<and>
    painted s t (layers (\<lambda>j. [r * P + x + j \<mapsto>
      if bit (font_bitmap s ! glyph) (unat (font_width h) - j) then fg_color s else bg_color s]) (unat (font_width h)))"
  proof (rule for_each_painted)
    fix k t R
    assume k: "k < unat (font_width h)" and p: "painted s t R"
    have "glyph_pixel h glyph (of_nat (x + k)) (of_nat x) (font_bitmap t) =
        Inr (bit (font_bitmap s ! glyph) (unat (font_width h) - k))"
      using glyph_pixel_bit [of glyph "font_bitmap s" k h x] k assms(2,4,5) P p by simp
    moreover have "x + k < P" "screen t P N" using k assms(1,2) screen_painted [OF p] by simp_all
    ultimately show "\<exists>u. body k t = Inr u \<and> painted t u [r * P + x + k \<mapsto>
        if bit (font_bitmap s ! glyph) (unat (font_width h) - k) then fg_color s else bg_color s]"
      using putpixel_painted [of t P N "x + k" r] assms(3) p unfolding body_def by (simp add: add.assoc)
  qed
  then show ?thesis by (simp add: put_glyph_row_def cols for_each_map body_def [abs_def])
qed

lemma putchar_painted:
  assumes "screen s P N" and "font_hdr s = Some h" and "unat (font_width h) < 32"
    and "x + unat (font_width h) \<le> P" and "y + unat (font_height h) \<le> N"
    and "glyph_start c h + unat (font_height h) * glyph_step h \<le> length (font_bitmap s)" and "0 < glyph_step h"
  shows "\<exists>t. putchar (of_nat x) (of_nat y) c s = Inr t \<and>
    painted s t (rect P x y (unat (font_width h)) (unat (font_height h))
      (\<lambda>r j. if glyph_bit h (font_bitmap s) c r j then fg_color s else bg_color s))"
proof -
  have N: "N < 2 ^ 31" using assms(1) by (simp add: screen_def)
  have rows: "span (of_nat y) (font_height h) = Inr (map (\<lambda>k. of_nat (y + k)) [0..<unat (font_height h)])"
    using span_inside [of y "unat (font_height h)"] assms(5) N by simp
  define row where "row k = put_glyph_row h (of_nat x) (of_nat (y + k)) (glyph_start c h + k * glyph_step h)" for k
  have "\<exists>t. for_each row [0..<unat (font_height h)] s = Inr t \<and>
    painted s t (layers (\<lambda>r. layers (\<lambda>j. [(y + r) * P + x + j \<mapsto>
      if glyph_bit h (font_bitmap s) c r j then fg_color s else bg_color s]) (unat (font_width h))) (unat (font_height h)))"
  proof (rule for_each_painted)
    fix k t R
    assume k: "k < unat (font_height h)" and p: "painted s t R"
    have g: "glyph_start c h + k * glyph_step h < length (font_bitmap s)"
    proof -
      have "k * glyph_step h < unat (font_height h) * glyph_step h" using k assms(7) by simp
      then show ?thesis using assms(6) by linarith
    qed
    moreover have "screen t P N" "y + k < N" using assms(1,5) k screen_painted [OF p] by simp_all
    ultimately show "\<exists>u. row k t = Inr u \<and> painted t u (layers (\<lambda>j. [(y + k) * P + x + j \<mapsto>
        if glyph_bit h (font_bitmap s) c k j then fg_color s else bg_color s]) (unat (font_width h)))"
      using put_glyph_row_painted [of t P N x h "y + k" "glyph_start c h + k * glyph_step h"] assms(3,4) p
      unfolding row_def by (simp add: glyph_bit_def cong: if_cong)
  qed
  then have "\<exists>t. for_each row [0..<unat (font_height h)] s = Inr t \<and>
    painted s t (rect P x y (unat (font_width h)) (unat (font_height h))
      (\<lambda>r j. if glyph_bit h (font_bitmap s) c r j then fg_color s else bg_color s))"
    using layers_rect [OF assms(4)] by simp
  moreover have "putchar (of_nat x) (of_nat y) c s = for_each row [0..<unat (font_height h)] s"
    by (simp add: putchar_def font_def assms(2) rows row_def [abs_def]) (rule for_each_cong, simp_all)
  ultimately show ?thesis by simp
qed


text \<open>A pixel of the screen is inside a rectangle or outside.\<close>

lemma rect_inside:
  "j < w \<Longrightarrow> r < h \<Longrightarrow> x + w \<le> P \<Longrightarrow> rect P x y w h col ((y + r) * P + x + j) = Some (col r j)"
proof -
  assume a: "j < w" "r < h" "x + w \<le> P"
  have "((y + r) * P + x + j) div P = y + r" "((y + r) * P + x + j) mod P = x + j"
    using a by (simp_all add: add.assoc)
  then show ?thesis using a by (simp add: rect_def)
qed

lemma rect_outside:
  "\<not> (x \<le> i mod P \<and> i mod P < x + w \<and> y \<le> i div P \<and> i div P < y + h) \<Longrightarrow> rect P x y w h col i = None"
  by (auto simp: rect_def Let_def)

lemma rect_in_screen:
  assumes "screen s P N" and "j < w" and "r < h" and "x + w \<le> P" and "y + h \<le> N"
  shows "(y + r) * P + x + j < length (g_framebuffer2 s)"
proof -
  have "(y + r) * P + (x + j) < Suc (y + r) * P" using assms(2,4) by simp
  also have "\<dots> \<le> N * P" using assms(3,5) by (intro mult_right_mono) simp_all
  finally show ?thesis using assms(1) by (simp add: screen_def add.assoc)
qed

lemma glyph_step_value: "unat (font_width h) < 2 ^ 31 \<Longrightarrow> glyph_step h = (unat (font_width h) + 7) div 8"
proof -
  assume w: "unat (font_width h) < 2 ^ 31"
  have "unat (font_width h div 8 + 1) = unat (font_width h) div 8 + 1"
    using w by (subst unat_add_no32) (simp_all add: unat_div)
  moreover have "font_width h mod 8 = 0 \<longleftrightarrow> unat (font_width h) mod 8 = 0"
    by (simp add: word_unat_eq_iff unat_mod)
  ultimately show ?thesis unfolding glyph_step_def Let_def by (auto; presburger)
qed

text \<open>C37: A character that fits on the screen, of a font less than 32 pixels wide, is drawn in its cell and
  nowhere else, every pixel of the cell in the foreground or the background colour. A row of the glyph takes
  the width in bits, rounded up to bytes, and column \<open>j\<close> shows bit \<open>width - j\<close> of its first byte:
  the columns up to \<open>width - 8\<close> are always background. For a font eight pixels wide these are the
  first column, and column \<open>j\<close> shows what the glyph has in column \<open>j - 1\<close>, bit \<open>8 - j\<close>; its last
  column is never drawn.\<close>

theorem putchar_draws_shifted:
  assumes "screen s P N" and "font_hdr s = Some h" and W: "W = unat (font_width h)" "0 < W" "W < 32" and H: "H = unat (font_height h)"
    and "x + W \<le> P" and "y + H \<le> N"
    and start: "start = unat (scast c * glyph_size h)" and "start + H * ((W + 7) div 8) \<le> length (font_bitmap s)"
  shows "\<exists>t. putchar (of_nat x) (of_nat y) c s = Inr t \<and>
    (\<forall>r < H. \<forall>j < W. g_framebuffer2 t ! ((y + r) * P + x + j) =
       (if bit (font_bitmap s ! (start + r * ((W + 7) div 8))) (W - j) then fg_color s else bg_color s)) \<and>
    (\<forall>r < H. \<forall>j < W. j + 8 \<le> W \<longrightarrow> g_framebuffer2 t ! ((y + r) * P + x + j) = bg_color s) \<and>
    length (g_framebuffer2 t) = length (g_framebuffer2 s) \<and>
    (\<forall>i < length (g_framebuffer2 s).
       \<not> (x \<le> i mod P \<and> i mod P < x + W \<and> y \<le> i div P \<and> i div P < y + H) \<longrightarrow>
       g_framebuffer2 t ! i = g_framebuffer2 s ! i)"
proof -
  let ?col = "\<lambda>r j. if glyph_bit h (font_bitmap s) c r j then fg_color s else bg_color s"
  have step: "glyph_step h = (W + 7) div 8" using glyph_step_value [of h] W by simp
  have pos: "0 < (W + 7) div 8" using W(2) by (simp add: div_greater_zero_iff)
  have g: "glyph_start c h = start" by (simp add: glyph_start_def start)
  have b: "glyph_bit h (font_bitmap s) c r j = bit (font_bitmap s ! (start + r * ((W + 7) div 8))) (W - j)" for r j
    by (simp add: glyph_bit_def g step W(1))
  obtain t where t: "putchar (of_nat x) (of_nat y) c s = Inr t"
    "painted s t (rect P x y W H ?col)"
    using putchar_painted [OF assms(1,2), of x y c] W H assms(7,8,10) pos by (auto simp: g step)
  have cell: "g_framebuffer2 t ! ((y + r) * P + x + j) = ?col r j" if "r < H" "j < W" for r j
    using painted_nth [OF t(2) rect_in_screen [OF assms(1) that(2,1) assms(7,8)]]
      rect_inside [OF that(2,1) assms(7), of y ?col] by simp
  have left: "g_framebuffer2 t ! ((y + r) * P + x + j) = bg_color s" if "r < H" "j < W" "j + 8 \<le> W" for r j
  proof -
    have "\<not> bit v (W - j)" for v :: u8 using bit_imp_le_length [of v "W - j"] that(3) by auto
    then show ?thesis using cell [OF that(1,2)] by (simp add: b)
  qed
  have "g_framebuffer2 t ! i = g_framebuffer2 s ! i" if "i < length (g_framebuffer2 s)"
    "\<not> (x \<le> i mod P \<and> i mod P < x + W \<and> y \<le> i div P \<and> i div P < y + H)" for i
    using painted_nth [OF t(2) that(1)] rect_outside [OF that(2), of ?col] by simp
  then show ?thesis using t(1) painted_same(6) [OF t(2)] cell left unfolding b by blast
qed

definition tiny_font :: PSF_header_t where
  "tiny_font = \<lparr>psf_magic = 0x864AB572, psf_version = 0, header_sz = 32, psf_flags = 0, glyph_count = 2,
     glyph_size = 2, font_height = 2, font_width = 8\<rparr>"

definition tiny_screen :: vga where
  "tiny_screen = \<lparr>fbuf_info = Some \<lparr>fb_width = 10, fb_height = 3, fb_pitch = 40, red_mask_shift = 16,
       green_mask_shift = 8, blue_mask_shift = 0\<rparr>,
     g_framebuffer1 = replicate 30 0, g_framebuffer2 = replicate 30 0, g_framebuffer_dirty = False,
     framebufferSize = 120, font_hdr = Some tiny_font, font_bitmap = [0, 0, 0x81, 0xFF], fg_color = 1, bg_color = 2\<rparr>"

theorem putchar_draws_shifted_witness:
  "\<exists>t. putchar 1 1 1 tiny_screen = Inr t \<and> g_framebuffer2 t ! 11 = 2 \<and> g_framebuffer2 t ! 12 = 1 \<and>
     g_framebuffer2 t ! 18 = 2 \<and> g_framebuffer2 t ! 28 = 1"
proof -
  have s: "screen tiny_screen 10 3" "font_hdr tiny_screen = Some tiny_font" by (simp_all add: screen_def tiny_screen_def)
  have g: "8 = unat (font_width tiny_font)" "2 = unat (font_height tiny_font)" "2 = unat (scast (1 :: u8) * glyph_size tiny_font)"
    by (simp_all add: tiny_font_def)
  have b: "2 + 2 * ((8 + 7) div 8) \<le> length (font_bitmap tiny_screen)" "0 < (8 :: nat)" "8 < (32 :: nat)"
    "1 + 8 \<le> (10 :: nat)" "1 + 2 \<le> (3 :: nat)" by (simp_all add: tiny_screen_def)
  from putchar_draws_shifted [OF s g(1) b(2,3) g(2) b(4,5) g(3) b(1)] obtain t where t: "putchar 1 1 1 tiny_screen = Inr t"
    "\<forall>r < 2. \<forall>j < 8. g_framebuffer2 t ! ((1 + r) * 10 + 1 + j) =
       (if bit (font_bitmap tiny_screen ! (2 + r * ((8 + 7) div 8))) (8 - j) then fg_color tiny_screen else bg_color tiny_screen)"
    by auto
  from t(2) [rule_format, of 0 0] t(2) [rule_format, of 0 1] t(2) [rule_format, of 0 7] t(2) [rule_format, of 1 7] show ?thesis
    using t(1) by (auto simp: tiny_screen_def)
qed


text \<open>The font is never loaded. The path of the font, like every path that begins with a slash, names
  drive -1 as the volume layer reads it: unless a volume was registered under such numbers,
  \<^verbatim>\<open>initialize_font\<close> dereferences NULL. At boot no volume is registered at all.\<close>

lemma font_is_never_loaded:
  assumes "list_all (\<lambda>v. drive_number v \<noteq> - 1) vols"
  shows "initialize_font dread fuel junk d vols h depth stamp hp s = Inl Null_deref"
proof -
  have "holds font_path (butlast font_path)" "length (butlast font_path) < 2 ^ 31"
    by (simp_all add: font_path_def)
  then obtain path where path: "string_of font_path = Inr path" "str_ok path" "stext path = butlast font_path"
    using string_of_ok by blast
  then have t: "stext path = 47 # 98 # 105 # [110, 47, 102, 111, 110, 116, 46, 112, 115, 102]"
    by (simp add: font_path_def)
  have "find_vol (- 1) b vols = None" for b
    using assms by (induction vols) auto
  then have "get_vol_driver (digit_of 47) (digit_of 105) vols = None"
    by (simp add: get_vol_driver_def digit_of_def)
  then have "path_volume vols path = Inl Null_deref"
    using path_volume_ok [OF path(2) t, of vols] by auto
  then show ?thesis
    by (simp add: initialize_font_def path(1) fopen_def get_file_entry_def)
qed

end
