(* ===== verification/Terminal.thy ===== *)
theory Terminal
  imports Framebuffer Float64 "HOL-Library.Signed_Division"
begin

text \<open>
  The terminal and the shell on it: \<^verbatim>\<open>src/kernel/builtins/shell.cpp\<close>, \<^verbatim>\<open>login.cpp\<close>,
  \<^verbatim>\<open>fetch.cpp\<close> and \<^verbatim>\<open>fs_view.cpp\<close>. The state holds the globals these files share and the screen
  they draw on. \<^verbatim>\<open>terminal_putc\<close> and \<^verbatim>\<open>run_command\<close> call each other: a key is an input, what a
  command prints is not, so the function that runs a command is an argument of the one that
  takes a character. Opening a file is \<open>fo\<close>, the \<^verbatim>\<open>fopen\<close> of \<open>Vfs\<close> on the mounted volumes.
\<close>

record terminal =
  vga_of :: vga
  logged_in :: bool
  password :: "u8 list option"
  terminal_cols :: int
  terminal_rows :: int
  terminal_x :: int
  terminal_y :: int
  print_lock :: spinlock_t
  input_buffer :: "u8 list"
  input_pos :: int
  current_working_directory :: "u8 list"
  cpu_count :: "u64 option"
  heap_blk_count :: u64
  heap_blk_size :: u64
  millis_since_boot :: u64

definition cstr :: "string \<Rightarrow> u8 list" where
  "cstr s = map of_char s @ [0]"

definition cstr_line :: "string \<Rightarrow> u8 list" where
  "cstr_line s = map of_char s @ [10, 0]"

subsection \<open>The screen\<close>

text \<open>Running a drawing operation on the screen of a terminal.\<close>

definition draw :: "(vga \<Rightarrow> vga res) \<Rightarrow> terminal \<Rightarrow> terminal res" where
  "draw f t = rbind (f (vga_of t)) (\<lambda>v. Inr (t\<lparr>vga_of := v\<rparr>))"

definition get_pixel :: "int \<Rightarrow> vga \<Rightarrow> u32 res" where
  "get_pixel i s =
     (if 0 \<le> i \<and> nat i < length (g_framebuffer2 s) then Inr (g_framebuffer2 s ! nat i) else Inl Out_of_bounds)"

definition set_pixel :: "int \<Rightarrow> u32 \<Rightarrow> vga \<Rightarrow> vga res" where
  "set_pixel i c s = (if 0 \<le> i then put_word (nat i) c s else Inl Out_of_bounds)"

definition copy_line :: "int \<Rightarrow> int \<Rightarrow> int \<Rightarrow> int \<Rightarrow> vga \<Rightarrow> vga res" where
  "copy_line width pitch fh y s =
     rbind (cint (y * pitch)) (\<lambda>source_offset.
     rbind (cint ((y - fh) * pitch)) (\<lambda>dest_offset.
       for_each (\<lambda>x s.
         rbind (cint (source_offset + x)) (\<lambda>i.
         rbind (get_pixel i s) (\<lambda>c.
         rbind (cint (dest_offset + x)) (\<lambda>j. set_pixel j c s)))) [0..width - 1] s))"

definition clear_line :: "int \<Rightarrow> int \<Rightarrow> int \<Rightarrow> vga \<Rightarrow> vga res" where
  "clear_line width pitch y s =
     rbind (cint (y * pitch)) (\<lambda>offset.
       for_each (\<lambda>x s.
         rbind (Color 0 0 0 s) (\<lambda>black.
         rbind (cint (offset + x)) (\<lambda>i. set_pixel i black s))) [0..width - 1] s)"

text \<open>The sizes are cut to an \<^verbatim>\<open>int\<close>.\<close>

definition to_int :: "u64 \<Rightarrow> int" where
  "to_int w = sint (ucast w :: u32)"

definition scroll_up :: "vga \<Rightarrow> vga res" where
  "scroll_up s =
     rbind (fbuf s) (\<lambda>f.
     rbind (font s) (\<lambda>h.
       let width = to_int (fb_width f); height = to_int (fb_height f);
           pitch = to_int (fb_pitch f div 4); fh = sint (font_height h)
       in rbind (for_each (copy_line width pitch fh) [fh..height - 1] s) (\<lambda>s.
          rbind (cint (height - fh)) (\<lambda>top.
          rbind (for_each (clear_line width pitch) [top..height - 1] s) (\<lambda>s.
            Inr (s\<lparr>g_framebuffer_dirty := True\<rparr>))))))"

text \<open>The cell of column \<open>x\<close> and row \<open>y\<close>, in pixels.\<close>

definition cell_x :: "int \<Rightarrow> PSF_header_t \<Rightarrow> u32" where
  "cell_x x h = of_int x * font_width h"

definition cell_y :: "int \<Rightarrow> PSF_header_t \<Rightarrow> u32" where
  "cell_y y h = of_int y * font_height h"

definition set_input :: "int \<Rightarrow> u8 \<Rightarrow> terminal \<Rightarrow> terminal res" where
  "set_input i c t =
     (if 0 \<le> i \<and> nat i < length (input_buffer t)
      then Inr (t\<lparr>input_buffer := (input_buffer t)[nat i := c]\<rparr>) else Inl Out_of_bounds)"

definition draw_character :: "int \<Rightarrow> int \<Rightarrow> u8 \<Rightarrow> bool \<Rightarrow> terminal \<Rightarrow> terminal res" where
  "draw_character x y c is_input t =
     rbind (font (vga_of t)) (\<lambda>h.
     rbind (draw (putchar (cell_x x h) (cell_y y h) c) t) (\<lambda>t.
       if is_input then
         rbind (set_input (input_pos t) c t) (\<lambda>t.
         rbind (cint (input_pos t + 1)) (\<lambda>p. set_input p 0 (t\<lparr>input_pos := p\<rparr>)))
       else Inr t))"

definition draw_cursor :: "int \<Rightarrow> int \<Rightarrow> terminal \<Rightarrow> terminal res" where
  "draw_cursor x y t =
     rbind (font (vga_of t)) (\<lambda>h.
       draw (\<lambda>v. fillRect (cell_x x h) (cell_y y h) (fg_color v) (font_width h) (font_height h) v) t)"

definition cursor_here :: "terminal \<Rightarrow> terminal res" where
  "cursor_here t = draw_cursor (terminal_x t) (terminal_y t) t"

definition blank_here :: "terminal \<Rightarrow> terminal res" where
  "blank_here t = draw_character (terminal_x t) (terminal_y t) 32 False t"

definition clear_input_buffer :: "terminal \<Rightarrow> terminal res" where
  "clear_input_buffer t =
     rbind (for_each (\<lambda>i. set_input i 0) [0..input_pos t - 1] t) (\<lambda>t. Inr (t\<lparr>input_pos := 0\<rparr>))"

definition terminal_clear :: "terminal \<Rightarrow> terminal res" where
  "terminal_clear t =
     rbind (draw clearScreen (t\<lparr>terminal_x := 0, terminal_y := 0\<rparr>)) clear_input_buffer"

subsection \<open>Characters\<close>

text \<open>The cases of the \<^verbatim>\<open>switch\<close>; \<open>run\<close> is what a line that is entered runs.\<close>

definition new_line :: "(terminal \<Rightarrow> terminal res) \<Rightarrow> bool \<Rightarrow> terminal \<Rightarrow> terminal res" where
  "new_line run is_input t =
     rbind (blank_here t) (\<lambda>t.
     rbind (if terminal_y t \<ge> terminal_rows t - 1
            then rbind (draw scroll_up t) (\<lambda>t. Inr (t\<lparr>terminal_x := 0\<rparr>))
            else Inr (t\<lparr>terminal_y := terminal_y t + 1, terminal_x := 0\<rparr>)) (\<lambda>t.
     rbind (cursor_here t) (\<lambda>t.
       if is_input then run t else Inr t)))"

definition tab_stop :: "bool \<Rightarrow> terminal \<Rightarrow> terminal res" where
  "tab_stop is_input t =
     rbind (blank_here t) (\<lambda>t.
     rbind (cint (terminal_x t + (4 - terminal_x t smod 4))) (\<lambda>x.
     rbind (cursor_here (t\<lparr>terminal_x := x\<rparr>)) (\<lambda>t.
       if is_input then
         rbind (for_each (\<lambda>i t. set_input (input_pos t + i) 32 t) [0..3] t) (\<lambda>t.
         rbind (cint (input_pos t + (4 - input_pos t smod 4))) (\<lambda>p.
           set_input p 0 (t\<lparr>input_pos := p\<rparr>)))
       else Inr t)))"

definition back_space :: "bool \<Rightarrow> terminal \<Rightarrow> terminal res" where
  "back_space is_input t =
     (if is_input \<and> input_pos t = 0 then Inr t
      else rbind (if is_input then set_input (input_pos t - 1) 0 (t\<lparr>input_pos := input_pos t - 1\<rparr>) else Inr t) (\<lambda>t.
        if terminal_x t > 0
        then rbind (blank_here t) (\<lambda>t. cursor_here (t\<lparr>terminal_x := terminal_x t - 1\<rparr>))
        else Inr t))"

definition plain_char :: "u8 \<Rightarrow> bool \<Rightarrow> terminal \<Rightarrow> terminal res" where
  "plain_char c is_input t =
     rbind (draw_character (terminal_x t) (terminal_y t) c is_input t) (\<lambda>t.
     rbind (cint (terminal_x t + 1)) (\<lambda>x. cursor_here (t\<lparr>terminal_x := x\<rparr>)))"

definition putc_with :: "(terminal \<Rightarrow> terminal res) \<Rightarrow> u8 \<Rightarrow> bool \<Rightarrow> terminal \<Rightarrow> terminal res" where
  "putc_with run src is_input t =
     (if src = 13 \<or> src = 0 then Inr t
      else if src = 10 then new_line run is_input t
      else if src = 9 then tab_stop is_input t
      else if src = 8 then back_space is_input t
      else plain_char src is_input t)"

text \<open>What is printed is not an input and runs nothing.\<close>

definition print_char :: "u8 \<Rightarrow> terminal \<Rightarrow> terminal res" where
  "print_char c = putc_with Inr c False"

fun terminal_puts :: "u8 list \<Rightarrow> terminal \<Rightarrow> terminal res" where
  "terminal_puts [] t = Inl Out_of_bounds"
| "terminal_puts (c # cs) t = (if c = 0 then Inr t else rbind (print_char c t) (terminal_puts cs))"

subsection \<open>\<^verbatim>\<open>printf\<close>\<close>

datatype parg = P_num u64 | P_str "u8 list" | P_dec double | P_wide "u16 list"

definition num_arg :: "parg list \<Rightarrow> (u64 \<times> parg list) res" where
  "num_arg args = (case args of P_num v # r \<Rightarrow> Inr (v, r) | _ \<Rightarrow> Inl Uninit_read)"

definition str_arg :: "parg list \<Rightarrow> (u8 list \<times> parg list) res" where
  "str_arg args = (case args of P_str s # r \<Rightarrow> Inr (s, r) | _ \<Rightarrow> Inl Uninit_read)"

definition dec_arg :: "parg list \<Rightarrow> (u8 list \<times> parg list) res" where
  "dec_arg args = (case args of P_dec d # r \<Rightarrow> rbind (dtoa d 5) (\<lambda>s. Inr (s, r)) | _ \<Rightarrow> Inl Uninit_read)"

text \<open>The text of a conversion that both \<^verbatim>\<open>printf\<close> and the log have; \<open>None\<close> is none of them.\<close>

definition conv_text :: "u8 \<Rightarrow> parg list \<Rightarrow> (u8 list \<times> parg list) res option" where
  "conv_text f args =
     (if f \<in> {115, 83} then Some (str_arg args)
      else if f \<in> {117, 85} then Some (rbind (num_arg args) (\<lambda>(v, r). rbind (utoa v 10) (\<lambda>s. Inr (s, r))))
      else if f \<in> {100, 68} then Some (rbind (num_arg args) (\<lambda>(v, r). rbind (itoa v 10) (\<lambda>s. Inr (s, r))))
      else if f \<in> {120, 88} then Some (rbind (num_arg args) (\<lambda>(v, r). rbind (utoa v 16) (\<lambda>s. Inr (s, r))))
      else if f \<in> {98, 66} then Some (rbind (num_arg args) (\<lambda>(v, r). rbind (utoa v 2) (\<lambda>s. Inr (s, r))))
      else if f \<in> {102, 70} then Some (dec_arg args)
      else None)"

text \<open>One conversion of \<^verbatim>\<open>printf\<close>: the arguments that are left, or \<open>None\<close> for an unknown letter.\<close>

definition conversion :: "u8 \<Rightarrow> parg list \<Rightarrow> terminal \<Rightarrow> (parg list option \<times> terminal) res" where
  "conversion f args t =
     (case conv_text f args of
        Some r \<Rightarrow> rbind r (\<lambda>(s, args). rbind (terminal_puts s t) (\<lambda>t. Inr (Some args, t)))
      | None \<Rightarrow>
          if f \<in> {99, 67} then
            rbind (num_arg args) (\<lambda>(v, args). rbind (print_char (ucast v) t) (\<lambda>t. Inr (Some args, t)))
          else if f = 112 then
            rbind (num_arg args) (\<lambda>(v, args). Inr (Some args, t\<lparr>vga_of := set_foreground (ucast v) (vga_of t)\<rparr>))
          else if f = 97 then
            rbind (cursor_here t) (\<lambda>t. rbind (cint (terminal_x t + 1)) (\<lambda>x. Inr (Some args, t\<lparr>terminal_x := x\<rparr>)))
          else Inr (None, t))"

fun printf_loop :: "u8 list \<Rightarrow> parg list \<Rightarrow> terminal \<Rightarrow> terminal res" where
  "printf_loop [] args t = Inl Out_of_bounds"
| "printf_loop [c] args t =
     (if c = 0 then Inr t
      else if c \<noteq> 37 then rbind (print_char c t) (\<lambda>t. Inl Out_of_bounds)
      else Inl Out_of_bounds)"
| "printf_loop (c # f # fs) args t =
     (if c = 0 then Inr t
      else if c \<noteq> 37 then rbind (print_char c t) (printf_loop (f # fs) args)
      else rbind (conversion f args t) (\<lambda>(r, t).
             case r of Some args \<Rightarrow> printf_loop fs args t | None \<Rightarrow> printf_loop (f # fs) args t))"

definition printf :: "u8 list \<Rightarrow> parg list \<Rightarrow> terminal \<Rightarrow> terminal res" where
  "printf fmt args t =
     rbind (acquire_spinlock (print_lock t)) (\<lambda>l.
     rbind (printf_loop fmt args (t\<lparr>print_lock := l\<rparr>)) (\<lambda>t.
       Inr (t\<lparr>print_lock := release_spinlock (print_lock t)\<rparr>)))"


text \<open>A call of \<^verbatim>\<open>printf\<close> with its arguments, which may read the state.\<close>

definition rgb :: "u8 \<Rightarrow> u8 \<Rightarrow> u8 \<Rightarrow> terminal \<Rightarrow> parg res" where
  "rgb r g b t = rbind (Color r g b (vga_of t)) (\<lambda>c. Inr (P_num (ucast c)))"

definition white :: "terminal \<Rightarrow> parg res" where
  "white = rgb 255 255 255"

definition blue :: "terminal \<Rightarrow> parg res" where
  "blue = rgb 0 0 255"

definition num :: "u64 \<Rightarrow> terminal \<Rightarrow> parg res" where
  "num v t = Inr (P_num v)"

fun eval_args :: "(terminal \<Rightarrow> parg res) list \<Rightarrow> terminal \<Rightarrow> parg list res" where
  "eval_args [] t = Inr []"
| "eval_args (a # as) t = rbind (a t) (\<lambda>v. rbind (eval_args as t) (\<lambda>vs. Inr (v # vs)))"

definition print :: "u8 list \<Rightarrow> (terminal \<Rightarrow> parg res) list \<Rightarrow> terminal \<Rightarrow> terminal res" where
  "print fmt as t = rbind (eval_args as t) (\<lambda>vs. printf fmt vs t)"

definition steps :: "(terminal \<Rightarrow> terminal res) list \<Rightarrow> terminal \<Rightarrow> terminal res" where
  "steps fs t = for_each (\<lambda>f t. f t) fs t"

definition print_prompt :: "terminal \<Rightarrow> terminal res" where
  "print_prompt t =
     print (cstr ''%pROOT@NEO-OS%p:%p%s%p$%p '')
       [rgb 0 255 0, blue, rgb 150 150 150, \<lambda>t. Inr (P_str (current_working_directory t)), blue, white] t"

text \<open>\<open>n\<close> is the size of the input buffer, \<open>junk\<close> what the heap held there.\<close>

definition terminal_init ::
  "nat \<Rightarrow> u8 list \<Rightarrow> (nat \<Rightarrow> u8) \<Rightarrow> heap \<Rightarrow> terminal \<Rightarrow> (heap \<times> terminal) res" where
  "terminal_init depth stamp junk hp t =
     rbind (fbuf (vga_of t)) (\<lambda>f.
     rbind (font (vga_of t)) (\<lambda>h.
       if font_width h = 0 \<or> font_height h = 0 then Inl Div_by_zero
       else let cols = to_int (fb_width f div ucast (font_width h));
                rows = to_int (fb_height f div ucast (font_height h))
            in rbind (cint (cols * rows)) (\<lambda>cells.
               rbind (cint (cells + 69)) (\<lambda>n.
               rbind (kmalloc depth stamp (of_int n) hp) (\<lambda>(p, hp).
               rbind (steps
                   [terminal_puts (cstr_line ''Welcome to neo OS!''),
                    terminal_puts (cstr_line ''Type 'help' for available commands''),
                    print_prompt]
                   (t\<lparr>terminal_cols := cols, terminal_rows := rows,
                      input_buffer := (if p = 0 then [] else map junk [0..<nat n])\<rparr>))
                 (\<lambda>t. Inr (hp, t)))))))"

subsection \<open>Directories\<close>

definition resolve_path :: "u8 list option \<Rightarrow> terminal \<Rightarrow> dstring res" where
  "resolve_path path_input t =
     rbind (case path_input of None \<Rightarrow> Inr 0 | Some p \<Rightarrow> strlen p) (\<lambda>n.
       case path_input of
         None \<Rightarrow> string_of (current_working_directory t)
       | Some p \<Rightarrow>
           (if n = 0 then string_of (current_working_directory t)
            else if hd p = 47 then string_of p
            else rbind (string_of (current_working_directory t)) (\<lambda>absolute_path.
                 if str_size absolute_path = 0 then Inl Out_of_bounds
                 else rbind (if str_data absolute_path ! (str_size absolute_path - 1) \<noteq> 47
                             then string_push_back 47 absolute_path else Inr absolute_path) (\<lambda>absolute_path.
                      rbind (string_of p) (\<lambda>relative. string_append relative absolute_path)))))"

text \<open>The loop from the end to the last slash, which it cuts at.\<close>

fun cut_at_slash :: "nat \<Rightarrow> u8 list \<Rightarrow> u8 list" where
  "cut_at_slash 0 cwd = cwd"
| "cut_at_slash (Suc i) cwd =
     (if cwd ! i = 47 then (if i = 0 then cwd[1 := 0] else cwd[i := 0]) else cut_at_slash i cwd)"

definition parent_directory :: "terminal \<Rightarrow> (bool \<times> terminal) res" where
  "parent_directory t =
     rbind (strlen (current_working_directory t)) (\<lambda>len.
       if len \<le> 1 then Inr (False, t)
       else Inr (True, t\<lparr>current_working_directory := cut_at_slash len (current_working_directory t)\<rparr>))"

text \<open>The path is compared with a dot and two dots before it is tested; it is never NULL here.\<close>

definition change_directory ::
  "(dstring \<Rightarrow> (int \<times> file_handle) res) \<Rightarrow> u8 list \<Rightarrow> terminal \<Rightarrow> (bool \<times> terminal) res" where
  "change_directory fo path t =
     rbind (strcmp path [46, 0]) (\<lambda>dot.
     if dot then Inr (True, t)
     else rbind (strcmp path [46, 46, 0]) (\<lambda>dotdot.
     if dotdot then parent_directory t
     else if path ! 0 = 47 \<and> path ! 1 = 0 then
       (if length (current_working_directory t) < 2 then Inl Out_of_bounds
        else Inr (True, t\<lparr>current_working_directory := (current_working_directory t)[0 := 47, 1 := 0]\<rparr>))
     else rbind (resolve_path (Some path) t) (\<lambda>abs_path.
          rbind (fo abs_path) (\<lambda>(ret, test_file).
            if ret = - 1 then Inr (False, t)
            else if h_attrib test_file AND ATTR_DIRECTORY = 0 then Inr (False, t)
            else rbind (strcpy (current_working_directory t) (str_data abs_path)) (\<lambda>cwd.
                   Inr (True, t\<lparr>current_working_directory := cwd\<rparr>))))))"

subsection \<open>Listings\<close>

text \<open>\<^verbatim>\<open>print_file_name\<close>: the name, with a dot where the spaces end.\<close>

definition name_char :: "u8 \<Rightarrow> bool \<times> bool \<times> terminal \<Rightarrow> (bool \<times> bool \<times> terminal) res" where
  "name_char c st =
     (case st of (space, dot, t) \<Rightarrow>
        if c = 32 then Inr (True, dot, t)
        else rbind (if space \<and> \<not> dot then rbind (printf (cstr ''.'') [] t) (\<lambda>t. Inr (True, t)) else Inr (dot, t))
               (\<lambda>(dot, t). rbind (printf (cstr ''%c'') [P_num (scast c)] t) (\<lambda>t. Inr (space, dot, t))))"

definition print_file_name :: "dirent \<Rightarrow> terminal \<Rightarrow> terminal res" where
  "print_file_name entry t =
     rbind (if dir_attrib entry AND ATTR_DIRECTORY = ATTR_DIRECTORY
            then print (cstr ''%p%s'') [rgb 100 200 100] t
            else print (cstr ''%p'') [rgb 100 100 200] t) (\<lambda>t.
     rbind (for_each name_char (take 11 (dir_name entry)) (False, False, t)) (\<lambda>(_, _, t).
       print (cstr ''%p  '') [white] t))"

definition list_files :: "u8 list \<Rightarrow> terminal \<Rightarrow> terminal res" where
  "list_files path t = printf (cstr_line ''Directory not found: %s'') [P_str path] t"

definition print_file_contents :: "u8 list \<Rightarrow> terminal \<Rightarrow> terminal res" where
  "print_file_contents path t = printf (cstr_line ''Directory not found: %s'') [P_str path] t"

subsection \<open>Logging in\<close>

definition login_prompt :: "bool \<Rightarrow> terminal \<Rightarrow> terminal res" where
  "login_prompt failed t =
     rbind (if failed then print (cstr_line ''%pPassword incorrect :(%p'') [rgb 150 0 0, white] t
            else terminal_clear t) (terminal_puts (cstr ''Password: ''))"

definition login_init :: "terminal \<Rightarrow> terminal res" where
  "login_init t = login_prompt False (t\<lparr>logged_in := False, password := Some (cstr ''67'')\<rparr>)"

definition login_check :: "terminal \<Rightarrow> (bool \<times> terminal) res" where
  "login_check t =
     (case password t of
        None \<Rightarrow> Inl Null_deref
      | Some p \<Rightarrow>
          rbind (strcmp p (input_buffer t)) (\<lambda>same.
            if same then
              rbind (print (cstr_line ''%pLogin successful%p'') [rgb 0 150 0, white] t) (\<lambda>t.
              rbind (clear_input_buffer t) (\<lambda>t.
              rbind (print_prompt t) (\<lambda>t. Inr (True, t\<lparr>logged_in := True\<rparr>))))
            else
              rbind (clear_input_buffer t) (\<lambda>t.
              rbind (login_prompt True t) (\<lambda>t. Inr (False, t\<lparr>logged_in := False\<rparr>)))))"


subsection \<open>\<^verbatim>\<open>fetch\<close>\<close>

definition fetch_logo :: "terminal \<Rightarrow> terminal res" where
  "fetch_logo = steps
     [terminal_puts [10, 0],
      print (cstr_line ''%p    ####   ##  ######   #######           #######   ######    %p'') [rgb 0 255 255, white],
      print (cstr_line ''%p    ## ##  ##  ##       ##   ##  ######   ##   ##  ##         %p'') [rgb 0 220 255, white],
      print (cstr_line ''%p    ##  ## ##  ####     ##   ##           ##   ##   #####     %p'') [rgb 0 180 255, white],
      print (cstr_line ''%p    ##   ####  ##       ##   ##           ##   ##       ##    %p'') [rgb 0 140 255, white],
      print (cstr_line ''%p    ##    ###  ######   #######           #######   ######    %p'') [rgb 0 100 255, white],
      print (cstr_line ''%p                                                               %p'') [rgb 0 80 255, white],
      print (cstr_line ''%p           -= Next Generation Operating System =-            %p'') [rgb 100 150 255, white],
      terminal_puts [10, 0]]"

definition label :: "terminal \<Rightarrow> parg res" where
  "label = rgb 255 100 100"

definition fetch_cpu :: "terminal \<Rightarrow> terminal res" where
  "fetch_cpu t =
     (case cpu_count t of
        Some n \<Rightarrow> print (cstr_line ''%pCPU:%p %u cores'') [label, white, num n] t
      | None \<Rightarrow> print (cstr_line ''%pCPU:%p Unknown'') [label, white] t)"

definition fetch_memory :: "terminal \<Rightarrow> terminal res" where
  "fetch_memory t =
     print (cstr_line ''%pMemory:%p %u MB heap allocated'')
       [label, white, num ((heap_blk_count t * heap_blk_size t) div 1048576)] t"

definition fetch_screen :: "terminal \<Rightarrow> terminal res" where
  "fetch_screen t =
     (case fbuf_info (vga_of t) of
        Some f \<Rightarrow> print (cstr_line ''%pResolution:%p %ux%u'') [label, white, num (fb_width f), num (fb_height f)] t
      | None \<Rightarrow> Inr t)"

definition fetch_font :: "terminal \<Rightarrow> terminal res" where
  "fetch_font t =
     (case font_hdr (vga_of t) of
        Some h \<Rightarrow> print (cstr_line ''%pFont:%p PSF %ux%u (%u glyphs, %u bytes/glyph)'')
                    [label, white, num (ucast (font_width h)), num (ucast (font_height h)),
                     num (ucast (glyph_count h)), num (ucast (glyph_size h))] t
      | None \<Rightarrow> print (cstr_line ''%pFont:%p Unknown'') [label, white] t)"

definition uptime_hours :: "u64 \<Rightarrow> u64" where "uptime_hours ms = (ms div 1000) div 3600"
definition uptime_minutes :: "u64 \<Rightarrow> u64" where "uptime_minutes ms = ((ms div 1000) mod 3600) div 60"
definition uptime_seconds :: "u64 \<Rightarrow> u64" where "uptime_seconds ms = (ms div 1000) mod 60"

definition fetch_uptime :: "terminal \<Rightarrow> terminal res" where
  "fetch_uptime t =
     (let ms = millis_since_boot t
      in print (cstr_line ''%pUptime:%p %uh %um %us'')
           [label, white, num (uptime_hours ms), num (uptime_minutes ms), num (uptime_seconds ms)] t)"

definition fetch_colors :: "terminal \<Rightarrow> terminal res" where
  "fetch_colors = steps
     [print (cstr ''%pColors:%p '') [label, white],
      print (cstr ''%p%a%p'') [rgb 255 0 0, white],
      print (cstr ''%p%a%p'') [rgb 0 255 0, white],
      print (cstr ''%p%a%p'') [rgb 0 0 255, white],
      print (cstr ''%p%a%p'') [rgb 255 255 0, white],
      print (cstr ''%p%a%p'') [rgb 255 0 255, white],
      print (cstr ''%p%a%p'') [rgb 0 255 255, white],
      terminal_puts [10, 10, 0]]"

definition display_fetch :: "terminal \<Rightarrow> terminal res" where
  "display_fetch = steps
     [fetch_logo,
      print (cstr_line ''%pOS:%p neo-OS x86_64'') [label, white],
      print (cstr_line ''%pKernel:%p neo-OS kernel'') [label, white],
      fetch_cpu, fetch_memory, fetch_screen, fetch_font, fetch_uptime, fetch_colors]"

subsection \<open>Commands\<close>

definition help_text :: "terminal \<Rightarrow> terminal res" where
  "help_text = steps (map terminal_puts
     [cstr_line ''Available commands:'',
      cstr_line ''help - Show this help message'',
      cstr_line ''clear - Clear the screen'',
      cstr_line ''exit - Exit the terminal and logout'',
      cstr_line ''fetch - Display system information'',
      cstr_line ''ls [path] - List files in directory'',
      cstr_line ''cat [file] - Display file contents'',
      cstr_line ''pwd - Print current working directory'',
      cstr_line ''cd [path] - Change working directory''])"

text \<open>The path of \<^verbatim>\<open>ls\<close> and \<^verbatim>\<open>cat\<close>, resolved and handed on as a C string.\<close>

definition with_path :: "(u8 list \<Rightarrow> terminal \<Rightarrow> terminal res) \<Rightarrow> u8 list option \<Rightarrow> terminal \<Rightarrow> terminal res" where
  "with_path f path t = rbind (resolve_path path t) (\<lambda>p. f (str_data p) t)"

text \<open>The word with the number \<open>i\<close> of the command.\<close>

definition word_at :: "dstring dlist \<Rightarrow> nat \<Rightarrow> u8 list res" where
  "word_at sp i = rbind (list_at sp i) (\<lambda>w. Inr (str_data w))"

definition dispatch ::
  "(dstring \<Rightarrow> (int \<times> file_handle) res) \<Rightarrow> dstring dlist \<Rightarrow> u8 list \<Rightarrow> terminal \<Rightarrow> terminal res" where
  "dispatch fo sp cmd t =
     (let count = lst_size sp
      in rbind (strcmp cmd (cstr ''ls'')) (\<lambda>ls. rbind (strcmp cmd (cstr ''cat'')) (\<lambda>cat.
         rbind (strcmp cmd (cstr ''pwd'')) (\<lambda>pwd. rbind (strcmp cmd (cstr ''cd'')) (\<lambda>cd.
         rbind (strcmp cmd (cstr ''fetch'')) (\<lambda>fetch.
           if ls then
             if count > 1 then rbind (word_at sp 1) (\<lambda>w. with_path list_files (Some w) t)
             else with_path list_files None t
           else if cat then
             if count < 2 then terminal_puts (cstr_line ''cat: missing file argument'') t
             else rbind (word_at sp 1) (\<lambda>w. with_path print_file_contents (Some w) t)
           else if pwd then
             rbind (terminal_puts (current_working_directory t) t) (terminal_puts [10, 0])
           else if cd then
             rbind (if count > 1 then word_at sp 1 else Inr (cstr ''/'')) (\<lambda>w.
             rbind (change_directory fo w t) (\<lambda>(ok, t).
               if ok then Inr t
               else terminal_puts (cstr_line ''cd: directory not found or not a directory'') t))
           else if fetch then display_fetch t
           else terminal_puts (cstr_line ''Command not found'') t))))))"

definition shell_command ::
  "(dstring \<Rightarrow> (int \<times> file_handle) res) \<Rightarrow> u8 list \<Rightarrow> terminal \<Rightarrow> terminal res" where
  "shell_command fo command t =
     (if \<not> logged_in t then rbind (login_check t) (\<lambda>(_, t). Inr t)
      else rbind (string_of command) (\<lambda>command_str.
           rbind (split 32 command_str) (\<lambda>sp.
           rbind (word_at sp 0) (\<lambda>cmd.
           rbind (strcmp cmd (cstr ''help'')) (\<lambda>help.
           rbind (strcmp cmd (cstr ''clear'')) (\<lambda>clear.
           rbind (strcmp cmd (cstr ''exit'')) (\<lambda>exit.
             if \<not> help \<and> \<not> clear \<and> exit then login_init t
             else rbind (if help then help_text t else if clear then terminal_clear t else dispatch fo sp cmd t) (\<lambda>t.
                  rbind (clear_input_buffer t) print_prompt))))))))"

text \<open>A character of the keyboard, and what the kernel prints.\<close>

definition terminal_putc ::
  "(dstring \<Rightarrow> (int \<times> file_handle) res) \<Rightarrow> u8 \<Rightarrow> bool \<Rightarrow> terminal \<Rightarrow> terminal res" where
  "terminal_putc fo src is_input t =
     putc_with (\<lambda>t. shell_command fo (input_buffer t) t) src is_input t"


subsection \<open>The cursor\<close>

text \<open>\<open>term_ok\<close>: the cursor is in a row of the terminal and the input position is not negative.
  \<open>keeps f\<close>: the operation keeps it, and the size of the terminal.\<close>

definition term_ok :: "terminal \<Rightarrow> bool" where
  "term_ok t \<longleftrightarrow> 0 \<le> terminal_x t \<and> 0 \<le> terminal_y t \<and> terminal_y t < terminal_rows t \<and> 0 \<le> input_pos t"

definition ok_step :: "terminal \<Rightarrow> terminal \<Rightarrow> bool" where
  "ok_step t u \<longleftrightarrow> terminal_rows u = terminal_rows t \<and> terminal_cols u = terminal_cols t \<and> (term_ok t \<longrightarrow> term_ok u)"

definition keeps :: "(terminal \<Rightarrow> terminal res) \<Rightarrow> bool" where
  "keeps f \<longleftrightarrow> (\<forall>t u. f t = Inr u \<longrightarrow> ok_step t u)"

named_theorems keeps_intros "operations that keep the cursor in the terminal"

lemma ok_step_refl [simp]: "ok_step t t"
  by (simp add: ok_step_def)

lemma ok_step_trans: "ok_step t u \<Longrightarrow> ok_step u v \<Longrightarrow> ok_step t v"
  by (simp add: ok_step_def)

lemma keepsD: "keeps f \<Longrightarrow> f t = Inr u \<Longrightarrow> ok_step t u"
  unfolding keeps_def by blast

lemma keepsI: "(\<And>t u. f t = Inr u \<Longrightarrow> ok_step t u) \<Longrightarrow> keeps f"
  unfolding keeps_def by blast

lemma keeps_Inr [keeps_intros]: "keeps Inr"
  by (rule keepsI) simp

lemma keeps_bind [keeps_intros]: "keeps f \<Longrightarrow> keeps g \<Longrightarrow> keeps (\<lambda>t. rbind (f t) g)"
  by (rule keepsI) (auto simp: rbind_eq_Inr dest!: keepsD intro: ok_step_trans)

lemma keeps_guard [keeps_intros]: "(\<And>x. keeps (g x)) \<Longrightarrow> keeps (\<lambda>t. rbind (m t) (\<lambda>x. g x t))"
  by (rule keepsI) (auto simp: rbind_eq_Inr dest: keepsD)

lemma keeps_if [keeps_intros]: "keeps f \<Longrightarrow> keeps g \<Longrightarrow> keeps (\<lambda>t. if b t then f t else g t)"
  unfolding keeps_def by simp

lemma keeps_for_each [keeps_intros]:
  assumes "\<And>x. keeps (f x)"
  shows "keeps (for_each f xs)"
proof (rule keepsI)
  fix t u
  assume "for_each f xs t = Inr u"
  then show "ok_step t u"
    by (rule for_each_keeps [where P = "ok_step t"]) (auto dest: keepsD [OF assms] intro: ok_step_trans)
qed

lemma keeps_draw [keeps_intros]: "keeps (draw f)"
  by (rule keepsI) (auto simp: draw_def rbind_eq_Inr ok_step_def term_ok_def)

lemma keeps_set_input [keeps_intros]: "keeps (set_input i c)"
  by (rule keepsI) (auto simp: set_input_def ok_step_def term_ok_def split: if_splits)

lemma keeps_draw_character [keeps_intros]: "keeps (draw_character x y c b)"
proof (rule keepsI)
  fix t u
  assume "draw_character x y c b t = Inr u"
  then obtain h v where v: "draw (putchar (cell_x x h) (cell_y y h) c) t = Inr v"
    "(if b then rbind (set_input (input_pos v) c v) (\<lambda>t.
         rbind (cint (input_pos t + 1)) (\<lambda>p. set_input p 0 (t\<lparr>input_pos := p\<rparr>))) else Inr v) = Inr u"
    by (auto simp: draw_character_def rbind_eq_Inr)
  have "ok_step t v" using v(1) by (rule keepsD [OF keeps_draw])
  moreover have "ok_step v u"
    using v(2) by (auto simp: rbind_eq_Inr set_input_def cint_def ok_step_def term_ok_def split: if_splits)
  ultimately show "ok_step t u" by (rule ok_step_trans)
qed

lemma keeps_cursor [keeps_intros]: "keeps cursor_here" "keeps (draw_cursor x y)" "keeps blank_here"
proof -
  show d: "keeps (draw_cursor x y)" for x y unfolding draw_cursor_def by (intro keeps_intros)
  show "keeps cursor_here" by (rule keepsI) (auto simp: cursor_here_def dest: keepsD [OF d])
  show "keeps blank_here" by (rule keepsI) (auto simp: blank_here_def dest: keepsD [OF keeps_draw_character])
qed

lemma ok_step_x: "0 \<le> x \<Longrightarrow> ok_step t (t\<lparr>terminal_x := x\<rparr>)"
  by (simp add: ok_step_def term_ok_def)

lemma keeps_clear_input [keeps_intros]: "keeps clear_input_buffer"
proof (rule keepsI)
  fix t u
  assume "clear_input_buffer t = Inr u"
  then obtain v where v: "for_each (\<lambda>i. set_input i 0) [0..input_pos t - 1] t = Inr v" "u = v\<lparr>input_pos := 0\<rparr>"
    by (auto simp: clear_input_buffer_def rbind_eq_Inr)
  have "ok_step t v" using v(1) by (rule keepsD [OF keeps_for_each [OF keeps_set_input]])
  then show "ok_step t u" using v(2) by (auto simp: ok_step_def term_ok_def)
qed

lemma keeps_clear [keeps_intros]: "keeps terminal_clear"
proof (rule keepsI)
  fix t u
  assume "terminal_clear t = Inr u"
  then obtain v where v: "draw clearScreen (t\<lparr>terminal_x := 0, terminal_y := 0\<rparr>) = Inr v" "clear_input_buffer v = Inr u"
    by (auto simp: terminal_clear_def rbind_eq_Inr)
  have "ok_step (t\<lparr>terminal_x := 0, terminal_y := 0\<rparr>) u"
    using keepsD [OF keeps_draw v(1)] keepsD [OF keeps_clear_input v(2)] by (rule ok_step_trans)
  then show "ok_step t u" by (auto simp: ok_step_def term_ok_def)
qed

lemma keeps_plain_char [keeps_intros]: "keeps (plain_char c b)"
proof (rule keepsI)
  fix t u
  assume "plain_char c b t = Inr u"
  then obtain v x where v: "draw_character (terminal_x t) (terminal_y t) c b t = Inr v"
    "cint (terminal_x v + 1) = Inr x" "cursor_here (v\<lparr>terminal_x := x\<rparr>) = Inr u"
    by (auto simp: plain_char_def rbind_eq_Inr)
  have "ok_step t v" "ok_step (v\<lparr>terminal_x := x\<rparr>) u"
    using keepsD [OF keeps_draw_character v(1)] keepsD [OF keeps_cursor(1) v(3)] by auto
  moreover have "ok_step v (v\<lparr>terminal_x := x\<rparr>)"
    using v(2) by (auto simp: cint_def ok_step_def term_ok_def split: if_splits)
  ultimately show "ok_step t u" by (metis ok_step_trans)
qed

lemma keeps_back_space [keeps_intros]: "keeps (back_space b)"
proof (rule keepsI)
  fix t u
  assume r: "back_space b t = Inr u"
  show "ok_step t u"
  proof (cases "b \<and> input_pos t = 0")
    case True
    then show ?thesis using r by (simp add: back_space_def)
  next
    case False
    then obtain v where v: "(if b then set_input (input_pos t - 1) 0 (t\<lparr>input_pos := input_pos t - 1\<rparr>) else Inr t) = Inr v"
      "(if terminal_x v > 0 then rbind (blank_here v) (\<lambda>t. cursor_here (t\<lparr>terminal_x := terminal_x t - 1\<rparr>)) else Inr v) = Inr u"
      using r by (auto simp: back_space_def rbind_eq_Inr)
    have tv: "ok_step t v" using v(1) False
      by (auto simp: set_input_def ok_step_def term_ok_def split: if_splits)
    moreover have "ok_step v u"
    proof (cases "terminal_x v > 0")
      case True
      then obtain w where w: "blank_here v = Inr w" "cursor_here (w\<lparr>terminal_x := terminal_x w - 1\<rparr>) = Inr u"
        using v(2) by (auto simp: rbind_eq_Inr)
      have "terminal_x w = terminal_x v"
        using w(1) by (auto simp: blank_here_def draw_character_def draw_def rbind_eq_Inr)
      then have "ok_step v w" "ok_step w (w\<lparr>terminal_x := terminal_x w - 1\<rparr>)"
        using keepsD [OF keeps_cursor(3) w(1)] True by (auto intro: ok_step_x)
      then show ?thesis using keepsD [OF keeps_cursor(1) w(2)] by (metis ok_step_trans)
    qed (use v(2) in simp)
    ultimately show ?thesis by (rule ok_step_trans)
  qed
qed


lemma tab_forward: "0 \<le> x \<Longrightarrow> 0 \<le> x + (4 - x smod 4)" for x :: int
proof -
  assume "0 \<le> x"
  then have "x smod 4 = x mod 4" by (cases "x = 0") (simp_all add: signed_modulo_int_def sgn_if)
  then show ?thesis using pos_mod_bound [of 4 x] \<open>0 \<le> x\<close> by simp
qed

lemma keeps_tab_stop [keeps_intros]: "keeps (tab_stop b)"
proof (rule keepsI)
  fix t u
  assume "tab_stop b t = Inr u"
  then obtain v x w where v: "blank_here t = Inr v" "cint (terminal_x v + (4 - terminal_x v smod 4)) = Inr x"
    "cursor_here (v\<lparr>terminal_x := x\<rparr>) = Inr w"
    "(if b then rbind (for_each (\<lambda>i t. set_input (input_pos t + i) 32 t) [0..3] w) (\<lambda>t.
         rbind (cint (input_pos t + (4 - input_pos t smod 4))) (\<lambda>p. set_input p 0 (t\<lparr>input_pos := p\<rparr>)))
      else Inr w) = Inr u"
    by (auto simp: tab_stop_def rbind_eq_Inr)
  have "ok_step v (v\<lparr>terminal_x := x\<rparr>)"
    using v(2) tab_forward [of "terminal_x v"] by (auto simp: cint_def ok_step_def term_ok_def split: if_splits)
  then have tw: "ok_step t w"
    using keepsD [OF keeps_cursor(3) v(1)] keepsD [OF keeps_cursor(1) v(3)] by (metis ok_step_trans)
  have "ok_step w u"
  proof (cases b)
    case True
    then obtain y p where y: "for_each (\<lambda>i t. set_input (input_pos t + i) 32 t) [0..3] w = Inr y"
      "cint (input_pos y + (4 - input_pos y smod 4)) = Inr p" "set_input p 0 (y\<lparr>input_pos := p\<rparr>) = Inr u"
      using v(4) by (auto simp: rbind_eq_Inr)
    have "keeps (\<lambda>t. set_input (input_pos t + i) 32 t)" for i
      by (rule keepsI) (auto dest: keepsD [OF keeps_set_input])
    then have "ok_step w y" by (rule keepsD [OF keeps_for_each y(1)])
    moreover have "ok_step y (y\<lparr>input_pos := p\<rparr>)"
      using y(2) tab_forward [of "input_pos y"] by (auto simp: cint_def ok_step_def term_ok_def split: if_splits)
    ultimately show ?thesis using keepsD [OF keeps_set_input y(3)] by (metis ok_step_trans)
  qed (use v(4) in simp)
  with tw show "ok_step t u" by (rule ok_step_trans)
qed

lemma keeps_new_line [keeps_intros]:
  assumes "keeps run"
  shows "keeps (new_line run b)"
proof (rule keepsI)
  fix t u
  assume "new_line run b t = Inr u"
  then obtain v w x where v: "blank_here t = Inr v"
    "(if terminal_y v \<ge> terminal_rows v - 1 then rbind (draw scroll_up v) (\<lambda>t. Inr (t\<lparr>terminal_x := 0\<rparr>))
      else Inr (v\<lparr>terminal_y := terminal_y v + 1, terminal_x := 0\<rparr>)) = Inr w"
    "cursor_here w = Inr x" "(if b then run x else Inr x) = Inr u"
    by (auto simp: new_line_def rbind_eq_Inr)
  have "ok_step v w"
  proof (cases "terminal_y v \<ge> terminal_rows v - 1")
    case True
    then obtain y where "draw scroll_up v = Inr y" "w = y\<lparr>terminal_x := 0\<rparr>" using v(2) by (auto simp: rbind_eq_Inr)
    then show ?thesis using keepsD [OF keeps_draw, of scroll_up v y] ok_step_x [of 0 y] by (metis ok_step_trans order_refl)
  next
    case False
    then show ?thesis using v(2) by (auto simp: ok_step_def term_ok_def)
  qed
  moreover have "ok_step x u" using v(4) keepsD [OF assms] by (cases b) auto
  ultimately show "ok_step t u"
    using keepsD [OF keeps_cursor(3) v(1)] keepsD [OF keeps_cursor(1) v(3)] by (metis ok_step_trans)
qed

lemma keeps_putc [keeps_intros]: "keeps run \<Longrightarrow> keeps (putc_with run c b)"
  unfolding putc_with_def by (intro keeps_intros) assumption

lemma keeps_print_char [keeps_intros]: "keeps (print_char c)"
  unfolding print_char_def by (intro keeps_intros)

lemma keeps_puts [keeps_intros]: "keeps (terminal_puts s)"
proof (induction s)
  case Nil
  then show ?case by (rule keepsI) simp
next
  case (Cons c s)
  have "terminal_puts (c # s) = (\<lambda>t. if c = 0 then Inr t else rbind (print_char c t) (terminal_puts s))"
    by (rule ext) simp
  then show ?case by (simp only:) (intro keeps_if keeps_Inr keeps_bind keeps_print_char Cons.IH)
qed

lemma keeps_conversion: "conversion f args t = Inr (r, u) \<Longrightarrow> ok_step t u"
  by (auto simp: conversion_def rbind_eq_Inr cint_def ok_step_def term_ok_def split: option.splits if_splits
      dest!: keepsD [OF keeps_puts] keepsD [OF keeps_print_char] keepsD [OF keeps_cursor(1)])

lemma keeps_printf_loop [keeps_intros]: "keeps (printf_loop fmt args)"
proof (rule keepsI)
  fix t u
  show "printf_loop fmt args t = Inr u \<Longrightarrow> ok_step t u"
  proof (induction fmt args t rule: printf_loop.induct)
    case (2 c args t)
    then show ?case by (auto split: if_splits simp: rbind_eq_Inr)
  next
    case (3 c f fs args t)
    consider "c = 0" | "c \<noteq> 0" "c \<noteq> 37" | "c = 37" by blast
    then show ?case
    proof cases
      case 1
      then show ?thesis using "3.prems" by simp
    next
      case 2
      then obtain v where v: "print_char c t = Inr v" "printf_loop (f # fs) args v = Inr u"
        using "3.prems" by (auto simp: rbind_eq_Inr)
      then show ?thesis using "3.IH"(1) [OF 2 v(1)] keepsD [OF keeps_print_char v(1)] by (metis ok_step_trans)
    next
      case p: 3
      then obtain r v where v: "conversion f args t = Inr (r, v)"
        "(case r of Some args \<Rightarrow> printf_loop fs args v | None \<Rightarrow> printf_loop (f # fs) args v) = Inr u"
        using "3.prems" by (auto simp: rbind_eq_Inr)
      have "ok_step v u"
      proof (cases r)
        case None
        then show ?thesis using "3.IH"(2) [of "(r, v)" r v] v p by simp
      next
        case (Some a)
        then show ?thesis using "3.IH"(3) [of "(r, v)" r v a] v p by simp
      qed
      then show ?thesis using keeps_conversion [OF v(1)] by (metis ok_step_trans)
    qed
  qed simp
qed

lemma keeps_printf [keeps_intros]: "keeps (printf fmt args)"
  by (rule keepsI)
    (auto simp: printf_def rbind_eq_Inr ok_step_def term_ok_def dest!: keepsD [OF keeps_printf_loop])

lemma keeps_print [keeps_intros]: "keeps (print fmt as)"
  unfolding print_def by (intro keeps_guard keeps_printf)

lemma keeps_steps [keeps_intros]:
  assumes "list_all keeps fs"
  shows "keeps (steps fs)"
  using assms
proof (induction fs)
  case Nil
  then show ?case by (auto intro: keepsI simp: steps_def)
next
  case (Cons f fs)
  then have "keeps (\<lambda>t. rbind (f t) (steps fs))" by (intro keeps_bind) auto
  moreover have "steps (f # fs) = (\<lambda>t. rbind (f t) (steps fs))"
    by (rule ext) (simp add: steps_def [abs_def])
  ultimately show ?case by simp
qed


lemma keeps_prompt [keeps_intros]: "keeps print_prompt"
  unfolding print_prompt_def by (intro keeps_intros)

lemma keeps_fetch [keeps_intros]: "keeps display_fetch"
proof -
  have "keeps fetch_cpu" "keeps fetch_memory" "keeps fetch_screen" "keeps fetch_font" "keeps fetch_uptime"
    by (rule keepsI, auto simp: fetch_cpu_def fetch_memory_def fetch_screen_def fetch_font_def fetch_uptime_def Let_def
        dest: keepsD [OF keeps_print] split: option.splits)+
  moreover have "keeps fetch_logo" "keeps fetch_colors"
    unfolding fetch_logo_def fetch_colors_def by (auto intro!: keeps_steps keeps_puts keeps_print)
  ultimately show ?thesis unfolding display_fetch_def by (auto intro!: keeps_steps keeps_print)
qed

lemma keeps_help [keeps_intros]: "keeps help_text"
  unfolding help_text_def by (auto intro!: keeps_steps keeps_puts)

lemma keeps_login_prompt [keeps_intros]: "keeps (login_prompt b)"
  unfolding login_prompt_def by (intro keeps_bind keeps_puts keeps_if keeps_print keeps_clear)

lemma ok_step_fields [simp]:
  "ok_step t (u\<lparr>logged_in := b\<rparr>) = ok_step t u" "ok_step (u\<lparr>logged_in := b\<rparr>) t = ok_step u t"
  "ok_step t (u\<lparr>password := p\<rparr>) = ok_step t u" "ok_step (u\<lparr>password := p\<rparr>) t = ok_step u t"
  "ok_step t (u\<lparr>current_working_directory := c\<rparr>) = ok_step t u"
  by (simp_all add: ok_step_def term_ok_def)

lemma keeps_login_init [keeps_intros]: "keeps login_init"
  by (rule keepsI) (auto simp: login_init_def dest!: keepsD [OF keeps_login_prompt])

lemma keeps_login_check: "login_check t = Inr (b, u) \<Longrightarrow> ok_step t u"
proof -
  have "all_res (\<lambda>r. ok_step t (snd r)) (login_check t)"
    unfolding login_check_def
  proof (intro all_res_intros)
    fix v w z
    assume a: "print (cstr_line ''%pLogin successful%p'') [rgb 0 150 0, white] t = Inr v"
      "clear_input_buffer v = Inr w" "print_prompt w = Inr z"
    have "ok_step t z"
      by (rule ok_step_trans [OF keepsD [OF keeps_print a(1)]
            ok_step_trans [OF keepsD [OF keeps_clear_input a(2)] keepsD [OF keeps_prompt a(3)]]])
    then show "ok_step t (snd (True, z\<lparr>logged_in := True\<rparr>))" by simp
  next
    fix v w
    assume a: "clear_input_buffer t = Inr v" "login_prompt True v = Inr w"
    have "ok_step t w"
      by (rule ok_step_trans [OF keepsD [OF keeps_clear_input a(1)] keepsD [OF keeps_login_prompt a(2)]])
    then show "ok_step t (snd (False, w\<lparr>logged_in := False\<rparr>))" by simp
  qed
  then show "login_check t = Inr (b, u) \<Longrightarrow> ok_step t u" by (auto dest: all_resD)
qed

lemma keeps_change_directory: "change_directory fo path t = Inr (b, u) \<Longrightarrow> ok_step t u"
proof -
  have "all_res (\<lambda>r. ok_step t (snd r)) (change_directory fo path t)"
    unfolding change_directory_def parent_directory_def by (intro all_res_intros) simp_all
  then show "change_directory fo path t = Inr (b, u) \<Longrightarrow> ok_step t u" by (auto dest: all_resD)
qed

lemma keeps_with_path [keeps_intros]: "(\<And>p. keeps (f p)) \<Longrightarrow> keeps (with_path f path)"
  by (rule keepsI) (auto simp: with_path_def rbind_eq_Inr dest: keepsD)

lemma keeps_listings [keeps_intros]: "keeps (list_files path)" "keeps (print_file_contents path)"
  unfolding list_files_def [abs_def] print_file_contents_def [abs_def] by (intro keeps_printf)+

lemma keeps_dispatch [keeps_intros]: "keeps (dispatch fo sp cmd)"
proof (rule keepsI)
  fix t u
  assume r: "dispatch fo sp cmd t = Inr u"
  have cd: "ok_step t u" if "change_directory fo w t = Inr (b, v)" "(if b then Inr v else terminal_puts s v) = Inr u" for w b v s
    using keeps_change_directory [OF that(1)] that(2) keepsD [OF keeps_puts, of s v u]
    by (cases b) (auto intro: ok_step_trans)
  have pwd: "ok_step t u" if "terminal_puts s t = Inr v" "terminal_puts s' v = Inr u" for s s' v
    using keepsD [OF keeps_puts that(1)] keepsD [OF keeps_puts that(2)] by (rule ok_step_trans)
  from r obtain ls cat pwd cd fetch where
    "(if ls then (if lst_size sp > 1 then rbind (word_at sp 1) (\<lambda>w. with_path list_files (Some w) t)
                  else with_path list_files None t)
      else if cat then (if lst_size sp < 2 then terminal_puts (cstr_line ''cat: missing file argument'') t
                        else rbind (word_at sp 1) (\<lambda>w. with_path print_file_contents (Some w) t))
      else if pwd then rbind (terminal_puts (current_working_directory t) t) (terminal_puts [10, 0])
      else if cd then rbind (if lst_size sp > 1 then word_at sp 1 else Inr (cstr ''/'')) (\<lambda>w.
             rbind (change_directory fo w t) (\<lambda>(ok, t).
               if ok then Inr t
               else terminal_puts (cstr_line ''cd: directory not found or not a directory'') t))
      else if fetch then display_fetch t
      else terminal_puts (cstr_line ''Command not found'') t) = Inr u"
    unfolding dispatch_def Let_def by (elim rbind_eq_InrE) blast
  then show "ok_step t u"
    by (auto simp: rbind_eq_Inr split: if_splits intro: cd pwd keepsD [OF keeps_puts] keepsD [OF keeps_fetch]
        simp del: terminal_puts.simps
        dest!: keepsD [OF keeps_with_path [OF keeps_listings(1)]] keepsD [OF keeps_with_path [OF keeps_listings(2)]])
qed

lemma keeps_shell_command [keeps_intros]: "keeps (shell_command fo cmd)"
proof (rule keepsI)
  fix t u
  assume r: "shell_command fo cmd t = Inr u"
  have done_keeps: "keeps (\<lambda>t. rbind (clear_input_buffer t) print_prompt)" by (intro keeps_intros)
  have ran: "ok_step t u" if "keeps f" "rbind (f t) (\<lambda>t. rbind (clear_input_buffer t) print_prompt) = Inr u" for f
    using keeps_bind [OF that(1) done_keeps] that(2) by (rule keepsD)
  show "ok_step t u"
  proof (cases "logged_in t")
    case False
    then show ?thesis using r by (auto simp: shell_command_def rbind_eq_Inr dest: keeps_login_check)
  next
    case True
    then obtain sp cmd' hlp clr ext where
      "(if \<not> hlp \<and> \<not> clr \<and> ext then login_init t
        else rbind (if hlp then help_text t else if clr then terminal_clear t else dispatch fo sp cmd' t) (\<lambda>t.
             rbind (clear_input_buffer t) print_prompt)) = Inr u"
      using r unfolding shell_command_def by (simp only: not_True_eq_False if_False) (elim rbind_eq_InrE, blast)
    then show ?thesis
      using ran [OF keeps_help] ran [OF keeps_clear] ran [OF keeps_dispatch, of fo sp cmd'] keepsD [OF keeps_login_init]
      by (cases hlp; cases clr; cases ext) auto
  qed
qed

text \<open>C30: The cursor stays in the terminal. Whatever is typed and whatever is printed, commands and log-ins
  included, leaves the cursor in a row of the terminal, never left of its first column, and the
  position in the input buffer non-negative. (Nothing bounds the column on the right: a line that
  is longer than the screen is not broken.)\<close>

theorem cursor_stays_in_rows:
  assumes "term_ok t" and "for_each (\<lambda>(c, is_input). terminal_putc fo c is_input) keys t = Inr u"
  shows "0 \<le> terminal_x u \<and> 0 \<le> terminal_y u \<and> terminal_y u < terminal_rows t \<and>
    terminal_rows u = terminal_rows t \<and> 0 \<le> input_pos u"
proof -
  have "keeps (shell_command fo (b :: u8 list))" for b by (rule keeps_shell_command)
  then have "keeps (\<lambda>t. shell_command fo (input_buffer t) t)" by (auto simp: keeps_def)
  then have "keeps (terminal_putc fo c b)" for c b
    unfolding terminal_putc_def [abs_def] by (rule keeps_putc)
  then have "keeps (\<lambda>t. (\<lambda>(c, is_input). terminal_putc fo c is_input) k t)" for k
    by (cases k) (simp add: keeps_def)
  then have "ok_step t u" by (rule keepsD [OF keeps_for_each assms(2)])
  then show ?thesis
    using assms(1) by (simp_all add: ok_step_def term_ok_def)
qed


subsection \<open>Typing a line\<close>

text \<open>\<open>canvas v X Y\<close>: \<open>X\<close> columns and \<open>Y\<close> rows of characters fit on the screen, and the font has the
  glyphs of the ASCII characters.\<close>

definition canvas :: "vga \<Rightarrow> nat \<Rightarrow> nat \<Rightarrow> bool" where
  "canvas v X Y \<longleftrightarrow>
     (\<exists>P N h. screen v P N \<and> font_hdr v = Some h \<and> unat (font_width h) < 32 \<and> 0 < glyph_step h \<and>
        (\<forall>c. unat c < 128 \<longrightarrow> glyph_start c h + unat (font_height h) * glyph_step h \<le> length (font_bitmap v)) \<and>
        X * unat (font_width h) \<le> P \<and> Y * unat (font_height h) \<le> N)"

lemma canvas_painted: "painted v w R \<Longrightarrow> canvas w X Y = canvas v X Y"
  by (simp add: canvas_def screen_painted)

lemma cell_of_nat: "cell_x (int x) h = of_nat (x * unat (font_width h))" "cell_y (int y) h = of_nat (y * unat (font_height h))"
  by (simp_all add: cell_x_def cell_y_def)

lemma cell_inside: "x < X \<Longrightarrow> X * w \<le> P \<Longrightarrow> x * w + w \<le> (P :: nat)"
proof -
  assume "x < X" "X * w \<le> P"
  then have "Suc x * w \<le> P" using mult_le_mono1 [of "Suc x" X w] by linarith
  then show ?thesis by simp
qed

lemma draw_character_canvas:
  assumes "canvas (vga_of t) X Y" and "x < X" and "y < Y" and "unat c < 128"
  shows "\<exists>w. canvas w X Y \<and> draw (putchar (cell_x (int x) (the (font_hdr (vga_of t)))) (cell_y (int y) (the (font_hdr (vga_of t)))) c) t
      = Inr (t\<lparr>vga_of := w\<rparr>) \<and> font_hdr w = font_hdr (vga_of t)"
proof -
  obtain P N h where h: "screen (vga_of t) P N" "font_hdr (vga_of t) = Some h" "unat (font_width h) < 32" "0 < glyph_step h"
    "glyph_start c h + unat (font_height h) * glyph_step h \<le> length (font_bitmap (vga_of t))"
    "X * unat (font_width h) \<le> P" "Y * unat (font_height h) \<le> N"
    using assms(1,4) unfolding canvas_def by blast
  from putchar_painted [OF h(1,2,3) cell_inside [OF assms(2) h(6)] cell_inside [OF assms(3) h(7)] h(5,4)]
  obtain w R where "putchar (of_nat (x * unat (font_width h))) (of_nat (y * unat (font_height h))) c (vga_of t) = Inr w"
    "painted (vga_of t) w R" by blast
  then show ?thesis using assms(1) h(2) by (intro exI [of _ w]) (simp add: draw_def cell_of_nat canvas_painted)
qed

lemma canvas_font: "canvas v X Y \<Longrightarrow> font v = Inr (the (font_hdr v))"
  by (auto simp: canvas_def font_def)

lemma blank_here_canvas:
  assumes "canvas (vga_of t) X Y" and "terminal_x t = int x" and "terminal_y t = int y" and "x < X" and "y < Y"
  shows "\<exists>w. canvas w X Y \<and> blank_here t = Inr (t\<lparr>vga_of := w\<rparr>)"
  using draw_character_canvas [OF assms(1,4,5), of 32] assms
  by (auto simp: blank_here_def draw_character_def canvas_font)

lemma cursor_here_canvas:
  assumes "canvas (vga_of t) X Y" and "terminal_x t = int x" and "terminal_y t = int y" and "x < X" and "y < Y"
  shows "\<exists>w. canvas w X Y \<and> cursor_here t = Inr (t\<lparr>vga_of := w\<rparr>)"
proof -
  obtain P N h where h: "screen (vga_of t) P N" "font_hdr (vga_of t) = Some h"
    "X * unat (font_width h) \<le> P" "Y * unat (font_height h) \<le> N"
    using assms(1) unfolding canvas_def by blast
  from fillRect_painted [OF h(1) cell_inside [OF assms(4) h(3)] cell_inside [OF assms(5) h(4)], of "fg_color (vga_of t)"]
  obtain w R where "fillRect (of_nat (x * unat (font_width h))) (of_nat (y * unat (font_height h))) (fg_color (vga_of t))
      (font_width h) (font_height h) (vga_of t) = Inr w" "painted (vga_of t) w R" by auto
  then show ?thesis using assms(1,2,3) h(2)
    by (intro exI [of _ w]) (simp add: cursor_here_def draw_cursor_def font_def draw_def cell_of_nat canvas_painted)
qed

text \<open>What typing changes: the screen, the column and the input line.\<close>

definition typed :: "terminal \<Rightarrow> terminal \<Rightarrow> bool" where
  "typed t u \<longleftrightarrow>
     terminal_y u = terminal_y t \<and> terminal_rows u = terminal_rows t \<and> terminal_cols u = terminal_cols t \<and>
     logged_in u = logged_in t \<and> password u = password t \<and> print_lock u = print_lock t \<and>
     current_working_directory u = current_working_directory t \<and> cpu_count u = cpu_count t \<and>
     heap_blk_count u = heap_blk_count t \<and> heap_blk_size u = heap_blk_size t \<and> millis_since_boot u = millis_since_boot t"

definition line_is :: "terminal \<Rightarrow> u8 list \<Rightarrow> bool" where
  "line_is t l \<longleftrightarrow> input_pos t = int (length l) \<and> holds (input_buffer t) l"

text \<open>The specification: what a key does to a line.\<close>

definition edit :: "u8 list \<Rightarrow> u8 \<Rightarrow> u8 list" where
  "edit l c = (if c = 8 then butlast l else if c = 9 then l @ replicate (4 - length l mod 4) 32 else l @ [c])"

definition typable :: "u8 \<Rightarrow> bool" where
  "typable c \<longleftrightarrow> c = 8 \<or> c = 9 \<or> 32 \<le> unat c \<and> unat c < 127"

lemma typed_refl [simp]: "typed t t"
  by (simp add: typed_def)

lemma typed_trans: "typed t u \<Longrightarrow> typed u v \<Longrightarrow> typed t v"
  by (simp add: typed_def)

text \<open>The buffer while a line is edited.\<close>

lemma holds_push:
  assumes "holds b l" and "c \<noteq> 0" and "Suc (length l) < length b"
  shows "holds (b[length l := c, Suc (length l) := 0]) (l @ [c])"
proof -
  obtain r where b: "b = l @ 0 # r" using assms(1) by (auto simp: holds_def)
  then obtain x r' where r: "r = x # r'" using assms(3) by (cases r) auto
  have "b[length l := c, Suc (length l) := 0] = (l @ [c]) @ 0 # r'"
    by (simp add: b r list_update_append)
  then show ?thesis using assms(1,2) by (auto simp: holds_def)
qed

lemma holds_pop:
  assumes "holds b l" and "l \<noteq> []"
  shows "holds (b[length l - 1 := 0]) (butlast l)"
proof -
  obtain l' c where l: "l = l' @ [c]" using assms(2) by (cases l rule: rev_cases) auto
  obtain r where b: "b = l @ 0 # r" using assms(1) by (auto simp: holds_def)
  have "b[length l - 1 := 0] = butlast l @ 0 # 0 # r"
    by (simp add: b l list_update_append)
  then show ?thesis using assms(1) by (auto simp: holds_def dest: in_set_butlastD)
qed

lemma replicate4: "replicate 4 x = [x, x, x, x]"
  by (simp add: numeral_eq_Suc)

lemma holds_tab:
  assumes "holds b l" and "length l + 4 < length b" and "k \<le> 4" and "c \<noteq> 0"
  shows "holds (b[length l := c, length l + 1 := c, length l + 2 := c, length l + 3 := c, length l + k := 0])
    (l @ replicate k c)"
proof -
  obtain r where b: "b = l @ 0 # r" using assms(1) by (auto simp: holds_def)
  obtain r0 r1 r2 r3 rs where r: "r = r0 # r1 # r2 # r3 # rs"
    using assms(2) b by (auto simp: Suc_le_length_iff less_eq_Suc_le eval_nat_numeral)
  consider "k = 0" | "k = 1" | "k = 2" | "k = 3" | "k = 4" using assms(3) by linarith
  then show ?thesis
    using assms(1,4) by cases (simp_all add: holds_def b r list_update_append numeral_2_eq_2 numeral_3_eq_3 replicate4)
qed


text \<open>The state while a line is typed; \<open>n\<close> more keys have room on the screen and in the buffer.\<close>

definition typing :: "terminal \<Rightarrow> u8 list \<Rightarrow> nat \<Rightarrow> nat \<Rightarrow> nat \<Rightarrow> bool" where
  "typing t l X Y n \<longleftrightarrow>
     canvas (vga_of t) X Y \<and> line_is t l \<and> 0 \<le> terminal_x t \<and> terminal_x t + 4 * int n < int X \<and> int X < 2 ^ 31 \<and>
     0 \<le> terminal_y t \<and> terminal_y t < int Y \<and> length l + 4 * n < length (input_buffer t) \<and> length (input_buffer t) < 2 ^ 31"

lemma typingE:
  assumes "typing t l X Y n"
  obtains x y where "terminal_x t = int x" "terminal_y t = int y" "x + 4 * n < X" "y < Y" "X < 2 ^ 31"
    "canvas (vga_of t) X Y" "input_pos t = int (length l)" "holds (input_buffer t) l"
    "length l + 4 * n < length (input_buffer t)" "length (input_buffer t) < 2 ^ 31"
proof (rule that)
  show "terminal_x t = int (nat (terminal_x t))" "terminal_y t = int (nat (terminal_y t))"
    "nat (terminal_x t) + 4 * n < X" "nat (terminal_y t) < Y" "X < 2 ^ 31"
    "canvas (vga_of t) X Y" "input_pos t = int (length l)" "holds (input_buffer t) l"
    "length l + 4 * n < length (input_buffer t)" "length (input_buffer t) < 2 ^ 31"
    using assms by (auto simp: typing_def line_is_def)
qed

lemma typingI:
  "canvas (vga_of u) X Y \<Longrightarrow> input_pos u = int (length l) \<Longrightarrow> holds (input_buffer u) l \<Longrightarrow> terminal_x u = int x \<Longrightarrow>
   x + 4 * n < X \<Longrightarrow> X < 2 ^ 31 \<Longrightarrow> terminal_y u = int y \<Longrightarrow> y < Y \<Longrightarrow> length l + 4 * n < length (input_buffer u) \<Longrightarrow>
   length (input_buffer u) < 2 ^ 31 \<Longrightarrow> typing u l X Y n"
  by (simp add: typing_def line_is_def)

lemma type_plain:
  assumes "typing t l X Y (Suc n)" and "c \<noteq> 0" and "unat c < 128"
  shows "\<exists>u. plain_char c True t = Inr u \<and> typing u (l @ [c]) X Y n \<and> typed t u"
proof -
  obtain x y where t: "terminal_x t = int x" "terminal_y t = int y" "x + 4 * Suc n < X" "y < Y" "X < 2 ^ 31"
    "canvas (vga_of t) X Y" "input_pos t = int (length l)" "holds (input_buffer t) l"
    "length l + 4 * Suc n < length (input_buffer t)" "length (input_buffer t) < 2 ^ 31"
    using assms(1) by (rule typingE)
  have xX: "x < X" "Suc x < X" and lb: "Suc (length l) < length (input_buffer t)" using t by simp_all
  obtain w where w: "canvas w X Y" "draw (putchar (cell_x (int x) (the (font_hdr (vga_of t))))
      (cell_y (int y) (the (font_hdr (vga_of t)))) c) t = Inr (t\<lparr>vga_of := w\<rparr>)"
    using draw_character_canvas [OF t(6) xX(1) t(4) assms(3)] by blast
  let ?b = "(input_buffer t)[length l := c, Suc (length l) := 0]"
  let ?v = "t\<lparr>vga_of := w, input_pos := int (Suc (length l)), input_buffer := ?b\<rparr>"
  have nat1: "nat (int (length l) + 1) = Suc (length l)" "int (length l) + 1 = int (Suc (length l))" by simp_all
  have "draw_character (int x) (int y) c True t = Inr ?v"
    using w(2) lb t(7,10) canvas_font [OF t(6)]
    by (simp add: draw_character_def set_input_def cint_def nat1 del: of_nat_Suc)
  moreover obtain w' where w': "canvas w' X Y"
    "cursor_here (?v\<lparr>terminal_x := int (Suc x)\<rparr>) = Inr (?v\<lparr>terminal_x := int (Suc x), vga_of := w'\<rparr>)"
    using cursor_here_canvas [of "?v\<lparr>terminal_x := int (Suc x)\<rparr>" X Y "Suc x" y] w(1) t(2,4) xX(2) by auto
  ultimately have "plain_char c True t = Inr (?v\<lparr>terminal_x := int (Suc x), vga_of := w'\<rparr>)" (is "_ = Inr ?u")
    using t(1,2,5) xX by (simp add: plain_char_def cint_def add.commute)
  moreover have "typing ?u (l @ [c]) X Y n"
    by (rule typingI [where x = "Suc x" and y = y])
      (use w'(1) t holds_push [OF t(8) assms(2) lb] in simp_all)
  moreover have "typed t ?u" by (simp add: typed_def)
  ultimately show ?thesis by blast
qed

lemma type_back_space:
  assumes "typing t l X Y (Suc n)"
  shows "\<exists>u. back_space True t = Inr u \<and> typing u (butlast l) X Y n \<and> typed t u"
proof (cases "l = []")
  case True
  then have "back_space True t = Inr t" using assms by (simp add: back_space_def typing_def line_is_def)
  then show ?thesis using True assms by (intro exI [of _ t]) (simp add: typing_def)
next
  case False
  obtain x y where t: "terminal_x t = int x" "terminal_y t = int y" "x + 4 * Suc n < X" "y < Y" "X < 2 ^ 31"
    "canvas (vga_of t) X Y" "input_pos t = int (length l)" "holds (input_buffer t) l"
    "length l + 4 * Suc n < length (input_buffer t)" "length (input_buffer t) < 2 ^ 31"
    using assms by (rule typingE)
  let ?b = "(input_buffer t)[length l - 1 := 0]"
  let ?v = "t\<lparr>input_buffer := ?b, input_pos := int (length l) - 1\<rparr>"
  have p: "nat (int (length l) - 1) = length l - 1" by simp
  have bl: "length (butlast l) \<le> length l" by simp
  have pos: "int (length l) - 1 = int (length (butlast l))" using False by (simp add: of_nat_diff Suc_le_eq)
  have v: "set_input (input_pos t - 1) 0 (t\<lparr>input_pos := input_pos t - 1\<rparr>) = Inr ?v"
    using t(7,9) False by (simp add: set_input_def p Suc_le_eq)
  have h: "holds ?b (butlast l)" using holds_pop [OF t(8) False] .
  show ?thesis
  proof (cases x)
    case 0
    have "typing ?v (butlast l) X Y n"
      by (rule typingI [where x = x and y = y]) (use t h bl False in \<open>simp_all add: pos del: length_butlast\<close>)
    moreover have "back_space True t = Inr ?v" using False v 0 t(1,7) by (simp add: back_space_def)
    moreover have "typed t ?v" by (simp add: typed_def)
    ultimately show ?thesis by blast
  next
    case (Suc x')
    have xX: "x < X" "x' < X" using t(3) Suc by simp_all
    obtain w where w: "canvas w X Y" "blank_here ?v = Inr (?v\<lparr>vga_of := w\<rparr>)"
      using blank_here_canvas [of ?v X Y x y] t(1,2,4,6) xX(1) by auto
    obtain w' where w': "canvas w' X Y"
      "cursor_here (?v\<lparr>vga_of := w, terminal_x := int x'\<rparr>) = Inr (?v\<lparr>vga_of := w', terminal_x := int x'\<rparr>)"
      using cursor_here_canvas [of "?v\<lparr>vga_of := w, terminal_x := int x'\<rparr>" X Y x' y] w(1) t(2,4) xX(2) by auto
    have "back_space True t = Inr (?v\<lparr>vga_of := w', terminal_x := int x'\<rparr>)" (is "_ = Inr ?u")
      using False v w(2) w'(2) t(1,7) Suc by (simp add: back_space_def)
    moreover have "typing ?u (butlast l) X Y n"
      by (rule typingI [where x = x' and y = y]) (use w'(1) t h bl Suc False in \<open>simp_all add: pos del: length_butlast\<close>)
    moreover have "typed t ?u" by (simp add: typed_def)
    ultimately show ?thesis by blast
  qed
qed


lemma type_tab:
  assumes "typing t l X Y (Suc n)"
  shows "\<exists>u. tab_stop True t = Inr u \<and> typing u (l @ replicate (4 - length l mod 4) 32) X Y n \<and> typed t u"
proof -
  obtain x y where t: "terminal_x t = int x" "terminal_y t = int y" "x + 4 * Suc n < X" "y < Y" "X < 2 ^ 31"
    "canvas (vga_of t) X Y" "input_pos t = int (length l)" "holds (input_buffer t) l"
    "length l + 4 * Suc n < length (input_buffer t)" "length (input_buffer t) < 2 ^ 31"
    using assms by (rule typingE)
  define x' where "x' = x + (4 - x mod 4)"
  define k where "k = 4 - length l mod 4"
  have smod: "int m smod 4 = int (m mod 4)" for m :: nat
    by (cases "m = 0") (simp_all add: signed_modulo_int_def zmod_int)
  have mod4: "m mod 4 \<le> 4" for m :: nat using mod_less_divisor [of 4 m] by simp
  have x': "int x + (4 - int x smod 4) = int x'" "x' \<le> x + 4" "x' < X"
    using t(3) mod4 [of x] by (simp_all add: x'_def smod of_nat_diff)
  have k: "int (length l) + (4 - int (length l) smod 4) = int (length l + k)" "k \<le> 4"
    using mod4 [of "length l"] by (simp_all add: k_def smod of_nat_diff)
  obtain w where w: "canvas w X Y" "blank_here t = Inr (t\<lparr>vga_of := w\<rparr>)"
    using blank_here_canvas [OF t(6,1,2) _ t(4)] t(3) by auto
  obtain w' where w': "canvas w' X Y"
    "cursor_here (t\<lparr>vga_of := w, terminal_x := int x'\<rparr>) = Inr (t\<lparr>terminal_x := int x', vga_of := w'\<rparr>)"
    using cursor_here_canvas [of "t\<lparr>vga_of := w, terminal_x := int x'\<rparr>" X Y x' y] w(1) t(2,4) x'(3) by auto
  let ?v = "t\<lparr>terminal_x := int x', vga_of := w'\<rparr>"
  let ?b = "(input_buffer t)[length l := 32, length l + 1 := 32, length l + 2 := 32, length l + 3 := 32]"
  have lb: "length l + 4 < length (input_buffer t)" using t(9) by simp
  have nats: "nat (int (length l) + 1) = length l + 1" "nat (int (length l) + 2) = length l + 2"
    "nat (int (length l) + 3) = length l + 3" by simp_all
  have upto: "[0..3] = [0, 1, 2, 3 :: int]" by (simp add: upto.simps)
  have spaces: "for_each (\<lambda>i t. set_input (input_pos t + i) 32 t) [0..3] ?v = Inr (?v\<lparr>input_buffer := ?b\<rparr>)"
    using lb t(7) by (simp add: upto set_input_def nats)
  let ?u = "?v\<lparr>input_pos := int (length l + k), input_buffer := ?b[length l + k := 0]\<rparr>"
  have cx: "cint (int x') = Inr (int x')" using x'(3) t(5) by (simp add: cint_def)
  have ck: "cint (int (length l + k)) = Inr (int (length l + k))" using k(2) lb t(10) by (simp add: cint_def)
  have fin: "set_input (int (length l + k)) 0 (?v\<lparr>input_buffer := ?b, input_pos := int (length l + k)\<rparr>) = Inr ?u"
    using lb k(2) by (simp add: set_input_def nat_add_distrib)
  have "tab_stop True t = Inr ?u"
    using w(2) w'(2) spaces fin t(1,7)
    by (simp add: tab_stop_def x'(1) k(1) cx ck del: of_nat_add)
  moreover have "typing ?u (l @ replicate k 32) X Y n"
    by (rule typingI [where x = x' and y = y])
      (use w'(1) t x' k(2) holds_tab [OF t(8) lb k(2), of 32] in simp_all)
  moreover have "typed t ?u" by (simp add: typed_def)
  ultimately show ?thesis by (auto simp: k_def)
qed

lemma putc_enter: "putc_with run 10 b t = new_line run b t"
  by (simp add: putc_with_def)

lemma type_key:
  assumes "typing t l X Y (Suc n)" and "typable c"
  shows "\<exists>u. terminal_putc fo c True t = Inr u \<and> typing u (edit l c) X Y n \<and> typed t u"
proof -
  have small: "unat (13 :: u8) = 13" "unat (10 :: u8) = 10" "unat (0 :: u8) = 0" by simp_all
  consider "c = 8" | "c = 9" | "c \<noteq> 8" "c \<noteq> 9" "c \<noteq> 13" "c \<noteq> 10" "c \<noteq> 0" "unat c < 128"
    using assms(2) small unfolding typable_def by (cases "c = 8"; cases "c = 9"; force)
  then show ?thesis
  proof cases
    case 1
    then show ?thesis using type_back_space [OF assms(1)] by (simp add: terminal_putc_def putc_with_def edit_def)
  next
    case 2
    then show ?thesis using type_tab [OF assms(1)] by (simp add: terminal_putc_def putc_with_def edit_def)
  next
    case 3
    then show ?thesis using type_plain [OF assms(1) 3(5,6)] by (simp add: terminal_putc_def putc_with_def edit_def)
  qed
qed

lemma type_keys:
  assumes "typing t l X Y (length keys)" and "list_all typable keys"
  shows "\<exists>u. for_each (\<lambda>c. terminal_putc fo c True) keys t = Inr u \<and> typing u (foldl edit l keys) X Y 0 \<and> typed t u"
  using assms
proof (induction keys arbitrary: t l)
  case (Cons c keys)
  obtain v where v: "terminal_putc fo c True t = Inr v" "typing v (edit l c) X Y (length keys)" "typed t v"
    using type_key [of t l X Y "length keys" c] Cons.prems by auto
  from Cons.IH [OF v(2)] Cons.prems(2) obtain u where
    "for_each (\<lambda>c. terminal_putc fo c True) keys v = Inr u" "typing u (foldl edit (edit l c) keys) X Y 0" "typed v u"
    by auto
  then show ?case using v typed_trans by auto
qed simp

text \<open>C16: A typed line is the line that is run. On a screen with room for it, typing printable characters,
  tabs and backspaces never faults, and the input buffer then holds what a line editor makes of
  the keys: a character is appended, a tab fills up to a multiple of four, a backspace takes the
  last character away. Enter then runs exactly this line as a command, with the cursor at the
  start of the next row.\<close>

theorem typed_line_is_run:
  assumes "canvas (vga_of t) X Y" and "line_is t l" and "list_all typable keys"
    and "0 \<le> terminal_x t" and "terminal_x t + 4 * int (length keys) < int X" and "int X < 2 ^ 31"
    and "0 \<le> terminal_y t" and "terminal_y t + 1 < int Y" and "terminal_rows t = int Y"
    and "length l + 4 * length keys < length (input_buffer t)" and "length (input_buffer t) < 2 ^ 31"
  shows "\<exists>u v. for_each (\<lambda>c. terminal_putc fo c True) keys t = Inr u \<and>
    terminal_putc fo 10 True u = shell_command fo (input_buffer v) v \<and>
    holds (input_buffer v) (foldl edit l keys) \<and> input_pos v = int (length (foldl edit l keys)) \<and>
    terminal_x v = 0 \<and> terminal_y v = terminal_y t + 1 \<and>
    logged_in v = logged_in t \<and> password v = password t \<and>
    current_working_directory v = current_working_directory t"
proof -
  have "typing t l X Y (length keys)" using assms by (simp add: typing_def)
  from type_keys [OF this assms(3)] obtain u where u: "for_each (\<lambda>c. terminal_putc fo c True) keys t = Inr u"
    "typing u (foldl edit l keys) X Y 0" "typed t u" by blast
  obtain x y where xy: "terminal_x u = int x" "terminal_y u = int y" "x + 4 * 0 < X" "y < Y" "X < 2 ^ 31"
    "canvas (vga_of u) X Y" "input_pos u = int (length (foldl edit l keys))"
    "holds (input_buffer u) (foldl edit l keys)" "length (foldl edit l keys) + 4 * 0 < length (input_buffer u)"
    "length (input_buffer u) < 2 ^ 31"
    using u(2) by (rule typingE)
  have y: "Suc y < Y" "terminal_rows u = int Y" using assms(8,9) u(3) xy(2) by (auto simp: typed_def)
  obtain w where w: "canvas w X Y" "blank_here u = Inr (u\<lparr>vga_of := w\<rparr>)"
    using blank_here_canvas [OF xy(6,1,2) _ xy(4)] xy(3) by auto
  have "\<exists>w'. canvas w' X Y \<and> cursor_here (u\<lparr>vga_of := w, terminal_y := int (Suc y), terminal_x := int 0\<rparr>) =
      Inr (u\<lparr>vga_of := w, terminal_y := int (Suc y), terminal_x := int 0, vga_of := w'\<rparr>)"
    by (rule cursor_here_canvas [where x = 0 and y = "Suc y"]) (use w(1) xy(3) y(1) in simp_all)
  then obtain w' where w': "cursor_here (u\<lparr>vga_of := w, terminal_y := int (Suc y), terminal_x := 0\<rparr>) =
      Inr (u\<lparr>vga_of := w, terminal_y := int (Suc y), terminal_x := 0, vga_of := w'\<rparr>)" by auto
  let ?v = "u\<lparr>vga_of := w, terminal_y := int (Suc y), terminal_x := 0, vga_of := w'\<rparr>"
  have "terminal_putc fo 10 True u = shell_command fo (input_buffer ?v) ?v"
    using w(2) w' y xy(2) by (simp add: terminal_putc_def putc_enter new_line_def add.commute)
  moreover have "holds (input_buffer ?v) (foldl edit l keys)" "input_pos ?v = int (length (foldl edit l keys))"
    "terminal_x ?v = 0" "terminal_y ?v = terminal_y t + 1" "logged_in ?v = logged_in t" "password ?v = password t"
    "current_working_directory ?v = current_working_directory t"
    using xy(2,7,8) u(3) by (simp_all add: typed_def)
  ultimately show ?thesis using u(1) by blast
qed


text \<open>A small terminal: 40 columns and 4 rows of characters of 8 by 2 pixels.\<close>

definition small_terminal :: terminal where
  "small_terminal = \<lparr>
     vga_of = tiny_screen\<lparr>fbuf_info := Some \<lparr>fb_width = 320, fb_height = 8, fb_pitch = 1280, red_mask_shift = 16,
         green_mask_shift = 8, blue_mask_shift = 0\<rparr>,
       g_framebuffer1 := replicate 2560 0, g_framebuffer2 := replicate 2560 0, framebufferSize := 10240,
       font_bitmap := replicate 256 0\<rparr>,
     logged_in = True, password = None, terminal_cols = 40, terminal_rows = 4, terminal_x = 2, terminal_y = 1,
     print_lock = SPIN_UNLOCKED, input_buffer = replicate 229 0, input_pos = 0,
     current_working_directory = 47 # replicate 255 0, cpu_count = None, heap_blk_count = 0, heap_blk_size = 0,
     millis_since_boot = 0\<rparr>"

lemma small_canvas: "canvas (vga_of small_terminal) 40 4"
proof -
  have s: "screen (vga_of small_terminal) 320 8" by (simp add: screen_def small_terminal_def)
  have "glyph_start c tiny_font = 2 * unat c" if "unat c < 128" for c
  proof -
    have "sint (of_nat n :: u8) = int n" if "n < 128" for n
      using that by (simp add: sint_uint unsigned_of_nat take_bit_nat_eq_self signed_take_bit_int_eq_self)
    from this [of "unat c"] have "sint c = int (unat c)" using that by simp
    then have "scast c * (2 :: u32) = of_nat (2 * unat c)" by (simp add: scast_eq)
    then show ?thesis using that by (simp add: glyph_start_def tiny_font_def unat_of_nat_u32 del: of_nat_mult)
  qed
  moreover have "glyph_step tiny_font = 1" by (simp add: glyph_step_def tiny_font_def)
  ultimately show ?thesis using s unfolding canvas_def
    by (intro exI [of _ 320] exI [of _ 8] exI [of _ tiny_font])
      (simp add: small_terminal_def tiny_screen_def, simp add: tiny_font_def)
qed

lemma small_line: "line_is small_terminal []"
proof -
  have b: "input_buffer small_terminal = replicate (Suc 228) 0" and p: "input_pos small_terminal = 0"
    by (simp_all add: small_terminal_def del: replicate_Suc)
  have "input_buffer small_terminal = 0 # replicate 228 0" by (simp only: b replicate_Suc)
  then have "holds (input_buffer small_terminal) []" by (simp only: holds_Nil) blast
  then show ?thesis using p by (simp only: line_is_def list.size of_nat_0 simp_thms)
qed

theorem typed_line_is_run_witness:
  "\<exists>u v. for_each (\<lambda>c. terminal_putc (\<lambda>p. Inl Null_deref) c True) [112, 119, 120, 8, 100] small_terminal = Inr u \<and>
    terminal_putc (\<lambda>p. Inl Null_deref) 10 True u = shell_command (\<lambda>p. Inl Null_deref) (input_buffer v) v \<and>
    holds (input_buffer v) [112, 119, 100] \<and> logged_in v"
proof -
  have k: "list_all typable [112, 119, 120, 8, 100]" by (simp add: typable_def)
  show ?thesis
    using typed_line_is_run [OF small_canvas small_line k, of "\<lambda>p. Inl Null_deref"]
    by (auto simp: small_terminal_def edit_def)
qed

theorem cursor_stays_in_rows_witness:
  "\<exists>u. for_each (\<lambda>(c, is_input). terminal_putc (\<lambda>p. Inl Null_deref) c is_input) [(97, True)] small_terminal = Inr u \<and>
    0 \<le> terminal_y u \<and> terminal_y u < 4"
proof -
  have "typing small_terminal [] 40 4 1"
    using small_canvas small_line by (simp add: typing_def) (simp add: small_terminal_def)
  then obtain u where u: "for_each (\<lambda>(c, is_input). terminal_putc (\<lambda>p. Inl Null_deref) c is_input) [(97, True)] small_terminal = Inr u"
    using type_key [of small_terminal "[]" 40 4 0 97 "\<lambda>p. Inl Null_deref"] by (auto simp: typable_def)
  have ok: "term_ok small_terminal" by (simp add: term_ok_def small_terminal_def)
  show ?thesis using cursor_stays_in_rows [OF ok u] u by (auto simp: small_terminal_def)
qed

subsection \<open>Changing the directory\<close>

lemma resolve_path_text:
  assumes "holds p name" and "name \<noteq> []" and "holds (current_working_directory t) dir" and "dir \<noteq> []"
    and len: "length dir + length name + 1 < 2 ^ 31"
  shows "\<exists>s. resolve_path (Some p) t = Inr s \<and> str_ok s \<and>
    stext s = (if hd name = 47 then name else if last dir = 47 then dir @ name else dir @ 47 # name)"
proof -
  have hdp: "hd p = hd name" using assms(1,2) by (cases name) (auto simp: holds_def)
  show ?thesis
  proof (cases "hd name = 47")
    case True
    then show ?thesis using string_of_ok [OF assms(1)] strlen_of_holds [OF assms(1)] assms(2) hdp len
      by (auto simp: resolve_path_def)
  next
    case False
    obtain a where a: "string_of (current_working_directory t) = Inr a" "str_ok a" "stext a = dir"
      using string_of_ok [OF assms(3)] len by auto
    obtain r where r: "string_of p = Inr r" "str_ok r" "stext r = name"
      using string_of_ok [OF assms(1)] len by auto
    have sz: "str_size a = length dir" using str_okD(4) [OF a(2)] a(3) by simp
    have at: "str_data a ! (length dir - 1) = last dir"
    proof -
      obtain z where "str_data a = dir @ 0 # z" using str_okD(3) [OF a(2)] a(3) unfolding holds_def by blast
      then show ?thesis using assms(4) by (simp add: nth_append last_conv_nth)
    qed
    obtain b where b: "(if str_data a ! (str_size a - 1) \<noteq> 47 then string_push_back 47 a else Inr a) = Inr b" "str_ok b"
      "stext b = (if last dir = 47 then dir else dir @ [47])"
      using string_push_back_ok [OF a(2), of 47] a sz at len by (cases "last dir = 47") auto
    obtain s where s: "string_append r b = Inr s" "str_ok s" "stext s = stext b @ stext r"
      using string_append_ok [OF b(2) r(2)] b(3) r(3) len by (auto split: if_splits)
    have "resolve_path (Some p) t = Inr s"
      using strlen_of_holds [OF assms(1)] assms(2,4) hdp False a(1) b(1) r(1) s(1) sz
      by (simp add: resolve_path_def)
    then show ?thesis using s(2,3) b(3) r(3) False by (intro exI [of _ s]) simp
  qed
qed


lemma drive_minus_one:
  assumes "list_all (\<lambda>v. drive_number v \<noteq> - 1) vols"
  shows "get_vol_driver (digit_of 47) b vols = None"
proof -
  have "find_vol (- 1) b vols = None" using assms by (induction vols) auto
  then show ?thesis by (simp add: get_vol_driver_def digit_of_def)
qed

lemma fopen_slash_faults:
  assumes "list_all (\<lambda>v. drive_number v \<noteq> - 1) vols" and "str_ok s" and "stext s = 47 # rest"
  shows "\<exists>e. fopen dread fuel junk d vols h s = Inl e"
proof (cases "length rest < 2")
  case True
  then have "str_size s \<le> 2" using str_okD(4) [OF assms(2)] assms(3) by simp
  then have "string_at s 2 = Inl Assert_fail" by (simp add: string_at_def)
  then show ?thesis
    by (cases "string_at s 0") (simp_all add: fopen_def get_file_entry_def path_volume_def)
next
  case False
  then obtain c b r where "rest = c # b # r" by (cases rest; cases "tl rest") auto
  then have "path_volume vols s = Inl Null_deref"
    using path_volume_ok [OF assms(2), of 47 c b r vols] assms(3) drive_minus_one [OF assms(1)] by auto
  then show ?thesis by (simp add: fopen_def get_file_entry_def)
qed

text \<open>No directory can be entered. Unless a volume was registered as drive -1, \<^verbatim>\<open>cd\<close> to anything
  but a dot, two dots or the root faults: the absolute path starts with a slash, which the volume
  layer reads as a drive digit.\<close>

lemma cd_faults:
  assumes "list_all (\<lambda>v. drive_number v \<noteq> - 1) vols"
    and "holds (current_working_directory t) (47 # dir)" and "holds p name" and "length dir + length name + 2 < 2 ^ 31"
    and "name \<noteq> []" and "name \<noteq> [46]" and "name \<noteq> [46, 46]" and "name \<noteq> [47]"
  shows "\<exists>e. change_directory (fopen dread fuel junk d vols h) p t = Inl e"
proof -
  obtain s where s: "resolve_path (Some p) t = Inr s" "str_ok s"
    "stext s = (if hd name = 47 then name else if last (47 # dir) = 47 then (47 # dir) @ name else (47 # dir) @ 47 # name)"
    using resolve_path_text [OF assms(3,5,2)] assms(4) by auto
  then obtain rest where "stext s = 47 # rest" using assms(5) by (cases name) (auto split: if_splits)
  then obtain e where e: "fopen dread fuel junk d vols h s = Inl e"
    using fopen_slash_faults [OF assms(1) s(2), of rest dread fuel junk d h] by blast
  have "strcmp p [46, 0] = Inr False" "strcmp p [46, 46, 0] = Inr False"
    using strcmp_eq [OF assms(3), of "[46, 0]" "[46]"] strcmp_eq [OF assms(3), of "[46, 46, 0]" "[46, 46]"]
      assms(4,6,7) by (simp_all add: holds_def)
  moreover have "\<not> (p ! 0 = 47 \<and> p ! 1 = 0)"
  proof
    assume a: "p ! 0 = 47 \<and> p ! 1 = 0"
    obtain r where p: "p = name @ 0 # r" "0 \<notin> set name" using assms(3) by (auto simp: holds_def)
    obtain c cs where n: "name = c # cs" using assms(5) by (cases name) auto
    then have "c = 47" using a p by simp
    moreover have "cs \<noteq> []" using assms(8) n \<open>c = 47\<close> by simp
    then have "cs ! 0 \<in> set cs" "p ! 1 = cs ! 0" using p n by (simp_all add: nth_append)
    ultimately show False using a p(2) n by simp
  qed
  ultimately show ?thesis using s(1) e by (auto simp: change_directory_def)
qed

text \<open>Going up takes the last component away: after a name has been appended to a directory, as a
  relative path is resolved, two dots lead back to the directory.\<close>

lemma cut_at_slash_last:
  assumes "47 \<notin> set name" and "dir \<noteq> []"
  shows "n \<le> length name \<Longrightarrow> cut_at_slash (Suc (length dir) + n) (dir @ 47 # name @ r) = dir @ 0 # name @ r"
proof (induction n)
  case 0
  then show ?case using assms(2) by (simp add: list_update_append)
next
  case (Suc n)
  then have "(dir @ 47 # name @ r) ! (Suc (length dir) + n) = name ! n" by (simp add: nth_append)
  moreover have "name ! n \<noteq> 47" using assms(1) Suc.prems by (metis Suc_le_eq nth_mem)
  ultimately show ?case using Suc by simp
qed

text \<open>Two dots go up one directory. In a directory \<open>dir/name\<close> the last name is taken away, and at the
  root the command fails and changes nothing; from \<open>/name\<close> the root is reached.\<close>

lemma parent_of_child:
  assumes "holds (current_working_directory t) (dir @ 47 # name)" and "47 \<notin> set name" and "dir @ name \<noteq> []"
  shows "\<exists>u. parent_directory t = Inr (True, u) \<and>
    holds (current_working_directory u) (if dir = [] then [47] else dir) \<and>
    u = t\<lparr>current_working_directory := current_working_directory u\<rparr>"
proof -
  obtain r where r: "current_working_directory t = (dir @ 47 # name) @ 0 # r" "0 \<notin> set (dir @ 47 # name)"
    using assms(1) by (auto simp: holds_def)
  have len: "strlen (current_working_directory t) = Inr (length dir + Suc (length name))"
    using strlen_of_holds [OF assms(1)] by simp
  have gt: "\<not> length dir + Suc (length name) \<le> 1" using assms(3) by (cases dir) auto
  let ?c = "cut_at_slash (length dir + Suc (length name)) (current_working_directory t)"
  have "holds ?c (if dir = [] then [47] else dir)"
  proof (cases "dir = []")
    case False
    have "?c = dir @ 0 # name @ 0 # r"
      using cut_at_slash_last [OF assms(2) False, of "length name" "0 # r"] r(1) by simp
    then show ?thesis using False r(2) by (auto simp: holds_def)
  next
    case True
    then obtain c cs where n: "name = c # cs" using assms(3) by (cases name) auto
    have "cut_at_slash (Suc k) (47 # name @ 0 # r) = 47 # 0 # cs @ 0 # r" if "k \<le> length name" for k
      using that
    proof (induction k)
      case (Suc k)
      then have "name ! k \<noteq> 47" using assms(2) by (metis Suc_le_eq nth_mem)
      then show ?case using Suc by (simp add: nth_append)
    qed (simp add: n)
    then show ?thesis using True r(1) by (simp add: holds_def)
  qed
  then show ?thesis using len gt by (simp add: parent_directory_def)
qed

subsection \<open>Scrolling\<close>

lemma upto_int: "[int a..int b - 1] = map (\<lambda>k. int (a + k)) [0..<b - a]"
proof (cases "a \<le> b")
  case True
  then show ?thesis by (intro nth_equalityI) (simp_all add: nat_diff_distrib)
qed simp

lemma for_each_painted_read:
  assumes "\<And>k t. k < n \<Longrightarrow> painted s t (layers Q k) \<Longrightarrow> \<exists>u. f k t = Inr u \<and> painted t u (Q k)"
  shows "\<exists>t. for_each f [0..<n] s = Inr t \<and> painted s t (layers Q n)"
proof (rule for_each_upt_rule [where P = "\<lambda>k t. painted s t (layers Q k)"])
  fix k t
  assume "k < n" "painted s t (layers Q k)"
  then show "\<exists>u. f k t = Inr u \<and> painted s u (layers Q (Suc k))"
    using assms by (metis layers.simps(2) painted_trans)
qed simp

lemma cint_nat: "n < 2 ^ 31 \<Longrightarrow> cint (int n) = Inr (int n)"
  by (simp add: cint_def)

lemma index_bound: "c < P \<Longrightarrow> r < N \<Longrightarrow> r * P + c < N * (P :: nat)"
proof -
  assume a: "c < P" "r < N"
  have "r * P + c < Suc r * P" using a(1) by simp
  also have "\<dots> \<le> N * P" using a(2) by (intro mult_right_mono) simp_all
  finally show ?thesis .
qed

lemma layers_cong: "(\<And>k. k < n \<Longrightarrow> Q k = Q' k) \<Longrightarrow> layers Q n = layers Q' n"
  by (induction n) simp_all

lemma row_bound: "r \<le> N \<Longrightarrow> N * P < B \<Longrightarrow> r * P < (B :: nat)"
  by (meson le_less_trans mult_le_mono1)

lemma copy_line_painted:
  assumes "N * P \<le> length (g_framebuffer2 s)" and "N * P < 2 ^ 31" and "w \<le> P" and "r + fh < N" and "0 < fh"
  shows "\<exists>t. copy_line (int w) (int P) (int fh) (int (r + fh)) s = Inr t \<and>
    painted s t (layers (\<lambda>j. [r * P + j \<mapsto> g_framebuffer2 s ! ((r + fh) * P + j)]) w)"
proof (cases "w = 0")
  case True
  have "(r + fh) * P < 2 ^ 31" "r * P < 2 ^ 31" using row_bound [OF _ assms(2)] assms(4) by simp_all
  then have "cint (int (r + fh) * int P) = Inr (int ((r + fh) * P))" "cint ((int (r + fh) - int fh) * int P) = Inr (int (r * P))"
    using cint_nat [of "(r + fh) * P"] cint_nat [of "r * P"] by simp_all
  then show ?thesis using True by (simp add: copy_line_def)
next
  case False
  then have P: "0 < P" using assms(3) by simp
  have src: "(r + fh) * P + j < N * P" and dst: "r * P + j < N * P" if "j < w" for j
    using index_bound [of j P "r + fh" N] index_bound [of j P r N] that assms(3,4) by simp_all
  have off: "cint (int (r + fh) * int P) = Inr (int ((r + fh) * P))" "cint ((int (r + fh) - int fh) * int P) = Inr (int (r * P))"
    using cint_nat [of "(r + fh) * P"] cint_nat [of "r * P"] row_bound [of "r + fh" N P] row_bound [of r N P] assms(2,4) by simp_all
  define body where "body x s = rbind (cint (int ((r + fh) * P) + x)) (\<lambda>i.
      rbind (get_pixel i s) (\<lambda>c. rbind (cint (int (r * P) + x)) (\<lambda>j. set_pixel j c s)))" for x s
  have "\<exists>t. for_each (\<lambda>j. body (int j)) [0..<w] s = Inr t \<and>
    painted s t (layers (\<lambda>j. [r * P + j \<mapsto> g_framebuffer2 s ! ((r + fh) * P + j)]) w)"
  proof (rule for_each_painted_read)
    fix j t
    assume j: "j < w" and p: "painted s t (layers (\<lambda>j. [r * P + j \<mapsto> g_framebuffer2 s ! ((r + fh) * P + j)]) j)"
    have apart: "\<not> (r * P \<le> (r + fh) * P + j \<and> (r + fh) * P + j < r * P + j)"
      using P assms(5) by (simp add: algebra_simps)
    then have "g_framebuffer2 t ! ((r + fh) * P + j) = g_framebuffer2 s ! ((r + fh) * P + j)"
      using painted_nth [OF p, of "(r + fh) * P + j"] src [OF j] assms(1) by (simp add: layers_row)
    then have g: "get_pixel (int ((r + fh) * P + j)) t = Inr (g_framebuffer2 s ! ((r + fh) * P + j))"
      using src [OF j] assms(1) p by (simp add: get_pixel_def del: of_nat_add of_nat_mult)
    have l: "r * P + j < length (g_framebuffer2 t)" using dst [OF j] assms(1) p by simp
    have c: "cint (int ((r + fh) * P) + int j) = Inr (int ((r + fh) * P + j))" "cint (int (r * P) + int j) = Inr (int (r * P + j))"
      using cint_nat [of "(r + fh) * P + j"] cint_nat [of "r * P + j"] src [OF j] dst [OF j] assms(2) by simp_all
    show "\<exists>u. body (int j) t = Inr u \<and> painted t u [r * P + j \<mapsto> g_framebuffer2 s ! ((r + fh) * P + j)]"
      using put_word_painted [OF l, of "g_framebuffer2 s ! ((r + fh) * P + j)"]
      unfolding body_def c rbind_Inr g by (simp add: set_pixel_def del: of_nat_add of_nat_mult)
  qed
  moreover have "copy_line (int w) (int P) (int fh) (int (r + fh)) s = for_each (\<lambda>j. body (int j)) [0..<w] s"
    using upto_int [of 0 w] unfolding copy_line_def off rbind_Inr body_def
    by (simp add: for_each_map)
  ultimately show ?thesis by simp
qed

lemma clear_line_painted:
  assumes "N * P \<le> length (g_framebuffer2 s)" and "N * P < 2 ^ 31" and "w \<le> P" and "r < N"
    and "\<And>t. fbuf t = fbuf s \<Longrightarrow> Color 0 0 0 t = Inr black"
  shows "\<exists>t. clear_line (int w) (int P) (int r) s = Inr t \<and> painted s t (layers (\<lambda>j. [r * P + j \<mapsto> black]) w)"
proof -
  have "r * P < 2 ^ 31" using row_bound [OF _ assms(2)] assms(4) by simp
  then have off: "cint (int r * int P) = Inr (int (r * P))" using cint_nat [of "r * P"] by simp
  define body where "body x s = rbind (Color 0 0 0 s) (\<lambda>black.
      rbind (cint (int (r * P) + x)) (\<lambda>i. set_pixel i black s))" for x s
  have "\<exists>t. for_each (\<lambda>j. body (int j)) [0..<w] s = Inr t \<and> painted s t (layers (\<lambda>j. [r * P + j \<mapsto> black]) w)"
  proof (rule for_each_painted)
    fix j t R
    assume j: "j < w" and p: "painted s t R"
    have i: "r * P + j < N * P" using index_bound [of j P r N] j assms(3,4) by simp
    have l: "r * P + j < length (g_framebuffer2 t)" using i assms(1) p by simp
    have c: "cint (int (r * P) + int j) = Inr (int (r * P + j))" using cint_nat [of "r * P + j"] i assms(2) by simp
    have b: "Color 0 0 0 t = Inr black" using assms(5) p by simp
    show "\<exists>u. body (int j) t = Inr u \<and> painted t u [r * P + j \<mapsto> black]"
      using put_word_painted [OF l, of black] unfolding body_def b c rbind_Inr
      by (simp add: set_pixel_def del: of_nat_add of_nat_mult)
  qed
  moreover have "clear_line (int w) (int P) (int r) s = for_each (\<lambda>j. body (int j)) [0..<w] s"
    using upto_int [of 0 w] unfolding clear_line_def off rbind_Inr body_def by (simp add: for_each_map)
  ultimately show ?thesis by simp
qed


text \<open>Scrolling moves the picture up by the height of a character. Every visible row shows what was
  that many rows below it, the rows that come free at the bottom are black, and the part of a row
  beyond the visible width and the rows below the screen keep what they held.\<close>

lemma scroll_up_moves:
  assumes "fbuf_info s = Some f" and "font_hdr s = Some h"
    and "fb_width f = of_nat W" and "fb_height f = of_nat H" and "fb_pitch f = of_nat (4 * P)" and "font_height h = of_nat fh"
    and "W \<le> P" and "P < 2 ^ 29" and "H < 2 ^ 31" and "0 < fh" and "fh \<le> H" and "H * P < 2 ^ 31"
    and "H * P \<le> length (g_framebuffer2 s)"
    and "unat (red_mask_shift f) < 32" and "unat (green_mask_shift f) < 32" and "unat (blue_mask_shift f) < 32"
  shows "\<exists>t. scroll_up s = Inr t \<and> length (g_framebuffer2 t) = length (g_framebuffer2 s) \<and>
    (\<forall>i < length (g_framebuffer2 s). g_framebuffer2 t ! i =
       (if i mod P < W \<and> i div P < H then
          if i div P < H - fh then g_framebuffer2 s ! (i + fh * P) else 0
        else g_framebuffer2 s ! i))"
proof -
  have fb: "fbuf s = Inr f" and fo: "font s = Inr h" using assms(1,2) by (simp_all add: fbuf_def font_def)
  have ti: "to_int (of_nat n) = int n" if "n < 2 ^ 31" for n
    using sint_of_nat_u32 [OF that] by (simp add: to_int_def of_nat_eq_iff unsigned_of_nat ucast_eq flip: take_bit_eq_mod)
      (simp add: sint_uint unsigned_of_nat take_bit_nat_eq_self)
  have pitch: "to_int (fb_pitch f div 4) = int P"
  proof -
    have "unat (fb_pitch f div 4) = P"
      using assms(5,8) unat_of_nat_u64 [of "4 * P"] by (simp add: unat_div_distrib)
    then have "fb_pitch f div 4 = of_nat P" by (metis of_nat_unat_id)
    then show ?thesis using ti [of P] assms(8) by simp
  qed
  have sizes: "to_int (fb_width f) = int W" "to_int (fb_height f) = int H" "sint (font_height h) = int fh"
    using ti [of W] ti [of H] sint_of_nat_u32 [of fh] assms(3,4,6,7,8,9,11) by simp_all
  have black: "Color 0 0 0 t = Inr 0" if "fbuf t = fbuf s" for t
    using that fb assms(14,15,16) by (simp add: Color_def shifted_def)
  have nn: "g_framebuffer2 s ! ((r + fh) * P + j) = g_framebuffer2 s ! ((r * P + j) + fh * P)" for r j
    by (simp add: algebra_simps)
  define Q where "Q r = layers (\<lambda>j. [r * P + j \<mapsto> g_framebuffer2 s ! ((r + fh) * P + j)]) W" for r
  have Qrect: "layers Q n = rect P 0 0 W n (\<lambda>r j. g_framebuffer2 s ! ((r + fh) * P + j))" for n
    using layers_rect [of 0 W P 0 "\<lambda>r j. g_framebuffer2 s ! ((r + fh) * P + j)" n] assms(7) by (simp add: Q_def [abs_def])
  have "\<exists>t. for_each (\<lambda>r. copy_line (int W) (int P) (int fh) (int (r + fh))) [0..<H - fh] s = Inr t \<and> painted s t (layers Q (H - fh))"
  proof (rule for_each_painted_read)
    fix r t
    assume r: "r < H - fh" and p: "painted s t (layers Q r)"
    have same: "g_framebuffer2 t ! ((r + fh) * P + j) = g_framebuffer2 s ! ((r + fh) * P + j)" if "j < W" for j
    proof -
      have jP: "j < P" using that assms(7) by simp
      have "((r + fh) * P + j) div P = r + fh" using jP by simp
      then have "layers Q r ((r + fh) * P + j) = None" unfolding Qrect rect_def using assms(10) by simp
      moreover have "(r + fh) * P + j < length (g_framebuffer2 s)"
        using index_bound [OF jP, of "r + fh" H] r assms(13) by (simp add: less_diff_conv)
      ultimately show ?thesis using painted_nth [OF p] by simp
    qed
    have "layers (\<lambda>j. [r * P + j \<mapsto> g_framebuffer2 t ! ((r + fh) * P + j)]) W = Q r"
      unfolding Q_def by (rule layers_cong) (simp add: same)
    then show "\<exists>u. copy_line (int W) (int P) (int fh) (int (r + fh)) t = Inr u \<and> painted t u (Q r)"
      using copy_line_painted [of H P t W r fh] assms(7,10,12,13) r p by simp
  qed
  then obtain t where t: "for_each (copy_line (int W) (int P) (int fh)) [int fh..int H - 1] s = Inr t"
    "painted s t (rect P 0 0 W (H - fh) (\<lambda>r j. g_framebuffer2 s ! ((r + fh) * P + j)))"
    unfolding Qrect upto_int for_each_map by (auto simp: add.commute)
  define B where "B r = layers (\<lambda>j. [(H - fh + r) * P + j \<mapsto> (0 :: u32)]) W" for r
  have "\<exists>u. for_each (\<lambda>r. clear_line (int W) (int P) (int (H - fh + r))) [0..<fh] t = Inr u \<and> painted t u (layers B fh)"
  proof (rule for_each_painted)
    fix r u R
    assume r: "r < fh" and p: "painted t u R"
    have "fbuf v = fbuf u \<Longrightarrow> Color 0 0 0 v = Inr 0" for v using black p t(2) by simp
    then show "\<exists>v. clear_line (int W) (int P) (int (H - fh + r)) u = Inr v \<and> painted u v (B r)"
      using clear_line_painted [of H P u W "H - fh + r" 0] assms(7,11,12,13) r p t(2) by (simp add: B_def)
  qed
  moreover have "layers B fh = rect P 0 (H - fh) W fh (\<lambda>_ _. 0)"
    using layers_rect [of 0 W P "H - fh" "\<lambda>_ _. 0" fh] assms(7) by (simp add: B_def [abs_def])
  moreover have "[int (H - fh)..int H - 1] = map (\<lambda>r. int (H - fh + r)) [0..<fh]" using upto_int [of "H - fh" H] assms(11) by simp
  ultimately obtain u where u: "for_each (clear_line (int W) (int P)) [int (H - fh)..int H - 1] t = Inr u"
    "painted t u (rect P 0 (H - fh) W fh (\<lambda>_ _. 0))"
    by (auto simp: for_each_map)
  let ?u = "u\<lparr>g_framebuffer_dirty := True\<rparr>"
  have top: "cint (int H - int fh) = Inr (int (H - fh))" using cint_nat [of "H - fh"] assms(9,11) by (simp add: of_nat_diff)
  have "scroll_up s = Inr ?u"
    using t(1) u(1) by (simp add: scroll_up_def fb fo Let_def sizes pitch top)
  moreover have p: "painted s ?u (rect P 0 0 W (H - fh) (\<lambda>r j. g_framebuffer2 s ! ((r + fh) * P + j)) ++
      rect P 0 (H - fh) W fh (\<lambda>_ _. 0))" (is "painted s ?u ?R")
    using painted_dirty [OF painted_trans [OF t(2) u(2)]] .
  moreover have "g_framebuffer2 ?u ! i =
      (if i mod P < W \<and> i div P < H then if i div P < H - fh then g_framebuffer2 s ! (i + fh * P) else 0
       else g_framebuffer2 s ! i)" if i: "i < length (g_framebuffer2 s)" for i
  proof -
    have ei: "(i div P + fh) * P + i mod P = i + fh * P" by (simp add: algebra_simps)
    show ?thesis
      unfolding painted_nth [OF p i] map_add_def rect_def Let_def using assms(11) ei
      by (auto split: option.splits)
  qed
  ultimately show ?thesis using painted_same(6) [OF p] by blast
qed


end
