(* ===== verification/Ports.thy ===== *)
theory Ports
  imports Prelude
begin

text \<open>
  The input and output ports of \<^verbatim>\<open>include/kernel/x64/io.h\<close>: for every port the bytes that
  \<^verbatim>\<open>inb\<close> will return, in order, and the bytes that \<^verbatim>\<open>outb\<close> has written so far. A program
  that reads more than the devices answer waits for ever, which is the fault \<open>Hang\<close>.
\<close>

record ports =
  answers :: "u16 \<Rightarrow> u8 list"
  written :: "(u16 \<times> u8) list"

definition inb :: "u16 \<Rightarrow> ports \<Rightarrow> (u8 \<times> ports) res" where
  "inb port s =
     (case answers s port of
        [] \<Rightarrow> Inl Hang
      | v # vs \<Rightarrow> Inr (v, s\<lparr>answers := (answers s)(port := vs)\<rparr>))"

definition outb :: "u16 \<Rightarrow> u8 \<Rightarrow> ports \<Rightarrow> ports" where
  "outb port v s = s\<lparr>written := written s @ [(port, v)]\<rparr>"


text \<open>A sequence of writes.\<close>

definition outbs :: "(u16 \<times> u8) list \<Rightarrow> ports \<Rightarrow> ports" where
  "outbs ws s = s\<lparr>written := written s @ ws\<rparr>"

lemma outbs_Nil [simp]: "outbs [] s = s"
  by (simp add: outbs_def)

lemma outbs_append [simp]: "outbs ws (outbs vs s) = outbs (vs @ ws) s"
  by (simp add: outbs_def)

lemma outb_outbs: "outb p v s = outbs [(p, v)] s"
  by (simp add: outb_def outbs_def)

lemma written_outbs [simp]: "written (outbs ws s) = written s @ ws" "answers (outbs ws s) = answers s"
  by (simp_all add: outbs_def)

subsection \<open>Waiting\<close>

text \<open>The answers that are left when the flag test \<open>stop\<close> holds.\<close>

fun wait_status :: "(u8 \<Rightarrow> bool) \<Rightarrow> u8 list \<Rightarrow> u8 list res" where
  "wait_status stop [] = Inl Hang"
| "wait_status stop (v # vs) = (if stop v then Inr vs else wait_status stop vs)"

definition wait_until :: "u16 \<Rightarrow> (u8 \<Rightarrow> bool) \<Rightarrow> ports \<Rightarrow> ports res" where
  "wait_until port stop s =
     rbind (wait_status stop (answers s port)) (\<lambda>vs. Inr (s\<lparr>answers := (answers s)(port := vs)\<rparr>))"

lemma wait_status_iff:
  "wait_status stop vs = Inr rest \<longleftrightarrow> (\<exists>pre v. vs = pre @ v # rest \<and> stop v \<and> list_all (\<lambda>x. \<not> stop x) pre)"
proof (induction vs)
  case (Cons w ws)
  show ?case
  proof (cases "stop w")
    case True
    then show ?thesis by (auto simp: Cons_eq_append_conv)
  next
    case False
    then have "wait_status stop (w # ws) = Inr rest \<longleftrightarrow>
        (\<exists>pre v. ws = pre @ v # rest \<and> stop v \<and> list_all (\<lambda>x. \<not> stop x) pre)" using Cons.IH by simp
    also have "\<dots> \<longleftrightarrow> (\<exists>pre v. w # ws = pre @ v # rest \<and> stop v \<and> list_all (\<lambda>x. \<not> stop x) pre)"
      using False by (auto simp: Cons_eq_append_conv intro: exI [of _ "w # _"])
    finally show ?thesis .
  qed
qed simp

lemma wait_status_hangs: "wait_status stop vs = Inl e \<longleftrightarrow> e = Hang \<and> list_all (\<lambda>x. \<not> stop x) vs"
  by (induction vs) auto

end
