(* ===== verification/Ps2.thy ===== *)
theory Ps2
  imports Terminal Ports
begin

text \<open>
  The keyboard and the mouse, \<^verbatim>\<open>src/drivers/ps2/ps2.cpp\<close>, and the line input on top of the
  keyboard, \<^verbatim>\<open>src/kernel/io/scan.cpp\<close>. The controller is what its ports answer: for every port
  the bytes that \<^verbatim>\<open>inb\<close> will return, in order, and the bytes written so far. A loop that waits for
  a flag consumes the answers of the status port; when the answers end before the flag comes, the
  loop has no end that is described, which is the fault \<open>Hang\<close>.
\<close>

subsection \<open>The controller\<close>

definition PS2_DATA :: u16 where "PS2_DATA = 0x60"
definition PS2_STATUS :: u16 where "PS2_STATUS = 0x64"
definition PS2_CMD :: u16 where "PS2_CMD = 0x64"
definition OUTPUT_ALLOWED :: u8 where "OUTPUT_ALLOWED = 1"
definition INPUT_ALLOWED :: u8 where "INPUT_ALLOWED = 2"

subsection \<open>Keyboard\<close>

definition KEY_LSHIFT_PRESS :: u8 where "KEY_LSHIFT_PRESS = 0x2A"
definition KEY_RSHIFT_PRESS :: u8 where "KEY_RSHIFT_PRESS = 0x36"
definition KEY_LSHIFT_RELEASE :: u8 where "KEY_LSHIFT_RELEASE = 0xAA"
definition KEY_RSHIFT_RELEASE :: u8 where "KEY_RSHIFT_RELEASE = 0xB6"

definition ScanCodeLookupTable :: "u8 list" where
  "ScanCodeLookupTable =
     [0, 0] @ map of_char ''1234567890-='' @ [8, 9] @ map of_char ''qwertyuiop[]'' @ [10, 0] @
     map of_char ''asdfghjkl;'' @ [39, 96, 0, 92] @ map of_char ''zxcvbnm,./'' @ [0, 42, 0, 32]"

definition ScanCodeLookupTableShift :: "u8 list" where
  "ScanCodeLookupTableShift =
     [0, 0] @ map of_char ''!@#$%^&*()_+'' @ [8, 9] @ map of_char ''QWERTYUIOP{}'' @ [10, 0] @
     map of_char ''ASDFGHJKL:'' @ [34, 126, 0, 124] @ map of_char ''ZXCVBNM<>?'' @ [0, 42, 0, 32]"

record keyboard =
  lastKey :: u8
  shiftBit :: bool

definition look_up :: "u8 list \<Rightarrow> u8 \<Rightarrow> u8 res" where
  "look_up table code = (if unat code < length table then Inr (table ! unat code) else Inl Out_of_bounds)"

definition shift_key :: "u8 \<Rightarrow> bool \<Rightarrow> bool" where
  "shift_key code shift =
     (if code = KEY_LSHIFT_PRESS \<or> code = KEY_RSHIFT_PRESS then True
      else if code = KEY_LSHIFT_RELEASE \<or> code = KEY_RSHIFT_RELEASE then False
      else shift)"

text \<open>What one scan code does; the result says whether a key was read.\<close>

definition key_code :: "u8 \<Rightarrow> keyboard \<Rightarrow> (bool \<times> keyboard) res" where
  "key_code code k =
     (let shift = shift_key code (shiftBit k)
      in if code < 59
         then rbind (look_up (if \<not> shift then ScanCodeLookupTable else ScanCodeLookupTableShift) code) (\<lambda>c.
                Inr (True, k\<lparr>shiftBit := shift, lastKey := c\<rparr>))
         else Inr (False, k\<lparr>shiftBit := shift\<rparr>))"

definition pollKeyInput :: "ports \<Rightarrow> keyboard \<Rightarrow> (bool \<times> ports \<times> keyboard) res" where
  "pollKeyInput s k =
     rbind (inb PS2_STATUS s) (\<lambda>(st, s).
       if (NOT st) AND OUTPUT_ALLOWED \<noteq> 0 then Inr (False, s, k)
       else rbind (inb 0x60 s) (\<lambda>(code, s).
            rbind (key_code code k) (\<lambda>(got, k). Inr (got, s, k))))"

subsection \<open>Waiting\<close>

definition wait_port :: "(u8 \<Rightarrow> bool) \<Rightarrow> ports \<Rightarrow> ports res" where
  "wait_port = wait_until PS2_STATUS"

definition waitForInput :: "ports \<Rightarrow> ports res" where
  "waitForInput = wait_port (\<lambda>v. (NOT v) AND INPUT_ALLOWED \<noteq> 0)"

definition waitForOutput :: "ports \<Rightarrow> ports res" where
  "waitForOutput = wait_port (\<lambda>v. v AND OUTPUT_ALLOWED \<noteq> 0)"

definition mouseReadByte :: "ports \<Rightarrow> (u8 \<times> ports) res" where
  "mouseReadByte s = rbind (waitForOutput s) (inb PS2_DATA)"

definition getMouseData :: "ports \<Rightarrow> (u8 \<times> ports) res" where
  "getMouseData s = rbind (waitForOutput s) (inb PS2_DATA)"

definition mouseWriteByte :: "u8 \<Rightarrow> ports \<Rightarrow> ports res" where
  "mouseWriteByte cmd s =
     rbind (waitForInput s) (\<lambda>s.
     rbind (waitForInput (outb PS2_CMD 0xD4 s)) (\<lambda>s. Inr (outb PS2_DATA cmd s)))"

text \<open>A command whose answer is read.\<close>

definition ask :: "u8 \<Rightarrow> ports \<Rightarrow> (u8 \<times> ports) res" where
  "ask cmd s = rbind (waitForOutput (outb PS2_CMD cmd s)) (inb PS2_DATA)"

definition set_config :: "u8 \<Rightarrow> ports \<Rightarrow> ports res" where
  "set_config cc s = rbind (waitForInput (outb PS2_CMD 0x60 s)) (\<lambda>s. Inr (outb PS2_DATA cc s))"

text \<open>The part after the tests.\<close>

definition mouse_enable :: "ports \<Rightarrow> ports res" where
  "mouse_enable s =
     rbind (ask 0x20 (outb PS2_CMD 0xAE s)) (\<lambda>(cc, s).
     rbind (set_config (cc OR 1) s) (\<lambda>s.
     rbind (mouseWriteByte 0xF6 s) (\<lambda>s. rbind (mouseReadByte s) (\<lambda>(_, s).
     rbind (mouseWriteByte 0xF4 s) (\<lambda>s. rbind (mouseReadByte s) (\<lambda>(_, s). Inr s))))))"

text \<open>The result says whether the end was reached; otherwise the error was logged.\<close>

definition mouseINIT :: "ports \<Rightarrow> (bool \<times> ports) res" where
  "mouseINIT s =
     rbind (inb PS2_DATA (outb PS2_CMD 0xA7 (outb PS2_CMD 0xAD s))) (\<lambda>(_, s).
     rbind (ask 0x20 s) (\<lambda>(cc, s).
     let dualChannel = (cc AND 0x20 \<noteq> 0)
     in rbind (set_config (cc AND 0x3F) s) (\<lambda>s.
        rbind (ask 0xAA s) (\<lambda>(self_test, s).
          if self_test \<noteq> 0x55 then Inr (False, s)
          else rbind (ask 0xAB s) (\<lambda>(port_test, s).
            if port_test = 0 then Inr (False, s)
            else if dualChannel then
              rbind (ask 0xA9 s) (\<lambda>(second_test, s).
                if second_test \<noteq> 0 then Inr (False, s)
                else rbind (mouse_enable (outb PS2_CMD 0xA8 s)) (\<lambda>s. Inr (True, s)))
            else rbind (mouse_enable s) (\<lambda>s. Inr (True, s)))))))"

subsection \<open>Mouse packets\<close>

definition Y_OVERFLOW :: u8 where "Y_OVERFLOW = 0x80"
definition X_OVERFLOW :: u8 where "X_OVERFLOW = 0x40"
definition Y_SIGN :: u8 where "Y_SIGN = 0x20"
definition X_SIGN :: u8 where "X_SIGN = 0x10"

record mouse =
  mouse_X :: int
  mouse_Y :: int

text \<open>\<^verbatim>\<open>if (p < 0) p = 0; if (p > limit - 8) p = limit - 8;\<close> with an unsigned limit.\<close>

definition clamp :: "u64 \<Rightarrow> int \<Rightarrow> int" where
  "clamp limit p =
     (let p = (if p < 0 then 0 else p)
      in if p > uint (limit - 8) then sint (limit - 8) else p)"

text \<open>The packet is in an array of 16-bit integers, so a byte is not negative. The first byte that
  moves the pointer is overwritten before the second coordinate uses it.\<close>

definition move_mouse :: "limine_framebuffer \<Rightarrow> u8 \<Rightarrow> u8 \<Rightarrow> u8 \<Rightarrow> mouse \<Rightarrow> mouse" where
  "move_mouse f b0 b1 b2 m =
     (if b0 AND Y_OVERFLOW \<noteq> 0 \<or> b0 AND X_OVERFLOW \<noteq> 0 then m
      else let xNegative = (b0 AND X_SIGN \<noteq> 0); yNegative = (b0 AND Y_SIGN \<noteq> 0);
               d1 = (if xNegative then 256 - uint b1 else uint b1);
               x = (if xNegative then mouse_X m - d1 else mouse_X m + d1);
               y = (if yNegative then mouse_Y m + (256 - uint b2) else mouse_Y m - d1)
           in m\<lparr>mouse_X := clamp (fb_width f) x, mouse_Y := clamp (fb_height f) y\<rparr>)"

definition processMousePacket :: "vga \<Rightarrow> ports \<Rightarrow> mouse \<Rightarrow> (ports \<times> mouse) res" where
  "processMousePacket v s m =
     rbind (wait_port (\<lambda>st. st AND 0x20 \<noteq> 0) s) (\<lambda>s.
     rbind (getMouseData s) (\<lambda>(b0, s).
     rbind (getMouseData s) (\<lambda>(b1, s).
     rbind (getMouseData s) (\<lambda>(b2, s).
       if b0 AND Y_OVERFLOW \<noteq> 0 \<or> b0 AND X_OVERFLOW \<noteq> 0 then Inr (s, m)
       else rbind (fbuf v) (\<lambda>f. Inr (s, move_mouse f b0 b1 b2 m))))))"

subsection \<open>Reading a line\<close>

record console =
  con_ports :: ports
  con_keys :: keyboard
  con_term :: terminal
  outputEnabled :: bool

definition pollNextChar ::
  "(dstring \<Rightarrow> (int \<times> file_handle) res) \<Rightarrow> console \<Rightarrow> (u8 \<times> console) res" where
  "pollNextChar fo c =
     rbind (pollKeyInput (con_ports c) (con_keys c)) (\<lambda>(got, s, k).
       let c = c\<lparr>con_ports := s, con_keys := k\<rparr>
       in if \<not> got then Inr (0xFF, c)
          else if outputEnabled c then
            rbind (terminal_putc fo (lastKey k) True (con_term c)) (\<lambda>t. Inr (lastKey k, c\<lparr>con_term := t\<rparr>))
          else Inr (lastKey k, c))"

text \<open>The loop ends at the end of the answers of the status port, if not before.\<close>

fun line_loop ::
  "nat \<Rightarrow> (dstring \<Rightarrow> (int \<times> file_handle) res) \<Rightarrow> dstring \<Rightarrow> console \<Rightarrow> (dstring \<times> console) res" where
  "line_loop 0 fo out c = Inl Hang"
| "line_loop (Suc n) fo out c =
     rbind (pollNextChar fo c) (\<lambda>(ch, c).
       if ch = 0xFF then line_loop n fo out c
       else rbind (string_push_back ch out) (\<lambda>out.
            if ch = 10 \<or> ch = 13 \<or> ch = 0 then Inr (out, c) else line_loop n fo out c))"

definition getNextLine ::
  "(dstring \<Rightarrow> (int \<times> file_handle) res) \<Rightarrow> dstring \<Rightarrow> console \<Rightarrow> (dstring \<times> console) res" where
  "getNextLine fo output c =
     rbind (string_clear output) (\<lambda>out.
       line_loop (Suc (length (answers (con_ports c) PS2_STATUS))) fo out c)"


subsection \<open>What the keyboard types\<close>

lemma length_tables [simp]: "length ScanCodeLookupTable = 58" "length ScanCodeLookupTableShift = 58"
  by (simp_all add: ScanCodeLookupTable_def ScanCodeLookupTableShift_def)

text \<open>The tables as numbers, for evaluation.\<close>

lemma tables_bytes [code]:
  "ScanCodeLookupTable = [0, 0, 49, 50, 51, 52, 53, 54, 55, 56, 57, 48, 45, 61, 8, 9, 113, 119, 101, 114, 116, 121, 117, 105,
     111, 112, 91, 93, 10, 0, 97, 115, 100, 102, 103, 104, 106, 107, 108, 59, 39, 96, 0, 92, 122, 120,
     99, 118, 98, 110, 109, 44, 46, 47, 0, 42, 0, 32]"
  "ScanCodeLookupTableShift = [0, 0, 33, 64, 35, 36, 37, 94, 38, 42, 40, 41, 95, 43, 8, 9, 81, 87, 69, 82, 84, 89, 85, 73, 79, 80,
     123, 125, 10, 0, 65, 83, 68, 70, 71, 72, 74, 75, 76, 58, 34, 126, 0, 124, 90, 88, 67, 86, 66, 78,
     77, 60, 62, 63, 0, 42, 0, 32]"
  by (simp_all add: ScanCodeLookupTable_def ScanCodeLookupTableShift_def)

text \<open>The keys that a sequence of scan codes gives.\<close>

fun key_codes :: "u8 list \<Rightarrow> keyboard \<Rightarrow> (u8 list \<times> keyboard) res" where
  "key_codes [] k = Inr ([], k)"
| "key_codes (c # cs) k =
     rbind (key_code c k) (\<lambda>(got, k).
     rbind (key_codes cs k) (\<lambda>(out, k'). Inr (if got then lastKey k # out else out, k')))"

lemma rbind_return: "rbind m Inr = m"
  by (cases m) simp_all

lemma key_codes_append:
  "key_codes (xs @ ys) k =
     rbind (key_codes xs k) (\<lambda>(o1, k). rbind (key_codes ys k) (\<lambda>(o2, k). Inr (o1 @ o2, k)))"
  by (induction xs arbitrary: k) (auto simp: rbind_assoc split_beta rbind_return intro!: rbind_cong)

text \<open>
  The specification is the US keyboard in scan code set 1, key by key: the code, the character and the
  character with a shift key held. The code of a release is the code of the press with bit 7 set.
\<close>

definition us_keys :: "(u8 \<times> char \<times> char) list" where
  "us_keys =
     [(0x02, CHR ''1'', CHR ''!''), (0x03, CHR ''2'', CHR ''@''), (0x04, CHR ''3'', CHR ''#''),
      (0x05, CHR ''4'', CHR ''$''), (0x06, CHR ''5'', CHR ''%''), (0x07, CHR ''6'', CHR ''^''),
      (0x08, CHR ''7'', CHR ''&''), (0x09, CHR ''8'', CHR ''*''), (0x0A, CHR ''9'', CHR ''(''),
      (0x0B, CHR ''0'', CHR '')''), (0x0C, CHR ''-'', CHR ''_''), (0x0D, CHR ''='', CHR ''+''),
      (0x10, CHR ''q'', CHR ''Q''), (0x11, CHR ''w'', CHR ''W''), (0x12, CHR ''e'', CHR ''E''),
      (0x13, CHR ''r'', CHR ''R''), (0x14, CHR ''t'', CHR ''T''), (0x15, CHR ''y'', CHR ''Y''),
      (0x16, CHR ''u'', CHR ''U''), (0x17, CHR ''i'', CHR ''I''), (0x18, CHR ''o'', CHR ''O''),
      (0x19, CHR ''p'', CHR ''P''), (0x1A, CHR ''['', CHR ''{''), (0x1B, CHR '']'', CHR ''}''),
      (0x1E, CHR ''a'', CHR ''A''), (0x1F, CHR ''s'', CHR ''S''), (0x20, CHR ''d'', CHR ''D''),
      (0x21, CHR ''f'', CHR ''F''), (0x22, CHR ''g'', CHR ''G''), (0x23, CHR ''h'', CHR ''H''),
      (0x24, CHR ''j'', CHR ''J''), (0x25, CHR ''k'', CHR ''K''), (0x26, CHR ''l'', CHR ''L''),
      (0x27, CHR '';'', CHR '':''), (0x28, CHR 0x27, CHR 0x22), (0x29, CHR 0x60, CHR ''~''),
      (0x2B, CHR 0x5C, CHR ''|''), (0x2C, CHR ''z'', CHR ''Z''), (0x2D, CHR ''x'', CHR ''X''),
      (0x2E, CHR ''c'', CHR ''C''), (0x2F, CHR ''v'', CHR ''V''), (0x30, CHR ''b'', CHR ''B''),
      (0x31, CHR ''n'', CHR ''N''), (0x32, CHR ''m'', CHR ''M''), (0x33, CHR '','', CHR ''<''),
      (0x34, CHR ''.'', CHR ''>''), (0x35, CHR ''/'', CHR ''?''), (0x0E, CHR 0x08, CHR 0x08),
      (0x0F, CHR 0x09, CHR 0x09), (0x1C, CHR 0x0A, CHR 0x0A), (0x39, CHR '' '', CHR '' '')]"

text \<open>The character of a key with no shift key, and with one.\<close>

definition plain_key :: "u8 \<Rightarrow> u8 option" where
  "plain_key c = map_option fst (find (\<lambda>(s, p, q). of_char p = c) us_keys)"

definition shifted_key :: "u8 \<Rightarrow> u8 option" where
  "shifted_key c = map_option fst (find (\<lambda>(s, p, q). of_char q = c) us_keys)"

text \<open>How a person types a character: the key alone if there is one, or else with the left or the right
  shift key held.\<close>

definition needs_shift :: "u8 \<Rightarrow> bool" where
  "needs_shift c \<longleftrightarrow> plain_key c = None"

definition scan_codes :: "bool \<Rightarrow> u8 \<Rightarrow> u8 list" where
  "scan_codes right c =
     (case plain_key c of
        Some s \<Rightarrow> [s, s OR 0x80]
      | None \<Rightarrow>
          (case shifted_key c of
             Some s \<Rightarrow> if right then [0x36, s, s OR 0x80, 0xB6] else [0x2A, s, s OR 0x80, 0xAA]
           | None \<Rightarrow> []))"

definition on_keyboard :: "u8 \<Rightarrow> bool" where
  "on_keyboard c \<longleftrightarrow> c = 10 \<or> c = 9 \<or> c = 8 \<or> 32 \<le> unat c \<and> unat c < 127"

text \<open>The layout as numbers, for evaluation.\<close>

definition us_codes :: "(u8 \<times> u8 \<times> u8) list" where
  "us_codes =
    [(2, 49, 33), (3, 50, 64), (4, 51, 35), (5, 52, 36), (6, 53, 37), (7, 54, 94), (8, 55, 38), (9, 56, 42),
     (10, 57, 40), (11, 48, 41), (12, 45, 95), (13, 61, 43), (16, 113, 81), (17, 119, 87), (18, 101, 69), (19,
     114, 82), (20, 116, 84), (21, 121, 89), (22, 117, 85), (23, 105, 73), (24, 111, 79), (25, 112, 80), (26,
     91, 123), (27, 93, 125), (30, 97, 65), (31, 115, 83), (32, 100, 68), (33, 102, 70), (34, 103, 71), (35,
     104, 72), (36, 106, 74), (37, 107, 75), (38, 108, 76), (39, 59, 58), (40, 39, 34), (41, 96, 126), (43,
     92, 124), (44, 122, 90), (45, 120, 88), (46, 99, 67), (47, 118, 86), (48, 98, 66), (49, 110, 78), (50,
     109, 77), (51, 44, 60), (52, 46, 62), (53, 47, 63), (14, 8, 8), (15, 9, 9), (28, 10, 10), (57, 32, 32)]"

lemma us_codes: "map (\<lambda>(s, p, q). (s, of_char p, of_char q)) us_keys = us_codes"
  by (simp add: us_keys_def us_codes_def)

lemma find_memb: "find P xs = Some x \<Longrightarrow> x \<in> set xs \<and> P x"
  by (induction xs) (auto split: if_splits)

lemma find_key:
  "find (\<lambda>(s, p, q). of_char p = c) us_keys = Some (s, p, q) \<Longrightarrow> \<exists>q'. (s, c, q') \<in> set us_codes"
  "find (\<lambda>(s, p, q). of_char q = c) us_keys = Some (s, p, q) \<Longrightarrow> \<exists>p'. (s, p', c) \<in> set us_codes"
  unfolding us_codes [symmetric] by (auto dest!: find_memb intro!: image_eqI [of _ _ "(s, p, q)"] exI)

lemma key_codes_of:
  "plain_key c = Some s \<Longrightarrow> \<exists>q. (s, c, q) \<in> set us_codes"
  "shifted_key c = Some s \<Longrightarrow> \<exists>p. (s, p, c) \<in> set us_codes"
  using find_key [of c] by (auto simp: plain_key_def shifted_key_def)

lemma no_key:
  "plain_key c = None \<Longrightarrow> c \<notin> (\<lambda>(s, p, q). p) ` set us_codes"
  "shifted_key c = None \<Longrightarrow> c \<notin> (\<lambda>(s, p, q). q) ` set us_codes"
  unfolding us_codes [symmetric] plain_key_def shifted_key_def by (force simp: find_None_iff)+

text \<open>Every character is on a key, and every key alone, from a keyboard at rest, is read.\<close>

lemma every_character: "\<forall>n \<in> set ([8, 9, 10] @ [32..<127]). n \<in> set (map (\<lambda>(s, p, q). unat p) us_codes @ map (\<lambda>(s, p, q). unat q) us_codes)"
  by (simp add: us_codes_def upt_rec)

definition reads :: "u8 list \<Rightarrow> u8 list \<Rightarrow> bool" where
  "reads cs out \<longleftrightarrow>
     (case key_codes cs \<lparr>lastKey = 0, shiftBit = False\<rparr> of Inr (r, k) \<Rightarrow> r = out \<and> \<not> shiftBit k | Inl e \<Rightarrow> False)"

lemma every_key:
  "list_all (\<lambda>(s, p, q). reads [s, s OR 0x80] [p] \<and> reads [0x36, s, s OR 0x80, 0xB6] [0, q] \<and>
     reads [0x2A, s, s OR 0x80, 0xAA] [0, q]) us_codes"
  by code_simp

lemma typed_back:
  assumes "on_keyboard c"
  shows "reads (scan_codes right c) (if needs_shift c then [0, c] else [c])"
proof -
  have "unat c = 8 \<or> unat c = 9 \<or> unat c = 10 \<or> unat c \<in> {32..<127}"
    using assms unfolding on_keyboard_def by auto
  then have "unat c \<in> set ([8, 9, 10] @ [32..<127])" unfolding set_append set_upt by auto
  then have "unat c \<in> set (map (\<lambda>(s, p, q). unat p) us_codes @ map (\<lambda>(s, p, q). unat q) us_codes)"
    using every_character by (rule bspec [rotated])
  then have on: "c \<in> (\<lambda>(s, p, q). p) ` set us_codes \<or> c \<in> (\<lambda>(s, p, q). q) ` set us_codes"
    by (force simp: word_unat_eq_iff)
  have key: "reads [s, s OR 0x80] [p] \<and> reads [0x36, s, s OR 0x80, 0xB6] [0, q] \<and> reads [0x2A, s, s OR 0x80, 0xAA] [0, q]"
    if "(s, p, q) \<in> set us_codes" for s p q
    using every_key that unfolding list_all_iff by fastforce
  show ?thesis
  proof (cases "plain_key c")
    case (Some s)
    then show ?thesis using key_codes_of(1) [OF Some] key by (auto simp: scan_codes_def needs_shift_def)
  next
    case None
    with on no_key obtain s where s: "shifted_key c = Some s" by (cases "shifted_key c") blast+
    then show ?thesis using key_codes_of(2) [OF s] key None by (auto simp: scan_codes_def needs_shift_def)
  qed
qed

text \<open>What was typed before does not matter, only the shift key.\<close>

lemma key_code_same_shift:
  "shiftBit k = shiftBit l \<Longrightarrow> key_code c l = Inr (got, l') \<Longrightarrow>
   \<exists>k'. key_code c k = Inr (got, k') \<and> shiftBit k' = shiftBit l' \<and> (got \<longrightarrow> lastKey k' = lastKey l')"
  by (auto simp: key_code_def Let_def rbind_eq_Inr split: if_splits)

lemma key_codes_same_shift:
  "shiftBit k = shiftBit l \<Longrightarrow> key_codes cs l = Inr (out, l') \<Longrightarrow>
   \<exists>k'. key_codes cs k = Inr (out, k') \<and> shiftBit k' = shiftBit l'"
proof (induction cs arbitrary: k l out l')
  case (Cons c cs)
  from Cons.prems(2) obtain got l1 out1 where l1: "key_code c l = Inr (got, l1)" "key_codes cs l1 = Inr (out1, l')"
    "out = (if got then lastKey l1 # out1 else out1)" by (auto simp: rbind_eq_Inr)
  obtain k1 where k1: "key_code c k = Inr (got, k1)" "shiftBit k1 = shiftBit l1" "got \<longrightarrow> lastKey k1 = lastKey l1"
    using key_code_same_shift [OF Cons.prems(1) l1(1)] by blast
  obtain k' where "key_codes cs k1 = Inr (out1, k')" "shiftBit k' = shiftBit l'"
    using Cons.IH [OF k1(2) l1(2)] by blast
  then show ?case using k1 l1(3) by auto
qed auto

text \<open>C19: What is typed is what is read. From a keyboard whose shift key is up, typing any text of printable
  ASCII characters, tabs, backspaces and line ends on a US keyboard (each key pressed and released,
  the upper characters with the left or the right shift key held) gives exactly the characters of the
  text in order, with one zero character in front of each upper one: the press of the shift key reads as
  a key, the releases as none. The shift key is up at the end.\<close>

theorem keyboard_roundtrip:
  assumes "list_all (\<lambda>(right, c). on_keyboard c) ks" and "\<not> shiftBit k"
  shows "\<exists>k'. key_codes (concat (map (\<lambda>(right, c). scan_codes right c) ks)) k =
    Inr (concat (map (\<lambda>(right, c). if needs_shift c then [0, c] else [c]) ks), k') \<and> \<not> shiftBit k'"
  using assms
proof (induction ks arbitrary: k)
  case (Cons rc ks)
  obtain r c where rc: "rc = (r, c)" by (cases rc)
  let ?o = "if needs_shift c then [0, c] else [c]"
  have "reads (scan_codes r c) ?o" using Cons.prems(1) by (simp add: rc typed_back del: One_nat_def)
  then obtain k1 where "key_codes (scan_codes r c) \<lparr>lastKey = 0, shiftBit = False\<rparr> = Inr (?o, k1)" "\<not> shiftBit k1"
    by (auto simp: reads_def split: sum.splits)
  then obtain k2 where k2: "key_codes (scan_codes r c) k = Inr (?o, k2)" "\<not> shiftBit k2"
    using key_codes_same_shift [of k "\<lparr>lastKey = 0, shiftBit = False\<rparr>" "scan_codes r c" ?o k1] Cons.prems(2) by auto
  from Cons.IH [OF _ k2(2)] Cons.prems(1) k2(1) show ?case by (auto simp: rc key_codes_append)
qed simp

theorem keyboard_roundtrip_witness:
  "\<exists>k'. key_codes [0x36, 0x23, 0xA3, 0xB6, 0x17, 0x97] \<lparr>lastKey = 7, shiftBit = False\<rparr> = Inr ([0, 72, 105], k') \<and> \<not> shiftBit k'"
proof -
  have c: "scan_codes True 72 = [0x36, 0x23, 0xA3, 0xB6]" "scan_codes False 105 = [0x17, 0x97]" "needs_shift 72" "\<not> needs_shift 105"
    by (simp_all add: scan_codes_def needs_shift_def plain_key_def shifted_key_def us_keys_def)
  have "list_all (\<lambda>(right, c). on_keyboard c) [(True, 72), (False, 105)]" by (simp add: on_keyboard_def)
  from keyboard_roundtrip [OF this, of "\<lparr>lastKey = 7, shiftBit = False\<rparr>"] show ?thesis by (simp add: c)
qed

text \<open>Caps lock has the code just behind the tables: pressing it reads past their end.\<close>

lemma caps_lock_out_of_bounds: "key_code 0x3A k = Inl Out_of_bounds"
  by (simp add: key_code_def Let_def look_up_def)

lemma key_code_bounds: "unat code < 58 \<or> 59 \<le> unat code \<Longrightarrow> \<exists>r. key_code code k = Inr r"
  by (auto simp: key_code_def Let_def look_up_def word_less_nat_alt)


text \<open>The shift key is a key: a line ends when it is pressed.\<close>

lemma shift_is_a_key: "key_code KEY_LSHIFT_PRESS k = Inr (True, k\<lparr>shiftBit := True, lastKey := 0\<rparr>)"
  by (simp add: key_code_def shift_key_def look_up_def KEY_LSHIFT_PRESS_def tables_bytes)

subsection \<open>The mouse on the screen\<close>

lemma clamp_range:
  assumes "8 \<le> unat limit" and "unat limit < 2 ^ 63"
  shows "0 \<le> clamp limit p \<and> clamp limit p \<le> int (unat limit) - 8" and
    "0 \<le> p \<and> p \<le> int (unat limit) - 8 \<Longrightarrow> clamp limit p = p"
proof -
  have u: "unat (limit - 8) = unat limit - 8" using assms(1) unat_sub_no [of 8 limit] by simp
  have i: "uint (limit - 8) = int (unat limit) - 8"
    by (simp only: uint_nat u) (use assms(1) in linarith)
  moreover have "int (unat limit) < int (2 ^ 63)" using assms(2) by (simp only: of_nat_less_iff)
  then have "uint (limit - 8) < 2 ^ 63"
    by (simp only: i of_nat_power of_nat_numeral)
  ultimately have s: "sint (limit - 8) = int (unat limit) - 8"
    using uint_ge_0 [of "limit - 8"] by (simp add: sint_uint signed_take_bit_int_eq_self del: uint_ge_0)
  have "8 \<le> int (unat limit)" using assms(1) by linarith
  then show "0 \<le> clamp limit p \<and> clamp limit p \<le> int (unat limit) - 8"
    unfolding clamp_def Let_def s i by (simp split: if_splits)
  show "0 \<le> p \<and> p \<le> int (unat limit) - 8 \<Longrightarrow> clamp limit p = p"
    by (simp add: clamp_def s i)
qed

definition on_screen :: "limine_framebuffer \<Rightarrow> mouse \<Rightarrow> bool" where
  "on_screen f m \<longleftrightarrow> 0 \<le> mouse_X m \<and> mouse_X m \<le> int (unat (fb_width f)) - 8 \<and>
     0 \<le> mouse_Y m \<and> mouse_Y m \<le> int (unat (fb_height f)) - 8"

lemma move_mouse_on_screen:
  assumes "8 \<le> unat (fb_width f)" and "unat (fb_width f) < 2 ^ 63" and "8 \<le> unat (fb_height f)"
    and "unat (fb_height f) < 2 ^ 63" and "on_screen f m"
  shows "on_screen f (move_mouse f b0 b1 b2 m)"
  using clamp_range(1) [OF assms(1,2)] clamp_range(1) [OF assms(3,4)] assms(5)
  by (simp add: move_mouse_def Let_def on_screen_def)

text \<open>Without a sign bit for the second coordinate the third byte of a packet has no effect: the vertical
  movement is the horizontal one.\<close>

lemma third_byte_ignored: "b0 AND Y_SIGN = 0 \<Longrightarrow> move_mouse f b0 b1 b2 m = move_mouse f b0 b1 b2' m"
  by (simp add: move_mouse_def)

lemma vertical_is_horizontal:
  assumes z: "b0 AND (Y_SIGN OR X_SIGN OR Y_OVERFLOW OR X_OVERFLOW) = 0"
  shows "mouse_Y (move_mouse f b0 b1 b2 m) = clamp (fb_height f) (mouse_Y m - uint b1)"
proof -
  have part: "b0 AND a = 0" if "a AND (Y_SIGN OR X_SIGN OR Y_OVERFLOW OR X_OVERFLOW) = a" for a
  proof -
    have "b0 AND a = (b0 AND (Y_SIGN OR X_SIGN OR Y_OVERFLOW OR X_OVERFLOW)) AND a"
      using that by (metis and.assoc and.commute)
    then show ?thesis using z by simp
  qed
  have "b0 AND Y_SIGN = 0" "b0 AND X_SIGN = 0" "b0 AND Y_OVERFLOW = 0" "b0 AND X_OVERFLOW = 0"
    by (rule part, simp add: Y_SIGN_def X_SIGN_def Y_OVERFLOW_def X_OVERFLOW_def)+
  then show ?thesis by (simp add: move_mouse_def Let_def)
qed

text \<open>The pointer stays on the screen: from a place on a screen of at least eight by eight pixels, any
  sequence of packets of the mouse leads to a place where the eight by eight pointer is on the screen
  as a whole.\<close>

lemma mouse_on_screen:
  assumes "8 \<le> unat (fb_width f)" and "unat (fb_width f) < 2 ^ 63" and "8 \<le> unat (fb_height f)"
    and "unat (fb_height f) < 2 ^ 63" and "on_screen f m"
  shows "on_screen f (foldl (\<lambda>m (b0, b1, b2). move_mouse f b0 b1 b2 m) m packets)"
  using assms(5)
proof (induction packets arbitrary: m)
  case (Cons p ps)
  then show ?case using move_mouse_on_screen [OF assms(1-4)] by (cases p) simp
qed simp

subsection \<open>Initialising the mouse\<close>

text \<open>The script of a controller that works as documented: the self-test answers 55h, the port tests 0.\<close>

lemma ask_ready:
  assumes "answers s PS2_STATUS = v # vs" and "v AND OUTPUT_ALLOWED \<noteq> 0" and "answers s PS2_DATA = d # ds"
  shows "ask cmd s = Inr (d, \<lparr>answers = (answers s)(PS2_STATUS := vs, PS2_DATA := ds),
    written = written s @ [(PS2_CMD, cmd)]\<rparr>)"
  using assms by (cases s) (simp add: ask_def waitForOutput_def wait_port_def wait_until_def outb_def inb_def PS2_DATA_def PS2_STATUS_def)

lemma set_config_ready:
  assumes "answers s PS2_STATUS = v # vs" and "(NOT v) AND INPUT_ALLOWED \<noteq> 0"
  shows "set_config cc s = Inr (s\<lparr>answers := (answers s)(PS2_STATUS := vs),
    written := written s @ [(PS2_CMD, 0x60), (PS2_DATA, cc)]\<rparr>)"
  using assms by (simp add: set_config_def waitForInput_def wait_port_def wait_until_def outb_def)

text \<open>The mouse is never enabled on hardware that works. A controller that is ready whenever it is
  asked, passes its self-test and reports the first port as working (the answer 0) makes
  \<^verbatim>\<open>mouseINIT\<close> give up with an error, after seven writes to the controller and without enabling
  the device; what the code takes for success is a failed port test.\<close>

lemma mouse_init_rejects_working_port:
  assumes "answers s PS2_STATUS = replicate 4 1 @ vs"
    and "answers s PS2_DATA = [flushed, config, 0x55, 0] @ ds"
  shows "\<exists>s'. mouseINIT s = Inr (False, s') \<and>
    written s' = written s @ [(PS2_CMD, 0xAD), (PS2_CMD, 0xA7), (PS2_CMD, 0x20), (PS2_CMD, 0x60),
      (PS2_DATA, config AND 0x3F), (PS2_CMD, 0xAA), (PS2_CMD, 0xAB)]"
proof -
  define s0 where "s0 = \<lparr>answers = (answers s)(PS2_DATA := [config, 0x55, 0] @ ds),
    written = written s @ [(PS2_CMD, 0xAD), (PS2_CMD, 0xA7)]\<rparr>"
  have ne: "PS2_STATUS \<noteq> PS2_DATA" "(1 :: u8) AND OUTPUT_ALLOWED \<noteq> 0" "(NOT (1 :: u8)) AND INPUT_ALLOWED \<noteq> 0"
    by (simp_all add: PS2_STATUS_def PS2_DATA_def OUTPUT_ALLOWED_def INPUT_ALLOWED_def)
  have st: "answers s PS2_STATUS = 1 # 1 # 1 # 1 # vs" using assms(1) by (simp add: numeral_eq_Suc)
  have i: "inb PS2_DATA (outb PS2_CMD 0xA7 (outb PS2_CMD 0xAD s)) = Inr (flushed, s0)"
    using assms(2) by (cases s) (simp add: inb_def outb_def s0_def)
  define s1 where "s1 = \<lparr>answers = (answers s0)(PS2_STATUS := 1 # 1 # 1 # vs, PS2_DATA := 0x55 # 0 # ds),
    written = written s0 @ [(PS2_CMD, 0x20)]\<rparr>"
  have a: "ask 0x20 s0 = Inr (config, s1)"
    unfolding s1_def by (rule ask_ready [OF _ ne(2)]) (use st ne(1) in \<open>simp_all add: s0_def\<close>)
  define s2 where "s2 = s1\<lparr>answers := (answers s1)(PS2_STATUS := 1 # 1 # vs),
    written := written s1 @ [(PS2_CMD, 0x60), (PS2_DATA, config AND 0x3F)]\<rparr>"
  have b: "set_config (config AND 0x3F) s1 = Inr s2"
    unfolding s2_def by (rule set_config_ready [OF _ ne(3)]) (use ne(1) in \<open>simp add: s1_def\<close>)
  define s3 where "s3 = \<lparr>answers = (answers s2)(PS2_STATUS := 1 # vs, PS2_DATA := 0 # ds),
    written = written s2 @ [(PS2_CMD, 0xAA)]\<rparr>"
  have c: "ask 0xAA s2 = Inr (0x55, s3)"
    unfolding s3_def by (rule ask_ready [OF _ ne(2)]) (use ne(1) in \<open>simp_all add: s2_def s1_def\<close>)
  have d: "ask 0xAB s3 = Inr (0, \<lparr>answers = (answers s3)(PS2_STATUS := vs, PS2_DATA := ds),
      written = written s3 @ [(PS2_CMD, 0xAB)]\<rparr>)"
    by (rule ask_ready [OF _ ne(2)]) (use ne(1) in \<open>simp_all add: s3_def\<close>)
  show ?thesis
    unfolding mouseINIT_def i by (simp add: a b c d Let_def) (simp add: s3_def s2_def s1_def s0_def)
qed

end
