(* ===== verification/Klog.thy ===== *)
theory Klog
  imports Terminal Ports Decimal
begin

text \<open>
  The log on the serial line: \<^verbatim>\<open>src/drivers/serial/serial.cpp\<close> and
  \<^verbatim>\<open>src/kernel/io/klog.cpp\<close>. What is logged is the sequence of bytes written to the first
  serial port. The static \<^verbatim>\<open>buffer\<close> of \<^verbatim>\<open>putc\<close> is written before each use, so it is not part
  of the state. The milliseconds since the start, which the timer interrupt counts, are an argument.
\<close>

subsection \<open>The serial port\<close>

definition COM1 :: u16 where "COM1 = 0x3F8"

fun serial_loop :: "u8 list \<Rightarrow> nat \<Rightarrow> ports \<Rightarrow> ports res" where
  "serial_loop str 0 p = Inr p"
| "serial_loop [] (Suc n) p = Inl Out_of_bounds"
| "serial_loop (c # cs) (Suc n) p = serial_loop cs n (outb COM1 c p)"

text \<open>The counter is an \<^verbatim>\<open>int\<close>, the length is not.\<close>

definition serial_write :: "u8 list \<Rightarrow> nat \<Rightarrow> ports \<Rightarrow> ports res" where
  "serial_write str len p = (if len < 2 ^ 31 then serial_loop str len p else Inl Signed_overflow)"

subsection \<open>Characters and strings\<close>

record klog =
  log_ports :: ports
  serial_output :: bool
  log_lock :: spinlock_t

definition SERIAL_OUTPUT_ENABLE :: bool where
  "SERIAL_OUTPUT_ENABLE = True"

text \<open>The boot loader answers with a number of terminals or not at all.\<close>

definition log_init :: "nat option \<Rightarrow> klog \<Rightarrow> klog" where
  "log_init terminals s =
     s\<lparr>serial_output := (if terminals = None \<or> terminals = Some 0 then True else SERIAL_OUTPUT_ENABLE)\<rparr>"

definition on_serial :: "(ports \<Rightarrow> ports res) \<Rightarrow> klog \<Rightarrow> klog res" where
  "on_serial f s =
     (if serial_output s then rbind (f (log_ports s)) (\<lambda>p. Inr (s\<lparr>log_ports := p\<rparr>)) else Inr s)"

definition puts :: "u8 list \<Rightarrow> klog \<Rightarrow> klog res" where
  "puts src = on_serial (\<lambda>p. rbind (strlen src) (\<lambda>n. serial_write src n p))"

function putc :: "u8 \<Rightarrow> klog \<Rightarrow> klog res" where
  "putc c s =
     rbind (on_serial (serial_write [c, 0] 2) s) (\<lambda>s. if c = 10 then putc 13 s else Inr s)"
  by pat_completeness auto
termination by (relation "measure (\<lambda>(c, s). if c = 10 then 1 else 0)") auto

declare putc.simps [simp del]

text \<open>Every second character is tested and not printed, the one behind it is printed and not tested.\<close>

fun puts_16 :: "u16 list \<Rightarrow> klog \<Rightarrow> klog res" where
  "puts_16 [] s = Inl Out_of_bounds"
| "puts_16 [c] s = (if c = 0 then Inr s else Inl Out_of_bounds)"
| "puts_16 (c # d # ds) s = (if c = 0 then Inr s else rbind (putc (ucast d) s) (puts_16 ds))"

subsection \<open>Formats\<close>

definition wide_arg :: "parg list \<Rightarrow> (u16 list \<times> parg list) res" where
  "wide_arg args = (case args of P_wide s # r \<Rightarrow> Inr (s, r) | _ \<Rightarrow> Inl Uninit_read)"

definition log_conversion :: "u8 \<Rightarrow> parg list \<Rightarrow> klog \<Rightarrow> (parg list option \<times> klog) res" where
  "log_conversion f args s =
     (case conv_text f args of
        Some r \<Rightarrow> rbind r (\<lambda>(t, args). rbind (puts t s) (\<lambda>s. Inr (Some args, s)))
      | None \<Rightarrow>
          if f \<in> {99, 67} then rbind (num_arg args) (\<lambda>(v, args). rbind (putc (ucast v) s) (\<lambda>s. Inr (Some args, s)))
          else if f \<in> {108, 76} then rbind (wide_arg args) (\<lambda>(t, args). rbind (puts_16 t s) (\<lambda>s. Inr (Some args, s)))
          else Inr (None, s))"

fun klog_loop :: "u8 list \<Rightarrow> parg list \<Rightarrow> klog \<Rightarrow> klog res" where
  "klog_loop [] args s = Inl Out_of_bounds"
| "klog_loop [c] args s =
     (if c = 0 then Inr s
      else if c \<noteq> 37 then rbind (putc c s) (\<lambda>s. Inl Out_of_bounds)
      else Inl Out_of_bounds)"
| "klog_loop (c # f # fs) args s =
     (if c = 0 then Inr s
      else if c \<noteq> 37 then rbind (putc c s) (klog_loop (f # fs) args)
      else rbind (log_conversion f args s) (\<lambda>(r, s).
             case r of Some args \<Rightarrow> klog_loop fs args s | None \<Rightarrow> klog_loop (f # fs) args s))"

definition klogvf :: "u8 list \<Rightarrow> parg list \<Rightarrow> klog \<Rightarrow> klog res" where
  "klogvf fmt args s =
     rbind (acquire_spinlock (log_lock s)) (\<lambda>l.
     rbind (klog_loop fmt args (s\<lparr>log_lock := l\<rparr>)) (\<lambda>s.
       Inr (s\<lparr>log_lock := release_spinlock (log_lock s)\<rparr>)))"

subsection \<open>Log lines\<close>

text \<open>What the four kinds of log line share.\<close>

definition log_with ::
  "u8 list \<Rightarrow> u64 \<Rightarrow> u8 list \<Rightarrow> u8 list \<Rightarrow> parg list \<Rightarrow> klog \<Rightarrow> klog res" where
  "log_with lbl millis source fmt args s =
     rbind (log_time millis) (\<lambda>seconds.
     rbind (puts seconds s) (\<lambda>s.
     rbind (puts lbl s) (\<lambda>s.
     rbind (puts source s) (\<lambda>s.
     rbind (strlen source) (\<lambda>n.
     rbind (for_each (\<lambda>_. putc 32) [n..<16] s) (\<lambda>s.
     rbind (klogvf fmt args s) (putc 10)))))))"

definition log_v where "log_v = log_with (9 # cstr ''[V]   '')"
definition log_d where "log_d = log_with (9 # cstr ''[D]     '')"
definition log_w where "log_w = log_with (9 # cstr ''[W]   '')"
definition log_e where "log_e = log_with (9 # cstr ''[E]     '')"

subsection \<open>What is sent\<close>

definition sent :: "u8 list \<Rightarrow> klog \<Rightarrow> klog" where
  "sent bs s = s\<lparr>log_ports := outbs (map (Pair COM1) bs) (log_ports s)\<rparr>"

lemma sent_simps [simp]:
  "sent [] s = s" "sent bs (sent as s) = sent (as @ bs) s"
  "serial_output (sent bs s) = serial_output s" "log_lock (sent bs s) = log_lock s"
  "sent bs (s\<lparr>log_lock := l\<rparr>) = (sent bs s)\<lparr>log_lock := l\<rparr>"
  "written (log_ports (sent bs s)) = written (log_ports s) @ map (Pair COM1) bs"
  by (simp_all add: sent_def)

lemma serial_loop_take: "n \<le> length str \<Longrightarrow> serial_loop str n p = Inr (outbs (map (Pair COM1) (take n str)) p)"
  by (induction str n p rule: serial_loop.induct) (auto simp: outb_outbs)

lemma serial_write_take:
  "n \<le> length str \<Longrightarrow> n < 2 ^ 31 \<Longrightarrow> serial_write str n p = Inr (outbs (map (Pair COM1) (take n str)) p)"
  by (simp add: serial_write_def serial_loop_take)

lemma puts_sent:
  "serial_output s \<Longrightarrow> holds str t \<Longrightarrow> length t < 2 ^ 31 \<Longrightarrow> puts str s = Inr (sent t s)"
  by (auto simp: puts_def on_serial_def strlen_of_holds serial_write_take sent_def holds_def)

text \<open>A character is sent with a zero byte behind it; a line feed brings a carriage return.\<close>

definition char_bytes :: "u8 \<Rightarrow> u8 list" where
  "char_bytes c = (if c = 10 then [10, 0, 13, 0] else [c, 0])"

lemma serial_pair: "serial_write [a, b] 2 p = Inr (outbs [(COM1, a), (COM1, b)] p)"
  using serial_write_take [of 2 "[a, b]" p] by simp

lemma putc_sent: "serial_output s \<Longrightarrow> putc c s = Inr (sent (char_bytes c) s)"
proof -
  have one: "putc c s = Inr (sent [c, 0] s)" if "serial_output s" "c \<noteq> 10" for c s
    using that by (subst putc.simps) (simp add: on_serial_def serial_pair sent_def)
  assume "serial_output s"
  then have "putc 10 s = putc 13 (sent [10, 0] s)"
    by (subst putc.simps) (simp add: on_serial_def serial_pair sent_def)
  then show ?thesis using one \<open>serial_output s\<close> by (cases "c = 10") (simp_all add: char_bytes_def)
qed

lemma pad_sent: "serial_output s \<Longrightarrow>
  for_each (\<lambda>_. putc 32) xs s = Inr (sent (concat (replicate (length xs) [32, 0])) s)"
  by (induction xs arbitrary: s) (simp_all add: putc_sent char_bytes_def)

subsection \<open>A format and what it prints\<close>

text \<open>A format is a sequence of plain characters, strings and numbers, and should print their texts
  one after the other.\<close>

datatype piece = Lit u8 | Text "u8 list" | Dec u64 | Hex u64

fun piece_ok :: "piece \<Rightarrow> bool" where
  "piece_ok (Lit c) = (c \<noteq> 0 \<and> c \<noteq> 37)"
| "piece_ok (Text t) = (0 \<notin> set t \<and> length t < 2 ^ 31)"
| "piece_ok p = True"

fun piece_format :: "piece \<Rightarrow> u8 list" where
  "piece_format (Lit c) = [c]"
| "piece_format (Text t) = [37, 115]"
| "piece_format (Dec v) = [37, 117]"
| "piece_format (Hex v) = [37, 120]"

fun piece_args :: "piece \<Rightarrow> parg list" where
  "piece_args (Lit c) = []"
| "piece_args (Text t) = [P_str (t @ [0])]"
| "piece_args (Dec v) = [P_num v]"
| "piece_args (Hex v) = [P_num v]"

definition number_text :: "nat \<Rightarrow> u64 \<Rightarrow> u8 list" where
  "number_text radix v = digit_chars (rev (ndigits radix (unat v)))"

fun piece_bytes :: "piece \<Rightarrow> u8 list" where
  "piece_bytes (Lit c) = char_bytes c"
| "piece_bytes (Text t) = t"
| "piece_bytes (Dec v) = number_text 10 v"
| "piece_bytes (Hex v) = number_text 16 v"

definition format_of :: "piece list \<Rightarrow> u8 list" where
  "format_of ps = concat (map piece_format ps) @ [0]"

definition args_of :: "piece list \<Rightarrow> parg list" where
  "args_of ps = concat (map piece_args ps)"

definition bytes_of :: "piece list \<Rightarrow> u8 list" where
  "bytes_of ps = concat (map piece_bytes ps)"

lemma number_holds:
  assumes "unat radix = 10 \<or> unat radix = 16"
  shows "\<exists>s. utoa v radix = Inr s \<and> holds s (number_text (unat radix) v)" and
    "length (number_text (unat radix) v) < 2 ^ 31"
proof -
  have "unat v < 10 ^ 63" by (rule less_trans [OF unat_u64_lt]) simp
  moreover have "unat v < 16 ^ 63" by (rule less_trans [OF unat_u64_lt]) simp
  ultimately have "unat v < unat radix ^ 63" using assms by (elim disjE) simp_all
  then have "length (ndigits (unat radix) (unat v)) \<le> 63" using assms by (elim disjE) (simp_all add: ndigits_length)
  then show "\<exists>s. utoa v radix = Inr s \<and> holds s (number_text (unat radix) v)"
    "length (number_text (unat radix) v) < 2 ^ 31"
    using utoa_holds [of radix v] assms by (auto simp: number_text_def digit_chars_def)
qed

lemma piece_loop:
  assumes "serial_output s" and "piece_ok p" and "rest \<noteq> []"
  shows "klog_loop (piece_format p @ rest) (piece_args p @ args) s = klog_loop rest args (sent (piece_bytes p) s)"
proof (cases p)
  case (Lit c)
  then show ?thesis using assms by (cases rest) (auto simp: putc_sent)
next
  case (Text t)
  then have "puts (t @ [0]) s = Inr (sent t s)" using assms by (intro puts_sent) (auto simp: holds_def)
  then show ?thesis using Text by (simp add: log_conversion_def conv_text_def str_arg_def)
next
  case (Dec v)
  obtain str where "utoa v 10 = Inr str" "holds str (number_text 10 v)" using number_holds(1) [of 10 v] by auto
  then show ?thesis using Dec assms number_holds(2) [of 10 v]
    by (simp add: log_conversion_def conv_text_def num_arg_def puts_sent)
next
  case (Hex v)
  obtain str where "utoa v 16 = Inr str" "holds str (number_text 16 v)" using number_holds(1) [of 16 v] by auto
  then show ?thesis using Hex assms number_holds(2) [of 16 v]
    by (simp add: log_conversion_def conv_text_def num_arg_def puts_sent)
qed

lemma format_loop:
  "serial_output s \<Longrightarrow> list_all piece_ok ps \<Longrightarrow>
   klog_loop (format_of ps) (args_of ps) s = Inr (sent (bytes_of ps) s)"
proof (induction ps arbitrary: s)
  case (Cons p ps)
  have "klog_loop (format_of (p # ps)) (args_of (p # ps)) s = klog_loop (format_of ps) (args_of ps) (sent (piece_bytes p) s)"
    using piece_loop [of s p "format_of ps" "args_of ps"] Cons.prems by (simp add: format_of_def args_of_def)
  then show ?case using Cons by (simp add: bytes_of_def)
qed (simp add: format_of_def args_of_def bytes_of_def)

lemma klogvf_sent:
  assumes "serial_output s" and "log_lock s = SPIN_UNLOCKED" and "list_all piece_ok ps"
  shows "klogvf (format_of ps) (args_of ps) s = Inr (sent (bytes_of ps) s)"
proof -
  have "klog_loop (format_of ps) (args_of ps) (s\<lparr>log_lock := SPIN_LOCKED\<rparr>) = Inr (sent (bytes_of ps) (s\<lparr>log_lock := SPIN_LOCKED\<rparr>))"
    using assms by (intro format_loop) simp_all
  moreover have "(sent bs s)\<lparr>log_lock := SPIN_UNLOCKED\<rparr> = sent bs s" for bs
    using assms(2) by (simp add: sent_def flip: assms(2))
  ultimately show ?thesis using assms(2) by (simp add: klogvf_def release_spinlock_def)
qed

definition line_bytes :: "u8 list \<Rightarrow> u8 list \<Rightarrow> u8 list \<Rightarrow> piece list \<Rightarrow> u8 list" where
  "line_bytes lbl secs tag ps =
     secs @ lbl @ tag @ concat (replicate (16 - length tag) [32, 0]) @ bytes_of ps @ char_bytes 10"

lemma log_with_sent:
  assumes "serial_output s" and "log_lock s = SPIN_UNLOCKED" and "list_all piece_ok ps"
    and "holds lbl l" "length l < 2 ^ 31" and "time_text ms t" and "holds source tag" "length tag < 2 ^ 31"
  shows "log_with lbl ms source (format_of ps) (args_of ps) s = Inr (sent (line_bytes l t tag ps) s)"
proof -
  have "log_time ms = Inr (t @ [0])" "holds (t @ [0]) t" "length t < 2 ^ 31"
    using assms(6) time_text_holds [OF assms(6)] by (simp_all add: time_text_def)
  then show ?thesis
    using assms by (simp add: log_with_def puts_sent strlen_of_holds pad_sent klogvf_sent putc_sent line_bytes_def)
qed

text \<open>C18: An error line on the serial port is what its format says. The time in seconds, which is a decimal
  number with five places off by less than one of the last and 2 to the -22, the label, the tag padded to
  sixteen columns, the pieces of the format in order (strings and numbers as their texts, a plain
  character followed by a zero byte) and the end of the line are sent, in this order and nothing
  else; the lock is free again.\<close>

theorem log_line_bytes:
  assumes "serial_output s" and "log_lock s = SPIN_UNLOCKED" and "list_all piece_ok ps"
    and "unat ms < 2 ^ 30 * 1000" and "holds source tag" "length tag < 2 ^ 31"
  shows "\<exists>s' t. log_e ms source (format_of ps) (args_of ps) s = Inr s' \<and> log_lock s' = SPIN_UNLOCKED \<and> time_text ms t \<and>
    written (log_ports s') = written (log_ports s) @
      map (Pair COM1) (line_bytes (9 # map of_char ''[E]     '') t tag ps)"
proof -
  have "holds (9 # cstr ''[E]     '') (9 # map of_char ''[E]     '')" by (simp add: holds_def cstr_def)
  moreover obtain t where t: "time_text ms t" using log_time_returns [OF assms(4)] by blast
  ultimately have "log_e ms source (format_of ps) (args_of ps) s =
      Inr (sent (line_bytes (9 # map of_char ''[E]     '') t tag ps) s)"
    unfolding log_e_def using assms by (intro log_with_sent) simp_all
  then show ?thesis using assms(2) t by auto
qed

theorem log_line_bytes_witness:
  "\<exists>s'. log_e 1001 [65, 0] [120, 37, 117, 0] [P_num 7]
      \<lparr>log_ports = \<lparr>answers = \<lambda>_. [], written = []\<rparr>, serial_output = True, log_lock = SPIN_UNLOCKED\<rparr> = Inr s' \<and>
    log_lock s' = SPIN_UNLOCKED \<and> last (written (log_ports s')) = (COM1, 0)"
  using log_line_bytes [where ps = "[Lit 120, Dec 7]" and ms = 1001 and source = "[65, 0]" and tag = "[65]"
      and s = "\<lparr>log_ports = \<lparr>answers = \<lambda>_. [], written = []\<rparr>, serial_output = True, log_lock = SPIN_UNLOCKED\<rparr>"]
  by (auto simp: holds_def format_of_def args_of_def line_bytes_def char_bytes_def)

text \<open>A log line while another one is being formatted, from an interrupt for instance, spins for ever.\<close>

lemma log_in_log_deadlocks: "klogvf fmt args (s\<lparr>log_lock := SPIN_LOCKED\<rparr>) = Inl Deadlock"
  by (simp add: klogvf_def)

text \<open>The wide string AB is printed as B; behind a string of odd length the code reads on.\<close>

lemma wide_loses_characters: "serial_output s \<Longrightarrow> puts_16 [65, 66, 0] s = Inr (sent [66, 0] s)"
  by (simp add: putc_sent char_bytes_def)

lemma wide_odd_faults:
  "serial_output s \<Longrightarrow> even (length cs) \<Longrightarrow> 0 \<notin> set cs \<Longrightarrow> c \<noteq> 0 \<Longrightarrow> puts_16 (cs @ [c, 0]) s = Inl Out_of_bounds"
proof (induction cs arbitrary: s rule: induct_list012)
  case 1
  then show ?case by (simp add: putc_sent)
next
  case (3 a b cs)
  then show ?case by (simp add: putc_sent)
qed simp

end
