(* ===== verification/Apic.thy ===== *)
theory Apic
  imports Ports Pci Paging
begin

text \<open>
  The interrupt controllers: \<^verbatim>\<open>src/kernel/x64/intr/pic.cpp\<close>, \<^verbatim>\<open>src/kernel/x64/intr/lapic.cpp\<close>,
  \<^verbatim>\<open>src/kernel/x64/intr/io_apic.cpp\<close> and the processor instructions of
  \<^verbatim>\<open>include/kernel/x64/io.h\<close> they use. The registers of the local APIC are named by their offset
  and keep what is written, except the current count of the timer, which the hardware drives: what
  it holds when it is read is part of the state. \<open>lapic_log\<close> is the sequence of writes. The model
  specific registers are a script of answers, as the ports are. The I/O APIC is the documented one:
  its select register has 8 bits, its identification keeps four bits of what is written, its version
  is read-only and says how many entries the redirection table has, and in the low word of an entry
  the delivery status and the remote IRR belong to the hardware. Log lines are not modelled, and the
  endless loop behind an error is the fault \<open>Hang\<close>.
\<close>

subsection \<open>The legacy controller\<close>

definition PIC1_COMMAND :: u16 where "PIC1_COMMAND = 0x20"
definition PIC1_DATA :: u16 where "PIC1_DATA = PIC1_COMMAND + 1"
definition PIC2_COMMAND :: u16 where "PIC2_COMMAND = 0xA0"
definition PIC2_DATA :: u16 where "PIC2_DATA = PIC2_COMMAND + 1"
definition ICW1_ICW4 :: u8 where "ICW1_ICW4 = 0x01"
definition ICW1_INIT :: u8 where "ICW1_INIT = 0x10"
definition ICW4_8086 :: u8 where "ICW4_8086 = 0x01"

definition remapPIC :: "u8 \<Rightarrow> u8 \<Rightarrow> ports \<Rightarrow> ports res" where
  "remapPIC offset1 offset2 s =
     rbind (inb PIC1_DATA s) (\<lambda>(a1, s).
     rbind (inb PIC2_DATA s) (\<lambda>(a2, s).
       Inr (outbs
         [(PIC1_COMMAND, ICW1_INIT OR ICW1_ICW4), (PIC2_COMMAND, ICW1_INIT OR ICW1_ICW4),
          (PIC1_DATA, offset1), (PIC2_DATA, offset2), (PIC1_DATA, 4), (PIC2_DATA, 2),
          (PIC1_DATA, ICW4_8086), (PIC2_DATA, ICW4_8086), (PIC1_DATA, a1), (PIC2_DATA, a2)] s)))"

subsection \<open>The state\<close>

record apic =
  lapic_regs :: "u16 \<Rightarrow> u32"
  lapic_log :: "(u16 \<times> u32) list"
  current_count :: u32
  apic_ports :: ports
  cpuid_edx :: u64
  msr_answers :: "u64 list"
  msr_writes :: "(u64 \<times> u64) list"
  apicEnabled :: bool
  madt_info :: madt_state
  apic_pages :: paging
  ioapic_addr :: u64
  ioapic_select :: u8
  ioapic_regs :: "u8 \<Rightarrow> u32"

definition rdmsr :: "apic \<Rightarrow> (u64 \<times> apic) res" where
  "rdmsr s = (case msr_answers s of [] \<Rightarrow> Inl Hang | v # vs \<Rightarrow> Inr (v, s\<lparr>msr_answers := vs\<rparr>))"

definition wrmsr :: "u64 \<Rightarrow> u64 \<Rightarrow> apic \<Rightarrow> apic" where
  "wrmsr reg v s = s\<lparr>msr_writes := msr_writes s @ [(reg, v)]\<rparr>"

subsection \<open>Registers of the local APIC\<close>

definition LAPIC_ID_REG :: u16 where "LAPIC_ID_REG = 0x20"
definition TASK_PRIORITY_REG :: u16 where "TASK_PRIORITY_REG = 0x80"
definition END_OF_INTERRUPT_REG :: u16 where "END_OF_INTERRUPT_REG = 0xB0"
definition LOGICAL_DESTINATION_REG :: u16 where "LOGICAL_DESTINATION_REG = 0xD0"
definition DESTINATION_FORMAT_REG :: u16 where "DESTINATION_FORMAT_REG = 0xE0"
definition SPURIOUS_INTERRUPT_REG :: u16 where "SPURIOUS_INTERRUPT_REG = 0xF0"
definition TIMER_LVT_ENTRY :: u16 where "TIMER_LVT_ENTRY = 0x320"
definition PERFORMACE_CTR_LVT_ENTRY :: u16 where "PERFORMACE_CTR_LVT_ENTRY = 0x340"
definition LOCAL_INT0_LVT_ENTRY :: u16 where "LOCAL_INT0_LVT_ENTRY = 0x350"
definition LOCAL_INT1_LVT_ENTRY :: u16 where "LOCAL_INT1_LVT_ENTRY = 0x360"
definition TIMER_INITIAL_COUNT_REG :: u16 where "TIMER_INITIAL_COUNT_REG = 0x380"
definition TIMER_CURRENT_COUNT_REG :: u16 where "TIMER_CURRENT_COUNT_REG = 0x390"
definition TIMER_DIVIDE_CONFIG_REG :: u16 where "TIMER_DIVIDE_CONFIG_REG = 0x3E0"
definition MESSAGE_NMI :: u32 where "MESSAGE_NMI = 4"
definition INTERRUPT_MASK :: u32 where "INTERRUPT_MASK = push_bit 8 1"
definition APIC_SUPPORTED :: u64 where "APIC_SUPPORTED = push_bit 9 1"
definition APIC_ENABLE :: u64 where "APIC_ENABLE = push_bit 11 1"

lemmas lapic_reg_defs = LAPIC_ID_REG_def TASK_PRIORITY_REG_def END_OF_INTERRUPT_REG_def
  LOGICAL_DESTINATION_REG_def DESTINATION_FORMAT_REG_def SPURIOUS_INTERRUPT_REG_def TIMER_LVT_ENTRY_def
  PERFORMACE_CTR_LVT_ENTRY_def LOCAL_INT0_LVT_ENTRY_def LOCAL_INT1_LVT_ENTRY_def TIMER_INITIAL_COUNT_REG_def
  TIMER_CURRENT_COUNT_REG_def TIMER_DIVIDE_CONFIG_REG_def

definition apicReadRegister :: "u16 \<Rightarrow> apic \<Rightarrow> u32" where
  "apicReadRegister reg s = (if reg = TIMER_CURRENT_COUNT_REG then current_count s else lapic_regs s reg)"

definition apicWriteRegister :: "u16 \<Rightarrow> u32 \<Rightarrow> apic \<Rightarrow> apic" where
  "apicWriteRegister reg v s =
     s\<lparr>lapic_regs := (lapic_regs s)(reg := v), lapic_log := lapic_log s @ [(reg, v)]\<rparr>"

definition apicSendEOI :: "apic \<Rightarrow> apic" where
  "apicSendEOI = apicWriteRegister END_OF_INTERRUPT_REG 0"

definition setLVTEntry :: "u16 \<Rightarrow> u8 \<Rightarrow> u16 \<Rightarrow> apic \<Rightarrow> apic" where
  "setLVTEntry entry vector flags = apicWriteRegister entry (ucast vector OR push_bit 8 (ucast flags))"

subsection \<open>The I/O APIC\<close>

definition IOAPIC_ENTRY_layout :: layout where
  "IOAPIC_ENTRY_layout =
     [(''hdr'', 2), (''ioapic_id'', 1), (''reserved'', 1), (''ioapic_base'', 4), (''system_interrupt_base'', 4)]"

definition IOAPIC_VERSION :: u32 where "IOAPIC_VERSION = 1"
definition IOAPIC_RED_TBL_LOW :: "u8 \<Rightarrow> u32" where "IOAPIC_RED_TBL_LOW n = 0x10 + 2 * ucast n"
definition IOAPIC_RED_TBL_HI :: "u8 \<Rightarrow> u32" where "IOAPIC_RED_TBL_HI n = IOAPIC_RED_TBL_LOW n + 1"

text \<open>The bits of register \<open>r\<close> of the I/O APIC that software can write, when its version register
  holds \<open>ver\<close>: bits 24 to 27 of the identification; in the redirection table the vector, the modes,
  the polarity, the trigger mode and the mask of the low words, the destination of the high words.\<close>

definition ioapic_writable :: "u32 \<Rightarrow> u8 \<Rightarrow> u32" where
  "ioapic_writable ver r =
     (let k = unat r; last = unat (take_bit 8 (drop_bit 16 ver))
      in if k = 0 then 0x0F000000
         else if 0x10 \<le> k \<and> k \<le> 0x11 + 2 * last then if even k then 0x0001AFFF else 0xFF000000
         else 0)"

text \<open>A register is named by the select register and accessed through the window.\<close>

definition write_ioapic_register :: "u32 \<Rightarrow> u32 \<Rightarrow> apic \<Rightarrow> apic" where
  "write_ioapic_register off v s =
     (let s = s\<lparr>ioapic_select := ucast off\<rparr>;
          r = ioapic_select s;
          w = ioapic_writable (ioapic_regs s 1) r
      in s\<lparr>ioapic_regs := (ioapic_regs s)(r := v AND w OR ioapic_regs s r AND NOT w)\<rparr>)"

definition read_ioapic_register :: "u32 \<Rightarrow> apic \<Rightarrow> u32 \<times> apic" where
  "read_ioapic_register off s =
     (let s = s\<lparr>ioapic_select := ucast off\<rparr> in (ioapic_regs s (ioapic_select s), s))"

record ioapic_redir_table_entry =
  redir_vector :: u8
  delivery_mode :: u8
  destination_mode :: bool
  delivery_status :: bool
  pin_polatiry :: bool
  remote_irr :: bool
  trigger_mode :: bool
  redir_mask :: bool
  redir_reserved :: u64
  destination :: u8

text \<open>The packed bit fields as the 64-bit integer the code reads.\<close>

definition redir_bits :: "ioapic_redir_table_entry \<Rightarrow> u64" where
  "redir_bits e =
     ucast (redir_vector e) OR push_bit 8 (take_bit 3 (ucast (delivery_mode e))) OR
     push_bit 11 (of_bool (destination_mode e)) OR push_bit 12 (of_bool (delivery_status e)) OR
     push_bit 13 (of_bool (pin_polatiry e)) OR push_bit 14 (of_bool (remote_irr e)) OR
     push_bit 15 (of_bool (trigger_mode e)) OR push_bit 16 (of_bool (redir_mask e)) OR
     push_bit 17 (take_bit 39 (redir_reserved e)) OR push_bit 56 (ucast (destination e))"

definition add_io_red_table_entry :: "u8 \<Rightarrow> ioapic_redir_table_entry \<Rightarrow> apic \<Rightarrow> apic" where
  "add_io_red_table_entry n e s =
     (let entry = redir_bits e
      in write_ioapic_register (IOAPIC_RED_TBL_LOW n) (ucast entry)
           (write_ioapic_register (IOAPIC_RED_TBL_HI n) (ucast (drop_bit 32 entry)) s))"

definition get_ioapic_max_entries :: "apic \<Rightarrow> u8 \<times> apic" where
  "get_ioapic_max_entries s =
     (let (v, s) = read_ioapic_register IOAPIC_VERSION s in (ucast (drop_bit 16 v + 1), s))"

definition ioapic_init :: "bytes \<Rightarrow> apic \<Rightarrow> apic res" where
  "ioapic_init m s =
     (case ioapic_entry (madt_info s) of
        None \<Rightarrow> Inl Null_deref
      | Some e \<Rightarrow>
          let base = ucast (field32 m IOAPIC_ENTRY_layout ''ioapic_base'' e)
          in rbind (map_page base base (apic_pages s)) (\<lambda>pg.
               Inr (s\<lparr>ioapic_addr := base, apic_pages := pg\<rparr>)))"

subsection \<open>Starting the local APIC\<close>

definition enableAPIC :: "bytes \<Rightarrow> u64 \<Rightarrow> apic \<Rightarrow> apic res" where
  "enableAPIC m rsdp s =
     (if cpuid_edx s AND APIC_SUPPORTED = 0 then Inl Hang
      else rbind (rdmsr s) (\<lambda>(v, s).
           rbind (if v AND APIC_ENABLE = 0 then rbind (rdmsr s) (\<lambda>(w, s). Inr (wrmsr 0x1B (w OR APIC_ENABLE) s)) else Inr s) (\<lambda>s.
           rbind (rdmsr s) (\<lambda>(v, s).
             if v AND APIC_ENABLE = 0 then Inl Hang
             else rbind (parse_madt m rsdp (madt_info s)) (\<lambda>(base, i).
                  Inr (s\<lparr>madt_info := i, apicEnabled := True\<rparr>))))))"

text \<open>The registers every CPU sets.\<close>

definition lapic_setup :: "apic \<Rightarrow> apic" where
  "lapic_setup s =
     (let s = apicWriteRegister DESTINATION_FORMAT_REG 0xFFFFFFFF s;
          s = apicWriteRegister LOGICAL_DESTINATION_REG ((apicReadRegister LOGICAL_DESTINATION_REG s AND 0x00FFFFFF) OR 1) s;
          s = apicWriteRegister TIMER_LVT_ENTRY (push_bit 8 INTERRUPT_MASK) s;
          s = apicWriteRegister PERFORMACE_CTR_LVT_ENTRY (push_bit 8 MESSAGE_NMI) s;
          s = apicWriteRegister LOCAL_INT0_LVT_ENTRY (push_bit 8 INTERRUPT_MASK) s;
          s = apicWriteRegister LOCAL_INT1_LVT_ENTRY (push_bit 8 INTERRUPT_MASK) s
      in apicWriteRegister TASK_PRIORITY_REG 0 s)"

text \<open>The programmable interval timer as a clock: it counts 0x2E9B ticks, a hundredth of a second.\<close>

definition pit_start :: "ports \<Rightarrow> ports res" where
  "pit_start p =
     rbind (inb 0x61 p) (\<lambda>(v, p).
     rbind (inb 0x61 (outbs [(0x61, v AND 0xFD OR 1), (0x43, 0xB2), (0x42, 0x9B), (0x80, 0), (0x42, 0x2E)] p)) (\<lambda>(w, p).
       Inr (outb 0x61 (w AND 0xFE OR 1) p)))"

definition timer_count :: "u32 \<Rightarrow> u32" where
  "timer_count ticks = (ticks * (16 * 100)) div 16"

definition lapic_timer :: "apic \<Rightarrow> apic res" where
  "lapic_timer s =
     (let s = apicWriteRegister SPURIOUS_INTERRUPT_REG (39 OR 0x100) s;
          s = apicWriteRegister TIMER_LVT_ENTRY 32 s;
          s = apicWriteRegister TIMER_DIVIDE_CONFIG_REG 3 s
      in rbind (pit_start (apic_ports s)) (\<lambda>p.
         let s = apicWriteRegister TIMER_INITIAL_COUNT_REG (- 1) (s\<lparr>apic_ports := p\<rparr>)
         in rbind (wait_until 0x61 (\<lambda>v. v AND 0x20 = 0) (apic_ports s)) (\<lambda>p.
            let s = s\<lparr>apic_ports := p\<rparr>;
                ticks = apicReadRegister TIMER_INITIAL_COUNT_REG s - apicReadRegister TIMER_CURRENT_COUNT_REG s;
                s = apicWriteRegister TIMER_LVT_ENTRY (push_bit 8 INTERRUPT_MASK) s;
                s = apicWriteRegister TIMER_INITIAL_COUNT_REG (timer_count ticks) s;
                s = apicWriteRegister TIMER_LVT_ENTRY (32 OR 0x20000) s
            in Inr (apicWriteRegister TIMER_DIVIDE_CONFIG_REG 3 s))))"

definition initAPIC :: "bytes \<Rightarrow> u64 \<Rightarrow> u8 \<Rightarrow> apic \<Rightarrow> apic res" where
  "initAPIC m rsdp apicID s =
     rbind (if \<not> apicEnabled s then enableAPIC m rsdp s else Inr s) (\<lambda>s.
     rbind (if apicID = 0 then ioapic_init m s else Inr s) (\<lambda>s.
     let apic_id = ucast (drop_bit 24 (apicReadRegister LAPIC_ID_REG s))
     in if apic_id \<noteq> apicID then Inr s
        else let s = lapic_setup s
             in if apicID \<noteq> 0 then Inr s else lapic_timer s))"

subsection \<open>Register files\<close>

text \<open>What the drivers rely on in all three sets of registers: a write changes the register it names and
  no other one, as \<open>upd\<close> says for the configuration \<open>cfg\<close> of the hardware, which it leaves as it is;
  a second write makes the first forgotten. \<open>D\<close> are the registers there are.\<close>

locale register_file =
  fixes D :: "'r set" and cfg :: "'s \<Rightarrow> 'c" and rd :: "'r \<Rightarrow> 's \<Rightarrow> 'w" and wr :: "'r \<Rightarrow> 'v \<Rightarrow> 's \<Rightarrow> 's"
    and upd :: "'c \<Rightarrow> 'r \<Rightarrow> 'v \<Rightarrow> 'w \<Rightarrow> 'w"
  assumes rd_wr: "r \<in> D \<Longrightarrow> r' \<in> D \<Longrightarrow> rd r (wr r' v s) = (if r = r' then upd (cfg s) r v (rd r s) else rd r s)"
    and cfg_wr: "cfg (wr r v s) = cfg s"
    and upd_upd: "upd c r v (upd c r u w) = upd c r v w"
begin

definition wr_all :: "('r \<times> 'v) list \<Rightarrow> 's \<Rightarrow> 's" where
  "wr_all ws s = foldl (\<lambda>s (r, v). wr r v s) s ws"

lemma cfg_all: "cfg (wr_all ws s) = cfg s"
  unfolding wr_all_def by (induction ws arbitrary: s) (auto simp: cfg_wr)

lemma last_written:
  "r \<in> D \<Longrightarrow> fst ` set ws \<subseteq> D \<Longrightarrow>
   rd r (wr_all ws s) = (case map_of (rev ws) r of Some v \<Rightarrow> upd (cfg s) r v (rd r s) | None \<Rightarrow> rd r s)"
proof (induction ws rule: rev_induct)
  case (snoc w ws)
  obtain r' v where w: "w = (r', v)" by (cases w)
  have "wr_all (ws @ [w]) s = wr r' v (wr_all ws s)" by (simp add: wr_all_def w)
  then show ?case using snoc by (auto simp: w rd_wr cfg_all upd_upd split: option.split)
qed (simp add: wr_all_def)

lemma untouched: "r \<in> D \<Longrightarrow> fst ` set ws \<subseteq> D \<Longrightarrow> r \<notin> fst ` set ws \<Longrightarrow> rd r (wr_all ws s) = rd r s"
  using last_written [of r ws s] by (simp add: map_of_eq_None_iff [THEN iffD2])

end

interpretation lapic_file: register_file UNIV "\<lambda>s. ()" "\<lambda>r s. lapic_regs s r" apicWriteRegister "\<lambda>c r v w. v"
  by unfold_locales (simp_all add: apicWriteRegister_def)

text \<open>A write keeps the bits that are not writable.\<close>

definition ioapic_upd :: "u32 \<Rightarrow> u8 \<Rightarrow> u32 \<Rightarrow> u32 \<Rightarrow> u32" where
  "ioapic_upd ver r v old = (v AND ioapic_writable ver r OR old AND NOT (ioapic_writable ver r))"

lemma masked_twice: "(v AND w OR (u AND w OR x AND NOT w) AND NOT w) = (v AND w OR x AND NOT w)" for v w u x :: u32
  by (rule bit_word_eqI) (auto simp: bit_simps)

lemma version_fixed: "ioapic_writable ver 1 = 0"
  by (simp add: ioapic_writable_def)

interpretation ioapic_file: register_file UNIV "\<lambda>s. ioapic_regs s 1" "\<lambda>r s. fst (read_ioapic_register (ucast r) s)"
    "\<lambda>r. write_ioapic_register (ucast r)" ioapic_upd
proof unfold_locales
  have e: "ucast (ucast r :: u32) = r" for r :: u8 by (rule bit_word_eqI) (simp add: bit_simps)
  show "fst (read_ioapic_register (ucast r) (write_ioapic_register (ucast r') v s)) =
      (if r = r' then ioapic_upd (ioapic_regs s 1) r v (fst (read_ioapic_register (ucast r) s))
       else fst (read_ioapic_register (ucast r) s))" for r r' v s
    by (simp add: read_ioapic_register_def write_ioapic_register_def Let_def ioapic_upd_def e)
  show "ioapic_regs (write_ioapic_register (ucast r) v s) 1 = ioapic_regs s 1" for r :: u8 and v s
    using version_fixed [of "ioapic_regs s 1"] by (auto simp: write_ioapic_register_def Let_def e)
  show "ioapic_upd c r v (ioapic_upd c r u w) = ioapic_upd c r v w" for c r v u w
    unfolding ioapic_upd_def by (rule masked_twice)
qed

subsection \<open>The redirection table\<close>

text \<open>The two words of an entry, by the numbers of their registers.\<close>

definition read_redirection :: "u8 \<Rightarrow> apic \<Rightarrow> u32 \<times> u32" where
  "read_redirection n s = (ioapic_regs s (0x10 + 2 * n), ioapic_regs s (0x11 + 2 * n))"

definition red_upd :: "u32 \<Rightarrow> u8 \<Rightarrow> ioapic_redir_table_entry \<Rightarrow> u32 \<times> u32 \<Rightarrow> u32 \<times> u32" where
  "red_upd ver n e = map_prod (ioapic_upd ver (0x10 + 2 * n) (ucast (redir_bits e)))
     (ioapic_upd ver (0x11 + 2 * n) (ucast (drop_bit 32 (redir_bits e))))"

lemma red_tbl_ucast: "ucast (IOAPIC_RED_TBL_LOW n) = 0x10 + 2 * n" "ucast (IOAPIC_RED_TBL_HI n) = 0x11 + 2 * n"
  by (simp_all add: IOAPIC_RED_TBL_HI_def IOAPIC_RED_TBL_LOW_def word_unat_eq_iff unsigned_ucast_eq unat_word_ariths
      take_bit_eq_mod mod_simps mod_mod_cancel)

lemma red_tbl_unat:
  "unat n < 120 \<Longrightarrow> unat (0x10 + 2 * n :: u8) = 16 + 2 * unat n"
  "unat n < 120 \<Longrightarrow> unat (0x11 + 2 * n :: u8) = 17 + 2 * unat n"
  by (simp_all add: unat_word_ariths)

lemma red_tbl_distinct:
  assumes "unat n < 120" "unat k < 120"
  shows "(0x10 + 2 * n = 0x10 + 2 * k) = (n = k)" "(0x11 + 2 * n = 0x11 + 2 * k) = (n = k)"
    "(0x10 + 2 * n = (0x11 + 2 * k :: u8)) = False" "(0x11 + 2 * n = (0x10 + 2 * k :: u8)) = False"
    "((1 :: u8) = 0x10 + 2 * k) = False" "((1 :: u8) = 0x11 + 2 * k) = False"
  using assms by (auto simp: word_unat_eq_iff red_tbl_unat) presburger+

lemma write_ioapic_regs:
  "ioapic_regs (write_ioapic_register off v s) =
     (ioapic_regs s)(ucast off := ioapic_upd (ioapic_regs s 1) (ucast off) v (ioapic_regs s (ucast off)))"
  by (simp add: write_ioapic_register_def Let_def ioapic_upd_def)

lemma add_entry_regs:
  assumes "unat n < 120"
  shows "ioapic_regs (add_io_red_table_entry n e s) = (ioapic_regs s)
    (0x11 + 2 * n := ioapic_upd (ioapic_regs s 1) (0x11 + 2 * n) (ucast (drop_bit 32 (redir_bits e))) (ioapic_regs s (0x11 + 2 * n)),
     0x10 + 2 * n := ioapic_upd (ioapic_regs s 1) (0x10 + 2 * n) (ucast (redir_bits e)) (ioapic_regs s (0x10 + 2 * n)))"
  using red_tbl_distinct [OF assms assms] by (simp add: add_io_red_table_entry_def Let_def write_ioapic_regs red_tbl_ucast)

lemma version_kept: "ioapic_regs (add_io_red_table_entry n e s) 1 = ioapic_regs s 1"
  by (simp add: add_io_red_table_entry_def Let_def write_ioapic_regs ioapic_upd_def version_fixed)

interpretation redir_file: register_file "{n. unat n < 120}" "\<lambda>s. ioapic_regs s 1" read_redirection add_io_red_table_entry red_upd
proof unfold_locales
  fix r r' :: u8 and v s
  assume "r \<in> {n. unat n < 120}" "r' \<in> {n. unat n < 120}"
  then show "read_redirection r (add_io_red_table_entry r' v s) =
    (if r = r' then red_upd (ioapic_regs s 1) r v (read_redirection r s) else read_redirection r s)"
    using red_tbl_distinct [of r r'] by (simp add: read_redirection_def add_entry_regs red_upd_def)
next
  show "red_upd c r v (red_upd c r u w) = red_upd c r v w" for c r v u w
    by (cases w) (simp add: red_upd_def ioapic_file.upd_upd)
qed (rule version_kept)

text \<open>The two words after a write to an entry there is.\<close>

lemma red_upd_words:
  assumes n: "unat n \<le> unat (take_bit 8 (drop_bit 16 ver) :: u32)" "unat n < 120"
  shows "red_upd ver n e (lo, hi) =
    (ucast (redir_bits e) AND 0x0001AFFF OR lo AND NOT 0x0001AFFF,
     ucast (drop_bit 32 (redir_bits e)) AND 0xFF000000 OR hi AND NOT 0xFF000000)"
proof -
  have "ioapic_writable ver (0x10 + 2 * n) = 0x0001AFFF" "ioapic_writable ver (0x11 + 2 * n) = 0xFF000000"
    using n by (simp_all add: ioapic_writable_def Let_def red_tbl_unat)
  then show ?thesis by (simp add: red_upd_def ioapic_upd_def)
qed

lemma low_mask_bits: "bit (0x0001AFFF :: u32) i \<longleftrightarrow> i < 12 \<or> i = 13 \<or> i = 15 \<or> i = 16"
proof -
  have e: "(0x0001AFFF :: u32) = mask 12 OR push_bit 13 1 OR push_bit 15 1 OR push_bit 16 1"
    by (simp add: mask_eq_exp_minus_1)
  show ?thesis unfolding e by (auto simp: bit_simps simp del: push_bit_of_1)
qed

lemma high_mask_bits: "bit (0xFF000000 :: u32) i \<longleftrightarrow> 24 \<le> i \<and> i < 32"
proof -
  have e: "(0xFF000000 :: u32) = push_bit 24 (mask 8)" by (simp add: mask_eq_exp_minus_1)
  show ?thesis unfolding e by (auto simp: bit_simps)
qed

lemma redir_bits_fields:
  "i < 8 \<Longrightarrow> bit (redir_bits e) i = bit (redir_vector e) i"
  "i < 3 \<Longrightarrow> bit (redir_bits e) (8 + i) = bit (delivery_mode e) i"
  "bit (redir_bits e) 11 = destination_mode e" "bit (redir_bits e) 13 = pin_polatiry e"
  "bit (redir_bits e) 15 = trigger_mode e" "bit (redir_bits e) 16 = redir_mask e"
  "i < 8 \<Longrightarrow> bit (redir_bits e) (56 + i) = bit (destination e) i"
  by (auto simp: redir_bits_def bit_simps dest: bit_imp_le_length)

text \<open>C29: The redirection table keeps its entries apart. After any sequence of
  \<^verbatim>\<open>add_io_red_table_entry\<close> to entries the I/O APIC has (their number is in its version register), the
  register 0x10 + 2n of an entry n that was written holds the vector, the delivery mode, the destination
  mode, the polarity, the trigger mode and the mask that were written to it last and register
  0x11 + 2n the destination, reading them through the window gives them, the delivery status and
  the remote IRR are those of the hardware, and an entry that was not written is as it was.\<close>

theorem red_table_roundtrip:
  assumes count: "count = unat (take_bit 8 (drop_bit 16 (ioapic_regs s 1)))" "count < 120"
    and there: "\<forall>(k, _) \<in> set es. unat k \<le> count" and n: "unat n \<le> count"
    and s': "s' = foldl (\<lambda>s (k, e). add_io_red_table_entry k e s) s es"
    and low: "low = fst (read_ioapic_register (0x10 + 2 * ucast n) s')"
    and high: "high = fst (read_ioapic_register (0x11 + 2 * ucast n) s')"
  shows "case map_of (rev es) n of
      None \<Rightarrow> low = ioapic_regs s (0x10 + 2 * n) \<and> high = ioapic_regs s (0x11 + 2 * n)
    | Some e \<Rightarrow>
        ucast low = redir_vector e \<and> take_bit 3 (ucast (drop_bit 8 low)) = take_bit 3 (delivery_mode e) \<and>
        bit low 11 = destination_mode e \<and> bit low 12 = bit (ioapic_regs s (0x10 + 2 * n)) 12 \<and>
        bit low 13 = pin_polatiry e \<and> bit low 14 = bit (ioapic_regs s (0x10 + 2 * n)) 14 \<and>
        bit low 15 = trigger_mode e \<and> bit low 16 = redir_mask e \<and>
        ucast (drop_bit 24 high) = destination e"
proof -
  have lt: "n \<in> {n. unat n < 120}" "fst ` set es \<subseteq> {n. unat n < 120}"
    using there n count(2) by (auto simp: case_prod_beta)
  have r: "ucast (0x10 + 2 * ucast n :: u32) = 0x10 + 2 * n" "ucast (0x11 + 2 * ucast n :: u32) = 0x11 + 2 * n"
    by (simp_all add: word_unat_eq_iff unsigned_ucast_eq unat_word_ariths take_bit_eq_mod mod_simps mod_mod_cancel)
  have lh: "read_redirection n s' = (low, high)"
    by (simp add: low high read_redirection_def read_ioapic_register_def Let_def r)
  note w = redir_file.last_written [OF lt, of s, unfolded redir_file.wr_all_def, folded s', unfolded lh]
  show ?thesis
  proof (cases "map_of (rev es) n")
    case None
    with w show ?thesis by (simp add: read_redirection_def)
  next
    case (Some e)
    let ?lo = "ioapic_regs s (0x10 + 2 * n)" and ?hi = "ioapic_regs s (0x11 + 2 * n)"
    have "unat n < 120" using lt(1) by simp
    from w Some red_upd_words [OF n [unfolded count(1)] this, of e ?lo ?hi]
    have lw: "low = ucast (redir_bits e) AND 0x0001AFFF OR ?lo AND NOT 0x0001AFFF"
      and hw: "high = ucast (drop_bit 32 (redir_bits e)) AND 0xFF000000 OR ?hi AND NOT 0xFF000000"
      by (simp_all add: read_redirection_def)
    have lb: "bit low i = (if i < 12 \<or> i = 13 \<or> i = 15 \<or> i = 16 then bit (redir_bits e) i else bit ?lo i)" if "i < 32" for i
      using that low_mask_bits [of i] unfolding lw by (auto simp: bit_simps)
    have hb: "bit high i = bit (redir_bits e) (32 + i)" if "24 \<le> i" "i < 32" for i
      using that high_mask_bits [of i] unfolding hw by (auto simp: bit_simps)
    have "ucast low = redir_vector e"
      by (rule bit_word_eqI) (simp add: bit_simps lb redir_bits_fields)
    moreover have "take_bit 3 (ucast (drop_bit 8 low)) = take_bit 3 (delivery_mode e)"
      by (rule bit_word_eqI) (auto simp: bit_simps lb redir_bits_fields)
    moreover have "ucast (drop_bit 24 high) = destination e"
    proof (rule bit_word_eqI)
      fix i assume i: "i < LENGTH(8)"
      then have "bit (ucast (drop_bit 24 high) :: u8) i = bit high (24 + i)" by (simp add: bit_simps)
      also have "\<dots> = bit (redir_bits e) (56 + i)" using hb [of "24 + i"] i by simp
      finally show "bit (ucast (drop_bit 24 high) :: u8) i = bit (destination e) i" using i by (simp add: redir_bits_fields)
    qed
    ultimately show ?thesis using Some by (simp add: lb redir_bits_fields)
  qed
qed

definition boot_apic :: apic where
  "boot_apic = \<lparr>lapic_regs = \<lambda>_. 0, lapic_log = [], current_count = - 5001,
     apic_ports = \<lparr>answers = \<lambda>p. if p = 0x61 then [0, 1, 0x20, 0x21, 1] else [], written = []\<rparr>, cpuid_edx = 0x200,
     msr_answers = [], msr_writes = [], apicEnabled = True,
     madt_info = \<lparr>local_apics = [], ioapic_entry = Some 0x4000\<rparr>,
     apic_pages = flat_pages, ioapic_addr = 0, ioapic_select = 0, ioapic_regs = (\<lambda>_. 0)(1 := 0x00170011)\<rparr>"

definition sample_entry :: ioapic_redir_table_entry where
  "sample_entry = \<lparr>redir_vector = 0x21, delivery_mode = 1, destination_mode = True, delivery_status = False,
     pin_polatiry = True, remote_irr = False, trigger_mode = True, redir_mask = False, redir_reserved = 5, destination = 3\<rparr>"

theorem red_table_roundtrip_witness:
  "fst (read_ioapic_register 0x12 (foldl (\<lambda>s (n, e). add_io_red_table_entry n e s) boot_apic
     [(1, sample_entry), (2, sample_entry\<lparr>redir_vector := 9\<rparr>)])) AND 0xFF = 0x21"
proof -
  let ?s = "foldl (\<lambda>s (n, e). add_io_red_table_entry n e s) boot_apic [(1, sample_entry), (2, sample_entry\<lparr>redir_vector := 9\<rparr>)]"
  let ?low = "fst (read_ioapic_register 0x12 ?s)"
  have c: "23 = unat (take_bit 8 (drop_bit 16 (ioapic_regs boot_apic 1)))" by (simp add: boot_apic_def)
  have l: "?low = fst (read_ioapic_register (0x10 + 2 * ucast (1 :: u8)) ?s)" by simp
  have "ucast ?low = redir_vector sample_entry"
    using red_table_roundtrip [OF c _ _ _ refl l refl] by simp
  then have "(ucast ?low :: u8) = 0x21" by (simp add: sample_entry_def)
  then have "take_bit 8 ?low = 0x21"
    by (simp add: word_unat_eq_iff unsigned_ucast_eq take_bit_eq_mod unat_mod)
  then show ?thesis using take_bit_eq_mask [of 8 ?low] by (simp add: mask_eq_exp_minus_1)
qed

subsection \<open>The timer\<close>

lemma apicWrite_simps [simp]:
  "lapic_regs (apicWriteRegister r v s) = (lapic_regs s)(r := v)" "apicEnabled (apicWriteRegister r v s) = apicEnabled s"
  "ioapic_addr (apicWriteRegister r v s) = ioapic_addr s" "madt_info (apicWriteRegister r v s) = madt_info s"
  "msr_writes (apicWriteRegister r v s) = msr_writes s"
  "lapic_log (apicWriteRegister r v s) = lapic_log s @ [(r, v)]"
  "current_count (apicWriteRegister r v s) = current_count s" "apic_ports (apicWriteRegister r v s) = apic_ports s"
  by (simp_all add: apicWriteRegister_def)

lemma lapic_setup_simps [simp]:
  "current_count (lapic_setup s) = current_count s" "apic_ports (lapic_setup s) = apic_ports s"
  "apicEnabled (lapic_setup s) = apicEnabled s" "ioapic_addr (lapic_setup s) = ioapic_addr s"
  "madt_info (lapic_setup s) = madt_info s" "msr_writes (lapic_setup s) = msr_writes s"
  by (simp_all add: lapic_setup_def Let_def)

lemma timer_count_exact: "unat ticks < 2684355 \<Longrightarrow> unat (timer_count ticks) = 100 * unat ticks"
  by (simp add: timer_count_def unat_div unat_word_ariths)

lemma lapic_timer_runs:
  assumes "answers (apic_ports s) 0x61 = v # w # pre @ x # rest" and "list_all (\<lambda>y. y AND 0x20 \<noteq> 0) pre" and "x AND 0x20 = 0"
  shows "\<exists>s'. lapic_timer s = Inr s' \<and>
    lapic_regs s' TIMER_INITIAL_COUNT_REG = timer_count (- 1 - current_count s) \<and>
    lapic_regs s' TIMER_LVT_ENTRY = 32 OR 0x20000 \<and> lapic_regs s' TIMER_DIVIDE_CONFIG_REG = 3 \<and>
    lapic_regs s' SPURIOUS_INTERRUPT_REG = 39 OR 0x100 \<and> answers (apic_ports s') 0x61 = rest \<and>
    apicEnabled s' = apicEnabled s \<and> ioapic_addr s' = ioapic_addr s \<and> madt_info s' = madt_info s \<and>
    msr_writes s' = msr_writes s"
proof -
  have "wait_status (\<lambda>v. v AND 0x20 = 0) (pre @ x # rest) = Inr rest"
    using assms(2,3) by (auto simp: wait_status_iff)
  then show ?thesis
    using assms(1)
    by (simp add: lapic_timer_def Let_def pit_start_def inb_def outb_outbs wait_until_def
        apicReadRegister_def lapic_reg_defs)
qed

text \<open>What \<^verbatim>\<open>enableAPIC\<close> needs: the bits of the processor, an APIC that is enabled or can be, the table.\<close>

lemma enableAPIC_returns:
  assumes "cpuid_edx s AND 0x200 \<noteq> 0" and "msr_answers s = v1 # v2 # v3 # vs"
    and "(if v1 AND 0x800 = 0 then v3 else v2) AND 0x800 \<noteq> 0" and "parse_madt m rsdp (madt_info s) = Inr (base, i)"
  shows "enableAPIC m rsdp s = Inr (s\<lparr>madt_info := i, apicEnabled := True,
    msr_answers := if v1 AND 0x800 = 0 then vs else v3 # vs,
    msr_writes := msr_writes s @ (if v1 AND 0x800 = 0 then [(0x1B, v2 OR 0x800)] else [])\<rparr>)"
proof (cases "v1 AND 0x800 = 0")
  case True
  with assms show ?thesis by (simp add: enableAPIC_def rdmsr_def wrmsr_def APIC_SUPPORTED_def APIC_ENABLE_def)
next
  case False
  with assms show ?thesis by (simp add: enableAPIC_def rdmsr_def wrmsr_def APIC_SUPPORTED_def APIC_ENABLE_def)
qed

text \<open>C32: What the boot processor programs, at the first call, which enables the APIC and reads the table of
  the firmware, or at a later one. If the processor has an APIC, enabled or enabled by the write of its
  model specific register, the table names an I/O APIC whose page can be mapped, the local APIC is
  number 0 and the interval timer answers, \<^verbatim>\<open>initAPIC\<close> returns, the timer runs periodically on
  vector 32 and the spurious vector is 39; and as long as fewer than 2684355 ticks were counted, the
  period is exactly a hundred times the ticks of the measured hundredth of a second: one interrupt a
  second, not one a millisecond.\<close>

theorem apic_timer_period:
  assumes en: "if apicEnabled s then i = madt_info s
      else cpuid_edx s AND 0x200 \<noteq> 0 \<and> msr_answers s = v1 # v2 # v3 # vs \<and>
        (if v1 AND 0x800 = 0 then v3 else v2) AND 0x800 \<noteq> 0 \<and> parse_madt m rsdp (madt_info s) = Inr (base, i)"
    and e: "ioapic_entry i = Some e" and b: "b = ucast (field32 m IOAPIC_ENTRY_layout ''ioapic_base'' e)"
    and pg: "map_page b b (apic_pages s) = Inr pg" and id: "drop_bit 24 (lapic_regs s LAPIC_ID_REG) = 0"
    and pit: "answers (apic_ports s) 0x61 = v # w # pre @ x # rest" "list_all (\<lambda>y. y AND 0x20 \<noteq> 0) pre" "x AND 0x20 = 0"
    and few: "unat (- 1 - current_count s) < 2684355"
  shows "\<exists>s'. initAPIC m rsdp 0 s = Inr s' \<and> apicEnabled s' \<and> madt_info s' = i \<and> ioapic_addr s' = b \<and>
    msr_writes s' = msr_writes s @ (if \<not> apicEnabled s \<and> v1 AND 0x800 = 0 then [(0x1B, v2 OR 0x800)] else []) \<and>
    unat (lapic_regs s' TIMER_INITIAL_COUNT_REG) = 100 * unat (- 1 - current_count s) \<and>
    lapic_regs s' TIMER_LVT_ENTRY = 0x20020 \<and> lapic_regs s' SPURIOUS_INTERRUPT_REG = 0x127"
proof -
  obtain s1 where s1: "(if \<not> apicEnabled s then enableAPIC m rsdp s else Inr s) = Inr s1"
    "apicEnabled s1" "madt_info s1 = i" "lapic_regs s1 = lapic_regs s" "apic_ports s1 = apic_ports s"
    "current_count s1 = current_count s" "apic_pages s1 = apic_pages s"
    "msr_writes s1 = msr_writes s @ (if \<not> apicEnabled s \<and> v1 AND 0x800 = 0 then [(0x1B, v2 OR 0x800)] else [])"
  proof (cases "apicEnabled s")
    case True
    then show ?thesis using that [of s] en by simp
  next
    case False
    with en enableAPIC_returns [of s v1 v2 v3 vs m rsdp base i] have
      "enableAPIC m rsdp s = Inr (s\<lparr>madt_info := i, apicEnabled := True,
        msr_answers := if v1 AND 0x800 = 0 then vs else v3 # vs,
        msr_writes := msr_writes s @ (if v1 AND 0x800 = 0 then [(0x1B, v2 OR 0x800)] else [])\<rparr>)" by simp
    then show ?thesis using that False by simp
  qed
  let ?s = "s1\<lparr>ioapic_addr := b, apic_pages := pg\<rparr>"
  have io: "ioapic_init m s1 = Inr ?s" using e b pg s1(3,7) by (simp add: ioapic_init_def Let_def)
  have "apicReadRegister LAPIC_ID_REG ?s = lapic_regs s LAPIC_ID_REG"
    by (simp add: apicReadRegister_def lapic_reg_defs s1(4))
  then have "initAPIC m rsdp 0 s = lapic_timer (lapic_setup ?s)"
    using io id unfolding initAPIC_def s1(1) by (simp add: Let_def)
  moreover have "answers (apic_ports (lapic_setup ?s)) 0x61 = v # w # pre @ x # rest" using pit(1) s1(5) by simp
  from lapic_timer_runs [OF this pit(2,3)] obtain s' where "lapic_timer (lapic_setup ?s) = Inr s'"
    "lapic_regs s' TIMER_INITIAL_COUNT_REG = timer_count (- 1 - current_count s)"
    "lapic_regs s' TIMER_LVT_ENTRY = 32 OR 0x20000" "lapic_regs s' SPURIOUS_INTERRUPT_REG = 39 OR 0x100"
    "apicEnabled s'" "ioapic_addr s' = b" "madt_info s' = i" "msr_writes s' = msr_writes s1"
    using s1(2,3,6) by auto
  ultimately show ?thesis using timer_count_exact [OF few] s1(8) by simp
qed

text \<open>A firmware with one table, whose one entry is the I/O APIC, and the machine before the first call.\<close>

definition one_ioapic :: bytes where
  "one_ioapic a =
     (if a = 0x1019 then 0x20
      else if a = 0x2004 then 44 else if a = 0x2025 then 0x30
      else if a = 0x3000 then 65 else if a = 0x3001 then 80 else if a = 0x3002 then 73 else if a = 0x3003 then 67
      else if a = 0x3004 then 56 else if a = 0x302C then 1 else if a = 0x302D then 12
      else if a = 0x3031 then 0x50 else if a = 0x3032 then 0x14
      else 0)"

definition cold_apic :: apic where
  "cold_apic = boot_apic\<lparr>apicEnabled := False, msr_answers := [0x100, 0x100, 0x900], madt_info := \<lparr>local_apics = [], ioapic_entry = None\<rparr>\<rparr>"

lemma one_ioapic_madt: "parse_madt one_ioapic 0x1000 \<lparr>local_apics = [], ioapic_entry = None\<rparr> =
    Inr (0, \<lparr>local_apics = [], ioapic_entry = Some 0x302C\<rparr>)"
  by code_simp

lemma one_ioapic_base: "ucast (field32 one_ioapic IOAPIC_ENTRY_layout ''ioapic_base'' 0x302C) = (0x145000 :: u64)"
  by code_simp

lemma flat_map_page: "\<exists>pg. map_page 0x145000 p flat_pages = Inr pg"
proof -
  have p: "path_of 0x145000 = [0, 0, 0]"
    by (simp add: path_of_def pt_index_def PD_BITS_OFFSET_def PDPT_BITS_OFFSET_def PM4LT_BITS_OFFSET_def)
  have v: "vpath [0, 0, 0]" by (simp add: vpath_def)
  have "tab (pmem flat_pages) (frame (cr3 flat_pages)) (path_of 0x145000) = Some (flat_tables ! 3)"
    unfolding p flat_pages_ok(2) using flat_tab [OF v] by (simp add: numeral_3_eq_3 del: tab.simps)
  from map_page_there [OF this] show ?thesis by blast
qed

theorem apic_timer_period_witness:
  "\<exists>s'. initAPIC one_ioapic 0x1000 0 cold_apic = Inr s' \<and> msr_writes s' = [(0x1B, 0x900)] \<and>
     unat (lapic_regs s' TIMER_INITIAL_COUNT_REG) = 500000"
proof -
  obtain pg where pg: "map_page 0x145000 0x145000 (apic_pages cold_apic) = Inr pg"
    using flat_map_page by (auto simp: cold_apic_def boot_apic_def)
  have en: "if apicEnabled cold_apic then \<lparr>local_apics = [], ioapic_entry = Some 0x302C\<rparr> = madt_info cold_apic
      else cpuid_edx cold_apic AND 0x200 \<noteq> 0 \<and> msr_answers cold_apic = 0x100 # 0x100 # 0x900 # [] \<and>
        (if 0x100 AND 0x800 = (0 :: u64) then 0x900 else 0x100) AND 0x800 \<noteq> (0 :: u64) \<and>
        parse_madt one_ioapic 0x1000 (madt_info cold_apic) = Inr (0, \<lparr>local_apics = [], ioapic_entry = Some 0x302C\<rparr>)"
    by (simp add: cold_apic_def boot_apic_def one_ioapic_madt)
  have h: "drop_bit 24 (lapic_regs cold_apic LAPIC_ID_REG) = 0"
    "answers (apic_ports cold_apic) 0x61 = 0 # 1 # [0x20, 0x21] @ 1 # []"
    "list_all (\<lambda>y. y AND 0x20 \<noteq> 0) [0x20, 0x21 :: u8]" "1 AND 0x20 = (0 :: u8)"
    "unat (- 1 - current_count cold_apic) < 2684355" "unat (- 1 - current_count cold_apic) = 5000"
    "msr_writes cold_apic = []" "\<not> apicEnabled cold_apic"
    by (simp_all add: cold_apic_def boot_apic_def)
  from apic_timer_period [OF en _ one_ioapic_base [symmetric] pg h(1-5)] show ?thesis using h(6-8) by auto
qed

text \<open>A processor whose APIC has another number never starts the timer, the boot processor included.\<close>

lemma no_timer_elsewhere:
  assumes "apicID \<noteq> 0" and "apicEnabled s"
  shows "\<exists>s'. initAPIC m rsdp apicID s = Inr s' \<and> lapic_regs s' TIMER_INITIAL_COUNT_REG = lapic_regs s TIMER_INITIAL_COUNT_REG"
  using assms by (simp add: initAPIC_def Let_def) (simp add: lapic_setup_def Let_def lapic_reg_defs)

text \<open>The I/O APIC is looked for among the first twelve entries of the table only.\<close>

lemma madt_loop_lapics:
  assumes "\<forall>k < n. m (p + 8 * of_nat k) = 0 \<and> m (p + 8 * of_nat k + 1) = 8 \<and> p + 8 * of_nat k < madtEnd"
    and "length (local_apics s) + n \<le> 32"
  shows "\<exists>s'. madt_loop m madtEnd n p s = Inr s' \<and> ioapic_entry s' = ioapic_entry s"
  using assms
proof (induction n arbitrary: p s)
  case (Suc n)
  let ?s = "s\<lparr>local_apics := local_apics s @ [p]\<rparr>"
  have "\<exists>s'. madt_loop m madtEnd n (p + 8) ?s = Inr s' \<and> ioapic_entry s' = ioapic_entry ?s"
  proof (rule Suc.IH)
    show "\<forall>k < n. m (p + 8 + 8 * of_nat k) = 0 \<and> m (p + 8 + 8 * of_nat k + 1) = 8 \<and> p + 8 + 8 * of_nat k < madtEnd"
    proof (intro allI impI)
      fix k
      assume "k < n"
      with Suc.prems(1) [rule_format, of "Suc k"]
      show "m (p + 8 + 8 * of_nat k) = 0 \<and> m (p + 8 + 8 * of_nat k + 1) = 8 \<and> p + 8 + 8 * of_nat k < madtEnd"
        by (simp add: algebra_simps)
    qed
  qed (use Suc.prems(2) in simp)
  moreover have "madt_loop m madtEnd (Suc n) p s = madt_loop m madtEnd n (p + 8) ?s"
    using Suc.prems(1) [rule_format, of 0] Suc.prems(2) by (simp add: evaluateMADTEntry_def)
  ultimately show ?case by simp
qed simp

lemma twelve_cores_fault:
  assumes "findACPITable m rsdp [65, 80, 73, 67, 0] = Inr (Some a)"
    and "\<forall>k < 12. m (a + 44 + 8 * of_nat k) = 0 \<and> m (a + 44 + 8 * of_nat k + 1) = 8 \<and>
      a + 44 + 8 * of_nat k < a + ucast (field32 m SDT_HEADER_layout ''length'' a)"
    and "ioapic_entry (madt_info s) = None" and "\<not> apicEnabled s"
    and "cpuid_edx s AND APIC_SUPPORTED \<noteq> 0" and "msr_answers s = v # w # vs"
    and "v AND APIC_ENABLE \<noteq> 0" and "w AND APIC_ENABLE \<noteq> 0"
  shows "initAPIC m rsdp 0 s = Inl Null_deref"
proof -
  have o: "offset_of MADT_layout ''ptr'' = 44" by (simp add: MADT_layout_def)
  from madt_loop_lapics [OF assms(2), of "(madt_info s)\<lparr>local_apics := []\<rparr>"] obtain i where
    "madt_loop m (a + ucast (field32 m SDT_HEADER_layout ''length'' a)) 12 (a + 44) ((madt_info s)\<lparr>local_apics := []\<rparr>) = Inr i"
    "ioapic_entry i = None" using assms(3) by auto
  then show ?thesis using assms(1,4-8) o
    by (simp add: initAPIC_def enableAPIC_def rdmsr_def parse_madt_def ioapic_init_def)
qed

end
