(* ===== verification/Idt.thy ===== *)
theory Idt
  imports Apic Klog Procs
begin

text \<open>
  Interrupts and exceptions, \<^verbatim>\<open>src/kernel/x64/intr/idt.c\<close>: the descriptor table, the handlers of
  the timer and of spurious interrupts, \<^verbatim>\<open>sleep\<close>, and the screen and the log lines of a
  panic. A handler is a name; the address the linker gives it is an argument. A panic ends in an
  endless loop: its model returns the screen and the log as they are left in it.
\<close>

subsection \<open>The descriptor table\<close>

definition INTERRUPT :: u8 where "INTERRUPT = 0x8E"
definition EXCEPTION :: u8 where "EXCEPTION = 0x8F"

record IDTEntryAMD64 =
  offsetLow :: u16
  selector :: u16
  interruptStackTable :: u8
  gate_flags :: u8
  offsetMid :: u16
  offsetHigh :: u32
  gate_zero :: u32

type_synonym idt = "IDTEntryAMD64 list"

definition empty_gate :: IDTEntryAMD64 where
  "empty_gate = \<lparr>offsetLow = 0, selector = 0, interruptStackTable = 0, gate_flags = 0, offsetMid = 0, offsetHigh = 0, gate_zero = 0\<rparr>"

definition setIDTEntry :: "u8 \<Rightarrow> u64 \<Rightarrow> u8 \<Rightarrow> idt \<Rightarrow> idt" where
  "setIDTEntry vector isr fl IDT =
     IDT[unat vector := \<lparr>offsetLow = ucast (isr AND 0x000000000000FFFF), selector = 40, interruptStackTable = 0,
       gate_flags = fl, offsetMid = ucast (drop_bit 16 (isr AND 0x00000000FFFF0000)),
       offsetHigh = ucast (drop_bit 32 (isr AND 0xFFFFFFFF00000000)), gate_zero = 0\<rparr>]"

definition register_isr :: "u8 \<Rightarrow> u64 \<Rightarrow> idt \<Rightarrow> idt" where
  "register_isr vector isr = setIDTEntry vector isr INTERRUPT"

datatype isr = Exc nat | Timer_handler | Spurious_isr

definition fill_idt :: "(isr \<Rightarrow> u64) \<Rightarrow> ports \<times> idt \<Rightarrow> (ports \<times> idt) res" where
  "fill_idt addr s =
     rbind (remapPIC 0xF0 0xF8 (fst s)) (\<lambda>p.
       let IDT = foldl (\<lambda>t n. setIDTEntry (of_nat n) (addr (Exc n)) EXCEPTION t) (snd s)
                   ([0..<15] @ [16..<22] @ [28, 29, 30]);
           IDT = foldl (\<lambda>t i. setIDTEntry (of_nat i) (addr (Exc 1)) EXCEPTION t) IDT [32..<256];
           IDT = setIDTEntry 0x20 (addr Timer_handler) INTERRUPT IDT
       in Inr (p, setIDTEntry 0x27 (addr Spurious_isr) INTERRUPT IDT))"

subsection \<open>The timer\<close>

record 'h clock =
  countdown :: int
  clock_millis :: u64
  clock_timers :: "'h timers"
  clock_apic :: apic

definition timer_handler :: "'h clock \<Rightarrow> 'h clock res" where
  "timer_handler s =
     (if countdown s = - (2 ^ 63) then Inl Signed_overflow
      else Inr (s\<lparr>countdown := countdown s - 1, clock_millis := clock_millis s + 1,
                  clock_timers := update_timers (clock_timers s), clock_apic := apicSendEOI (clock_apic s)\<rparr>))"

definition spurious_isr :: "u64 \<Rightarrow> klog \<times> apic \<Rightarrow> (klog \<times> apic) res" where
  "spurious_isr millis s =
     rbind (log_e millis (cstr ''Spurious ISR'') (cstr ''????????????'') [] (fst s)) (\<lambda>k. Inr (k, apicSendEOI (snd s)))"

text \<open>The loop of \<^verbatim>\<open>sleep\<close>, while \<open>n\<close> timer interrupts are still to come.\<close>

fun sleep_loop :: "nat \<Rightarrow> 'h clock \<Rightarrow> 'h clock res" where
  "sleep_loop n s =
     (if countdown s > 0
      then (case n of 0 \<Rightarrow> Inl Hang | Suc k \<Rightarrow> rbind (timer_handler s) (sleep_loop k))
      else Inr s)"

declare sleep_loop.simps [simp del]

definition sleep :: "nat \<Rightarrow> int \<Rightarrow> 'h clock \<Rightarrow> 'h clock res" where
  "sleep n millis s = sleep_loop n (s\<lparr>countdown := millis\<rparr>)"

subsection \<open>Panic\<close>

record interruptFrame =
  fr_IP :: u64
  fr_CS :: u64
  fr_flags :: u64
  fr_SP :: u64
  fr_BP :: u64

definition exceptions :: "string option list" where
  "exceptions =
     [Some ''Divide-by-zero Error'', Some ''Debug'', Some ''Non-maskable Interrupt'', Some ''Breakpoint'',
      Some ''Overflow'', Some ''Bound Range Exceeded'', Some ''Invalid Opcode'', Some ''Device not Available'',
      Some ''Double Fault'', Some ''Coprocessor Segment Overrun'', Some ''Invalid TSS'', Some ''Segment not Present'',
      Some ''Stack-segment Fault'', Some ''General Protection Fault'', Some ''Page Fault'', None,
      Some ''x87 FPU exception'', Some ''Alignment Check'', Some ''Machine Check'', Some ''SIMD FPU exception'',
      Some ''Virtualization Exception'', Some ''Control Projection Exception'', None, None, None, None, None, None,
      Some ''Hypervisor Injection Exception'', Some ''VMM Communication Exception'', Some ''Security Exception'']"

definition reg_line :: "string \<Rightarrow> u8 list" where
  "reg_line s = map of_char s @ [9] @ map of_char ''0x%x'' @ [10]"

definition exceptionNoError :: "u8 list" where
  "exceptionNoError = reg_line ''IP: '' @ reg_line ''CS: '' @ reg_line ''FLAGS: '' @ reg_line ''SP: '' @
     map of_char ''->'' @ [9] @ map of_char ''%s'' @ [10, 0]"

definition exceptionError :: "u8 list" where
  "exceptionError = map of_char ''ERROR: 0b%b'' @ [10] @ exceptionNoError"

definition uint64_to_hex :: "u64 \<Rightarrow> u8 list \<Rightarrow> u8 list res" where
  "uint64_to_hex v buffer =
     (let put = \<lambda>i c b. if i < length b then Inr (b[i := c]) else Inl Out_of_bounds
      in rbind (put 0 48 buffer) (\<lambda>b.
         rbind (put 1 120 b) (\<lambda>b.
         rbind (for_each (\<lambda>i. put (2 + (15 - i)) (g_HexChars ! unat (drop_bit (i * 4) v AND 0xF))) (rev [0..<16]) b)
           (put 18 0))))"

text \<open>The blue screen with the system information, which both kinds of panic start with.\<close>

definition panic_screen :: "terminal \<Rightarrow> terminal res" where
  "panic_screen t =
     (let t = t\<lparr>terminal_x := 0, terminal_y := 0\<rparr>
      in rbind (Color 0 0 255 (vga_of t)) (\<lambda>c.
         rbind (fbuf (vga_of t)) (\<lambda>f.
         rbind (draw (fillRect 0 0 c (ucast (fb_width f)) (ucast (fb_height f))) t) (\<lambda>t.
         rbind (Color 255 255 255 (vga_of t)) (\<lambda>fg.
         rbind (Color 0 0 255 (vga_of t)) (\<lambda>bg.
           display_fetch (t\<lparr>vga_of := set_background bg (set_foreground fg (vga_of t))\<rparr>)))))))"

definition stack_word :: "bytes \<Rightarrow> u64 \<Rightarrow> nat \<Rightarrow> u64" where
  "stack_word m sp i = rd64 (at_mem m (sp + 8 * of_nat i) 8) 0"

definition kernel_panic ::
  "bytes \<Rightarrow> u64 \<Rightarrow> interruptFrame \<Rightarrow> u8 list \<Rightarrow> u8 list \<Rightarrow> u64 \<Rightarrow> bool \<Rightarrow> terminal \<times> klog \<Rightarrow> (terminal \<times> klog) res" where
  "kernel_panic m millis f message fmt err has_error s =
     rbind (panic_screen (fst s)) (\<lambda>t.
     rbind (steps
       ([printf (map of_char ''=== KERNEL PANIC ==='' @ [10, 10, 0]) [],
         printf (cstr_line ''Exception: %s'') [P_str message],
         if has_error then printf (map of_char ''Error Code: 0x%x'' @ [10, 10, 0]) [P_num err] else printf [10, 0] [],
         printf (cstr_line ''--- Registers ---'') [],
         printf (cstr_line ''RIP:    0x%x'') [P_num (fr_IP f)],
         printf (cstr_line ''RSP:    0x%x'') [P_num (fr_SP f)],
         printf (cstr_line ''RBP:    0x%x'') [P_num (fr_BP f)],
         printf (cstr_line ''CS:     0x%x'') [P_num (fr_CS f)],
         printf (map of_char ''RFLAGS: 0x%x'' @ [10, 10, 0]) [P_num (fr_flags f)],
         printf (cstr_line ''--- Stack Trace ---'') []] @
        map (\<lambda>i. printf (cstr_line ''  [%d] 0x%x: 0x%x'')
          [P_num (of_nat i), P_num (fr_SP f + 8 * of_nat i), P_num (stack_word m (fr_SP f) i)]) [0..<8] @
        [draw repaintScreen]) t) (\<lambda>t.
     let args = [P_num (fr_IP f), P_num (fr_CS f), P_num (fr_flags f), P_num (fr_SP f), P_str message]
     in rbind (log_e millis (cstr ''Exception'') fmt (if has_error then P_num err # args else args) (snd s)) (\<lambda>k.
          Inr (t, k))))"

text \<open>The handler of exception \<open>n\<close>; those with an error code are compiled with a second parameter.\<close>

definition has_error_code :: "nat \<Rightarrow> bool" where
  "has_error_code n \<longleftrightarrow> n \<in> {8, 10, 11, 12, 13, 14, 17, 21, 29, 30}"

definition exc :: "bytes \<Rightarrow> u64 \<Rightarrow> nat \<Rightarrow> interruptFrame \<Rightarrow> u64 \<Rightarrow> terminal \<times> klog \<Rightarrow> (terminal \<times> klog) res" where
  "exc m millis n f err s =
     (case exceptions ! n of
        None \<Rightarrow> Inl Null_deref
      | Some message \<Rightarrow>
          if has_error_code n then kernel_panic m millis f (cstr message) exceptionError err True s
          else kernel_panic m millis f (cstr message) exceptionNoError 0 False s)"

subsection \<open>The table after boot\<close>

text \<open>The address the processor reads from a gate, and whether it accepts the gate.\<close>

definition gate_addr :: "IDTEntryAMD64 \<Rightarrow> u64" where
  "gate_addr e = ucast (offsetLow e) OR push_bit 16 (ucast (offsetMid e)) OR push_bit 32 (ucast (offsetHigh e))"

definition gate_present :: "IDTEntryAMD64 \<Rightarrow> bool" where
  "gate_present e \<longleftrightarrow> bit (gate_flags e) 7"

definition gate_for :: "u64 \<Rightarrow> u8 \<Rightarrow> IDTEntryAMD64 \<Rightarrow> bool" where
  "gate_for a fl e \<longleftrightarrow> gate_addr e = a \<and> gate_flags e = fl \<and> selector e = 40"

lemma length_setIDTEntry [simp]: "length (setIDTEntry v a fl t) = length t"
  by (simp add: setIDTEntry_def)

lemma gate_join:
  "ucast (ucast (isr AND 0xFFFF) :: u16) OR push_bit 16 (ucast (ucast (drop_bit 16 (isr AND 0xFFFF0000)) :: u16)) OR
     push_bit 32 (ucast (ucast (drop_bit 32 (isr AND 0xFFFFFFFF00000000)) :: u32)) = (isr :: u64)"
proof -
  have m: "(0xFFFF :: u64) = mask 16" "(0xFFFF0000 :: u64) = push_bit 16 (mask 16)"
    "(0xFFFFFFFF00000000 :: u64) = push_bit 32 (mask 32)" by (simp_all add: mask_eq_exp_minus_1 push_bit_eq_mult)
  show ?thesis unfolding m
    apply (rule bit_word_eqI)
    subgoal for n by (cases "n < 16"; cases "n < 32") (auto simp: bit_simps)
    done
qed

lemma setIDTEntry_other: "k \<noteq> unat v \<Longrightarrow> setIDTEntry v a fl t ! k = t ! k"
  by (simp add: setIDTEntry_def)

lemma setIDTEntry_gate:
  assumes "unat v < length t"
  shows "gate_for a fl (setIDTEntry v a fl t ! unat v)"
  unfolding setIDTEntry_def gate_for_def gate_addr_def nth_list_update_eq [OF assms]
  by (simp only: IDTEntryAMD64.select_convs gate_join simp_thms)

lemma fold_gates:
  assumes "length t = 256" and "\<forall>n \<in> set ns. n < 256"
  shows "length (foldl (\<lambda>t n. setIDTEntry (of_nat n) (h n) fl t) t ns) = 256 \<and>
    (\<forall>k < 256. if k \<in> set ns then gate_for (h k) fl (foldl (\<lambda>t n. setIDTEntry (of_nat n) (h n) fl t) t ns ! k)
       else foldl (\<lambda>t n. setIDTEntry (of_nat n) (h n) fl t) t ns ! k = t ! k)"
  using assms(2)
proof (induction ns rule: rev_induct)
  case Nil
  then show ?case using assms(1) by simp
next
  case (snoc n ns)
  let ?t = "foldl (\<lambda>t n. setIDTEntry (of_nat n) (h n) fl t) t ns"
  have len: "length ?t = 256" and IH: "\<forall>k < 256. if k \<in> set ns then gate_for (h k) fl (?t ! k) else ?t ! k = t ! k"
    using snoc by auto
  have n: "unat (of_nat n :: u8) = n" "n < 256" using snoc.prems by (auto simp: unat_of_nat)
  have "gate_for (h n) fl (setIDTEntry (of_nat n) (h n) fl ?t ! n)"
    using setIDTEntry_gate [where v = "of_nat n" and t = ?t] n len by simp
  moreover have "setIDTEntry (of_nat n) (h n) fl ?t ! k = ?t ! k" if "k \<noteq> n" for k
    using setIDTEntry_other [of k "of_nat n"] n that by simp
  ultimately have "if k \<in> set (ns @ [n]) then gate_for (h k) fl (setIDTEntry (of_nat n) (h n) fl ?t ! k)
      else setIDTEntry (of_nat n) (h n) fl ?t ! k = t ! k" if "k < 256" for k
    using IH that by (cases "k = n") simp_all
  then show ?case using len by simp
qed

definition handler_of :: "nat \<Rightarrow> isr option" where
  "handler_of n =
     (if n = 32 then Some Timer_handler else if n = 39 then Some Spurious_isr
      else if 32 \<le> n then Some (Exc 1)
      else if n \<in> {15, 22, 23, 24, 25, 26, 27, 31} then None else Some (Exc n))"

text \<open>C17: Every interrupt reaches its handler. After \<^verbatim>\<open>fill_idt\<close> on the cleared table the processor finds,
  for each of the 256 vectors, the address of the handler the code names for it, in the code segment
  and with the gate type of an interrupt for the timer and the spurious vector and of an exception
  for all others; the vectors 15, 22 to 27 and 31 have no gate, and every other interrupt ends in
  the handler of the debug exception, which panics.\<close>

theorem fill_idt_dispatches:
  assumes "answers p PIC1_DATA \<noteq> []" and "answers p PIC2_DATA \<noteq> []"
  shows "\<exists>p' t. fill_idt addr (p, replicate 256 empty_gate) = Inr (p', t) \<and> length t = 256 \<and>
    (\<forall>n < 256. case handler_of n of
        None \<Rightarrow> \<not> gate_present (t ! n)
      | Some h \<Rightarrow> gate_present (t ! n) \<and> gate_for (addr h) (if h \<in> {Timer_handler, Spurious_isr} then INTERRUPT else EXCEPTION) (t ! n))"
proof -
  obtain p' where p': "remapPIC 0xF0 0xF8 p = Inr p'"
    using assms by (auto simp: remapPIC_def inb_def PIC1_DATA_def PIC2_DATA_def PIC1_COMMAND_def PIC2_COMMAND_def
        neq_Nil_conv)
  define ns :: "nat list" where "ns = [0..<15] @ [16..<22] @ [28, 29, 30]"
  have ns: "n \<in> set ns \<longleftrightarrow> n < 15 \<or> 16 \<le> n \<and> n < 22 \<or> n \<in> {28, 29, 30}" for n by (auto simp: ns_def)
  define ms :: "nat list" where "ms = [32..<256]"
  have ms: "n \<in> set ms \<longleftrightarrow> 32 \<le> n \<and> n < 256" for n unfolding ms_def set_upt by auto
  define t1 where "t1 = foldl (\<lambda>t n. setIDTEntry (of_nat n) (addr (Exc n)) EXCEPTION t) (replicate 256 empty_gate) ns"
  define t2 where "t2 = foldl (\<lambda>t n. setIDTEntry (of_nat n) (addr (Exc 1)) EXCEPTION t) t1 ms"
  define t3 where "t3 = setIDTEntry 0x20 (addr Timer_handler) INTERRUPT t2"
  define t4 where "t4 = setIDTEntry 0x27 (addr Spurious_isr) INTERRUPT t3"
  have lt: "\<forall>n \<in> set ns. n < 256" "\<forall>n \<in> set ms. n < 256" using ns ms by auto
  have t1: "length t1 = 256" "\<forall>k < 256. if k \<in> set ns then gate_for (addr (Exc k)) EXCEPTION (t1 ! k) else t1 ! k = empty_gate"
    using fold_gates [OF length_replicate [of 256 empty_gate] lt(1), where h = "\<lambda>n. addr (Exc n)" and fl = EXCEPTION] unfolding t1_def [symmetric]
    by (metis, metis nth_replicate)
  have t2: "length t2 = 256" "\<forall>k < 256. if 32 \<le> k then gate_for (addr (Exc 1)) EXCEPTION (t2 ! k) else t2 ! k = t1 ! k"
    using fold_gates [OF t1(1) lt(2), where h = "\<lambda>n. addr (Exc 1)" and fl = EXCEPTION] ms unfolding t2_def [symmetric]
    by (metis, metis)
  have t3: "gate_for (addr Timer_handler) INTERRUPT (t3 ! 32)" "\<forall>k < 256. k \<noteq> 32 \<longrightarrow> t3 ! k = t2 ! k" "length t3 = 256"
    using setIDTEntry_gate [where v = "0x20" and t = t2] setIDTEntry_other [where v = "0x20"] t2(1) unfolding t3_def by auto
  have t4: "gate_for (addr Spurious_isr) INTERRUPT (t4 ! 39)" "\<forall>k < 256. k \<noteq> 39 \<longrightarrow> t4 ! k = t3 ! k" "length t4 = 256"
    using setIDTEntry_gate [where v = "0x27" and t = t3] setIDTEntry_other [where v = "0x27"] t3(3) unfolding t4_def by auto
  have pres: "gate_for a INTERRUPT e \<Longrightarrow> gate_present e" "gate_for a EXCEPTION e \<Longrightarrow> gate_present e" for a e
    by (simp_all add: gate_for_def gate_present_def INTERRUPT_def EXCEPTION_def)
  have none: "\<not> gate_present empty_gate" by (simp add: gate_present_def empty_gate_def)
  have "case handler_of n of
        None \<Rightarrow> \<not> gate_present (t4 ! n)
      | Some h \<Rightarrow> gate_present (t4 ! n) \<and> gate_for (addr h) (if h \<in> {Timer_handler, Spurious_isr} then INTERRUPT else EXCEPTION) (t4 ! n)"
    if n: "n < 256" for n
  proof -
    consider "n = 32" | "n = 39" | "32 \<le> n" "n \<noteq> 32" "n \<noteq> 39" | "n < 32" "n \<in> set ns" | "n < 32" "n \<notin> set ns" by linarith
    then show ?thesis
    proof cases
      case 1
      then show ?thesis using t3 t4(2) pres by (simp add: handler_of_def)
    next
      case 2
      then show ?thesis using t4 pres by (simp add: handler_of_def)
    next
      case 3
      then have "gate_for (addr (Exc 1)) EXCEPTION (t4 ! n)" using t2(2) t3(2) t4(2) n by auto
      then show ?thesis using 3 pres by (simp add: handler_of_def)
    next
      case 4
      then have "gate_for (addr (Exc n)) EXCEPTION (t4 ! n)" using t1(2) t2(2) t3(2) t4(2) n by auto
      moreover have "handler_of n = Some (Exc n)" using 4 by (auto simp: handler_of_def ns)
      ultimately show ?thesis using pres by simp
    next
      case 5
      then have "t4 ! n = empty_gate" using t1(2) t2(2) t3(2) t4(2) n by auto
      moreover have "handler_of n = None" using 5 unfolding handler_of_def ns by simp presburger
      ultimately show ?thesis using none by simp
    qed
  qed
  moreover have "fill_idt addr (p, replicate 256 empty_gate) = Inr (p', t4)"
    unfolding fill_idt_def Let_def t4_def t3_def t2_def t1_def ns_def ms_def by (simp only: p' fst_conv snd_conv rbind_Inr)
  ultimately show ?thesis using t4(3) by blast
qed

definition quiet_pic :: ports where
  "quiet_pic = \<lparr>answers = \<lambda>p. [0xFF], written = []\<rparr>"

definition sample_addr :: "isr \<Rightarrow> u64" where
  "sample_addr h = (case h of Exc n \<Rightarrow> 0xFFFFFFFF80001000 + 16 * of_nat n | Timer_handler \<Rightarrow> 0xFFFFFFFF80002000 | Spurious_isr \<Rightarrow> 0xFFFFFFFF80002100)"

theorem fill_idt_dispatches_witness:
  "\<exists>p' t. fill_idt sample_addr (quiet_pic, replicate 256 empty_gate) = Inr (p', t) \<and>
    gate_addr (t ! 14) = 0xFFFFFFFF800010E0 \<and> gate_addr (t ! 32) = 0xFFFFFFFF80002000 \<and>
    gate_addr (t ! 200) = 0xFFFFFFFF80001010 \<and> \<not> gate_present (t ! 15)"
proof -
  have a: "answers quiet_pic PIC1_DATA \<noteq> []" "answers quiet_pic PIC2_DATA \<noteq> []" by (simp_all add: quiet_pic_def)
  obtain p' t where t: "fill_idt sample_addr (quiet_pic, replicate 256 empty_gate) = Inr (p', t)"
    and all: "\<forall>n < 256. case handler_of n of
        None \<Rightarrow> \<not> gate_present (t ! n)
      | Some h \<Rightarrow> gate_present (t ! n) \<and> gate_for (sample_addr h) (if h \<in> {Timer_handler, Spurious_isr} then INTERRUPT else EXCEPTION) (t ! n)"
    using fill_idt_dispatches [OF a, of sample_addr] by blast
  have h: "handler_of 14 = Some (Exc 14)" "handler_of 32 = Some Timer_handler" "handler_of 200 = Some (Exc 1)" "handler_of 15 = None"
    by (simp_all add: handler_of_def)
  show ?thesis
    using t all [rule_format, of 14] all [rule_format, of 32] all [rule_format, of 200] all [rule_format, of 15] h
    by (simp add: gate_for_def sample_addr_def)
qed

subsection \<open>Waiting for the timer\<close>

text \<open>What one timer interrupt changes.\<close>

definition clock_tick :: "'h clock \<Rightarrow> 'h clock" where
  "clock_tick s = s\<lparr>countdown := countdown s - 1, clock_millis := clock_millis s + 1,
     clock_timers := update_timers (clock_timers s), clock_apic := apicSendEOI (clock_apic s)\<rparr>"

lemma clock_tick_pow:
  "countdown ((clock_tick ^^ k) s) = countdown s - int k \<and> clock_millis ((clock_tick ^^ k) s) = clock_millis s + of_nat k \<and>
   clock_timers ((clock_tick ^^ k) s) = (update_timers ^^ k) (clock_timers s) \<and>
   lapic_log (clock_apic ((clock_tick ^^ k) s)) = lapic_log (clock_apic s) @ replicate k (END_OF_INTERRUPT_REG, 0)"
proof (induction k)
  case (Suc k)
  then show ?case
    by (simp add: clock_tick_def [of "(clock_tick ^^ k) s"] apicSendEOI_def replicate_append_same)
qed simp

lemma sleep_loop_ticks:
  "countdown s = int k \<Longrightarrow> sleep_loop n s = (if k \<le> n then Inr ((clock_tick ^^ k) s) else Inl Hang)"
proof (induction k arbitrary: n s)
  case 0
  then show ?case by (simp add: sleep_loop.simps [of n s])
next
  case (Suc k)
  show ?case
  proof (cases n)
    case 0
    then show ?thesis using Suc.prems by (simp add: sleep_loop.simps [of 0 s])
  next
    case (Suc m)
    have "timer_handler s = Inr (clock_tick s)" using Suc.prems by (simp add: timer_handler_def clock_tick_def)
    moreover have "countdown (clock_tick s) = int k" using Suc.prems by (simp add: clock_tick_def)
    ultimately show ?thesis
      using Suc Suc.prems Suc.IH [of "clock_tick s" m] by (simp add: sleep_loop.simps [of "Suc m" s] funpow_swap1)
  qed
qed

text \<open>C20: \<^verbatim>\<open>sleep\<close> waits for as many timer interrupts as it is asked for. If fewer come it never
  returns; otherwise it returns after exactly that many, each of which counted a millisecond, counted
  down the registered timers and was acknowledged to the local APIC.\<close>

theorem sleep_waits:
  assumes "0 \<le> millis"
  shows "if int n < millis then sleep n millis s = Inl Hang
    else \<exists>s'. sleep n millis s = Inr s' \<and> countdown s' = 0 \<and> clock_millis s' = clock_millis s + of_int millis \<and>
      clock_timers s' = (update_timers ^^ nat millis) (clock_timers s) \<and>
      lapic_log (clock_apic s') = lapic_log (clock_apic s) @ replicate (nat millis) (END_OF_INTERRUPT_REG, 0)"
proof -
  let ?s = "s\<lparr>countdown := millis\<rparr>"
  have "countdown ?s = int (nat millis)" using assms by simp
  from sleep_loop_ticks [OF this, of n] show ?thesis
    using clock_tick_pow [of "nat millis" ?s] assms by (auto simp: sleep_def)
qed

definition sample_clock :: "nat clock" where
  "sample_clock = \<lparr>countdown = - 4, clock_millis = 100,
     clock_timers = \<lparr>handlers = [], handler_cooldown = [], reset_cooldown = [], handler_count = 0\<rparr>, clock_apic = boot_apic\<rparr>"

theorem sleep_waits_witness:
  "\<exists>s'. sleep 7 5 sample_clock = Inr s' \<and> countdown s' = 0 \<and> clock_millis s' = 105"
proof -
  have "(0 :: int) \<le> 5" by simp
  from sleep_waits [OF this, of 7 sample_clock] show ?thesis by (auto simp: sample_clock_def)
qed

subsection \<open>A panic inside \<^verbatim>\<open>printf\<close>\<close>

lemma draw_lock: "draw f t = Inr u \<Longrightarrow> print_lock u = print_lock t"
  by (auto simp: draw_def rbind_eq_Inr)

lemma draw_character_lock: "draw_character x y c False t = Inr u \<Longrightarrow> print_lock u = print_lock t"
  by (auto simp: draw_character_def rbind_eq_Inr dest: draw_lock)

lemma cursor_lock: "cursor_here t = Inr u \<Longrightarrow> print_lock u = print_lock t"
  by (auto simp: cursor_here_def draw_cursor_def rbind_eq_Inr dest: draw_lock)

lemma newline_lock: "print_char 10 t = Inr u \<Longrightarrow> print_lock u = print_lock t"
  by (auto simp: print_char_def putc_with_def new_line_def blank_here_def rbind_eq_Inr
      dest!: draw_lock draw_character_lock cursor_lock split: if_splits)

lemma steps_first: "\<exists>e. f t = Inl e \<Longrightarrow> \<exists>e. steps (f # gs) t = Inl e"
  by (auto simp: steps_def)

lemma print_needs_lock: "print_lock t = SPIN_LOCKED \<Longrightarrow> \<exists>e. print fmt as t = Inl e"
  by (auto simp: print_def printf_def rbind_def split: sum.splits)

lemma steps_need_lock:
  assumes "print_lock t = SPIN_LOCKED"
  shows "\<exists>e. steps (terminal_puts [10, 0] # print fmt as # gs) t = Inl e"
proof (cases "terminal_puts [10, 0] t")
  case (Inr u)
  then have "print_lock u = SPIN_LOCKED" using assms newline_lock by (auto simp: rbind_eq_Inr)
  then obtain e where "print fmt as u = Inl e" using print_needs_lock by blast
  then show ?thesis using Inr by (simp add: steps_def del: terminal_puts.simps)
qed (simp add: steps_def del: terminal_puts.simps)

lemma fetch_needs_lock: "print_lock t = SPIN_LOCKED \<Longrightarrow> \<exists>e. display_fetch t = Inl e"
  unfolding display_fetch_def by (rule steps_first) (unfold fetch_logo_def, rule steps_need_lock)

text \<open>A fault while something is printed is never reported. If the exception comes while \<^verbatim>\<open>printf\<close>
  holds its lock, the panic itself waits for the lock for ever (or faults again): it
  reaches neither the copy of the screen to the display nor the line on the serial port, whatever the
  exception is.\<close>

lemma panic_inside_printf:
  assumes "print_lock t = SPIN_LOCKED"
  shows "\<exists>e. exc m millis n f err (t, k) = Inl e"
proof -
  have "\<exists>e. panic_screen t = Inl e"
  proof (rule ccontr)
    assume "\<not> ?thesis"
    then obtain u where "panic_screen t = Inr u" by (cases "panic_screen t") auto
    then obtain v w vg where v: "draw w (t\<lparr>terminal_x := 0, terminal_y := 0\<rparr>) = Inr v" and
      u: "display_fetch (v\<lparr>vga_of := vg\<rparr>) = Inr u" by (auto simp: panic_screen_def Let_def rbind_eq_Inr)
    have "print_lock v = SPIN_LOCKED" using draw_lock [OF v] assms by simp
    then show False using fetch_needs_lock [of "v\<lparr>vga_of := vg\<rparr>"] u by simp
  qed
  then show ?thesis by (auto simp: exc_def kernel_panic_def split: option.splits)
qed

subsection \<open>Hexadecimal text\<close>

lemma uint64_to_hex_text:
  "19 \<le> length buffer \<Longrightarrow> uint64_to_hex v buffer = Inr ([48, 120] @
     map (\<lambda>i. g_HexChars ! unat (drop_bit (i * 4) v AND 0xF)) (rev [0..<16]) @ [0] @ drop 19 buffer)"
proof -
  assume "19 \<le> length buffer"
  then obtain xs ys where b: "buffer = xs @ ys" "length xs = 19" by (metis append_take_drop_id length_take min.absorb2)
  then obtain a0 a1 a2 a3 a4 a5 a6 a7 a8 a9 b0 b1 b2 b3 b4 b5 b6 b7 b8 where
    "xs = [a0, a1, a2, a3, a4, a5, a6, a7, a8, a9, b0, b1, b2, b3, b4, b5, b6, b7, b8]"
    by (auto simp: numeral_eq_Suc length_Suc_conv)
  with b show ?thesis by (simp add: uint64_to_hex_def Let_def upt_rec)
qed

end
