(* ===== verification/Smp.thy ===== *)
theory Smp
  imports Idt
begin

text \<open>
  The other processors and the panic of the kernel's own checks: \<^verbatim>\<open>src/kernel/proc/smp.cpp\<close>. The
  boot loader lists the processors; the kernel starts one by storing the address it shall go on
  at. What a started processor does, \<^verbatim>\<open>mt_begin\<close>, works on that processor's own local APIC.
  The registers that \<^verbatim>\<open>panic\<close> dumps are an argument.
\<close>

subsection \<open>Starting processors\<close>

record limine_smp_info =
  processor_id :: u32
  lapic_id :: u32
  goto_address :: u64

record limine_smp_response =
  bsp_lapic_id :: u32
  cpus :: "limine_smp_info list"

text \<open>The loop runs while the index is at most the number of processors.\<close>

function jump_loop :: "u8 \<Rightarrow> u64 \<Rightarrow> nat \<Rightarrow> limine_smp_info list \<Rightarrow> (bool \<times> limine_smp_info list) res" where
  "jump_loop p addr i cs =
     (if i \<le> length cs
      then if i = length cs then Inl Out_of_bounds
           else if processor_id (cs ! i) = ucast p then Inr (True, cs[i := (cs ! i)\<lparr>goto_address := addr\<rparr>])
           else jump_loop p addr (Suc i) cs
      else Inr (False, cs))"
  by pat_completeness auto
termination by (relation "measure (\<lambda>(p, addr, i, cs). Suc (length cs) - i)") auto

declare jump_loop.simps [simp del]

definition cpu_jump_to :: "u8 \<Rightarrow> u64 \<Rightarrow> limine_smp_info list \<Rightarrow> (bool \<times> limine_smp_info list) res" where
  "cpu_jump_to p addr cs = jump_loop p addr 0 cs"

definition mt_begin :: "bytes \<Rightarrow> u64 \<Rightarrow> limine_smp_info \<Rightarrow> apic \<Rightarrow> apic res" where
  "mt_begin m rsdp info = initAPIC m rsdp (ucast (lapic_id info))"

text \<open>\<open>ticks i\<close> is how many timer interrupts come while the start of processor \<open>i\<close> is waited for,
  \<open>entry\<close> the address of \<^verbatim>\<open>mt_begin\<close>.\<close>

definition start_cpu :: "u64 \<Rightarrow> (nat \<Rightarrow> nat) \<Rightarrow> nat \<Rightarrow> limine_smp_info list \<times> 'h clock \<Rightarrow>
    (limine_smp_info list \<times> 'h clock) res" where
  "start_cpu entry ticks i s =
     rbind (cpu_jump_to (of_nat i) entry (fst s)) (\<lambda>(_, cs).
     rbind (sleep (ticks i) 100 (snd s)) (\<lambda>c. Inr (cs, c)))"

definition smp_init ::
  "bytes \<Rightarrow> u64 \<Rightarrow> u64 \<Rightarrow> (nat \<Rightarrow> nat) \<Rightarrow> limine_smp_response \<times> 'h clock \<Rightarrow> (limine_smp_response \<times> 'h clock) res" where
  "smp_init m rsdp entry ticks s =
     rbind (initAPIC m rsdp (ucast (bsp_lapic_id (fst s))) (clock_apic (snd s))) (\<lambda>a.
     rbind (for_each (start_cpu entry ticks) [1..<length (cpus (fst s))] (cpus (fst s), (snd s)\<lparr>clock_apic := a\<rparr>)) (\<lambda>(cs, c).
       Inr ((fst s)\<lparr>cpus := cs\<rparr>, c)))"

subsection \<open>Panic\<close>

text \<open>The lines of the log, each with the milliseconds at which it is written.\<close>

definition log_lines :: "(nat \<Rightarrow> u64) \<Rightarrow> (u8 list \<times> parg list) list \<Rightarrow> klog \<Rightarrow> klog res" where
  "log_lines millis ls =
     for_each (\<lambda>(i, fmt, args). log_e (millis i) (cstr ''KERNEL PANIC'') fmt args) (enumerate 0 ls)"

definition register_names :: "string list" where
  "register_names = [''RAX'', ''RBX'', ''RCX'', ''RDX'', ''RSI'', ''RDI'', ''RBP'', ''RSP'']"

text \<open>The words above the stack pointer, while their address is not 0.\<close>

definition trace_words :: "bytes \<Rightarrow> u64 \<Rightarrow> u64 list" where
  "trace_words m sp = map (stack_word m sp) (takeWhile (\<lambda>i. sp + 8 * of_nat i \<noteq> 0) [0..<8])"

definition panic_lines :: "bytes \<Rightarrow> u8 list \<Rightarrow> u64 list \<Rightarrow> (u8 list \<times> parg list) list" where
  "panic_lines m message regs =
     [(cstr ''Exception: %s'', [P_str message]), (cstr ''--- Registers ---'', [])] @
     map2 (\<lambda>r v. (cstr (r @ '': 0x%x''), [P_num v])) register_names regs @
     [(cstr ''--- Stack Trace ---'', [])] @
     map (\<lambda>v. (cstr ''0x%x'', [P_num v])) (trace_words m (regs ! 7))"

definition panic ::
  "bytes \<Rightarrow> (nat \<Rightarrow> u64) \<Rightarrow> dstring \<Rightarrow> u64 list \<Rightarrow> terminal \<times> klog \<Rightarrow> (terminal \<times> klog) res" where
  "panic m millis message regs s =
     rbind (log_lines millis (panic_lines m (str_data message) regs) (snd s)) (\<lambda>k.
       if font_hdr (vga_of (fst s)) = None then Inr (fst s, k)
       else rbind (panic_screen (fst s)) (\<lambda>t.
            rbind (steps
              ([printf (map of_char ''=== KERNEL PANIC ==='' @ [10, 10, 0]) [],
                printf (cstr_line ''Exception: %s'') [P_str (str_data message)],
                printf (cstr_line ''--- Registers ---'') []] @
               map2 (\<lambda>r v. printf (cstr_line (r @ '': 0x%x'')) [P_num v]) register_names regs @
               [printf (cstr_line ''--- Stack Trace ---'') []] @
               map (\<lambda>v. printf (cstr_line ''0x%x'') [P_num v]) (trace_words m (regs ! 7)) @
               [draw repaintScreen]) t) (\<lambda>t. Inr (t, k))))"

text \<open>A failed assertion: \<open>millis0\<close> is the time of its own log line, \<open>buffer\<close> the static array of 1024
  bytes the text is made in.\<close>

definition assert_format :: "u8 list" where
  "assert_format = map of_char ''Assertion '' @ [39, 37, 115, 39] @ cstr '' failed in file %s at line %d''"

definition assert_fail ::
  "bytes \<Rightarrow> u64 \<Rightarrow> (nat \<Rightarrow> u64) \<Rightarrow> u8 list \<Rightarrow> u8 list \<Rightarrow> u8 list \<Rightarrow> u32 \<Rightarrow> u64 list \<Rightarrow> terminal \<times> klog \<Rightarrow>
   (terminal \<times> klog) res" where
  "assert_fail m millis0 millis buffer assertion srcfile line regs s =
     rbind (sprintf buffer assert_format [Arg_str assertion, Arg_str srcfile, Arg_int line]) (\<lambda>b.
     rbind (log_e millis0 (cstr ''Kernel'') (cstr ''Assertion Failed -> %s'') [P_str b] (snd s)) (\<lambda>k.
     rbind (string_of b) (\<lambda>message. panic m millis message regs (fst s, k))))"

subsection \<open>Which processors are started\<close>

lemma jump_loop_found:
  assumes "n < length cs" and "i \<le> n" and "\<forall>k. i \<le> k \<and> k < n \<longrightarrow> processor_id (cs ! k) \<noteq> ucast p"
    and "processor_id (cs ! n) = ucast p"
  shows "jump_loop p addr i cs = Inr (True, cs[n := (cs ! n)\<lparr>goto_address := addr\<rparr>])"
  using assms(2,3)
proof (induction "n - i" arbitrary: i)
  case 0
  then show ?case using assms(1,4) by (simp add: jump_loop.simps)
next
  case (Suc d)
  then have "jump_loop p addr (Suc i) cs = Inr (True, cs[n := (cs ! n)\<lparr>goto_address := addr\<rparr>])" by simp
  then show ?case using Suc assms(1) by (simp add: jump_loop.simps [of p addr i])
qed

text \<open>An unknown number is looked for behind the end of the list; the error line is never reached.\<close>

lemma jump_missing_faults:
  assumes "i \<le> length cs" and "\<forall>k < length cs. processor_id (cs ! k) \<noteq> ucast p"
  shows "jump_loop p addr i cs = Inl Out_of_bounds"
  using assms(1)
proof (induction "length cs - i" arbitrary: i)
  case 0
  then show ?case by (simp add: jump_loop.simps)
next
  case (Suc d)
  then have "jump_loop p addr (Suc i) cs = Inl Out_of_bounds" by simp
  then show ?case using Suc assms(2) by (simp add: jump_loop.simps [of p addr i])
qed

definition numbered :: "limine_smp_info list \<Rightarrow> bool" where
  "numbered cs \<longleftrightarrow> map processor_id cs = map of_nat [0..<length cs]"

lemma numberedD: "numbered cs \<Longrightarrow> k < length cs \<Longrightarrow> processor_id (cs ! k) = of_nat k"
  unfolding numbered_def by (metis add_0 length_map nth_map nth_upt)

lemma cpu_jump_numbered:
  assumes "numbered cs" and "length cs \<le> 256" and "n < length cs"
  shows "cpu_jump_to (of_nat n) addr cs = Inr (True, cs[n := (cs ! n)\<lparr>goto_address := addr\<rparr>])"
proof -
  have id: "processor_id (cs ! k) = ucast (of_nat n :: u8) \<longleftrightarrow> k = n" if "k < length cs" for k
    using numberedD [OF assms(1) that] that assms(2,3)
    by (auto simp: word_unat_eq_iff unat_of_nat)
  show ?thesis unfolding cpu_jump_to_def by (rule jump_loop_found) (use assms(3) id in auto)
qed

lemma sleep_enough:
  assumes "100 \<le> n"
  shows "\<exists>c'. sleep n 100 c = Inr c' \<and> clock_millis c' = clock_millis c + 100"
  using sleep_loop_ticks [of "c\<lparr>countdown := 100\<rparr>" 100 n] clock_tick_pow [of 100 "c\<lparr>countdown := 100\<rparr>"] assms
  by (simp add: sleep_def)

text \<open>The list when the processors 1 to \<open>j - 1\<close> have been started.\<close>

definition started_to :: "u64 \<Rightarrow> nat \<Rightarrow> limine_smp_info list \<Rightarrow> limine_smp_info list" where
  "started_to entry j cs =
     map (\<lambda>k. if 1 \<le> k \<and> k < j then (cs ! k)\<lparr>goto_address := entry\<rparr> else cs ! k) [0..<length cs]"

lemma started_to_simps [simp]:
  "length (started_to entry j cs) = length cs"
  "k < length cs \<Longrightarrow> started_to entry j cs ! k = (if 1 \<le> k \<and> k < j then (cs ! k)\<lparr>goto_address := entry\<rparr> else cs ! k)"
  by (simp_all add: started_to_def)

lemma started_to_numbered: "numbered cs \<Longrightarrow> numbered (started_to entry j cs)"
proof -
  assume n: "numbered cs"
  have "map processor_id (started_to entry j cs) = map processor_id cs"
    by (rule nth_equalityI) simp_all
  then show ?thesis using n by (simp add: numbered_def)
qed

lemma started_to_Suc:
  "1 \<le> j \<Longrightarrow> j < length cs \<Longrightarrow>
   (started_to entry j cs)[j := (started_to entry j cs ! j)\<lparr>goto_address := entry\<rparr>] = started_to entry (Suc j) cs"
  by (rule nth_equalityI) (auto simp: nth_list_update)

lemma start_cpus:
  assumes "numbered cs" and "length cs \<le> 256" and "\<forall>i \<in> {1..<length cs}. 100 \<le> ticks i" and "1 \<le> j" and "j \<le> length cs"
  shows "\<exists>c'. for_each (start_cpu entry ticks) [1..<j] (cs, c) = Inr (started_to entry j cs, c') \<and>
    clock_millis c' = clock_millis c + 100 * of_nat (j - 1)"
  using assms(4,5)
proof (induction j rule: nat_induct_at_least)
  case base
  have "started_to entry 1 cs = cs" by (rule nth_equalityI) auto
  then show ?case by simp
next
  case (Suc j)
  then obtain c1 where c1: "for_each (start_cpu entry ticks) [1..<j] (cs, c) = Inr (started_to entry j cs, c1)"
    "clock_millis c1 = clock_millis c + 100 * of_nat (j - 1)" by auto
  obtain c2 where c2: "sleep (ticks j) 100 c1 = Inr c2" "clock_millis c2 = clock_millis c1 + 100"
    using sleep_enough [of "ticks j" c1] assms(3) Suc by auto
  have "cpu_jump_to (of_nat j) entry (started_to entry j cs) = Inr (True, started_to entry (Suc j) cs)"
    using cpu_jump_numbered [OF started_to_numbered [OF assms(1)], of entry j j entry] Suc assms(2)
    by (simp add: started_to_Suc del: started_to_simps(2))
  then have "start_cpu entry ticks j (started_to entry j cs, c1) = Inr (started_to entry (Suc j) cs, c2)"
    using c2 by (simp add: start_cpu_def)
  moreover have "of_nat (Suc j - 1) = (of_nat (j - 1) :: u64) + 1" using Suc.hyps by (cases j) simp_all
  ultimately show ?case using c1 c2(2) Suc.hyps by (simp add: for_each_append algebra_simps)
qed

text \<open>C28: Every other processor is started, once and in order. On a machine of at most 256 processors,
  numbered from 0 in the list of the boot loader, where \<^verbatim>\<open>initAPIC\<close> returns for the boot processor and
  at least a hundred timer interrupts come in every wait, \<^verbatim>\<open>smp_init\<close> returns. When it has dealt
  with the processors below \<open>j\<close>, those from 1 on have the address of \<^verbatim>\<open>mt_begin\<close> to go on
  at, the others, the first included, are untouched, and exactly a hundred timer interrupts were
  taken for each; so it is for all of them at the end.\<close>

theorem smp_starts_every_cpu:
  assumes "numbered (cpus r)" and "cpus r \<noteq> []" and "length (cpus r) \<le> 256"
    and "\<forall>i \<in> {1..<length (cpus r)}. 100 \<le> ticks i"
    and "initAPIC m rsdp (ucast (bsp_lapic_id r)) (clock_apic c) = Inr a"
  shows "(\<forall>j \<in> {1..length (cpus r)}. \<exists>cs cj.
      for_each (start_cpu entry ticks) [1..<j] (cpus r, c\<lparr>clock_apic := a\<rparr>) = Inr (cs, cj) \<and>
      cs = map (\<lambda>k. if 1 \<le> k \<and> k < j then (cpus r ! k)\<lparr>goto_address := entry\<rparr> else cpus r ! k) [0..<length (cpus r)] \<and>
      clock_millis cj = clock_millis c + 100 * of_nat (j - 1)) \<and>
    (\<exists>c'. smp_init m rsdp entry ticks (r, c) =
        Inr (r\<lparr>cpus := hd (cpus r) # map (\<lambda>p. p\<lparr>goto_address := entry\<rparr>) (tl (cpus r))\<rparr>, c') \<and>
      clock_millis c' = clock_millis c + 100 * of_nat (length (cpus r) - 1))"
proof -
  note run = start_cpus [OF assms(1,3,4), of _ entry "c\<lparr>clock_apic := a\<rparr>"]
  have all: "started_to entry (length (cpus r)) (cpus r) = hd (cpus r) # map (\<lambda>p. p\<lparr>goto_address := entry\<rparr>) (tl (cpus r))"
    using assms(2) by (intro nth_equalityI) (auto simp: nth_Cons nth_tl hd_conv_nth split: nat.splits)
  have "1 \<le> length (cpus r)" using assms(2) by (cases "cpus r") simp_all
  from run [OF this] obtain c' where "for_each (start_cpu entry ticks) [1..<length (cpus r)] (cpus r, c\<lparr>clock_apic := a\<rparr>) =
      Inr (started_to entry (length (cpus r)) (cpus r), c')"
    "clock_millis c' = clock_millis c + 100 * of_nat (length (cpus r) - 1)" by auto
  then have "\<exists>c'. smp_init m rsdp entry ticks (r, c) =
        Inr (r\<lparr>cpus := hd (cpus r) # map (\<lambda>p. p\<lparr>goto_address := entry\<rparr>) (tl (cpus r))\<rparr>, c') \<and>
      clock_millis c' = clock_millis c + 100 * of_nat (length (cpus r) - 1)"
    using assms(5) by (auto simp: smp_init_def all)
  moreover have "\<exists>cs cj. for_each (start_cpu entry ticks) [1..<j] (cpus r, c\<lparr>clock_apic := a\<rparr>) = Inr (cs, cj) \<and>
      cs = map (\<lambda>k. if 1 \<le> k \<and> k < j then (cpus r ! k)\<lparr>goto_address := entry\<rparr> else cpus r ! k) [0..<length (cpus r)] \<and>
      clock_millis cj = clock_millis c + 100 * of_nat (j - 1)" if "j \<in> {1..length (cpus r)}" for j
    using run [of j] that by (auto simp: started_to_def)
  ultimately show ?thesis by blast
qed

definition two_cpus :: limine_smp_response where
  "two_cpus = \<lparr>bsp_lapic_id = 0, cpus = [\<lparr>processor_id = 0, lapic_id = 0, goto_address = 0\<rparr>,
     \<lparr>processor_id = 1, lapic_id = 1, goto_address = 0\<rparr>]\<rparr>"

theorem smp_starts_every_cpu_witness:
  "\<exists>r' c'. smp_init (\<lambda>_. 0) 0x100 0x8000 (\<lambda>_. 150) (two_cpus\<lparr>bsp_lapic_id := 1\<rparr>, sample_clock) = Inr (r', c') \<and>
    goto_address (cpus r' ! 1) = 0x8000 \<and> clock_millis c' = 200"
proof -
  have n: "numbered (cpus (two_cpus\<lparr>bsp_lapic_id := 1\<rparr>))" "cpus (two_cpus\<lparr>bsp_lapic_id := 1\<rparr>) \<noteq> []"
    "length (cpus (two_cpus\<lparr>bsp_lapic_id := 1\<rparr>)) \<le> 256"
    by (simp_all add: numbered_def two_cpus_def)
  have "\<exists>a. initAPIC (\<lambda>_. 0) 0x100 1 (clock_apic sample_clock) = Inr a"
    by (simp add: initAPIC_def sample_clock_def boot_apic_def Let_def)
  then obtain a where "initAPIC (\<lambda>_. 0) 0x100 (ucast (bsp_lapic_id (two_cpus\<lparr>bsp_lapic_id := 1\<rparr>))) (clock_apic sample_clock) = Inr a"
    by auto
  from smp_starts_every_cpu [OF n _ this, of "\<lambda>_. 150" "0x8000"] show ?thesis
    by (auto simp: two_cpus_def sample_clock_def)
qed

subsection \<open>A panic before there is a screen\<close>

text \<open>The lines as pieces: the message, the eight registers and the words of the stack.\<close>

definition lit :: "string \<Rightarrow> piece list" where
  "lit s = map (\<lambda>c. Lit (of_char c)) s"

definition panic_pieces :: "u8 list \<Rightarrow> u64 list \<Rightarrow> u64 list \<Rightarrow> piece list list" where
  "panic_pieces t regs ws =
     [lit ''Exception: '' @ [Text t], lit ''--- Registers ---'',
      lit ''RAX: 0x'' @ [Hex (regs ! 0)], lit ''RBX: 0x'' @ [Hex (regs ! 1)],
      lit ''RCX: 0x'' @ [Hex (regs ! 2)], lit ''RDX: 0x'' @ [Hex (regs ! 3)],
      lit ''RSI: 0x'' @ [Hex (regs ! 4)], lit ''RDI: 0x'' @ [Hex (regs ! 5)],
      lit ''RBP: 0x'' @ [Hex (regs ! 6)], lit ''RSP: 0x'' @ [Hex (regs ! 7)],
      lit ''--- Stack Trace ---''] @ map (\<lambda>v. lit ''0x'' @ [Hex v]) ws"

text \<open>How many words there are from the stack pointer to the end of memory, eight at most; none at 0.\<close>

definition stack_depth :: "u64 \<Rightarrow> nat" where
  "stack_depth sp =
     (if sp = 0 then 0
      else if unat sp mod 8 = 0 \<and> 2 ^ 64 - 64 \<le> unat sp then (2 ^ 64 - unat sp) div 8 else 8)"

lemma takeWhile_upt: "n \<le> m \<Longrightarrow> \<forall>i < n. P i \<Longrightarrow> n = m \<or> \<not> P n \<Longrightarrow> takeWhile P [0..<m] = [0..<n]"
proof -
  assume h: "n \<le> m" "\<forall>i < n. P i" "n = m \<or> \<not> P n"
  have "[0..<m] = [0..<n] @ [n..<m]" using upt_add_eq_append [of 0 n "m - n"] h(1) by simp
  moreover have "takeWhile P [n..<m] = []" using h(1,3) by (cases "n = m") (simp_all add: upt_conv_Cons)
  ultimately show ?thesis using h(2) by (simp add: takeWhile_append)
qed

lemma trace_depth: "takeWhile (\<lambda>i. sp + 8 * of_nat i \<noteq> 0) [0..<8] = [0..<stack_depth sp]"
proof -
  have sp: "unat sp < 2 ^ 64" by (rule unat_u64_lt)
  have u: "sp + 8 * of_nat i = 0 \<longleftrightarrow> unat sp + 8 * i = 0 \<or> unat sp + 8 * i = 2 ^ 64" if "i \<le> 8" for i
  proof -
    have "sp + 8 * of_nat i = 0 \<longleftrightarrow> (unat sp + 8 * i) mod 2 ^ 64 = 0"
      by (simp add: word_unat_eq_iff unat_word_ariths unat_of_nat take_bit_eq_mod mod_simps)
    moreover have "unat sp + 8 * i < 2 * 2 ^ 64" using sp that by simp
    then have "(unat sp + 8 * i) mod 2 ^ 64 = 0 \<longleftrightarrow> unat sp + 8 * i = 0 \<or> unat sp + 8 * i = 2 ^ 64"
      by (auto simp: mod_if)
    ultimately show ?thesis by simp
  qed
  have z: "unat sp = 0 \<longleftrightarrow> sp = 0" by (simp add: unat_eq_zero)
  show ?thesis
  proof (rule takeWhile_upt)
    show "stack_depth sp \<le> 8" by (auto simp: stack_depth_def)
    show "\<forall>i < stack_depth sp. sp + 8 * of_nat i \<noteq> 0"
    proof (intro allI impI)
      fix i assume i: "i < stack_depth sp"
      then have s: "sp \<noteq> 0" "i < 8" by (auto simp: stack_depth_def split: if_splits)
      have "unat sp + 8 * i \<noteq> 2 ^ 64"
      proof
        assume e: "unat sp + 8 * i = 2 ^ 64"
        have "unat sp = 8 * (2 ^ 61 - i)" using e s(2) by simp
        then have "unat sp mod 8 = 0" by (metis mod_mult_self1_is_0)
        moreover have "2 ^ 64 - 64 \<le> unat sp" using e s(2) by linarith
        ultimately have "stack_depth sp = (2 ^ 64 - unat sp) div 8" using s(1) by (simp add: stack_depth_def)
        also have "2 ^ 64 - unat sp = 8 * i" using e by linarith
        finally show False using i by simp
      qed
      then show "sp + 8 * of_nat i \<noteq> 0" using u [of i] s z by simp
    qed
    show "stack_depth sp = 8 \<or> \<not> sp + 8 * of_nat (stack_depth sp) \<noteq> 0"
    proof (cases "sp \<noteq> 0 \<and> unat sp mod 8 = 0 \<and> 2 ^ 64 - 64 \<le> unat sp")
      case True
      then obtain q where q: "unat sp = 8 * q" by auto
      then have "2 ^ 64 - unat sp = 8 * (2 ^ 61 - q)" by simp
      then have "8 * ((2 ^ 64 - unat sp) div 8) = 2 ^ 64 - unat sp" by simp
      moreover have "2 ^ 64 - unat sp \<le> 64" using True by linarith
      then have "(2 ^ 64 - unat sp) div 8 \<le> 8" by (rule order_trans [OF div_le_mono]) simp
      ultimately have "unat sp + 8 * stack_depth sp = 2 ^ 64" "stack_depth sp \<le> 8"
        using True sp by (simp_all add: stack_depth_def)
      then show ?thesis using u by simp
    qed (auto simp: stack_depth_def)
  qed
qed

text \<open>The bytes of a word of the stack, the lowest first.\<close>

lemma rd64_byte:
  assumes "b < 8"
  shows "ucast (drop_bit (8 * b) (rd64 bs 0)) = bs ! b"
proof (rule bit_word_eqI)
  fix n assume "n < LENGTH(8)"
  then have n: "n < 8" by simp
  have z: "\<not> bit x (8 + k)" "\<not> bit x (16 + k)" "\<not> bit x (24 + k)" for x :: u8 and k
    by (auto dest: bit_imp_le_length)
  have "b = 0 \<or> b = 1 \<or> b = 2 \<or> b = 3 \<or> b = 4 \<or> b = 5 \<or> b = 6 \<or> b = 7" using assms by linarith
  then show "bit (ucast (drop_bit (8 * b) (rd64 bs 0)) :: u8) n = bit (bs ! b) n"
    using n unfolding rd64_def rd32_def rd16_def by (elim disjE) (auto simp: bit_simps z numeral_2_eq_2 numeral_3_eq_3 dest: bit_imp_le_length)
qed

lemma stack_word_bytes:
  assumes "b < 8"
  shows "ucast (drop_bit (8 * b) (stack_word m sp i)) = m (sp + of_nat (8 * i + b))"
  using assms unfolding stack_word_def rd64_byte [OF assms] by (simp add: at_mem_def algebra_simps)

lemma format_lit: "format_of (lit s @ ps) = map of_char s @ format_of ps" "args_of (lit s @ ps) = args_of ps"
  by (induction s) (simp_all add: format_of_def args_of_def lit_def)

lemma lit_ok: "list_all (\<lambda>c. of_char c \<noteq> (0 :: u8) \<and> of_char c \<noteq> (37 :: u8)) s \<Longrightarrow> list_all piece_ok (lit s)"
  by (induction s) (simp_all add: lit_def)

lemma log_lines_sent:
  assumes "serial_output k" and "log_lock k = SPIN_UNLOCKED" and "\<forall>i. unat (millis i) < 2 ^ 30 * 1000"
    and "list_all (list_all piece_ok) pss"
  shows "\<exists>ts. length ts = length pss \<and> (\<forall>i < length pss. time_text (millis (n + i)) (ts ! i)) \<and>
    for_each (\<lambda>(i, fmt, args). log_e (millis i) (cstr ''KERNEL PANIC'') fmt args)
        (enumerate n (map (\<lambda>ps. (format_of ps, args_of ps)) pss)) k =
      Inr (sent (concat (map2 (\<lambda>t ps. line_bytes (9 # map of_char ''[E]     '') t (map of_char ''KERNEL PANIC'') ps) ts pss)) k)"
  using assms(1,2,4)
proof (induction pss arbitrary: n k)
  case (Cons ps pss)
  obtain t where t: "time_text (millis n) t" using assms(3) log_time_returns by blast
  have l: "holds (9 # cstr ''[E]     '') (9 # map of_char ''[E]     '')" "holds (cstr ''KERNEL PANIC'') (map of_char ''KERNEL PANIC'')"
    by (simp_all add: holds_def cstr_def)
  let ?b = "line_bytes (9 # map of_char ''[E]     '') t (map of_char ''KERNEL PANIC'') ps"
  have e: "log_e (millis n) (cstr ''KERNEL PANIC'') (format_of ps) (args_of ps) k = Inr (sent ?b k)"
    unfolding log_e_def using Cons.prems l t by (intro log_with_sent) simp_all
  obtain ts where ts: "length ts = length pss" "\<forall>i < length pss. time_text (millis (Suc n + i)) (ts ! i)"
    "for_each (\<lambda>(i, fmt, args). log_e (millis i) (cstr ''KERNEL PANIC'') fmt args)
        (enumerate (Suc n) (map (\<lambda>ps. (format_of ps, args_of ps)) pss)) (sent ?b k) =
      Inr (sent (concat (map2 (\<lambda>t ps. line_bytes (9 # map of_char ''[E]     '') t (map of_char ''KERNEL PANIC'') ps) ts pss)) (sent ?b k))"
    using Cons.IH [of "sent ?b k" "Suc n"] Cons.prems by auto
  have "\<forall>i < length (ps # pss). time_text (millis (n + i)) ((t # ts) ! i)"
    using t ts(2) by (auto simp: nth_Cons split: nat.splits)
  moreover have "for_each (\<lambda>(i, fmt, args). log_e (millis i) (cstr ''KERNEL PANIC'') fmt args)
        (enumerate n (map (\<lambda>ps. (format_of ps, args_of ps)) (ps # pss))) k =
      Inr (sent (concat (map2 (\<lambda>t ps. line_bytes (9 # map of_char ''[E]     '') t (map of_char ''KERNEL PANIC'') ps) (t # ts) (ps # pss))) k)"
    using e ts(3) by simp
  ultimately show ?case using ts(1) by (intro exI [of _ "t # ts"]) simp
qed simp

lemma panic_lines_pieces:
  assumes "message = t @ [0]" and "length regs = 8"
  shows "panic_lines m message regs = map (\<lambda>ps. (format_of ps, args_of ps)) (panic_pieces t regs (trace_words m (regs ! 7)))"
proof -
  have e: "format_of [] = [0]" "args_of [] = []" "format_of [Text t] = [37, 115, 0]" "args_of [Text t] = [P_str (t @ [0])]"
    "format_of [Hex v] = [37, 120, 0]" "args_of [Hex v] = [P_num v]" for v
    by (simp_all add: format_of_def args_of_def)
  have l: "format_of (lit s) = cstr s" "args_of (lit s) = []" for s
    using format_lit [of s "[]"] by (simp_all add: e cstr_def)
  have h: "cstr (r @ ''0x%x'') = format_of (lit (r @ ''0x'') @ [Hex v])" for r v
    by (simp add: format_lit e cstr_def)
  have x: "cstr ''Exception: %s'' = format_of (lit ''Exception: '' @ [Text t])" by (simp add: format_lit e cstr_def)
  have r: "cstr (r @ '': 0x%x'') = format_of (lit (r @ '': 0x'') @ [Hex v])" for r v
    using h [of "r @ '': ''" v] by simp
  have regs: "map2 f register_names regs = [f ''RAX'' (regs ! 0), f ''RBX'' (regs ! 1), f ''RCX'' (regs ! 2), f ''RDX'' (regs ! 3),
      f ''RSI'' (regs ! 4), f ''RDI'' (regs ! 5), f ''RBP'' (regs ! 6), f ''RSP'' (regs ! 7)]" for f :: "string \<Rightarrow> u64 \<Rightarrow> u8 list \<times> parg list"
    using assms(2) by (auto simp: register_names_def length_Suc_conv eval_nat_numeral)
  show ?thesis
    unfolding panic_lines_def panic_pieces_def regs
    using h [of "[]"] r [of "''RAX''"] r [of "''RBX''"] r [of "''RCX''"] r [of "''RDX''"] r [of "''RSI''"] r [of "''RDI''"]
      r [of "''RBP''"] r [of "''RSP''"]
    by (simp add: assms(1) x l e format_lit(2) split_beta comp_def register_names_def)
qed

lemma panic_pieces_ok:
  assumes "0 \<notin> set t" and "length t < 2 ^ 31"
  shows "list_all (list_all piece_ok) (panic_pieces t regs ws)"
proof -
  have "list_all piece_ok (lit ''Exception: '')" "list_all piece_ok (lit ''--- Registers ---'')"
    "list_all piece_ok (lit ''--- Stack Trace ---'')" "list_all piece_ok (lit ''0x'')"
    "list_all piece_ok (lit ''RAX: 0x'')" "list_all piece_ok (lit ''RBX: 0x'')" "list_all piece_ok (lit ''RCX: 0x'')"
    "list_all piece_ok (lit ''RDX: 0x'')" "list_all piece_ok (lit ''RSI: 0x'')" "list_all piece_ok (lit ''RDI: 0x'')"
    "list_all piece_ok (lit ''RBP: 0x'')" "list_all piece_ok (lit ''RSP: 0x'')"
    by (simp_all add: lit_def)
  then show ?thesis using assms by (auto simp: panic_pieces_def list_all_iff)
qed

text \<open>C31: A panic before there is a font is reported in full. With the serial port as the log, the lock free,
  a message that is a text shorter than 2147483648 bytes and a clock below 2 to the 30 seconds,
  \<^verbatim>\<open>panic\<close> sends, a line each, the message, the eight registers by name with their values in
  hexadecimal and the up to eight words of memory from the stack pointer on, as far as memory goes,
  and leaves the screen alone.\<close>

theorem panic_reports_on_serial:
  assumes "font_hdr (vga_of t) = None" and "serial_output k" and "log_lock k = SPIN_UNLOCKED"
    and "\<forall>i. unat (millis i) < 2 ^ 30 * 1000"
    and "str_data message = txt @ [0]" and "0 \<notin> set txt" and "length txt < 2 ^ 31" and "length regs = 8"
  shows "\<exists>ts ws k'. panic m millis message regs (t, k) = Inr (t, k') \<and>
    length ws = stack_depth (regs ! 7) \<and>
    (\<forall>i < length ws. \<forall>b < 8. ucast (drop_bit (8 * b) (ws ! i)) = m (regs ! 7 + of_nat (8 * i + b))) \<and>
    length ts = 11 + length ws \<and> (\<forall>i < length ts. time_text (millis i) (ts ! i)) \<and>
    written (log_ports k') = written (log_ports k) @ map (Pair COM1) (concat (map2 (\<lambda>u ps.
      line_bytes (9 # map of_char ''[E]     '') u (map of_char ''KERNEL PANIC'') ps) ts (panic_pieces txt regs ws)))"
proof -
  let ?ws = "trace_words m (regs ! 7)"
  let ?ps = "panic_pieces txt regs ?ws"
  from log_lines_sent [OF assms(2-4) panic_pieces_ok [OF assms(6,7), of regs ?ws], where n = 0] obtain ts where
    ts: "length ts = length ?ps" "\<forall>i < length ?ps. time_text (millis i) (ts ! i)"
    "log_lines millis (panic_lines m (str_data message) regs) k =
      Inr (sent (concat (map2 (\<lambda>u ps. line_bytes (9 # map of_char ''[E]     '') u (map of_char ''KERNEL PANIC'') ps) ts ?ps)) k)"
    unfolding log_lines_def panic_lines_pieces [OF assms(5,8)] by auto
  have w: "length ?ws = stack_depth (regs ! 7)"
    "\<forall>i < length ?ws. \<forall>b < 8. ucast (drop_bit (8 * b) (?ws ! i)) = m (regs ! 7 + of_nat (8 * i + b))"
    using stack_word_bytes [of _ m "regs ! 7"] by (simp_all add: trace_words_def trace_depth del: of_nat_add of_nat_mult)
  have "length ?ps = 11 + length ?ws" by (simp add: panic_pieces_def)
  then show ?thesis using assms(1) ts w by (intro exI [of _ ts] exI [of _ ?ws]) (simp add: panic_def)
qed

theorem panic_reports_on_serial_witness:
  "\<exists>(ws :: u64 list) k'. panic (\<lambda>a. ucast a) (\<lambda>_. 5) \<lparr>str_data = [79, 79, 77, 0], str_size = 3, str_cap = 4\<rparr> [1, 2, 3, 4, 5, 6, 7, 0x1010]
      (small_terminal\<lparr>vga_of := (vga_of small_terminal)\<lparr>font_hdr := None\<rparr>\<rparr>,
       \<lparr>log_ports = quiet_pic, serial_output = True, log_lock = SPIN_UNLOCKED\<rparr>) =
      Inr (small_terminal\<lparr>vga_of := (vga_of small_terminal)\<lparr>font_hdr := None\<rparr>\<rparr>, k') \<and>
    length ws = 8 \<and> ucast (ws ! 0) = (0x10 :: u8)"
proof -
  have d: "stack_depth 0x1010 = 8" by (simp add: stack_depth_def)
  from panic_reports_on_serial [of "small_terminal\<lparr>vga_of := (vga_of small_terminal)\<lparr>font_hdr := None\<rparr>\<rparr>"
      "\<lparr>log_ports = quiet_pic, serial_output = True, log_lock = SPIN_UNLOCKED\<rparr>" "\<lambda>_. 5"
      "\<lparr>str_data = [79, 79, 77, 0], str_size = 3, str_cap = 4\<rparr>" "[79, 79, 77]" "[1, 2, 3, 4, 5, 6, 7, 0x1010]" "\<lambda>a. ucast a"]
  obtain ws :: "u64 list" and k' where k: "panic (\<lambda>a. ucast a) (\<lambda>_. 5) \<lparr>str_data = [79, 79, 77, 0], str_size = 3, str_cap = 4\<rparr> [1, 2, 3, 4, 5, 6, 7, 0x1010]
      (small_terminal\<lparr>vga_of := (vga_of small_terminal)\<lparr>font_hdr := None\<rparr>\<rparr>,
       \<lparr>log_ports = quiet_pic, serial_output = True, log_lock = SPIN_UNLOCKED\<rparr>) =
      Inr (small_terminal\<lparr>vga_of := (vga_of small_terminal)\<lparr>font_hdr := None\<rparr>\<rparr>, k')"
    "length ws = 8" "\<forall>i < length ws. \<forall>b < 8. ucast (drop_bit (8 * b) (ws ! i)) = (ucast (0x1010 + of_nat (8 * i + b) :: u64) :: u8)"
    by (auto simp: d simp del: of_nat_add of_nat_mult)
  from k(3) [rule_format, of 0 0] k(2) have "ucast (ws ! 0) = (0x10 :: u8)" by simp
  with k(1,2) show ?thesis by blast
qed

end
