(* ===== verification/Boot.thy ===== *)
theory Boot
  imports Smp Framebuffer Ahci
begin

text \<open>
  The start of the kernel, \<^verbatim>\<open>src/kernel/_start.cpp\<close>, with the two drivers it starts,
  \<^verbatim>\<open>ahci_init\<close> and \<^verbatim>\<open>src/drivers/network/rtl8139.cpp\<close>: the components of the other theories in
  the order the kernel initialises them. What the boot loader and the devices provide is a record
  of answers. The ports that \<^verbatim>\<open>probe_ports\<close> finds are returned; a disk is
  started on each in \<open>Disk_Start\<close>.
\<close>

subsection \<open>The command register of a device\<close>

definition store16 :: "u64 \<Rightarrow> u16 \<Rightarrow> bytes \<Rightarrow> bytes" where
  "store16 a w m = m(a := ucast w, a + 1 := ucast (drop_bit 8 w))"

definition io_space_enable :: u16 where "io_space_enable = push_bit 0 1"
definition mem_space_enable :: u16 where "mem_space_enable = push_bit 1 1"
definition bus_master_enable :: u16 where "bus_master_enable = push_bit 2 1"
definition intr_disable :: u16 where "intr_disable = push_bit 10 1"

definition pci_command :: "bytes \<Rightarrow> u64 \<Rightarrow> u16" where
  "pci_command m dev = field16 m dev_common_hdr_layout ''command'' dev"

definition set_command :: "u64 \<Rightarrow> (u16 \<Rightarrow> u16) \<Rightarrow> bytes \<Rightarrow> bytes" where
  "set_command dev f m =
     store16 (dev + of_nat (offset_of dev_common_hdr_layout ''command'')) (f (pci_command m dev)) m"

definition rtl8139_init :: "u64 list \<Rightarrow> bytes \<Rightarrow> bytes" where
  "rtl8139_init devs m =
     (case get_pci_dev m devs 0x10EC 0x8139 of
        None \<Rightarrow> m
      | Some dev \<Rightarrow>
          set_command dev (\<lambda>c. c OR intr_disable)
            (set_command dev (\<lambda>c. c OR io_space_enable)
              (set_command dev (\<lambda>c. c OR mem_space_enable)
                (set_command dev (\<lambda>c. c OR bus_master_enable) m))))"

text \<open>\<open>implemented\<close>, \<open>sig\<close> and \<open>ssts\<close> are what the controller answers for the ports it has, their
  signatures and their states.\<close>

definition ahci_init ::
  "u32 \<Rightarrow> (nat \<Rightarrow> u32) \<Rightarrow> (nat \<Rightarrow> u32) \<Rightarrow> u64 list \<Rightarrow> bytes \<times> paging \<Rightarrow> (u64 \<times> nat list \<times> bytes \<times> paging) res" where
  "ahci_init implemented sig ssts devs s =
     (case get_pci_class (fst s) devs 1 6 1 of
        None \<Rightarrow> Inl Null_deref
      | Some dev \<Rightarrow>
          let m = set_command dev (\<lambda>c. c AND NOT intr_disable) (fst s);
              m = set_command dev (\<lambda>c. c OR mem_space_enable) m;
              hba = ucast (field32 m device_t_layout ''BARS'' (dev + 20)) AND NOT 0xFFF
          in rbind (map_page hba hba (snd s)) (\<lambda>pg.
             rbind (kassert (hba \<noteq> 0)) (\<lambda>_. Inr (hba, probe_ports implemented sig ssts, m, pg))))"

subsection \<open>The start\<close>

record 'd platform =
  pf_terminals :: "nat option"
  pf_handlers :: "isr \<Rightarrow> u64"
  pf_hhdm :: u64
  pf_memmap :: "limine_memmap_entry list"
  pf_fuel :: nat
  pf_framebuffer :: limine_framebuffer
  pf_screen :: "u32 list"
  pf_pixels :: "nat \<Rightarrow> u32"
  pf_rsdp :: u64
  pf_ports :: u32
  pf_sig :: "nat \<Rightarrow> u32"
  pf_ssts :: "nat \<Rightarrow> u32"
  pf_dread :: "'d \<Rightarrow> u64 \<Rightarrow> u32 \<Rightarrow> u8 list option"
  pf_disk :: 'd
  pf_junk :: "nat \<Rightarrow> u8"
  pf_depth :: nat
  pf_stamp :: "u8 list"
  pf_handle :: file_handle
  pf_mt_begin :: u64
  pf_ticks :: "nat \<Rightarrow> nat"

record machine =
  mc_log :: klog
  mc_idt :: idt
  mc_mem :: bytes
  mc_heap :: heap
  mc_pages :: page_allocator
  mc_paging :: paging
  mc_vga :: vga
  mc_pci :: "u64 list option"
  mc_volumes :: "disk_vol_t list"
  mc_smp :: limine_smp_response
  mc_clock :: "nat clock"

text \<open>Up to and with the disk controller. The page tables take their memory from the kernel heap.\<close>

definition early_start :: "'d platform \<Rightarrow> machine \<Rightarrow> machine res" where
  "early_start env s =
     (let k = log_init (pf_terminals env) (mc_log s)
      in rbind (fill_idt (pf_handlers env) (log_ports k, mc_idt s)) (\<lambda>(p, t).
         let hp = heapInit (pf_hhdm env) boot_blkcount (mc_mem s)
         in rbind (initialize_page_allocator (pf_memmap env) (mc_pages s)) (\<lambda>pa.
            rbind (framebuffer_init (pf_fuel env) (pf_framebuffer env) (pf_screen env) (pf_pixels env) pa
                     ((mc_paging s)\<lparr>pg_heap := hp\<rparr>) (mc_vga s)) (\<lambda>(pa, pg, v).
            rbind (enumerate_pci (mc_mem s) (pf_rsdp env) (mc_pci s)) (\<lambda>devs.
            rbind (ahci_init (pf_ports env) (pf_sig env) (pf_ssts env) devs (mc_mem s, pg)) (\<lambda>(hba, ps, m, pg).
              Inr (s\<lparr>mc_log := k\<lparr>log_ports := p\<rparr>, mc_idt := t, mc_mem := m, mc_heap := pg_heap pg, mc_pages := pa,
                     mc_paging := pg, mc_vga := v, mc_pci := Some devs\<rparr>)))))))"

text \<open>The font, the network card and the other processors; behind it the kernel halts.\<close>

definition late_start :: "'d platform \<Rightarrow> machine \<Rightarrow> machine res" where
  "late_start env s =
     rbind (initialize_font (pf_dread env) (pf_fuel env) (pf_junk env) (pf_disk env) (mc_volumes s) (pf_handle env)
              (pf_depth env) (pf_stamp env) (mc_heap s) (mc_vga s)) (\<lambda>(hp, v).
     let m = rtl8139_init (case mc_pci s of Some devs \<Rightarrow> devs | None \<Rightarrow> []) (mc_mem s);
         a = (clock_apic (mc_clock s))\<lparr>apic_ports := log_ports (mc_log s), apic_pages := (mc_paging s)\<lparr>pg_heap := hp\<rparr>\<rparr>
     in rbind (smp_init m (pf_rsdp env) (pf_mt_begin env) (pf_ticks env) (mc_smp s, (mc_clock s)\<lparr>clock_apic := a\<rparr>)) (\<lambda>(r, c).
          Inr (s\<lparr>mc_mem := m, mc_heap := pg_heap (apic_pages (clock_apic c)), mc_paging := apic_pages (clock_apic c),
                 mc_vga := v, mc_smp := r, mc_clock := c\<rparr>)))"

definition kernel_start :: "'d platform \<Rightarrow> machine \<Rightarrow> machine res" where
  "kernel_start env s = rbind (early_start env s) (late_start env)"

subsection \<open>The drivers\<close>

lemma field16_store:
  assumes "a = dev + of_nat (offset_of l f)"
  shows "field16 (store16 a w m) l f dev = w"
proof -
  have "a + 1 \<noteq> a" by simp
  then have "at_mem (store16 a w m) a 2 = le16 w"
    by (simp add: at_mem_def store16_def le16_def upt_rec numeral_2_eq_2)
  then show ?thesis using assms rd16_at [of "[]" w "[]"] by (simp add: field16_def)
qed

lemma set_command_read: "pci_command (set_command dev f m) dev = f (pci_command m dev)"
  unfolding pci_command_def set_command_def by (rule field16_store) simp

text \<open>The card may access memory and ports, may be the master of the bus and raises no interrupt; the
  other bits of its command register are as they were.\<close>

lemma rtl8139_command:
  assumes "get_pci_dev m devs 0x10EC 0x8139 = Some dev"
  shows "pci_command (rtl8139_init devs m) dev = pci_command m dev OR 0x407"
proof -
  have "(((c OR bus_master_enable) OR mem_space_enable) OR io_space_enable) OR intr_disable = c OR 0x407" for c
    by (simp add: intr_disable_def io_space_enable_def mem_space_enable_def bus_master_enable_def or.assoc)
  then show ?thesis using assms by (simp add: rtl8139_init_def set_command_read)
qed

subsection \<open>How far the kernel gets\<close>

text \<open>C36: The kernel never finishes starting. Whatever the boot loader and the devices answer, unless
  volumes were registered under the drive -1 (none is registered at all), the start ends in the
  fault of an earlier component or, when all of them start, in the NULL dereference of the loading
  of the font: the network card is not set up, no processor is started and the shell is
  never reached.\<close>

theorem boot_stops_at_font:
  assumes "list_all (\<lambda>v. drive_number v \<noteq> - 1) (mc_volumes s)"
  shows "kernel_start env s = (case early_start env s of Inl e \<Rightarrow> Inl e | Inr u \<Rightarrow> Inl Null_deref)"
proof (cases "early_start env s")
  case (Inr u)
  then have "mc_volumes u = mc_volumes s" by (auto simp: early_start_def Let_def rbind_eq_Inr)
  then have "late_start env u = Inl Null_deref"
    using assms by (simp add: late_start_def font_is_never_loaded)
  then show ?thesis using Inr by (simp add: kernel_start_def)
qed (simp add: kernel_start_def)

definition bare_platform :: "unit platform" where
  "bare_platform = \<lparr>pf_terminals = None, pf_handlers = sample_addr, pf_hhdm = 0, pf_memmap = [], pf_fuel = 5,
     pf_framebuffer = \<lparr>fb_width = 640, fb_height = 480, fb_pitch = 2560, red_mask_shift = 16, green_mask_shift = 8, blue_mask_shift = 0\<rparr>,
     pf_screen = [], pf_pixels = \<lambda>_. 0, pf_rsdp = 0x100, pf_ports = 0, pf_sig = \<lambda>_. 0, pf_ssts = \<lambda>_. 0,
     pf_dread = \<lambda>d lba n. None, pf_disk = (), pf_junk = \<lambda>_. 0, pf_depth = 3, pf_stamp = [],
     pf_handle = \<lparr>h_filepath = string_new, h_filesize = 0, h_data = None, h_entry = None, h_attrib = 0, h_offset = 0\<rparr>,
     pf_mt_begin = 0x8000, pf_ticks = \<lambda>_. 150\<rparr>"

definition bare_machine :: machine where
  "bare_machine = \<lparr>mc_log = \<lparr>log_ports = quiet_pic, serial_output = False, log_lock = SPIN_UNLOCKED\<rparr>,
     mc_idt = replicate 256 empty_gate, mc_mem = \<lambda>_. 0, mc_heap = fresh_heap, mc_pages = boot_allocator,
     mc_paging = apic_pages boot_apic, mc_vga = tiny_screen, mc_pci = None, mc_volumes = vol_mgr_init,
     mc_smp = two_cpus, mc_clock = sample_clock\<rparr>"

theorem boot_stops_at_font_witness: "\<exists>e. kernel_start bare_platform bare_machine = Inl e"
proof -
  have "list_all (\<lambda>v. drive_number v \<noteq> - 1) (mc_volumes bare_machine)"
    by (simp add: bare_machine_def vol_mgr_init_def blank_vol_def list_all_iff)
  from boot_stops_at_font [OF this, of bare_platform] show ?thesis by (simp split: sum.splits)
qed

end
