(* ===== verification/Spec2Isabelle.thy ===== *)
theory Spec2Isabelle
  imports Prelude Spinlock Kernel_Heap CString Float64 Float_Value Decimal DynList DString HashMap Bitmap Fat_File Ahci_Disk Gpt Disk_Start Driver_Test Page_Alloc Paging Procs Vfs Pci Framebuffer Terminal Ports Ps2 Klog Apic Idt Smp Boot
begin

text \<open>
  A verification library for \<^bold>\<open>neo-OS\<close>, a 64-bit kernel in C++ under \<^verbatim>\<open>src/OS\<close>. The paths below
  are relative to that directory.

  \<^bold>\<open>The program.\<close> \<^verbatim>\<open>_start\<close> sets up the log on the serial port, the interrupt table, the heap,
  the page allocator and the screen, scans the PCI bus, starts the AHCI driver, loads the font and
  starts the other processors. The drivers allocate from the page allocator and map what they
  touch; the file system reads and writes sectors through the table of disks; files are opened through
  the table of volumes; the terminal draws on the screen, runs the shell and reads the keyboard.

  \<^bold>\<open>How code is translated.\<close> A structure is a record with the fields of the source, a packed structure
  also a layout (\<open>Bytes\<close>) that gives each field its offset. Machine integers are words; an
  \<^verbatim>\<open>int\<close> is an integer whose overflow is the fault \<open>Signed_overflow\<close>. A function that can go wrong
  returns \<open>fault + 'a\<close> (\<open>Prelude\<close>): a failed assertion, a NULL dereference, an access
  outside an object, a division by zero, an invalid shift, a read of an uninitialised value, a lock taken twice,
  an endless allocation or a loop that never ends are values, so a theorem that ends in \<open>Inr\<close> says
  that the code returns. Global state is passed and returned. Loops are structural recursions or have a
  measure; those that may run for ever (a wait for hardware, a walk of a list that may be a cycle)
  have fuel: \<open>Hang\<close> or the number of answers that are left, and the theorems say how
  much is enough (the length of the chain plus one for a cluster chain, one step for each segment for
  the page list, the latency of the controller for an AHCI command, the number of timer
  interrupts for \<^verbatim>\<open>sleep\<close>).

  \<^bold>\<open>Memory and containers.\<close>
  \<^item> \<open>Spinlock\<close> (\<^verbatim>\<open>include/stdlib/lock.h\<close>): the lock as the other components use it, and a step relation
    for any number of processors; it excludes if no processor comes between the test and the store,
    and does not otherwise.
  \<^item> \<open>Allocators\<close>, \<open>Kernel_Heap\<close> (\<^verbatim>\<open>src/kernel/mem\<close>): the contract of an allocator as a locale;
    \<^verbatim>\<open>kmalloc\<close> is first fit, what it hands out is disjoint, \<^verbatim>\<open>kfree\<close> undoes it.
  \<^item> \<open>Page_Alloc\<close>, \<open>Paging\<close> (\<^verbatim>\<open>src/kernel/mem/paging\<close>): disjoint runs of pages; a mapped
    page translates to its frame and other translations stay.
  \<^item> \<open>CString\<close>, \<open>DynList\<close>, \<open>DString\<close>, \<open>HashMap\<close>, \<open>Bitmap\<close> (\<^verbatim>\<open>src/stdlib\<close>,
    \<^verbatim>\<open>include/stdlib\<close>): string routines and number formatting, the classes \<^verbatim>\<open>list\<close> and
    \<^verbatim>\<open>string\<close> and the hash table as refinements of sequences, texts and queues (the locales
    \<open>sequence\<close> and \<open>fifo_map\<close>), the bit array.
  \<^item> \<open>Float64\<close>, \<open>Float_Value\<close>, \<open>Decimal\<close> (\<^verbatim>\<open>src/stdlib/math.cpp\<close>, \<^verbatim>\<open>dtoa\<close>): IEEE doubles whose
    operations round to the nearest even, computed on integers, with the rational a double stands for; \<^verbatim>\<open>sqrt\<close>,
    \<^verbatim>\<open>pow\<close>, and the decimal text of a double, within one unit of its last digit. The time stamp of a
    log line is such a text; milliseconds are below \<open>2 ^ 30 * 1000\<close>, where the whole seconds fit an
    \<^verbatim>\<open>int\<close>.

  \<^bold>\<open>Disks and files.\<close>
  \<^item> \<open>Hba_Regs\<close>, \<open>Ahci\<close>, \<open>Ahci_Disk\<close> (\<^verbatim>\<open>src/drivers/disk/ahci\<close>): register layouts, slots,
    command tables, waiting; the controller is the locale \<open>ahci_controller\<close>, and with it the driver is a
    block device for transfers of up to sixteen sectors, and provably not beyond.
  \<^item> \<open>Disk\<close>, \<open>Gpt\<close> (\<^verbatim>\<open>src/drivers/disk/disk_driver.cpp\<close>, \<^verbatim>\<open>src/drivers/fs/gpt.cpp\<close>): the table of
    disks and its invariant, the partition table.
  \<^item> \<open>Disk_Start\<close> (\<^verbatim>\<open>ahci_driver.cpp\<close>, \<^verbatim>\<open>ahci_init.cpp\<close>): the constructor of \<^verbatim>\<open>AHCIDevice\<close>, which joins
    the port, the table of disks and the partition table; every usable port becomes a disk.
  \<^item> \<open>Driver_Test\<close> (\<^verbatim>\<open>src/tests/drivers\<close>): the kernel's own disk test passes on the driver and puts
    back what it overwrites; its file system test writes outside its page.
  \<^item> \<open>Fat_Data\<close>, \<open>Fat_Chain\<close>, \<open>Fat_File\<close> (\<^verbatim>\<open>src/drivers/fs/fat\<close>): on any block device (the locale
    \<open>block_device\<close>, of which the AHCI disk is a sublocale) a written chain reads back, other chains stay,
    a created entry is found and a deleted one frees its chain.
  \<^item> \<open>Vfs\<close> (\<^verbatim>\<open>src/kernel/vfs\<close>): volumes, paths and file positions.

  \<^bold>\<open>Hardware around the processor.\<close>
  \<^item> \<open>Ports\<close>, \<open>Klog\<close> (\<^verbatim>\<open>src/drivers/serial\<close>, \<^verbatim>\<open>src/kernel/io/klog.cpp\<close>): scripts of port answers;
    the exact bytes of a log line.
  \<^item> \<open>Pci\<close> (\<^verbatim>\<open>src/drivers/acpi\<close>, \<^verbatim>\<open>src/drivers/pci\<close>): ACPI tables and the scan of the bus, equal to a
    list comprehension over the present functions.
  \<^item> \<open>Apic\<close> (\<^verbatim>\<open>pic.cpp\<close>, \<^verbatim>\<open>lapic.cpp\<close>, \<^verbatim>\<open>io_apic.cpp\<close> of \<^verbatim>\<open>src/kernel/x64/intr\<close>): register files (a locale), the
    redirection table, the timer and its period.
  \<^item> \<open>Idt\<close> (\<^verbatim>\<open>src/kernel/x64/intr/idt.c\<close>): which handler each vector reaches, \<^verbatim>\<open>sleep\<close>, the panic
    screen.
  \<^item> \<open>Procs\<close>, \<open>Smp\<close> (\<^verbatim>\<open>src/kernel/proc\<close>, \<^verbatim>\<open>src/stdlib/timer.cpp\<close>): tasks, streams, timers; the
    start of the processors; \<^verbatim>\<open>panic\<close> and \<^verbatim>\<open>assert_fail\<close>.

  \<^bold>\<open>The user.\<close>
  \<^item> \<open>Framebuffer\<close> (\<^verbatim>\<open>src/drivers/vga\<close>): pixels, rectangles, glyphs, the font.
  \<^item> \<open>Terminal\<close> (\<^verbatim>\<open>src/kernel/builtins\<close>): the cursor stays in its rows, a line that is typed and edited is
    the line that is run, scrolling, \<^verbatim>\<open>printf\<close>, the commands.
  \<^item> \<open>Ps2\<close> (\<^verbatim>\<open>src/drivers/ps2\<close>, \<^verbatim>\<open>src/kernel/io/scan.cpp\<close>): scan codes give back what was typed, the
    mouse, reading a line.
  \<^item> \<open>Boot\<close> (\<^verbatim>\<open>src/kernel/_start.cpp\<close>, \<^verbatim>\<open>ahci_init.cpp\<close>, \<^verbatim>\<open>rtl8139.cpp\<close>): the components in the order of the
    start, which never gets beyond the font.

  \<^bold>\<open>What holds and what does not.\<close> Most properties state what the code means to do. Some state where it
  fails, because the model shows that it must: the start stops at the font, a transfer is cut, a
  glyph is drawn one pixel to the right, the mouse is never enabled, a panic inside
  \<^verbatim>\<open>printf\<close> is silent.

  \<^bold>\<open>Not modelled.\<close> Log lines of the drivers, except in the panics, where they are the result.
  The declarations of the boot protocol, a script interpreter that has only a header, and
  instructions without an effect on the state modelled (\<^verbatim>\<open>lidt\<close>, \<^verbatim>\<open>sti\<close>, \<^verbatim>\<open>hlt\<close>, the enabling of SSE).
  Components see memory separately: the heap its bytes, the page tables their entries, a driver the
  structures it shares with its device; interrupts come where the code waits for them and not in between.
\<close>

subsection \<open>The file system on the disk driver\<close>

text \<open>C7: A small file system goes through the whole disk path and back. On a controller that serves valid
  commands, for a partition whose FAT and whose clusters have at most sixteen sectors each and lie in the
  first 65536 sectors of the disk (\<open>small_range\<close>), with a free cluster to spare, the buffer that
  \<^verbatim>\<open>write_cluster_chain\<close> stores through \<^verbatim>\<open>AHCIDevice::write\<close>, commands, region tables and all, is what
  \<^verbatim>\<open>read_cluster_chain\<close> returns through \<^verbatim>\<open>AHCIDevice::read\<close>. A larger FAT, such as that of a disk of
  64 MB, is read and written in one transfer and so cut (\<open>ahci_cuts_transfers\<close>).\<close>

theorem fat_over_ahci:
  assumes dev: "ahci_disk tick ram poke sector capacity latency hdrs addr" and ok: "disk_ok (small_range capacity) p"
    and nb: "0 < nbytes" "unat nbytes + cluster_bytes p < 2 ^ 64"
    and n: "n = (unat nbytes + cluster_bytes p - 1) div cluster_bytes p"
    and free: "n \<le> unat (free_cluster_count (p_fsinfo p))"
    and start: "2 \<le> unat (cluster_search_start (p_fsinfo p))" "cluster_search_start (p_fsinfo p) \<noteq> 0xFFFFFFFF"
    and room: "n < length (zeros_from (fat p) (unat (total_clusters p)) (unat (cluster_search_start (p_fsinfo p))))"
    and buf: "n * cluster_bytes p \<le> length buf" and out: "length out = n * cluster_bytes p" and fuel: "n < k"
  shows "\<exists>c p' w'. write_cluster_chain (ahci_dread tick ram latency hdrs addr) (ahci_dwrite tick poke latency hdrs addr)
      buf nbytes NO_START p w = Inr (int (unat c), p', w') \<and>
    read_cluster_chain (ahci_dread tick ram latency hdrs addr) k p' w' out c = Inr (0, take (n * cluster_bytes p) buf)"
  by (rule written_is_read [OF ahci_disk.ahci_device [OF dev] ok nb n free start room buf out fuel])

theorem fat_over_ahci_witness:
  "\<exists>c p' w'. write_cluster_chain (ahci_dread sim_tick sim_ram 2 sim_hdrs 0x100000) (ahci_dwrite sim_tick sim_poke 2 sim_hdrs 0x100000)
      (replicate 1024 7) 600 NO_START small_part (\<lambda>_. 0, \<lambda>_. []) = Inr (int (unat c), p', w') \<and>
    read_cluster_chain (ahci_dread sim_tick sim_ram 2 sim_hdrs 0x100000) 3 p' w' (replicate 1024 0) c = Inr (0, replicate 1024 7)"
proof -
  have T: "unat (total_clusters small_part) = 8" "unat (cluster_search_start (p_fsinfo small_part)) = 2"
    "cluster_search_start (p_fsinfo small_part) \<noteq> 0xFFFFFFFF"
    "unat (free_cluster_count (p_fsinfo small_part)) = 4"
    by (simp_all add: small_part_def)
  have sectors: "small_range (2 ^ 20) (cluster_lba small_part (of_nat c)) 1" if "2 \<le> c" "c < 8" for c
  proof -
    have "c = 2 \<or> c = 3 \<or> c = 4 \<or> c = 5 \<or> c = 6 \<or> c = 7" using that by presburger
    then show ?thesis by (elim disjE) (simp_all add: cluster_lba_def small_part_def small_range_def)
  qed
  have "good (cluster_lba small_part (of_nat c)) (ucast (sectors_per_cluster (p_bpb small_part))) \<longleftrightarrow>
      good (cluster_lba small_part (of_nat c)) 1" for good c by (simp add: small_part_def)
  then have ok: "disk_ok (small_range (2 ^ 20)) small_part"
    using small_part_ok(1) sectors by (simp add: disk_ok_def T) (simp add: small_part_def small_range_def)
  have n: "(2 :: nat) = (unat (600 :: u64) + cluster_bytes small_part - 1) div cluster_bytes small_part"
    by (simp add: small_part_ok)
  have room: "2 < length (zeros_from (fat small_part) (unat (total_clusters small_part))
      (unat (cluster_search_start (p_fsinfo small_part))))"
    unfolding T small_part_free by simp
  show ?thesis
    using fat_over_ahci [OF sim.ahci_disk_axioms ok _ _ n _ _ T(3) room, of "replicate 1024 7" "replicate 1024 0" 3 "(\<lambda>_. 0, \<lambda>_. [])"]
    by (simp add: small_part_ok T)
qed

end
